(* ===== verification/Prelude.thy ===== *)
theory Prelude
  imports Main "HOL-Library.Word"
begin

text \<open>
  Shared vocabulary of the development: names for the machine types of the C code, the C memory
  idioms (\<open>memcpy\<close> into an array, reading a run of bytes), the shape of a counted \<open>for\<close> loop, and the
  generic facts on lists, loops and words that the component theories use.  Bytes are \<open>8 word\<close>s,
  arrays are lists; an array cell that the code writes is \<open>xs[i := v]\<close>, with the bounds of the
  write proved where it matters.
\<close>

unbundle bit_operations_syntax

type_synonym u8 = "8 word"
type_synonym u16 = "16 word"
type_synonym u32 = "32 word"
type_synonym u64 = "64 word"
type_synonym bytes = "u8 list"

named_theorems loop_simps \<open>unfolding of counted loops\<close>
named_theorems len_simps \<open>lengths of the arrays the operations return\<close>
named_theorems mem_simps \<open>reads over writes of byte arrays\<close>

subsection \<open>Counted loops\<close>

text \<open>\<open>for (i = a; i < b; i++) s = f(i, s)\<close>.\<close>

definition for_range :: "nat \<Rightarrow> nat \<Rightarrow> (nat \<Rightarrow> 's \<Rightarrow> 's) \<Rightarrow> 's \<Rightarrow> 's" where
  "for_range a b f s = fold f [a..<b] s"

lemma for_range_empty [simp]: "b \<le> a \<Longrightarrow> for_range a b f s = s"
  by (simp add: for_range_def)

lemma for_range_Suc: "a \<le> b \<Longrightarrow> for_range a (Suc b) f s = f b (for_range a b f s)"
  by (simp add: for_range_def)

lemma for_range_first: "a < b \<Longrightarrow> for_range a b f s = for_range (Suc a) b f (f a s)"
  by (simp add: for_range_def upt_rec)

lemma for_range_code [code]:
  "for_range a b f s = (if a < b then for_range (Suc a) b f (f a s) else s)"
  by (simp add: for_range_first)

text \<open>The invariant rule of a counted loop.\<close>

lemma for_range_inv:
  assumes "a \<le> b" and "P a s"
    and "\<And>i t. a \<le> i \<Longrightarrow> i < b \<Longrightarrow> P i t \<Longrightarrow> P (Suc i) (f i t)"
  shows "P b (for_range a b f s)"
  using assms
proof (induction b)
  case 0
  then show ?case by simp
next
  case (Suc b)
  show ?case
  proof (cases "a \<le> b")
    case True
    then have "P b (for_range a b f s)" using Suc by simp
    with True Suc.prems(3) show ?thesis by (simp add: for_range_Suc)
  next
    case False
    with Suc.prems show ?thesis by (cases "a = Suc b") auto
  qed
qed

lemma for_range_inv_const:
  assumes "Q s" and "\<And>i t. a \<le> i \<Longrightarrow> i < b \<Longrightarrow> Q t \<Longrightarrow> Q (f i t)"
  shows "Q (for_range a b f s)"
proof (cases "a \<le> b")
  case True
  then show ?thesis by (rule for_range_inv [where P = "\<lambda>_. Q"]) (use assms in auto)
next
  case False
  with assms(1) show ?thesis by simp
qed

lemma for_range_cong:
  assumes "\<And>i t. a \<le> i \<Longrightarrow> i < b \<Longrightarrow> f i t = g i t"
  shows "for_range a b f s = for_range a b g s"
  unfolding for_range_def by (rule fold_cong) (use assms in auto)

lemma upt_split: "a \<le> m \<Longrightarrow> m \<le> b \<Longrightarrow> [a..<b] = [a..<m] @ [m..<b]"
  by (metis le_Suc_ex upt_add_eq_append)

lemma for_range_split:
  assumes "a \<le> m" and "m \<le> b"
  shows "for_range a b f s = for_range m b f (for_range a m f s)"
  by (simp add: for_range_def upt_split [OF assms])

text \<open>Two loops that run in lockstep over related states.\<close>

lemma for_range_rel:
  assumes "a \<le> b" and "R a s t"
    and "\<And>i x y. a \<le> i \<Longrightarrow> i < b \<Longrightarrow> R i x y \<Longrightarrow> R (Suc i) (f i x) (g i y)"
  shows "R b (for_range a b f s) (for_range a b g t)"
  using assms
proof (induction b)
  case 0
  then show ?case by simp
next
  case (Suc b)
  show ?case
  proof (cases "a \<le> b")
    case True
    then have "R b (for_range a b f s) (for_range a b g t)" using Suc by simp
    with True Suc.prems(3) show ?thesis by (simp add: for_range_Suc)
  next
    case False
    with Suc.prems show ?thesis by (cases "a = Suc b") auto
  qed
qed

text \<open>A loop whose body writes cell \<open>i\<close> from data that the loop does not change.\<close>

lemma for_range_update:
  assumes "n \<le> length xs"
  shows "for_range 0 n (\<lambda>i xs. xs[i := f i (xs ! i)]) xs
         = map (\<lambda>i. f i (xs ! i)) [0..<n] @ drop n xs"
  using assms
proof (induction n)
  case 0
  then show ?case by simp
next
  case (Suc n)
  then have IH: "for_range 0 n (\<lambda>i xs. xs[i := f i (xs ! i)]) xs
      = map (\<lambda>i. f i (xs ! i)) [0..<n] @ drop n xs" by simp
  from Suc.prems have "drop n xs = xs ! n # drop (Suc n) xs" by (simp add: Cons_nth_drop_Suc)
  then show ?case by (simp add: for_range_Suc IH nth_append list_update_append)
qed

text \<open>
  The nest of loops of a matrix product: row \<open>i\<close> updates every cell \<open>j\<close>, so that each cell runs its
  own loop over the rows.
\<close>

lemma for_range_matrix:
  assumes "n \<le> length xs"
  shows "for_range 0 m (\<lambda>i. for_range 0 n (\<lambda>j xs. xs[j := f i j (xs ! j)])) xs
         = map (\<lambda>j. for_range 0 m (\<lambda>i. f i j) (xs ! j)) [0..<n] @ drop n xs"
proof (induction m)
  case 0
  have "map ((!) xs) [0..<n] @ drop n xs = xs"
    using assms by (intro nth_equalityI) (auto simp: nth_append)
  then show ?case by simp
next
  case (Suc m)
  let ?ys = "map (\<lambda>j. for_range 0 m (\<lambda>i. f i j) (xs ! j)) [0..<n] @ drop n xs"
  have "n \<le> length ?ys" by simp
  note step = for_range_update [OF this, where f = "f m"]
  show ?case
    unfolding for_range_Suc [OF le0] Suc.IH step
    by (auto simp: nth_append for_range_Suc intro!: nth_equalityI)
qed

text \<open>Two nested counted loops over a row-major index are one loop.\<close>

lemma for_range_shift: "for_range 0 n (\<lambda>k. f (a + k)) t = for_range a (a + n) f t"
  by (induction n) (simp_all add: for_range_Suc)
lemma for_range_nest:
  "for_range 0 m (\<lambda>i. for_range 0 n (\<lambda>k. f (i * n + k))) s = for_range 0 (m * n) f s"
proof (induction m)
  case 0
  then show ?case by simp
next
  case (Suc m)
  show ?case
    unfolding for_range_Suc [OF le0] Suc.IH [unfolded for_range_shift] for_range_shift
    by (subst for_range_split [of 0 "m * n" "Suc m * n"]) (simp_all add: add.commute)
qed

text \<open>The same for rows of different lengths, and for loops that count down.\<close>

lemma for_range_rows:
  assumes "M 0 = 0" and "\<And>l. l < L \<Longrightarrow> M (Suc l) = M l + m l"
  shows "for_range 0 L (\<lambda>l. for_range 0 (m l) (\<lambda>i. f (M l + i))) s = for_range 0 (M L) f s"
  using assms(2)
proof (induction L)
  case 0
  then show ?case by (simp add: assms(1))
next
  case (Suc L)
  then show ?case
    by (simp add: for_range_Suc for_range_shift for_range_split [of 0 "M L" "M L + m L"])
qed

definition for_down :: "nat \<Rightarrow> (nat \<Rightarrow> 's \<Rightarrow> 's) \<Rightarrow> 's \<Rightarrow> 's" where
  "for_down n f s = fold f (rev [0..<n]) s"

lemma for_down_0 [simp]: "for_down 0 f s = s"
  by (simp add: for_down_def)

lemma for_down_Suc: "for_down (Suc n) f s = for_down n f (f n s)"
  by (simp add: for_down_def)

lemma for_down_add: "for_down (a + n) f s = for_down a f (for_down n (\<lambda>i. f (a + i)) s)"
  by (induction n arbitrary: s) (simp_all add: for_down_Suc)

lemma for_down_rows:
  assumes "M 0 = 0" and "\<And>l. l < L \<Longrightarrow> M (Suc l) = M l + m l"
  shows "for_down L (\<lambda>l. for_down (m l) (\<lambda>i. f (M l + i))) s = for_down (M L) f s"
  using assms(2)
proof (induction L arbitrary: s)
  case 0
  then show ?case by (simp add: assms(1))
next
  case (Suc L)
  then show ?case by (simp add: for_down_Suc for_down_add)
qed

lemma for_down_cong:
  assumes "\<And>i t. i < n \<Longrightarrow> f i t = g i t"
  shows "for_down n f s = for_down n g s"
  unfolding for_down_def by (rule fold_cong) (use assms in auto)

text \<open>The invariant rule of a loop that counts down: \<open>P i\<close> holds when the indices \<open>\<ge> i\<close> are done.\<close>

lemma for_down_inv:
  assumes "P n s" and "\<And>i t. i < n \<Longrightarrow> P (Suc i) t \<Longrightarrow> P i (f i t)"
  shows "P 0 (for_down n f s)"
  using assms by (induction n arbitrary: s) (auto simp: for_down_Suc)

lemma for_down_rel:
  assumes "R n s t" and "\<And>i x y. i < n \<Longrightarrow> R (Suc i) x y \<Longrightarrow> R i (f i x) (g i y)"
  shows "R 0 (for_down n f s) (for_down n g t)"
  using assms by (induction n arbitrary: s t) (auto simp: for_down_Suc)

lemma for_down_inv_const:
  assumes "Q s" and "\<And>i t. i < n \<Longrightarrow> Q t \<Longrightarrow> Q (f i t)"
  shows "Q (for_down n f s)"
  using for_down_inv [where P = "\<lambda>_. Q" and n = n and s = s and f = f] assms by blast

text \<open>A loop whose second component is a running counter, and a loop that counts down by \<open>n - k\<close>.\<close>

lemma for_range_counter:
  assumes "\<And>i. a \<le> i \<Longrightarrow> i < b \<Longrightarrow> C (Suc i) = g i (C i)" and "a \<le> b"
  shows "for_range a b (\<lambda>i (s, c). (f i c s, g i c)) (s, C a) = (for_range a b (\<lambda>i. f i (C i)) s, C b)"
  using assms
proof (induction b)
  case 0
  then show ?case by simp
next
  case (Suc b)
  then show ?case by (cases "a = Suc b") (simp_all add: for_range_Suc)
qed

lemma for_range_downward: "for_range 0 n (\<lambda>k. f (n - k)) s = for_down n (\<lambda>l. f (Suc l)) s"
proof -
  have "map (\<lambda>k. n - k) [0..<n] = map Suc (rev [0..<n])"
    by (rule nth_equalityI) (auto simp: rev_nth)
  then have "fold f (map (\<lambda>k. n - k) [0..<n]) s = fold f (map Suc (rev [0..<n])) s" by simp
  then show ?thesis by (simp add: for_range_def for_down_def fold_map comp_def)
qed

text \<open>Loops over the elements of a list.\<close>

lemma for_range_nth: "for_range 0 (length xs) (\<lambda>i. f (xs ! i)) s = fold f xs s"
proof -
  have "fold (\<lambda>i. f (xs ! i)) [0..<length xs] s = fold f (map ((!) xs) [0..<length xs]) s"
    by (simp add: fold_map comp_def)
  then show ?thesis by (simp add: for_range_def map_nth)
qed

lemma for_range_upt: "for_range 0 c (\<lambda>j. f (a + j)) s = fold f [a..<a + c] s"
  unfolding for_range_shift [of c f a s] by (simp only: for_range_def)

lemma fold_concat_runs:
  "fold f (concat (map (\<lambda>(a, c). [a..<a + c]) runs)) s = fold (\<lambda>(a, c). for_range 0 c (\<lambda>j. f (a + j))) runs s"
  by (induction runs arbitrary: s) (auto simp: for_range_upt [of _ f])

lemma fold_counter:
  "fold (\<lambda>x (s, c). (f c x s, c + 1)) xs (s, 0) = (for_range 0 (length xs) (\<lambda>c. f c (xs ! c)) s, length xs)"
proof (induction xs rule: rev_induct)
  case Nil
  then show ?case by simp
next
  case (snoc x xs)
  have "for_range 0 (length xs) (\<lambda>c. f c ((xs @ [x]) ! c)) s = for_range 0 (length xs) (\<lambda>c. f c (xs ! c)) s"
    by (rule for_range_cong) (simp add: nth_append)
  with snoc show ?case by (simp add: for_range_Suc)
qed

lemma for_range_length:
  assumes "\<And>i t. a \<le> i \<Longrightarrow> i < b \<Longrightarrow> length (f i t) = length t"
  shows "length (for_range a b f s) = length s"
  by (rule for_range_inv_const) (use assms in auto)

lemma for_range_conj: "for_range 0 n (\<lambda>i ok. ok \<and> Q i) b \<longleftrightarrow> b \<and> (\<forall>i<n. Q i)"
  by (induction n) (auto simp: for_range_Suc less_Suc_eq)

subsection \<open>Byte memory\<close>

text \<open>\<open>memcpy(dst + off, src, n)\<close> with \<open>src\<close> the \<open>n\<close> bytes that are copied.\<close>

definition memcpy :: "'a list \<Rightarrow> nat \<Rightarrow> 'a list \<Rightarrow> 'a list" where
  "memcpy dst off src = take off dst @ src @ drop (off + length src) dst"

text \<open>The \<open>n\<close> cells of an array from offset \<open>off\<close>.\<close>

definition seg :: "'a list \<Rightarrow> nat \<Rightarrow> nat \<Rightarrow> 'a list" where
  "seg xs off n = take n (drop off xs)"

lemma length_memcpy [simp, len_simps]:
  "off + length src \<le> length dst \<Longrightarrow> length (memcpy dst off src) = length dst"
  by (simp add: memcpy_def)

lemma length_seg: "length (seg xs off n) = min n (length xs - off)"
  by (simp add: seg_def)

lemma length_seg_le [simp, len_simps]: "off + n \<le> length xs \<Longrightarrow> length (seg xs off n) = n"
  by (simp add: seg_def)

lemma seg_0_full [simp]: "seg xs 0 (length xs) = xs"
  by (simp add: seg_def)

lemma nth_seg: "i < n \<Longrightarrow> off + n \<le> length xs \<Longrightarrow> seg xs off n ! i = xs ! (off + i)"
  by (simp add: seg_def)

lemma nth_memcpy:
  assumes "off + length src \<le> length dst" and "i < length dst"
  shows "memcpy dst off src ! i
    = (if off \<le> i \<and> i < off + length src then src ! (i - off) else dst ! i)"
  using assms by (auto simp: memcpy_def nth_append)

lemma seg_memcpy_same [simp, mem_simps]:
  "off + length src \<le> length dst \<Longrightarrow> n = length src \<Longrightarrow> seg (memcpy dst off src) off n = src"
  by (simp add: memcpy_def seg_def)

lemma seg_memcpy_other [mem_simps]:
  assumes "off + length src \<le> length dst" and "i + n \<le> off \<or> off + length src \<le> i"
    and "i + n \<le> length dst"
  shows "seg (memcpy dst off src) i n = seg dst i n"
  by (rule nth_equalityI) (use assms in \<open>auto simp: nth_seg nth_memcpy\<close>)

lemma seg_seg: "i + k \<le> n \<Longrightarrow> seg (seg xs off n) i k = seg xs (off + i) k"
  by (simp add: seg_def take_drop min_def add.commute)

lemma seg_append_left: "off + n \<le> length xs \<Longrightarrow> seg (xs @ ys) off n = seg xs off n"
  by (simp add: seg_def)

lemma seg_append_right: "seg (xs @ ys) (length xs) n = take n ys"
  by (simp add: seg_def)

lemma seg_append_skip: "length xs \<le> off \<Longrightarrow> seg (xs @ ys) off n = seg ys (off - length xs) n"
  by (simp add: seg_def)

lemma seg_eqI:
  assumes "off + n \<le> length xs" and "off + n \<le> length ys"
    and "\<And>i. i < n \<Longrightarrow> xs ! (off + i) = ys ! (off + i)"
  shows "seg xs off n = seg ys off n"
  by (rule nth_equalityI) (use assms in \<open>auto simp: nth_seg\<close>)

lemma seg_Suc_block:
  "seg xs off (m + n) = seg xs off m @ seg xs (off + m) n"
  by (simp add: seg_def take_add add.commute)

lemma seg_replicate [simp]: "off + n \<le> m \<Longrightarrow> seg (replicate m x) off n = replicate n x"
  by (simp add: seg_def)

lemma take_memcpy_0 [simp]: "take (length src) (memcpy dst 0 src) = src"
  by (simp add: memcpy_def)

subsection \<open>Arrays of fixed-size blocks\<close>

text \<open>
  The trees of the code are flat byte arrays in which node \<open>i\<close> is the \<open>L\<close> bytes from \<open>i * L\<close>.
\<close>

definition blk :: "nat \<Rightarrow> 'a list \<Rightarrow> nat \<Rightarrow> 'a list" where
  "blk L xs i = seg xs (i * L) L"

lemma blk_bound: "i < n \<Longrightarrow> i * L + L \<le> n * (L::nat)"
  by (metis Suc_leI add.commute mult_Suc mult_le_mono1)

lemma length_blk [simp, len_simps]: "i < n \<Longrightarrow> length xs = n * L \<Longrightarrow> length (blk L xs i) = L"
  by (simp add: blk_def blk_bound)

lemma blk_memcpy_same [simp, mem_simps]:
  assumes "length xs = n * L" and "i < n" and "length src = L"
  shows "blk L (memcpy xs (i * L) src) i = src"
  using assms by (simp add: blk_def blk_bound)

lemma blk_memcpy_other [mem_simps]:
  assumes "length xs = n * L" and "i < n" and "j < n" and "i \<noteq> j" and "length src = L"
  shows "blk L (memcpy xs (i * L) src) j = blk L xs j"
proof -
  have "j * L + L \<le> i * L \<or> i * L + L \<le> j * L"
    using assms(4) blk_bound [of j i L] blk_bound [of i j L] by (cases "j < i") auto
  then show ?thesis
    using assms blk_bound [of i n L] blk_bound [of j n L]
    by (simp add: blk_def seg_memcpy_other)
qed

lemma length_memcpy_blk [simp, len_simps]:
  assumes "length xs = n * L" and "i < n" and "length src = L"
  shows "length (memcpy xs (i * L) src) = n * L"
  using assms by (simp add: blk_bound)

text \<open>Writing two neighbouring blocks with one copy.\<close>

lemma blk2_bound: "Suc i < n \<Longrightarrow> i * L + 2 * L \<le> n * (L::nat)"
  using blk_bound [of "Suc i" n L] by simp

lemma length_memcpy_blk2 [simp, len_simps]:
  assumes "length xs = n * L" and "Suc i < n" and "length src = 2 * L"
  shows "length (memcpy xs (i * L) src) = n * L"
  using assms by (simp add: blk2_bound)

lemma blk_memcpy2_other [mem_simps]:
  assumes "length xs = n * L" and "Suc i < n" and "j < n" and "j \<noteq> i" and "j \<noteq> Suc i"
    and "length src = 2 * L"
  shows "blk L (memcpy xs (i * L) src) j = blk L xs j"
proof -
  have "j * L + L \<le> i * L \<or> i * L + 2 * L \<le> j * L"
  proof (cases "j < i")
    case True
    then show ?thesis by (simp add: blk_bound)
  next
    case False
    with assms have "Suc (Suc i) \<le> j" by simp
    then have "Suc (Suc i) * L \<le> j * L" by (rule mult_le_mono1)
    then show ?thesis by simp
  qed
  then show ?thesis
    using assms blk2_bound [of i n L] blk_bound [of j n L]
    by (simp add: blk_def seg_memcpy_other)
qed

lemma blk_memcpy2_left [mem_simps]:
  assumes "length xs = n * L" and "Suc i < n" and "length src = 2 * L"
  shows "blk L (memcpy xs (i * L) src) i = take L src"
proof -
  have "i * L + 2 * L \<le> length xs" using assms blk2_bound by simp
  then show ?thesis using assms(3) by (simp add: blk_def memcpy_def seg_def)
qed

lemma blk_memcpy2_right [mem_simps]:
  assumes "length xs = n * L" and "Suc i < n" and "length src = 2 * L"
  shows "blk L (memcpy xs (i * L) src) (Suc i) = drop L src"
proof -
  have b: "i * L + 2 * L \<le> length xs" using assms blk2_bound by simp
  have "L + i * L - (i * L) = L" by simp
  with b show ?thesis using assms(3) by (simp add: blk_def memcpy_def seg_def add.commute)
qed

lemma seg_two_blks: "seg xs (i * L) (2 * L) = blk L xs i @ blk L xs (Suc i)"
  using seg_Suc_block [of xs "i * L" L L] by (simp add: blk_def mult_2 add.commute)

end
