(* ===== verification/Keccak_Inc.thy ===== *)
theory Keccak_Inc
  imports Prelude
begin

text \<open>
  The incremental Keccak sponge of liboqs, \<open>src/common/sha3/xkcp_sha3.c\<close>
  (\<open>keccak_inc_reset\<close>, \<open>keccak_inc_absorb\<close>, \<open>keccak_inc_finalize\<close>, \<open>keccak_inc_squeeze\<close>), on which
  the CROSS and BIKE code builds its hash functions and its generators.  The code reaches the
  Keccak state through function pointers (\<open>Keccak_AddBytes_ptr\<close> and its siblings) of the vendored
  XKCP library; they are modelled by the byte-oriented contract of that library's interface (add
  bytes with XOR at an offset of the 200-byte state, read bytes at an offset), and the
  permutation \<open>perm\<close> itself is a parameter of every definition.
\<close>

subsection \<open>The state and the SnP operations\<close>

text \<open>
  \<open>uint64_t s[26]\<close>: 200 bytes of Keccak state, and the count of absorbed-but-not-permuted or
  not-yet-squeezed bytes in \<open>s[25]\<close>.
\<close>

record keccak_ctx =
  kst :: bytes
  ks25 :: nat

text \<open>The rates the code instantiates the sponge with.\<close>

datatype keccak_rate = SHAKE128_RATE | SHAKE256_RATE | SHA3_256_RATE | SHA3_384_RATE | SHA3_512_RATE

fun rate_bytes :: "keccak_rate \<Rightarrow> nat" where
  "rate_bytes SHAKE128_RATE = 168"
| "rate_bytes SHAKE256_RATE = 136"
| "rate_bytes SHA3_256_RATE = 136"
| "rate_bytes SHA3_384_RATE = 104"
| "rate_bytes SHA3_512_RATE = 72"

lemma rate_bytes_pos [simp]: "0 < rate_bytes r"
  by (cases r) auto

lemma rate_bytes_neq_0 [simp]: "rate_bytes r \<noteq> 0"
  by (cases r) auto

lemma rate_bytes_le [simp]: "rate_bytes r \<le> 200"
  by (cases r) auto

lemma rate_bytes_ge_2: "2 \<le> rate_bytes r"
  by (cases r) auto

text \<open>\<open>KeccakP1600_AddBytes\<close>: \<open>((unsigned char *)state)[offset + k] ^= data[k]\<close>.\<close>

definition add_bytes :: "bytes \<Rightarrow> bytes \<Rightarrow> nat \<Rightarrow> bytes" where
  "add_bytes st data offset = map (\<lambda>i. if offset \<le> i \<and> i < offset + length data
     then st ! i XOR data ! (i - offset) else st ! i) [0..<length st]"

definition add_byte :: "bytes \<Rightarrow> u8 \<Rightarrow> nat \<Rightarrow> bytes" where
  "add_byte st b offset = st[offset := st ! offset XOR b]"

definition extract_bytes :: "bytes \<Rightarrow> nat \<Rightarrow> nat \<Rightarrow> bytes" where
  "extract_bytes st offset n = seg st offset n"

lemma length_add_bytes [simp, len_simps]: "length (add_bytes st d off) = length st"
  by (simp add: add_bytes_def)

lemma length_add_byte [simp, len_simps]: "length (add_byte st b off) = length st"
  by (simp add: add_byte_def)

lemma nth_add_bytes:
  "i < length st \<Longrightarrow> add_bytes st d off ! i
     = (if off \<le> i \<and> i < off + length d then st ! i XOR d ! (i - off) else st ! i)"
  by (simp add: add_bytes_def)

lemma add_bytes_Nil [simp]: "add_bytes st [] off = st"
  by (rule nth_equalityI) (auto simp: nth_add_bytes)

lemma add_bytes_append:
  assumes "off' = off + length a"
  shows "add_bytes (add_bytes st a off) b off' = add_bytes st (a @ b) off"
  by (rule nth_equalityI) (use assms in \<open>auto simp: nth_add_bytes nth_append\<close>)

lemma add_byte_eq_add_bytes: "off < length st \<Longrightarrow> add_byte st b off = add_bytes st [b] off"
  by (rule nth_equalityI) (auto simp: add_byte_def nth_add_bytes nth_list_update)

lemma length_extract_bytes [simp]: "off + n \<le> length st \<Longrightarrow> length (extract_bytes st off n) = n"
  by (simp add: extract_bytes_def)

subsection \<open>The incremental sponge\<close>

definition keccak_inc_reset :: keccak_ctx where
  "keccak_inc_reset = \<lparr>kst = replicate 200 0, ks25 = 0\<rparr>"

text \<open>\<open>while (mlen >= r) { AddBytes(s, m, 0, r); Permute(s); mlen -= r; m += r; }\<close>\<close>

function absorb_blocks :: "(bytes \<Rightarrow> bytes) \<Rightarrow> keccak_rate \<Rightarrow> bytes \<Rightarrow> bytes \<Rightarrow> bytes \<times> bytes" where
  "absorb_blocks perm r m st =
     (if rate_bytes r \<le> length m
      then absorb_blocks perm r (drop (rate_bytes r) m) (perm (add_bytes st (take (rate_bytes r) m) 0))
      else (m, st))"
  by pat_completeness auto
termination
  by (relation "measure (\<lambda>(perm, r, m, st). length m)")
    (auto intro!: diff_less intro: less_le_trans [OF rate_bytes_pos])

declare absorb_blocks.simps [simp del]

definition keccak_inc_absorb ::
    "(bytes \<Rightarrow> bytes) \<Rightarrow> keccak_rate \<Rightarrow> bytes \<Rightarrow> keccak_ctx \<Rightarrow> keccak_ctx" where
  "keccak_inc_absorb perm r m s =
     (let c = rate_bytes r - ks25 s;
          (m1, st1, n1) = (if ks25 s \<noteq> 0 \<and> c \<le> length m
             then (drop c m, perm (add_bytes (kst s) (take c m) (ks25 s)), 0)
             else (m, kst s, ks25 s));
          (m2, st2) = absorb_blocks perm r m1 st1
      in \<lparr>kst = add_bytes st2 m2 n1, ks25 = n1 + length m2\<rparr>)"

definition keccak_inc_finalize :: "keccak_rate \<Rightarrow> u8 \<Rightarrow> keccak_ctx \<Rightarrow> keccak_ctx" where
  "keccak_inc_finalize r p s =
     \<lparr>kst = add_byte (add_byte (kst s) p (ks25 s)) 0x80 (rate_bytes r - 1), ks25 = 0\<rparr>"

text \<open>
  \<open>while (outlen > s[25]) { ExtractBytes(s, h, r - s[25], s[25]); Permute(s); h += s[25];
  outlen -= s[25]; s[25] = r; }\<close> and the last, partial extraction.
\<close>

function keccak_inc_squeeze ::
    "(bytes \<Rightarrow> bytes) \<Rightarrow> keccak_rate \<Rightarrow> nat \<Rightarrow> keccak_ctx \<Rightarrow> bytes \<times> keccak_ctx" where
  "keccak_inc_squeeze perm r outlen s =
     (if ks25 s < outlen
      then let h = extract_bytes (kst s) (rate_bytes r - ks25 s) (ks25 s);
               (h', s') = keccak_inc_squeeze perm r (outlen - ks25 s)
                            \<lparr>kst = perm (kst s), ks25 = rate_bytes r\<rparr>
           in (h @ h', s')
      else (extract_bytes (kst s) (rate_bytes r - ks25 s) outlen, s\<lparr>ks25 := ks25 s - outlen\<rparr>))"
  by pat_completeness auto
termination
  by (relation "measure (\<lambda>(perm, r, outlen, s). 2 * outlen + (if ks25 s = 0 then 1 else 0))") auto

declare keccak_inc_squeeze.simps [simp del]

subsection \<open>The state invariant\<close>

text \<open>
  Absorbing keeps \<open>s[25] < r\<close>, which the comment in \<open>keccak_inc_finalize\<close> relies on; squeezing
  keeps \<open>s[25] \<le> r\<close>.
\<close>

definition keccak_wf :: "keccak_rate \<Rightarrow> keccak_ctx \<Rightarrow> bool" where
  "keccak_wf r s \<longleftrightarrow> length (kst s) = 200 \<and> ks25 s \<le> rate_bytes r"

definition perm_ok :: "(bytes \<Rightarrow> bytes) \<Rightarrow> bool" where
  "perm_ok perm \<longleftrightarrow> (\<forall>st. length st = 200 \<longrightarrow> length (perm st) = 200)"

lemma perm_okD [simp]: "perm_ok perm \<Longrightarrow> length st = 200 \<Longrightarrow> length (perm st) = 200"
  by (simp add: perm_ok_def)

lemma keccak_wf_reset [simp]: "keccak_wf r keccak_inc_reset"
  by (simp add: keccak_wf_def keccak_inc_reset_def)

lemma absorb_blocks_inv:
  assumes "perm_ok perm" and "length st = 200"
  shows "length (fst (absorb_blocks perm r m st)) < rate_bytes r
    \<and> length (snd (absorb_blocks perm r m st)) = 200"
  using assms
proof (induction perm r m st rule: absorb_blocks.induct)
  case (1 perm r m st)
  then show ?case by (subst (1 2) absorb_blocks.simps) auto
qed

lemma absorb_blocks_short: "length m < rate_bytes r \<Longrightarrow> absorb_blocks perm r m st = (m, st)"
  by (simp add: absorb_blocks.simps)

lemma keccak_inc_absorb_wf:
  assumes "perm_ok perm" and "length (kst s) = 200" and "ks25 s < rate_bytes r"
  shows "length (kst (keccak_inc_absorb perm r m s)) = 200"
    and "ks25 (keccak_inc_absorb perm r m s) < rate_bytes r"
proof -
  define c where "c = rate_bytes r - ks25 s"
  have snd200: "length (snd (absorb_blocks perm r m' st)) = 200" if "length st = 200" for m' st
    using absorb_blocks_inv [OF assms(1) that] by simp
  show "length (kst (keccak_inc_absorb perm r m s)) = 200"
    using assms by (simp add: keccak_inc_absorb_def Let_def split_beta snd200)
  show "ks25 (keccak_inc_absorb perm r m s) < rate_bytes r"
  proof (cases "ks25 s \<noteq> 0 \<and> c \<le> length m \<or> ks25 s = 0")
    case True
    then show ?thesis
      using assms absorb_blocks_inv [OF assms(1), of _ r]
      by (auto simp: keccak_inc_absorb_def Let_def c_def split: prod.splits) (metis fst_conv perm_okD length_add_bytes)+
  next
    case False
    then have "length m < c" by auto
    with False assms(3) show ?thesis
      by (auto simp: keccak_inc_absorb_def Let_def c_def absorb_blocks_short split: prod.splits)
  qed
qed

lemma keccak_inc_squeeze_inv:
  assumes "perm_ok perm" and "keccak_wf r s"
  shows "length (fst (keccak_inc_squeeze perm r n s)) = n
    \<and> keccak_wf r (snd (keccak_inc_squeeze perm r n s))"
  using assms
proof (induction perm r n s rule: keccak_inc_squeeze.induct)
  case (1 perm r outlen s)
  show ?case
  proof (cases "ks25 s < outlen")
    case True
    let ?s' = "\<lparr>kst = perm (kst s), ks25 = rate_bytes r\<rparr>"
    have "keccak_wf r ?s'" using 1 by (auto simp: keccak_wf_def)
    with 1 True have IH: "length (fst (keccak_inc_squeeze perm r (outlen - ks25 s) ?s')) = outlen - ks25 s"
        "keccak_wf r (snd (keccak_inc_squeeze perm r (outlen - ks25 s) ?s'))"
      by auto
    have "rate_bytes r \<le> 200" by simp
    with 1 have "length (extract_bytes (kst s) (rate_bytes r - ks25 s) (ks25 s)) = ks25 s"
      by (auto simp: keccak_wf_def)
    with True IH show ?thesis
      by (subst (1 2) keccak_inc_squeeze.simps) (auto split: prod.splits)
  next
    case False
    moreover have "rate_bytes r - ks25 s + outlen \<le> 200"
      using "1.prems"(2) False rate_bytes_le [of r] unfolding keccak_wf_def by linarith
    ultimately show ?thesis
      using 1 by (subst (1 2) keccak_inc_squeeze.simps) (auto simp: keccak_wf_def)
  qed
qed

lemmas length_keccak_squeeze = keccak_inc_squeeze_inv [THEN conjunct1]
lemmas keccak_wf_squeeze = keccak_inc_squeeze_inv [THEN conjunct2]

lemma keccak_wf_finalize:
  "length (kst s) = 200 \<Longrightarrow> keccak_wf r (keccak_inc_finalize r p s)"
  by (simp add: keccak_wf_def keccak_inc_finalize_def)

end
