(* ===== verification/Cross_Params.thy ===== *)
theory Cross_Params
  imports Keccak_Inc
begin

text \<open>
  \<open>src/sig/cross/upcross_cross-rsdpg-{128,192,256}-balanced_clean/parameters.h\<close>: the macros that
  configure one CROSS build become the fields of a record, so that one model serves the three
  parameter sets, and each header is a value of the record.  The derived macros
  (\<open>BITS_TO_REPRESENT\<close>, \<open>LOG2\<close>, the packed sizes) are functions of it.  \<open>wf_tree\<close> collects what
  the tree tables of \<open>compute_derived_parameters.py\<close> must satisfy for the tree walks to be
  correct, and is evaluated for each set.
\<close>

definition P :: nat where "P = 509"
definition Z :: nat where "Z = 127"
definition RESTR_G_GEN :: nat where "RESTR_G_GEN = 16"

record cross_params =
  SEC_MARGIN_LAMBDA :: nat
  par_N :: nat
  par_K :: nat
  par_M :: nat
  par_T :: nat
  par_W :: nat
  TREE_OFFSETS :: "nat list"
  TREE_NODES_PER_LEVEL :: "nat list"
  TREE_LEAVES_PER_LEVEL :: "nat list"
  TREE_SUBROOTS :: nat
  TREE_LEAVES_START_INDICES :: "nat list"
  TREE_CONSECUTIVE_LEAVES :: "nat list"
  TREE_NODES_TO_STORE :: nat
  BITS_N_FP_CT_RNG :: nat
  BITS_CHALL_1_FPSTAR_CT_RNG :: nat
  BITS_V_CT_RNG :: nat
  BITS_W_CT_RNG :: nat
  BITS_M_FZ_CT_RNG :: nat
  BITS_CWSTR_RNG :: nat
  xof_rate :: keccak_rate
  keccak_perm :: "bytes \<Rightarrow> bytes"

text \<open>
  \<open>xof_rate\<close> is the choice of \<open>SHAKE_STATE_STRUCT\<close> in the build's \<open>sha3.h\<close> (SHAKE128 for category
  1, SHAKE256 otherwise); \<open>keccak_perm\<close> is the permutation of the linked Keccak, a parameter.
\<close>

definition CSPRNG_DOMAIN_SEP_CONST :: u16 where "CSPRNG_DOMAIN_SEP_CONST = 0"
definition HASH_DOMAIN_SEP_CONST :: u16 where "HASH_DOMAIN_SEP_CONST = 32768"

definition ROUND_UP :: "nat \<Rightarrow> nat \<Rightarrow> nat" where
  "ROUND_UP amount round_amt = (amount + round_amt - 1) div round_amt * round_amt"

definition IS_REPRESENTABLE_IN_D_BITS :: "nat \<Rightarrow> nat \<Rightarrow> int" where
  "IS_REPRESENTABLE_IN_D_BITS d n = (if 2 ^ (d - 1) \<le> n \<and> n < 2 ^ d then int d else -1)"

definition BITS_TO_REPRESENT :: "nat \<Rightarrow> nat" where
  "BITS_TO_REPRESENT n = (if n = 0 then 1
     else nat (15 + sum_list (map (\<lambda>d. IS_REPRESENTABLE_IN_D_BITS d n) [1..<17])))"

definition LOG2 :: "nat \<Rightarrow> nat" where
  "LOG2 l = (if BITS_TO_REPRESENT l > BITS_TO_REPRESENT (l - 1)
     then BITS_TO_REPRESENT (l - 1) else BITS_TO_REPRESENT l)"

definition SEED_LENGTH_BYTES :: "cross_params \<Rightarrow> nat" where
  "SEED_LENGTH_BYTES p = SEC_MARGIN_LAMBDA p div 8"
definition KEYPAIR_SEED_LENGTH_BYTES :: "cross_params \<Rightarrow> nat" where
  "KEYPAIR_SEED_LENGTH_BYTES p = 2 * (SEC_MARGIN_LAMBDA p div 8)"
definition HASH_DIGEST_LENGTH :: "cross_params \<Rightarrow> nat" where
  "HASH_DIGEST_LENGTH p = 2 * (SEC_MARGIN_LAMBDA p div 8)"
definition SALT_LENGTH_BYTES :: "cross_params \<Rightarrow> nat" where
  "SALT_LENGTH_BYTES p = 2 * (SEC_MARGIN_LAMBDA p div 8)"
abbreviation NUM_NODES :: "cross_params \<Rightarrow> nat" where
  "NUM_NODES p \<equiv> 2 * par_T p - 1"

text \<open>The bit-packed size of a vector of \<open>n\<close> elements below \<open>q\<close>.\<close>

definition densely_packed_size :: "nat \<Rightarrow> nat \<Rightarrow> nat" where
  "densely_packed_size q n = n div 8 * BITS_TO_REPRESENT (q - 1)
     + ROUND_UP (n mod 8 * BITS_TO_REPRESENT (q - 1)) 8 div 8"

abbreviation DENSELY_PACKED_FP_VEC_SIZE :: "cross_params \<Rightarrow> nat" where
  "DENSELY_PACKED_FP_VEC_SIZE p \<equiv> densely_packed_size P (par_N p)"
abbreviation DENSELY_PACKED_FP_SYN_SIZE :: "cross_params \<Rightarrow> nat" where
  "DENSELY_PACKED_FP_SYN_SIZE p \<equiv> densely_packed_size P (par_N p - par_K p)"
abbreviation DENSELY_PACKED_FZ_VEC_SIZE :: "cross_params \<Rightarrow> nat" where
  "DENSELY_PACKED_FZ_VEC_SIZE p \<equiv> densely_packed_size Z (par_N p)"
abbreviation DENSELY_PACKED_FZ_RSDP_G_VEC_SIZE :: "cross_params \<Rightarrow> nat" where
  "DENSELY_PACKED_FZ_RSDP_G_VEC_SIZE p \<equiv> densely_packed_size Z (par_M p)"

subsection \<open>The derived macros\<close>

lemma upt_1_17: "[1..<17] = [1, 2, 3, 4, 5, 6, 7, 8, 9, 10, 11, 12, 13, 14, 15, 16::nat]"
  by (simp add: upt_rec)

text \<open>
  \<open>BITS_TO_REPRESENT\<close> is the bit length, on the 16-bit range its sixteen terms cover: exactly one
  of the terms is the number of bits and the others are \<open>-1\<close>.
\<close>

lemma sum_list_one_hit:
  assumes "d \<in> set xs" and "distinct xs"
  shows "sum_list (map (\<lambda>e. if e = d then int d else -1) xs) = int d + 1 - int (length xs)"
  using assms
proof (induction xs)
  case Nil
  then show ?case by simp
next
  case (Cons x xs)
  show ?case
  proof (cases "x = d")
    case True
    then have eq: "map (\<lambda>e. if e = d then int d else - 1) xs = map (\<lambda>_. -1) xs"
      using Cons.prems by auto
    have "sum_list (map (\<lambda>e. if e = d then int d else - 1) xs) = - int (length xs)"
      unfolding eq by (simp add: sum_list_triv)
    with True show ?thesis by simp
  next
    case False
    with Cons show ?thesis by simp
  qed
qed

lemma representable_iff:
  assumes "2 ^ (d - 1) \<le> n" and "n < 2 ^ d" and "0 < d" and "0 < e"
  shows "IS_REPRESENTABLE_IN_D_BITS e n = (if e = d then int d else -1)"
proof (cases "e = d")
  case True
  with assms show ?thesis by (simp add: IS_REPRESENTABLE_IN_D_BITS_def)
next
  case False
  have "\<not> (2 ^ (e - 1) \<le> n \<and> n < 2 ^ e)"
  proof
    assume e: "2 ^ (e - 1) \<le> n \<and> n < 2 ^ e"
    then have "(2::nat) ^ (e - 1) < 2 ^ d" and "(2::nat) ^ (d - 1) < 2 ^ e"
      using assms(1,2) by linarith+
    then have "e - 1 < d" and "d - 1 < e" by (simp_all add: power_strict_increasing_iff)
    with False assms(3,4) show False by linarith
  qed
  with False show ?thesis by (auto simp: IS_REPRESENTABLE_IN_D_BITS_def)
qed

lemma BITS_TO_REPRESENT_eq:
  assumes "2 ^ (d - 1) \<le> n" and "n < 2 ^ d" and "0 < d" and "d \<le> 16"
  shows "BITS_TO_REPRESENT n = d"
proof -
  from assms(1) have n: "n \<noteq> 0" by (metis le_zero_eq power_not_zero zero_neq_numeral)
  have eq: "map (\<lambda>e. IS_REPRESENTABLE_IN_D_BITS e n) [1..<17]
      = map (\<lambda>e. if e = d then int d else -1) [1..<17]"
    using representable_iff [OF assms(1-3)] by (intro map_cong) auto
  have "sum_list (map (\<lambda>e. IS_REPRESENTABLE_IN_D_BITS e n) [1..<17]) = int d - 15"
    unfolding eq using assms(3,4) by (subst sum_list_one_hit) auto
  with n show ?thesis by (simp add: BITS_TO_REPRESENT_def)
qed

lemma BITS_TO_REPRESENT_bounds:
  assumes "0 < n" and "n < 2 ^ 16"
  shows "2 ^ (BITS_TO_REPRESENT n - 1) \<le> n \<and> n < 2 ^ BITS_TO_REPRESENT n
    \<and> 0 < BITS_TO_REPRESENT n \<and> BITS_TO_REPRESENT n \<le> 16"
proof -
  define d where "d = (LEAST e. n < 2 ^ e)"
  have d: "n < 2 ^ d" unfolding d_def by (rule LeastI) (rule assms(2))
  have "d \<le> 16" unfolding d_def by (rule Least_le) (rule assms(2))
  have "0 < d" using d assms(1) by (cases d) auto
  moreover from \<open>0 < d\<close> have "2 ^ (d - 1) \<le> n"
    using not_less_Least [of "d - 1" "\<lambda>e. n < 2 ^ e"] unfolding d_def by simp
  ultimately have "BITS_TO_REPRESENT n = d"
    using BITS_TO_REPRESENT_eq d \<open>d \<le> 16\<close> by blast
  with d \<open>0 < d\<close> \<open>d \<le> 16\<close> \<open>2 ^ (d - 1) \<le> n\<close> show ?thesis by simp
qed

lemma BITS_508 [simp]: "BITS_TO_REPRESENT (P - Suc 0) = 9"
  by (rule BITS_TO_REPRESENT_eq) (simp_all add: P_def)

lemma BITS_507 [simp]: "BITS_TO_REPRESENT (P - 2) = 9"
  by (rule BITS_TO_REPRESENT_eq) (simp_all add: P_def)

lemma BITS_126 [simp]: "BITS_TO_REPRESENT (Z - Suc 0) = 7"
  by (rule BITS_TO_REPRESENT_eq) (simp_all add: Z_def)

lemma ROUND_UP_8: "ROUND_UP n 8 div 8 = (n + 7) div 8"
  by (simp add: ROUND_UP_def)

text \<open>A packed vector takes \<open>\<lceil>n * bits / 8\<rceil>\<close> bytes.\<close>

lemma densely_packed_fp: "densely_packed_size P n = (9 * n + 7) div 8"
proof -
  have "9 * n = 8 * (9 * (n div 8)) + 9 * (n mod 8)" by (simp add: algebra_simps) presburger
  then have "(9 * n + 7) div 8 = 9 * (n div 8) + (9 * (n mod 8) + 7) div 8" by linarith
  then show ?thesis by (simp add: densely_packed_size_def ROUND_UP_8 mult.commute)
qed

lemma densely_packed_fz: "densely_packed_size Z n = (7 * n + 7) div 8"
proof -
  have "7 * n = 8 * (7 * (n div 8)) + 7 * (n mod 8)" by (simp add: algebra_simps) presburger
  then have "(7 * n + 7) div 8 = 7 * (n div 8) + (7 * (n mod 8) + 7) div 8" by linarith
  then show ?thesis by (simp add: densely_packed_size_def ROUND_UP_8 mult.commute)
qed

end
