(* ===== verification/Cross_Tree.thy ===== *)
theory Cross_Tree
  imports Cross_Params
begin

text \<open>
  The truncated binary trees of CROSS, linearised level by level into arrays of \<open>2T - 1\<close> nodes
  (\<open>merkle.c\<close>, \<open>seedtree.c\<close>).  The three nests of loops that the code repeats in every function are
  modelled once, as combinators over the loop body; the index arithmetic with the tables
  \<open>TREE_OFFSETS\<close>, \<open>TREE_NODES_PER_LEVEL\<close>, \<open>TREE_LEAVES_PER_LEVEL\<close> is shown, under the executable
  condition \<open>wf_tree\<close> on the tables, to visit the inner nodes in order, the \<open>k\<close>-th of them with
  children \<open>2k + 1\<close> and \<open>2k + 2\<close>.
\<close>

definition LEFT_CHILD :: "nat \<Rightarrow> nat" where
  "LEFT_CHILD i = 2 * i + 1"

definition RIGHT_CHILD :: "nat \<Rightarrow> nat" where
  "RIGHT_CHILD i = 2 * i + 2"

definition PARENT :: "nat \<Rightarrow> nat" where
  "PARENT i = (if i mod 2 \<noteq> 0 then (i - 1) div 2 else (i - 2) div 2)"

definition SIBLING :: "nat \<Rightarrow> nat" where
  "SIBLING i = (if i mod 2 \<noteq> 0 then i + 1 else i - 1)"

abbreviation tree_log :: "cross_params \<Rightarrow> nat" where "tree_log p \<equiv> LOG2 (par_T p)"
abbreviation off :: "cross_params \<Rightarrow> nat \<Rightarrow> nat" where "off p l \<equiv> TREE_OFFSETS p ! l"
abbreviation npl :: "cross_params \<Rightarrow> nat \<Rightarrow> nat" where "npl p l \<equiv> TREE_NODES_PER_LEVEL p ! l"
abbreviation lpl :: "cross_params \<Rightarrow> nat \<Rightarrow> nat" where "lpl p l \<equiv> TREE_LEAVES_PER_LEVEL p ! l"

subsection \<open>The loops\<close>

text \<open>\<open>for (int i = n - 2; i >= 0; i -= 2)\<close>.\<close>

definition for_down2 :: "nat \<Rightarrow> (nat \<Rightarrow> 's \<Rightarrow> 's) \<Rightarrow> 's \<Rightarrow> 's" where
  "for_down2 n f s = fold f (map (\<lambda>k. n - 2 - 2 * k) [0..<n div 2]) s"

text \<open>
  From the leaves to the root: \<open>for (level = LOG2(T); level > 0; level--)\<close> around
  \<open>for (i = npl[level] - 2; i >= 0; i -= 2)\<close>, with \<open>start_node -= npl[level - 1]\<close>; the body gets
  \<open>current_node\<close> (a left child) and \<open>parent_node\<close>.
\<close>

definition walk_up :: "cross_params \<Rightarrow> (nat \<Rightarrow> nat \<Rightarrow> 's \<Rightarrow> 's) \<Rightarrow> 's \<Rightarrow> 's" where
  "walk_up p body s = fst (for_range 0 (tree_log p) (\<lambda>k (s, start_node).
     let level = tree_log p - k in
       (for_down2 (npl p level) (\<lambda>i s.
          let current_node = start_node + i;
              parent_node = PARENT current_node + drop_bit 1 (off p (level - 1))
          in body current_node parent_node s) s,
        start_node - npl p (level - 1)))
     (s, TREE_LEAVES_START_INDICES p ! 0))"

text \<open>
  From the root to the leaves over the nodes that have children: \<open>for (level = 0; level < LOG2(T);
  level++)\<close> around \<open>node_in_level < npl[level] - lpl[level]\<close>; the body gets \<open>father_node\<close> and
  \<open>left_child_node\<close>.
\<close>

definition walk_down_fathers :: "cross_params \<Rightarrow> (nat \<Rightarrow> nat \<Rightarrow> 's \<Rightarrow> 's) \<Rightarrow> 's \<Rightarrow> 's" where
  "walk_down_fathers p body s = fst (for_range 0 (tree_log p) (\<lambda>level (s, start_node).
     (for_range 0 (npl p level - lpl p level) (\<lambda>node_in_level s.
        let father_node = start_node + node_in_level;
            left_child_node = LEFT_CHILD father_node - off p level
        in body father_node left_child_node s) s,
      start_node + npl p level))
     (s, 0))"

text \<open>
  From the root to the leaves over all nodes below the root: \<open>for (level = 1; level <= LOG2(T);
  level++)\<close> around \<open>node_in_level < npl[level]\<close>; the body gets \<open>current_node\<close>, \<open>father_node\<close>,
  \<open>left_child\<close> and whether the node has children.
\<close>

definition walk_down_nodes :: "cross_params \<Rightarrow> (nat \<Rightarrow> nat \<Rightarrow> nat \<Rightarrow> bool \<Rightarrow> 's \<Rightarrow> 's) \<Rightarrow> 's \<Rightarrow> 's" where
  "walk_down_nodes p body s = fst (for_range 1 (tree_log p + 1) (\<lambda>level (s, start_node).
     (for_range 0 (npl p level) (\<lambda>node_in_level s.
        let current_node = start_node + node_in_level;
            father_node = PARENT current_node + drop_bit 1 (off p (level - 1));
            left_child = LEFT_CHILD current_node - off p level
        in body current_node father_node left_child (node_in_level < npl p level - lpl p level) s) s,
      start_node + npl p level))
     (s, 1))"

text \<open>
  The leaves: \<open>for (i = 0; i < TREE_SUBROOTS; i++) for (j = 0; j < cons_leaves[i]; j++)\<close> with the
  running counter \<open>cnt\<close>; the body gets \<open>cnt\<close> and \<open>leaves_start_indices[i] + j\<close>.
\<close>

definition walk_leaves :: "cross_params \<Rightarrow> (nat \<Rightarrow> nat \<Rightarrow> 's \<Rightarrow> 's) \<Rightarrow> 's \<Rightarrow> 's" where
  "walk_leaves p body s = fst (for_range 0 (TREE_SUBROOTS p) (\<lambda>i.
     for_range 0 (TREE_CONSECUTIVE_LEAVES p ! i) (\<lambda>j (s, cnt).
       (body cnt (TREE_LEAVES_START_INDICES p ! i + j) s, cnt + 1)))
     (s, 0))"

subsection \<open>The condition on the tables\<close>

definition level_start :: "cross_params \<Rightarrow> nat \<Rightarrow> nat" where
  "level_start p l = sum_list (take l (TREE_NODES_PER_LEVEL p))"

definition leaf_runs :: "cross_params \<Rightarrow> (nat \<times> nat) list" where
  "leaf_runs p = map (\<lambda>l. (level_start p l + npl p l - lpl p l, lpl p l))
     (filter (\<lambda>l. 0 < lpl p l) (rev [0..<tree_log p + 1]))"

definition wf_tree :: "cross_params \<Rightarrow> bool" where
  "wf_tree p \<longleftrightarrow> 2 \<le> par_T p
     \<and> length (TREE_OFFSETS p) = tree_log p + 1
     \<and> length (TREE_NODES_PER_LEVEL p) = tree_log p + 1
     \<and> length (TREE_LEAVES_PER_LEVEL p) = tree_log p + 1
     \<and> npl p 0 = 1 \<and> 0 < tree_log p
     \<and> (\<forall>l<tree_log p. lpl p l \<le> npl p l \<and> npl p (l + 1) = 2 * (npl p l - lpl p l)
          \<and> even (off p l) \<and> 2 * level_start p l + 1 = level_start p (l + 1) + off p l)
     \<and> lpl p (tree_log p) = npl p (tree_log p)
     \<and> level_start p (tree_log p + 1) = NUM_NODES p
     \<and> TREE_LEAVES_START_INDICES p ! 0 = level_start p (tree_log p)
     \<and> length (TREE_LEAVES_START_INDICES p) = TREE_SUBROOTS p
     \<and> length (TREE_CONSECUTIVE_LEAVES p) = TREE_SUBROOTS p
     \<and> zip (TREE_LEAVES_START_INDICES p) (TREE_CONSECUTIVE_LEAVES p) = leaf_runs p"

subsection \<open>Inner nodes and leaves\<close>

text \<open>The inner nodes in ascending order, and the leaves in the order of the rounds.\<close>

definition inner_nodes :: "cross_params \<Rightarrow> nat list" where
  "inner_nodes p = concat (map (\<lambda>l. [level_start p l..<level_start p l + (npl p l - lpl p l)]) [0..<tree_log p])"

definition leaf_nodes :: "cross_params \<Rightarrow> nat list" where
  "leaf_nodes p = concat (map (\<lambda>(s, c). [s..<s + c])
     (zip (TREE_LEAVES_START_INDICES p) (TREE_CONSECUTIVE_LEAVES p)))"

text \<open>How many inner nodes the levels above \<open>l\<close> have.\<close>

definition inner_before :: "cross_params \<Rightarrow> nat \<Rightarrow> nat" where
  "inner_before p l = (\<Sum>j<l. npl p j - lpl p j)"

lemma inner_before_simps [simp]: "inner_before p 0 = 0"
  "inner_before p (Suc l) = inner_before p l + (npl p l - lpl p l)"
  by (simp_all add: inner_before_def)

lemma level_start_0 [simp]: "level_start p 0 = 0"
  by (simp add: level_start_def)

lemma level_start_Suc:
  "l < length (TREE_NODES_PER_LEVEL p) \<Longrightarrow> level_start p (Suc l) = level_start p l + npl p l"
  by (simp add: level_start_def take_Suc_conv_app_nth)

text \<open>A tree shape, free of the level tables: the ascending list of its inner nodes.\<close>

locale tree_shape =
  fixes inner :: "nat list" and leaves :: "nat list"
  assumes inner_sorted: "sorted_wrt (<) inner"
    and inner_below: "k < length inner \<Longrightarrow> inner ! k \<le> 2 * k"
    and leaves_distinct: "distinct leaves"
    and leaves_set: "set leaves = {..<2 * length inner + 1} - set inner"
begin

definition nodes :: nat where "nodes = 2 * length inner + 1"

lemma inner_less: "i < j \<Longrightarrow> j < length inner \<Longrightarrow> inner ! i < inner ! j"
  using inner_sorted by (simp add: sorted_wrt_iff_nth_less)

lemma inner_inj: "i < length inner \<Longrightarrow> j < length inner \<Longrightarrow> inner ! i = inner ! j \<longleftrightarrow> i = j"
  by (metis inner_less linorder_neqE_nat less_irrefl)

lemma inner_lt_nodes: "k < length inner \<Longrightarrow> inner ! k < nodes"
  using inner_below [of k] by (simp add: nodes_def)

lemma inner_not_leaf: "k < length inner \<Longrightarrow> inner ! k \<notin> set leaves"
  by (simp add: leaves_set)

lemma leaf_lt_nodes: "c < length leaves \<Longrightarrow> leaves ! c < nodes"
  using leaves_set nth_mem [of c leaves] by (auto simp: nodes_def)

lemma node_cases:
  assumes "x < nodes"
  obtains (leaf) c where "c < length leaves" "x = leaves ! c"
  | (inner) k where "k < length inner" "x = inner ! k"
proof -
  have "x \<in> set leaves \<or> x \<in> set inner" using assms by (auto simp: leaves_set nodes_def)
  then show ?thesis using that unfolding in_set_conv_nth by blast
qed

lemma length_leaves: "length leaves = length inner + 1"
proof -
  have "card (set inner) = length inner"
    using inner_sorted by (simp add: distinct_card strict_sorted_iff)
  moreover have "set inner \<subseteq> {..<2 * length inner + 1}"
    using inner_lt_nodes by (auto simp: nodes_def in_set_conv_nth)
  ultimately have "card (set leaves) = length inner + 1"
    by (simp add: leaves_set card_Diff_subset)
  then show ?thesis using leaves_distinct by (simp add: distinct_card)
qed

text \<open>The parent of a node below the root.\<close>

definition father :: "nat \<Rightarrow> nat" where
  "father x = inner ! ((x - 1) div 2)"

lemma father_child: "k < length inner \<Longrightarrow> father (2 * k + 1) = inner ! k \<and> father (2 * k + 2) = inner ! k"
  by (simp add: father_def)

lemma father_lt:
  assumes "0 < x" and "x < nodes"
  shows "father x < x"
proof -
  have "(x - 1) div 2 < length inner" using assms by (simp add: nodes_def less_mult_imp_div_less)
  then have "father x \<le> 2 * ((x - 1) div 2)" unfolding father_def by (rule inner_below)
  also have "\<dots> \<le> x - 1" by simp
  finally show ?thesis using assms(1) by simp
qed

lemma child_cases:
  assumes "0 < x" and "x < nodes"
  obtains k where "k < length inner" "x = 2 * k + 1 \<or> x = 2 * k + 2" "father x = inner ! k"
proof
  show "(x - 1) div 2 < length inner" using assms by (simp add: nodes_def less_mult_imp_div_less)
  show "x = 2 * ((x - 1) div 2) + 1 \<or> x = 2 * ((x - 1) div 2) + 2" using assms by presburger
qed (simp add: father_def)

end

text \<open>The tables give such a shape.\<close>

locale cross_tree =
  fixes p :: cross_params
  assumes wf: "wf_tree p"
begin

lemma wf_T: "2 \<le> par_T p"
  using wf by (simp add: wf_tree_def)

lemma wf_total: "2 \<le> par_T p" "level_start p (Suc (tree_log p)) = NUM_NODES p"
    "NUM_NODES p = 2 * (par_T p - 1) + 1"
  using wf wf_T by (simp_all add: wf_tree_def)

lemma wf_level:
  assumes "l < tree_log p"
  shows "lpl p l \<le> npl p l" "npl p (Suc l) = 2 * (npl p l - lpl p l)" "even (off p l)"
    "2 * level_start p l + 1 = level_start p (Suc l) + off p l"
  using wf assms by (auto simp: wf_tree_def)

lemma level_start_step: "l \<le> tree_log p \<Longrightarrow> level_start p (Suc l) = level_start p l + npl p l"
  using wf by (intro level_start_Suc) (simp add: wf_tree_def)

lemma level_start_inner: "l \<le> tree_log p \<Longrightarrow> level_start p (Suc l) = 2 * inner_before p l + 1"
proof (induction l)
  case 0
  then show ?case using wf level_start_step [of 0] by (simp add: wf_tree_def)
next
  case (Suc l)
  then show ?case using level_start_step [of "Suc l"] wf_level [of l] by simp
qed

lemma inner_total: "inner_before p (tree_log p) = par_T p - 1"
  using level_start_inner [of "tree_log p"] wf_total by simp

lemma level_start_mono: "i \<le> j \<Longrightarrow> j \<le> Suc (tree_log p) \<Longrightarrow> level_start p i \<le> level_start p j"
proof (induction j)
  case (Suc j)
  then show ?case using level_start_step [of j] by (cases "i = Suc j") auto
qed simp

lemma length_inner_prefix:
  "length (concat (map (\<lambda>l. [level_start p l..<level_start p l + (npl p l - lpl p l)]) [0..<l])) = inner_before p l"
  by (induction l) simp_all

lemma length_inner_nodes: "length (inner_nodes p) = par_T p - 1"
  unfolding inner_nodes_def length_inner_prefix by (rule inner_total)

lemma inner_nodes_nth:
  assumes "l < tree_log p" and "i < npl p l - lpl p l"
  shows "inner_nodes p ! (inner_before p l + i) = level_start p l + i"
proof -
  let ?f = "\<lambda>l. [level_start p l..<level_start p l + (npl p l - lpl p l)]"
  have "[0..<tree_log p] = [0..<l] @ [l..<tree_log p]"
    by (rule upt_split) (use assms(1) in simp_all)
  then have "[0..<tree_log p] = [0..<l] @ l # [Suc l..<tree_log p]"
    using assms(1) by (simp add: upt_conv_Cons)
  then have "inner_nodes p = concat (map ?f [0..<l]) @ ?f l @ concat (map ?f [Suc l..<tree_log p])"
    by (simp add: inner_nodes_def)
  then show ?thesis
    using assms(2) by (simp add: nth_append length_inner_prefix)
qed

text \<open>Which level a node lies in.\<close>

lemma level_of:
  assumes "x < NUM_NODES p"
  obtains l where "l \<le> tree_log p" "level_start p l \<le> x" "x < level_start p (Suc l)"
proof -
  have total: "x < level_start p (Suc (tree_log p))" using assms wf_total(2) by simp
  define l where "l = (LEAST l. x < level_start p (Suc l))"
  have 1: "x < level_start p (Suc l)" unfolding l_def
    by (rule LeastI [of "\<lambda>l. x < level_start p (Suc l)", OF total])
  have 2: "l \<le> tree_log p" unfolding l_def
    by (rule Least_le [of "\<lambda>l. x < level_start p (Suc l)", OF total])
  have "level_start p l \<le> x"
  proof (cases l)
    case (Suc j)
    then have "\<not> x < level_start p (Suc j)"
      using not_less_Least [of j "\<lambda>l. x < level_start p (Suc l)"] unfolding l_def by simp
    with Suc show ?thesis by simp
  qed simp
  with 1 2 that show thesis by blast
qed

lemma level_unique:
  assumes "level_start p l \<le> x" "x < level_start p (Suc l)" "level_start p j \<le> x" "x < level_start p (Suc j)"
    "l \<le> tree_log p" "j \<le> tree_log p"
  shows "l = j"
proof (rule ccontr)
  assume "l \<noteq> j"
  then consider "Suc l \<le> j" | "Suc j \<le> l" by linarith
  then show False
    using level_start_mono [of "Suc l" j] level_start_mono [of "Suc j" l] assms by cases auto
qed

definition inner_count :: "nat \<Rightarrow> nat" where
  "inner_count l = npl p l - lpl p l"

lemma inner_count_last: "inner_count (tree_log p) = 0"
  using wf by (simp add: inner_count_def wf_tree_def)

lemma inner_count_le: "l \<le> tree_log p \<Longrightarrow> level_start p l + inner_count l \<le> level_start p (Suc l)"
  by (simp add: level_start_step inner_count_def)

lemma inner_nodes_iff:
  "x \<in> set (inner_nodes p) \<longleftrightarrow> (\<exists>l\<le>tree_log p. level_start p l \<le> x \<and> x < level_start p l + inner_count l)"
proof -
  have "x \<in> set (inner_nodes p) \<longleftrightarrow> (\<exists>l<tree_log p. level_start p l \<le> x \<and> x < level_start p l + inner_count l)"
    by (auto simp: inner_nodes_def inner_count_def)
  then show ?thesis using inner_count_last by (metis add_0_right le_less not_less)
qed

lemma leaf_nodes_eq:
  "leaf_nodes p = concat (map (\<lambda>l. [level_start p l + inner_count l..<level_start p (Suc l)]) (rev [0..<tree_log p + 1]))"
proof -
  have runs: "concat (map (\<lambda>(s, c). [s..<s + c]) (map (\<lambda>l. (level_start p l + npl p l - lpl p l, lpl p l)) (filter (\<lambda>l. 0 < lpl p l) ls)))
      = concat (map (\<lambda>l. [level_start p l + inner_count l..<level_start p (Suc l)]) ls)"
    if "\<forall>l\<in>set ls. l \<le> tree_log p" for ls
    using that
  proof (induction ls)
    case (Cons l ls)
    have le: "lpl p l \<le> npl p l" using Cons.prems wf by (cases "l = tree_log p") (auto simp: wf_tree_def)
    have "level_start p (Suc l) = level_start p l + npl p l" using Cons.prems by (simp add: level_start_step)
    with Cons le show ?case by (auto simp: inner_count_def)
  qed simp
  show ?thesis
    unfolding leaf_nodes_def using wf runs [of "rev [0..<tree_log p + 1]"]
    by (simp only: wf_tree_def leaf_runs_def) auto
qed

lemma leaf_nodes_iff:
  "x \<in> set (leaf_nodes p) \<longleftrightarrow> (\<exists>l\<le>tree_log p. level_start p l + inner_count l \<le> x \<and> x < level_start p (Suc l))"
  unfolding leaf_nodes_eq by (auto simp: less_Suc_eq_le simp del: upt_Suc)

lemma leaf_nodes_set: "set (leaf_nodes p) = {..<NUM_NODES p} - set (inner_nodes p)"
proof (intro set_eqI iffI)
  fix x assume "x \<in> set (leaf_nodes p)"
  then obtain l where l: "l \<le> tree_log p" "level_start p l + inner_count l \<le> x" "x < level_start p (Suc l)"
    by (auto simp: leaf_nodes_iff)
  have "x < level_start p (Suc (tree_log p))"
    using level_start_mono [of "Suc l" "Suc (tree_log p)"] l by simp
  then have "x < NUM_NODES p" using wf_total(2) by simp
  moreover have "x \<notin> set (inner_nodes p)"
  proof
    assume "x \<in> set (inner_nodes p)"
    then obtain j where j: "j \<le> tree_log p" "level_start p j \<le> x" "x < level_start p j + inner_count j"
      by (auto simp: inner_nodes_iff)
    have "l = j" by (rule level_unique [of l x j]) (use l j inner_count_le [of j] in auto)
    with l j show False by simp
  qed
  ultimately show "x \<in> {..<NUM_NODES p} - set (inner_nodes p)" by simp
next
  fix x assume x: "x \<in> {..<NUM_NODES p} - set (inner_nodes p)"
  then have "x < NUM_NODES p" by simp
  then obtain l where "l \<le> tree_log p" "level_start p l \<le> x" "x < level_start p (Suc l)"
    by (rule level_of)
  with x show "x \<in> set (leaf_nodes p)"
    by (auto simp: leaf_nodes_iff inner_nodes_iff not_less)
qed

lemma inner_nodes_sorted: "sorted_wrt (<) (inner_nodes p)"
proof -
  have "sorted_wrt (<) (concat (map (\<lambda>l. [level_start p l..<level_start p l + inner_count l]) [0..<L]))
      \<and> (\<forall>x\<in>set (concat (map (\<lambda>l. [level_start p l..<level_start p l + inner_count l]) [0..<L])). x < level_start p L)"
    if "L \<le> tree_log p" for L
    using that
  proof (induction L)
    case (Suc L)
    let ?xs = "concat (map (\<lambda>l. [level_start p l..<level_start p l + inner_count l]) [0..<L])"
    have IH: "sorted_wrt (<) ?xs" "\<forall>x\<in>set ?xs. x < level_start p L" using Suc by simp_all
    have le: "level_start p L + inner_count L \<le> level_start p (Suc L)"
      using Suc.prems by (simp add: inner_count_le)
    have "sorted_wrt (<) (?xs @ [level_start p L..<level_start p L + inner_count L])"
      using IH by (force simp: sorted_wrt_append)
    moreover have "\<forall>x\<in>set (?xs @ [level_start p L..<level_start p L + inner_count L]). x < level_start p (Suc L)"
    proof
      fix x assume "x \<in> set (?xs @ [level_start p L..<level_start p L + inner_count L])"
      then consider "x \<in> set ?xs" | "x < level_start p L + inner_count L"
        unfolding set_append Un_iff set_upt atLeastLessThan_iff by blast
      then show "x < level_start p (Suc L)" by cases (use IH(2) le in fastforce)+
    qed
    ultimately show ?case by simp
  qed simp
  then show ?thesis by (simp add: inner_nodes_def inner_count_def)
qed

lemma inner_index_lt:
  assumes "l < tree_log p" and "i < inner_count l"
  shows "inner_before p l + i < length (inner_nodes p)"
proof -
  have mono: "inner_before p a \<le> inner_before p b" if "a \<le> b" for a b
    using that by (induction b) (auto simp: le_Suc_eq)
  show ?thesis
    using mono [of "Suc l" "tree_log p"] assms by (simp add: length_inner_nodes inner_total inner_count_def)
qed

lemma inner_nodes_pos:
  assumes "k < length (inner_nodes p)"
  obtains l i where "l < tree_log p" "i < inner_count l" "k = inner_before p l + i"
    "inner_nodes p ! k = level_start p l + i"
proof -
  have "inner_nodes p ! k \<in> set (inner_nodes p)" using assms by simp
  then obtain l where l: "l \<le> tree_log p" "level_start p l \<le> inner_nodes p ! k"
      "inner_nodes p ! k < level_start p l + inner_count l"
    by (auto simp: inner_nodes_iff)
  then have lt: "l < tree_log p" using inner_count_last by (cases "l = tree_log p") auto
  define i where "i = inner_nodes p ! k - level_start p l"
  have i: "i < inner_count l" "inner_nodes p ! k = level_start p l + i" using l by (auto simp: i_def)
  have n: "inner_nodes p ! (inner_before p l + i) = level_start p l + i"
    using inner_nodes_nth [OF lt] i(1) by (simp add: inner_count_def)
  have "inner_before p l + i < length (inner_nodes p)" by (rule inner_index_lt [OF lt i(1)])
  moreover have "distinct (inner_nodes p)" using inner_nodes_sorted by (simp add: strict_sorted_iff)
  ultimately have "k = inner_before p l + i"
    using assms n i(2) by (metis nth_eq_iff_index_eq)
  with lt i that show thesis by blast
qed

lemma length_leaf_nodes: "length (leaf_nodes p) = par_T p"
proof -
  let ?f = "\<lambda>l. [level_start p l + inner_count l..<level_start p (Suc l)]"
  have "length (concat (map ?f (rev [0..<L]))) + inner_before p L = level_start p L"
    if "L \<le> tree_log p + 1" for L
    using that
  proof (induction L)
    case (Suc L)
    then show ?case using inner_count_le [of L] by (simp add: inner_count_def)
  qed simp
  from this [of "tree_log p + 1"]
  have "length (leaf_nodes p) + inner_before p (Suc (tree_log p)) = NUM_NODES p"
    unfolding leaf_nodes_eq wf_total(2) [symmetric] by (simp del: upt_Suc)
  then show ?thesis
    using inner_total wf_total inner_count_last by (simp add: inner_count_def)
qed

sublocale tree_shape "inner_nodes p" "leaf_nodes p"
proof
  show "sorted_wrt (<) (inner_nodes p)" by (rule inner_nodes_sorted)
  have nn: "NUM_NODES p = 2 * length (inner_nodes p) + 1"
    using wf_total(3) by (simp add: length_inner_nodes)
  show "set (leaf_nodes p) = {..<2 * length (inner_nodes p) + 1} - set (inner_nodes p)"
    using leaf_nodes_set nn by simp
  show "inner_nodes p ! k \<le> 2 * k" if "k < length (inner_nodes p)" for k
    using that
  proof (cases rule: inner_nodes_pos)
    case (1 l i)
    show ?thesis
    proof (cases l)
      case 0
      then show ?thesis using 1 by simp
    next
      case (Suc j)
      then have j: "level_start p l = 2 * inner_before p j + 1" "npl p l = 2 * inner_count j"
          "inner_before p l = inner_before p j + inner_count j"
        using 1(1) level_start_inner [of j] wf_level(2) [of j] by (simp_all add: inner_count_def)
      moreover have "inner_count l \<le> npl p l" by (simp add: inner_count_def)
      ultimately show ?thesis using 1 by linarith
    qed
  qed
  have "card (set (inner_nodes p)) = par_T p - 1" "set (inner_nodes p) \<subseteq> {..<NUM_NODES p}"
  proof -
    show "card (set (inner_nodes p)) = par_T p - 1"
      using inner_nodes_sorted by (simp add: distinct_card strict_sorted_iff length_inner_nodes)
    show "set (inner_nodes p) \<subseteq> {..<NUM_NODES p}"
      using inner_count_le level_start_mono [of _ "Suc (tree_log p)"] wf_total(2)
      by (fastforce simp: inner_nodes_iff)
  qed
  then have "card (set (leaf_nodes p)) = length (leaf_nodes p)"
    unfolding leaf_nodes_set length_leaf_nodes using wf_total by (simp add: card_Diff_subset)
  then show "distinct (leaf_nodes p)" by (rule card_distinct)
qed

lemma for_down2_even: "for_down2 (2 * m) f s = for_down m (\<lambda>j. f (2 * j)) s"
proof -
  have "map (\<lambda>k. 2 * m - 2 - 2 * k) [0..<m] = map (\<lambda>j. 2 * j) (rev [0..<m])"
    by (rule nth_equalityI) (auto simp: rev_nth)
  then have "fold f (map (\<lambda>k. 2 * m - 2 - 2 * k) [0..<m]) s = fold f (map (\<lambda>j. 2 * j) (rev [0..<m])) s"
    by simp
  then show ?thesis by (simp add: for_down2_def for_down_def fold_map comp_def)
qed

lemma child_pos:
  assumes "l < tree_log p" and "j < inner_count l"
  shows "level_start p (Suc l) + 2 * j = 2 * (inner_before p l + j) + 1"
  using assms level_start_inner [of l] by simp

lemma inner_pos:
  assumes "l < tree_log p" and "j < inner_count l"
  shows "level_start p l + j = inner_nodes p ! (inner_before p l + j)"
  using assms inner_nodes_nth by (simp add: inner_count_def)

lemma PARENT_pos:
  assumes "l < tree_log p"
  shows "PARENT (level_start p (Suc l) + i) + drop_bit 1 (off p l) = level_start p l + i div 2"
proof -
  obtain h where h: "off p l = 2 * h" using wf_level(3) [OF assms] by blast
  have s: "level_start p (Suc l) + 2 * h = 2 * level_start p l + 1"
    using wf_level(4) [OF assms] h by simp
  have "1 \<le> level_start p (Suc l)" using level_start_inner [of l] assms by simp
  then have hs: "h \<le> level_start p l" "level_start p (Suc l) = 2 * (level_start p l - h) + 1"
    using s by linarith+
  have "PARENT (2 * a + 1 + i) = a + i div 2" for a
  proof (cases "even i")
    case True
    then obtain b where "i = 2 * b" by blast
    then show ?thesis by (simp add: PARENT_def)
  next
    case False
    then obtain b where "i = 2 * b + 1" by (metis oddE)
    then show ?thesis by (simp add: PARENT_def)
  qed
  then show ?thesis using hs h by (simp add: drop_bit_Suc)
qed

lemma PARENT_child:
  assumes "l < tree_log p" and "j < inner_count l"
  shows "PARENT (2 * (inner_before p l + j) + 1) + drop_bit 1 (off p l) = inner_nodes p ! (inner_before p l + j)"
  using PARENT_pos [OF assms(1), of "2 * j"] child_pos [OF assms] inner_pos [OF assms] by simp

lemma LEFT_CHILD_pos:
  assumes "l < tree_log p"
  shows "LEFT_CHILD (level_start p l + i) - off p l = level_start p (Suc l) + 2 * i"
  using wf_level(4) [OF assms] by (simp add: LEFT_CHILD_def)

lemma LEFT_CHILD_inner:
  assumes "l < tree_log p" and "j < inner_count l"
  shows "LEFT_CHILD (inner_nodes p ! (inner_before p l + j)) - off p l = 2 * (inner_before p l + j) + 1"
  using LEFT_CHILD_pos [OF assms(1), of j] child_pos [OF assms] inner_pos [OF assms] by simp

theorem walk_up_eq:
  "walk_up p body s = for_down (par_T p - 1) (\<lambda>k. body (2 * k + 1) (inner_nodes p ! k)) s"
proof -
  let ?F = "\<lambda>level start_node. for_down2 (npl p level) (\<lambda>i. body (start_node + i)
      (PARENT (start_node + i) + drop_bit 1 (off p (level - 1))))"
  let ?C = "\<lambda>k. level_start p (tree_log p - k)"
  have C0: "TREE_LEAVES_START_INDICES p ! 0 = ?C 0" using wf by (simp add: wf_tree_def)
  have C: "?C (Suc k) = ?C k - npl p (tree_log p - k - 1)" if "k < tree_log p" for k
    using level_start_step [of "tree_log p - k - 1"] that by (simp add: Suc_diff_Suc)
  have "walk_up p body s = for_range 0 (tree_log p) (\<lambda>k. ?F (tree_log p - k) (?C k)) s"
    unfolding walk_up_def Let_def C0
    by (subst for_range_counter [where C = ?C and g = "\<lambda>k c. c - npl p (tree_log p - k - 1)"]) (use C in auto)
  also have "\<dots> = for_down (tree_log p) (\<lambda>l. ?F (Suc l) (level_start p (Suc l))) s"
    by (rule for_range_downward [where f = "\<lambda>level. ?F level (level_start p level)"])
  also have "\<dots> = for_down (tree_log p) (\<lambda>l. for_down (inner_count l)
      (\<lambda>j. body (2 * (inner_before p l + j) + 1) (inner_nodes p ! (inner_before p l + j)))) s"
  proof (rule for_down_cong)
    fix l t assume l: "l < tree_log p"
    have "?F (Suc l) (level_start p (Suc l)) t = for_down (inner_count l) (\<lambda>j. body (level_start p (Suc l) + 2 * j)
        (PARENT (level_start p (Suc l) + 2 * j) + drop_bit 1 (off p l))) t"
      using wf_level(2) [OF l] by (simp add: inner_count_def for_down2_even)
    also have "\<dots> = for_down (inner_count l)
      (\<lambda>j. body (2 * (inner_before p l + j) + 1) (inner_nodes p ! (inner_before p l + j))) t"
      by (rule for_down_cong) (simp only: child_pos [OF l] PARENT_child [OF l])
    finally show "?F (Suc l) (level_start p (Suc l)) t = \<dots>" .
  qed
  also have "\<dots> = for_down (par_T p - 1) (\<lambda>k. body (2 * k + 1) (inner_nodes p ! k)) s"
    unfolding inner_total [symmetric]
    by (rule for_down_rows [where f = "\<lambda>k. body (2 * k + 1) (inner_nodes p ! k)"]) (simp_all add: inner_count_def)
  finally show ?thesis .
qed

theorem walk_down_fathers_eq:
  "walk_down_fathers p body s = for_range 0 (par_T p - 1) (\<lambda>k. body (inner_nodes p ! k) (2 * k + 1)) s"
proof -
  let ?F = "\<lambda>level start_node. for_range 0 (npl p level - lpl p level) (\<lambda>i. body (start_node + i)
      (LEFT_CHILD (start_node + i) - off p level))"
  have "walk_down_fathers p body s = fst (for_range 0 (tree_log p)
      (\<lambda>l (s, c). (?F l c s, c + npl p l)) (s, level_start p 0))"
    by (simp add: walk_down_fathers_def Let_def)
  also have "\<dots> = for_range 0 (tree_log p) (\<lambda>l. ?F l (level_start p l)) s"
    by (subst for_range_counter [where C = "level_start p" and g = "\<lambda>l c. c + npl p l"])
      (use level_start_step in auto)
  also have "\<dots> = for_range 0 (tree_log p) (\<lambda>l. for_range 0 (inner_count l)
      (\<lambda>j. body (inner_nodes p ! (inner_before p l + j)) (2 * (inner_before p l + j) + 1))) s"
  proof (rule for_range_cong)
    fix l t assume l: "l < tree_log p"
    show "?F l (level_start p l) t = for_range 0 (inner_count l)
      (\<lambda>j. body (inner_nodes p ! (inner_before p l + j)) (2 * (inner_before p l + j) + 1)) t"
      unfolding inner_count_def [symmetric]
      by (rule for_range_cong) (simp only: inner_pos [OF l] LEFT_CHILD_inner [OF l])
  qed
  also have "\<dots> = for_range 0 (par_T p - 1) (\<lambda>k. body (inner_nodes p ! k) (2 * k + 1)) s"
    unfolding inner_total [symmetric]
    by (rule for_range_rows [where f = "\<lambda>k. body (inner_nodes p ! k) (2 * k + 1)"]) (simp_all add: inner_count_def)
  finally show ?thesis .
qed

text \<open>The first child of an inner node.\<close>

definition first_child :: "nat \<Rightarrow> nat" where
  "first_child x = 2 * length (filter (\<lambda>y. y < x) (inner_nodes p)) + 1"

lemma first_child_inner:
  assumes "k < length (inner_nodes p)"
  shows "first_child (inner_nodes p ! k) = 2 * k + 1"
proof -
  have t: "filter (\<lambda>y. y < inner_nodes p ! k) (take k (inner_nodes p)) = take k (inner_nodes p)"
    using assms inner_less by (intro filter_True) (auto simp: in_set_conv_nth)
  have d: "filter (\<lambda>y. y < inner_nodes p ! k) (drop k (inner_nodes p)) = []"
  proof (rule filter_False, intro ballI)
    fix y assume "y \<in> set (drop k (inner_nodes p))"
    then obtain i where "i < length (drop k (inner_nodes p))" "y = drop k (inner_nodes p) ! i"
      by (metis in_set_conv_nth)
    then have i: "k + i < length (inner_nodes p)" "y = inner_nodes p ! (k + i)" by simp_all
    then show "\<not> y < inner_nodes p ! k" using inner_less [of k "k + i"] by (cases i) auto
  qed
  have "filter (\<lambda>y. y < inner_nodes p ! k) (inner_nodes p)
      = filter (\<lambda>y. y < inner_nodes p ! k) (take k (inner_nodes p) @ drop k (inner_nodes p))" by simp
  also have "\<dots> = take k (inner_nodes p)" unfolding filter_append t d by simp
  finally show ?thesis using assms by (simp add: first_child_def)
qed

theorem walk_down_nodes_eq:
  assumes "\<And>x f c c' t. body x f c False t = body x f c' False t"
  shows "walk_down_nodes p body s = for_range 1 (NUM_NODES p)
    (\<lambda>x. body x (father x) (first_child x) (x \<in> set (inner_nodes p))) s"
proof -
  let ?G = "\<lambda>level start i. body (start + i) (PARENT (start + i) + drop_bit 1 (off p (level - 1)))
    (LEFT_CHILD (start + i) - off p level) (i < npl p level - lpl p level)"
  let ?B = "\<lambda>x. body x (father x) (first_child x) (x \<in> set (inner_nodes p))"
  have 1: "level_start p (Suc 0) = 1" using level_start_inner [of 0] by simp
  have "walk_down_nodes p body s = fst (for_range 1 (tree_log p + 1)
      (\<lambda>l (s, c). (for_range 0 (npl p l) (?G l c) s, c + npl p l)) (s, level_start p 1))"
    by (simp add: walk_down_nodes_def Let_def 1)
  also have "\<dots> = for_range 1 (tree_log p + 1) (\<lambda>l. for_range 0 (npl p l) (?G l (level_start p l))) s"
    by (subst for_range_counter [where C = "level_start p" and g = "\<lambda>l c. c + npl p l"])
      (use level_start_step in auto)
  also have "\<dots> = for_range 1 (tree_log p + 1) (\<lambda>l. for_range 0 (npl p l) (\<lambda>i. ?B (level_start p l + i))) s"
  proof (intro for_range_cong)
    fix l t i u assume l: "1 \<le> l" "l < tree_log p + 1" and i: "i < npl p l"
    then obtain j where j: "l = Suc j" "j < tree_log p" by (cases l) auto
    have f: "PARENT (level_start p l + i) + drop_bit 1 (off p (l - 1)) = father (level_start p l + i)"
    proof -
      have "i div 2 < inner_count j" using i j wf_level(2) [of j] by (simp add: inner_count_def)
      moreover have "(level_start p l + i - 1) div 2 = inner_before p j + i div 2"
        using level_start_inner [of j] j by simp
      ultimately show ?thesis
        using PARENT_pos [OF j(2), of i] inner_pos [OF j(2), of "i div 2"] j by (simp add: father_def)
    qed
    have le: "l \<le> tree_log p" using l by simp
    have inner: "level_start p l + i \<in> set (inner_nodes p) \<longleftrightarrow> i < npl p l - lpl p l"
    proof
      assume "level_start p l + i \<in> set (inner_nodes p)"
      then obtain m where m: "m \<le> tree_log p" "level_start p m \<le> level_start p l + i"
          "level_start p l + i < level_start p m + inner_count m"
        by (auto simp: inner_nodes_iff)
      have "l = m"
        by (rule level_unique [of l "level_start p l + i" m])
          (use m le i level_start_step [OF le] inner_count_le [of m] in auto)
      then show "i < npl p l - lpl p l" using m by (simp add: inner_count_def)
    qed (use le in \<open>auto simp: inner_nodes_iff inner_count_def\<close>)
    show "?G l (level_start p l) i u = ?B (level_start p l + i) u"
    proof (cases "i < npl p l - lpl p l")
      case True
      then have lt: "l < tree_log p" using le inner_count_last by (cases "l = tree_log p") (auto simp: inner_count_def)
      have i': "i < inner_count l" using True by (simp add: inner_count_def)
      have "inner_before p l + i < length (inner_nodes p)" by (rule inner_index_lt [OF lt i'])
      then have "first_child (level_start p l + i) = LEFT_CHILD (level_start p l + i) - off p l"
        using first_child_inner LEFT_CHILD_inner [OF lt i'] by (simp add: inner_pos [OF lt i'])
      with True f inner show ?thesis by simp
    next
      case False
      with f inner assms show ?thesis by (metis (full_types))
    qed
  qed
  also have "\<dots> = for_range 1 (NUM_NODES p) ?B s"
  proof -
    have "for_range 1 (Suc L) (\<lambda>l. for_range 0 (npl p l) (\<lambda>i. ?B (level_start p l + i))) s
        = for_range 1 (level_start p (Suc L)) ?B s" if "L \<le> tree_log p" for L
      using that
    proof (induction L)
      case 0
      then show ?case by (simp add: 1)
    next
      case (Suc L)
      have "1 \<le> level_start p (Suc L)" using level_start_mono [of 1 "Suc L"] Suc.prems 1 by simp
      then show ?case
        using Suc level_start_step [of "Suc L"]
        by (simp add: for_range_Suc for_range_shift [of _ ?B]
              for_range_split [of "Suc 0" "level_start p (Suc L)" "level_start p (Suc L) + npl p (Suc L)"])
    qed
    from this [of "tree_log p"] show ?thesis using wf_total(2) by simp
  qed
  finally show ?thesis .
qed

theorem walk_leaves_eq:
  "walk_leaves p body s = for_range 0 (par_T p) (\<lambda>c. body c (leaf_nodes p ! c)) s"
proof -
  let ?runs = "zip (TREE_LEAVES_START_INDICES p) (TREE_CONSECUTIVE_LEAVES p)"
  let ?step = "\<lambda>x (s, c). (body c x s, c + 1 :: nat)"
  have "walk_leaves p body s = fst (for_range 0 (length ?runs)
      (\<lambda>i. (\<lambda>(st, c). for_range 0 c (\<lambda>j. ?step (st + j))) (?runs ! i)) (s, 0))"
  proof -
    have l: "length (TREE_LEAVES_START_INDICES p) = TREE_SUBROOTS p" "length (TREE_CONSECUTIVE_LEAVES p) = TREE_SUBROOTS p"
      using wf by (simp_all add: wf_tree_def)
    show ?thesis
      unfolding walk_leaves_def by (rule arg_cong [where f = fst]) (rule trans [OF for_range_cong], auto simp: l)
  qed
  also have "\<dots> = fst (fold ?step (leaf_nodes p) (s, 0))"
    unfolding leaf_nodes_def fold_concat_runs
    by (subst for_range_nth [where f = "\<lambda>(st, c). for_range 0 c (\<lambda>j. ?step (st + j))"]) (rule refl)
  also have "\<dots> = for_range 0 (par_T p) (\<lambda>c. body c (leaf_nodes p ! c)) s"
    unfolding fold_counter length_leaf_nodes by simp
  finally show ?thesis .
qed

end

end
