(* ===== verification/Words.thy ===== *)
theory Words
  imports Prelude
begin

text \<open>
  Machine words read as natural numbers: the rules, collected in \<open>unat_simps\<close>, that turn the
  bit manipulation of the C code (masks, shifts, casts between widths, sums that stay in range)
  into arithmetic on \<open>nat\<close>, and the small facts on division with which the reduction macros of
  the arithmetic headers are analysed.
\<close>

named_theorems unat_simps \<open>words as natural numbers\<close>

lemma unat_bound: "unat (x :: 'a::len word) < 2 ^ LENGTH('a)"
  by (rule unsigned_less)

lemma unat_8_lt [simp]: "unat (x :: u8) < 256"
  using unat_bound [of x] by simp

lemma unat_16_lt [simp]: "unat (x :: u16) < 65536"
  using unat_bound [of x] by simp

lemma unat_32_lt [simp]: "unat (x :: u32) < 4294967296"
  using unat_bound [of x] by simp

lemma unat_64_lt [simp]: "unat (x :: u64) < 18446744073709551616"
  using unat_bound [of x] by simp

lemma unat_and_mask [unat_simps]: "unat (x AND mask n) = unat x mod 2 ^ n"
  unfolding take_bit_eq_mask [symmetric] unsigned_take_bit_eq by (rule take_bit_eq_mod)

lemma word_7f: "(0x7f :: 'a::len word) = mask 7"
  by (simp add: mask_eq_exp_minus_1)

lemma word_ff: "(0xff :: 'a::len word) = mask 8"
  by (simp add: mask_eq_exp_minus_1)

lemma word_1ff: "(0x1ff :: 'a::len word) = mask 9"
  by (simp add: mask_eq_exp_minus_1)

lemma unat_and_7f [unat_simps]: "unat (x AND 0x7f :: 'a::len word) = unat x mod 128"
  unfolding word_7f by (simp add: unat_and_mask)

lemma unat_and_ff [unat_simps]: "unat (x AND 0xff :: 'a::len word) = unat x mod 256"
  unfolding word_ff by (simp add: unat_and_mask)

lemma unat_and_1ff [unat_simps]: "unat (x AND 0x1ff :: 'a::len word) = unat x mod 512"
  unfolding word_1ff by (simp add: unat_and_mask)

lemma unat_drop_bit [unat_simps]: "unat (drop_bit n (x :: 'a::len word)) = unat x div 2 ^ n"
  unfolding unsigned_drop_bit_eq
  by (simp add: take_bit_nat_eq_self [OF unat_bound] drop_bit_eq_div)

lemma unat_push_bit [unat_simps]:
  "unat (push_bit n (x :: 'a::len word)) = unat x * 2 ^ n mod 2 ^ LENGTH('a)"
  unfolding unsigned_push_bit_eq by (simp add: push_bit_eq_mult take_bit_eq_mod)

lemma unat_ucast: "unat (ucast (x :: 'a::len word) :: 'b::len word) = unat x mod 2 ^ LENGTH('b)"
  by (simp add: unsigned_ucast_eq take_bit_eq_mod)

lemma unat_ucast_up:
  assumes "LENGTH('a::len) \<le> LENGTH('b::len)"
  shows "unat (ucast (x :: 'a word) :: 'b word) = unat x"
proof -
  have "unat x < 2 ^ LENGTH('b)"
    using unat_bound [of x] assms by (meson less_le_trans one_le_numeral power_increasing)
  then show ?thesis by (simp add: unat_ucast)
qed

lemma unat_ucast_ups [simp, unat_simps]:
  "unat (ucast (a :: u8) :: u16) = unat a" "unat (ucast (a :: u8) :: u32) = unat a"
  "unat (ucast (a :: u8) :: u64) = unat a" "unat (ucast (b :: u16) :: u32) = unat b"
  "unat (ucast (b :: u16) :: u64) = unat b" "unat (ucast (c :: u32) :: u64) = unat c"
  by (simp_all add: unat_ucast_up)

lemma unat_ucast_small:
  "unat (x :: 'a::len word) < 2 ^ LENGTH('b::len) \<Longrightarrow> unat (ucast x :: 'b word) = unat x"
  by (simp add: unat_ucast)

lemma unat_add_small:
  "unat x + unat y < 2 ^ LENGTH('a) \<Longrightarrow> unat (x + y :: 'a::len word) = unat x + unat y"
  by (simp add: unat_word_ariths)

lemma unat_mult_small:
  "unat x * unat y < 2 ^ LENGTH('a) \<Longrightarrow> unat (x * y :: 'a::len word) = unat x * unat y"
  by (simp add: unat_word_ariths)

lemma unat_add32: "unat x + unat y < 4294967296 \<Longrightarrow> unat (x + y :: u32) = unat x + unat y"
  by (simp add: unat_add_small)

lemma unat_mult32: "unat x * unat y < 4294967296 \<Longrightarrow> unat (x * y :: u32) = unat x * unat y"
  by (simp add: unat_mult_small)

lemma unat_add16: "unat x + unat y < 65536 \<Longrightarrow> unat (x + y :: u16) = unat x + unat y"
  by (simp add: unat_add_small)

lemma unat_mult16: "unat x * unat y < 65536 \<Longrightarrow> unat (x * y :: u16) = unat x * unat y"
  by (simp add: unat_mult_small)

lemma unat_add64:
  "unat x + unat y < 18446744073709551616 \<Longrightarrow> unat (x + y :: u64) = unat x + unat y"
  by (simp add: unat_add_small)

lemma unat_mult64:
  "unat x * unat y < 18446744073709551616 \<Longrightarrow> unat (x * y :: u64) = unat x * unat y"
  by (simp add: unat_mult_small)

lemma unat_diff: "unat y \<le> unat x \<Longrightarrow> unat (x - y :: 'a::len word) = unat x - unat y"
  by (simp add: unat_sub word_le_nat_alt)

lemma unat_of_nat_small: "n < 2 ^ LENGTH('a) \<Longrightarrow> unat (of_nat n :: 'a::len word) = n"
  by (simp add: unat_of_nat)

lemma unat_of_nat8: "n < 256 \<Longrightarrow> unat (of_nat n :: u8) = n"
  by (simp add: unat_of_nat_small)

lemma unat_of_nat16: "n < 65536 \<Longrightarrow> unat (of_nat n :: u16) = n"
  by (simp add: unat_of_nat_small)

lemma word_eq_unat: "x = y \<longleftrightarrow> unat x = unat (y :: 'a::len word)"
  by (simp add: unsigned_word_eqI word_eq_iff_unsigned)

lemma xor_mask_eq_diff:
  assumes "take_bit n x = (x :: 'a::len word)"
  shows "x XOR mask n = mask n - x"
proof -
  have "x XOR mask n = take_bit n (NOT x)"
  proof (rule bit_eqI)
    fix k
    have "bit x k \<longleftrightarrow> k < n \<and> bit x k" by (metis assms bit_take_bit_iff)
    then show "bit (x XOR mask n) k \<longleftrightarrow> bit (take_bit n (NOT x)) k"
      if "possible_bit TYPE('a word) k"
      using that by (auto simp: bit_xor_iff bit_mask_iff bit_take_bit_iff bit_not_iff possible_bit_def)
  qed
  then show ?thesis by (simp add: take_bit_not_eq_mask_diff assms)
qed

subsection \<open>Division by powers of two\<close>

lemma mod_fold:
  assumes "(x :: nat) = m * q + r"
  shows "r mod m = x mod m"
  unfolding assms by (rule mod_mult_self4 [symmetric])

lemma mod_127_fold: "(x mod 128 + x div 128) mod 127 = (x :: nat) mod 127"
  by (rule mod_fold [of _ _ "x div 128"]) (use div_mult_mod_eq [of x 128] in linarith)

lemma mod_509_fold: "(x mod 512 + 3 * (x div 512)) mod 509 = (x :: nat) mod 509"
  by (rule mod_fold [of _ _ "x div 512"]) (use div_mult_mod_eq [of x 512] in linarith)

subsection \<open>The bytes of 64-bit words\<close>

text \<open>A 64-bit word (a lane of Keccak, a word of BIKE) in memory, least significant byte first; bytes that are not there count as 0.\<close>

definition lane_of_bytes :: "bytes \<Rightarrow> u64" where
  "lane_of_bytes bs = foldr (\<lambda>b w. ucast b OR push_bit 8 w) bs 0"

definition bytes_of_lane :: "u64 \<Rightarrow> bytes" where
  "bytes_of_lane w = map (\<lambda>j. ucast (drop_bit (8 * j) w)) [0..<8]"

definition bytes_of_lanes :: "u64 list \<Rightarrow> bytes" where
  "bytes_of_lanes ls = concat (map bytes_of_lane ls)"

lemma length_bytes_of_lane [simp]: "length (bytes_of_lane w) = 8"
  by (simp add: bytes_of_lane_def)

lemma bit_bytes_of_lane: "j < 8 \<Longrightarrow> b < 8 \<Longrightarrow> bit (bytes_of_lane w ! j) b \<longleftrightarrow> bit w (8 * j + b)"
  by (simp add: bytes_of_lane_def bit_ucast_iff bit_drop_bit_eq)

lemma bit_lane_of_bytes:
  "length bs \<le> 8 \<Longrightarrow> bit (lane_of_bytes bs) n \<longleftrightarrow> n < 8 * length bs \<and> bit (bs ! (n div 8)) (n mod 8)"
proof (induction bs arbitrary: n)
  case Nil
  then show ?case by (simp add: lane_of_bytes_def)
next
  case (Cons b bs)
  have step: "lane_of_bytes (b # bs) = ucast b OR push_bit 8 (lane_of_bytes bs)" by (simp add: lane_of_bytes_def)
  show ?case
  proof (cases "n < 8")
    case True
    then show ?thesis by (simp add: step bit_or_iff bit_ucast_iff bit_push_bit_iff)
  next
    case False
    then have nd: "n div 8 = Suc ((n - 8) div 8)" "n mod 8 = (n - 8) mod 8"
      by (simp_all add: le_div_geq le_mod_geq)
    have "\<not> bit (ucast b :: u64) n" using False by (auto simp: bit_ucast_iff dest: bit_imp_le_length)
    then have "bit (lane_of_bytes (b # bs)) n \<longleftrightarrow> n < 64 \<and> bit (lane_of_bytes bs) (n - 8)"
      using False by (auto simp: step bit_or_iff bit_push_bit_iff)
    also have "bit (lane_of_bytes bs) (n - 8) \<longleftrightarrow> n - 8 < 8 * length bs \<and> bit (bs ! ((n - 8) div 8)) ((n - 8) mod 8)"
      by (rule Cons.IH) (use Cons.prems in simp)
    also have "n < 64 \<and> \<dots> \<longleftrightarrow> n < 8 * length (b # bs) \<and> bit ((b # bs) ! (n div 8)) (n mod 8)"
      unfolding nd nth_Cons_Suc using Cons.prems False by (simp add: less_diff_conv2 conj_commute) linarith
    finally show ?thesis .
  qed
qed

lemma bytes_of_lane_of_bytes: "length bs = 8 \<Longrightarrow> bytes_of_lane (lane_of_bytes bs) = bs"
proof (rule nth_equalityI)
  fix j assume l: "length bs = 8" and "j < length (bytes_of_lane (lane_of_bytes bs))"
  then have j: "j < 8" by simp
  show "bytes_of_lane (lane_of_bytes bs) ! j = bs ! j"
  proof (rule bit_word_eqI)
    fix b assume "b < LENGTH(8)"
    then have b: "b < 8" by simp
    have "8 * j + b < 64" "(8 * j + b) div 8 = j" "(8 * j + b) mod 8 = b" using j b by simp_all
    then show "bit (bytes_of_lane (lane_of_bytes bs) ! j) b = bit (bs ! j) b"
      by (simp add: bit_bytes_of_lane [OF j b] bit_lane_of_bytes l)
  qed
qed simp

lemma lane_of_bytes_of_lane: "lane_of_bytes (bytes_of_lane w) = w"
proof (rule bit_word_eqI)
  fix n assume "n < LENGTH(64)"
  then have "n div 8 < 8" "n < 64" by simp_all
  then show "bit (lane_of_bytes (bytes_of_lane w)) n = bit w n"
    by (simp add: bit_lane_of_bytes bit_bytes_of_lane)
qed

lemma bytes_of_lane_xor: "j < 8 \<Longrightarrow> bytes_of_lane (a XOR b) ! j = bytes_of_lane a ! j XOR bytes_of_lane b ! j"
  by (rule bit_word_eqI) (simp add: bit_bytes_of_lane bit_xor_iff)

end
