(* ===== verification/Cross_Fz.thy ===== *)
theory Cross_Fz
  imports Cross_Params Words
begin

text \<open>
  \<open>restr_arith.h\<close>: vectors over the exponent group, integers modulo \<open>Z = 127\<close> in a redundant
  representation where 0 is also written 127.  The macros run on C \<open>int\<close> (the operands are
  promoted bytes, the sums stay far below \<open>2^31\<close>), modelled as \<open>32 word\<close>.  A matrix
  \<open>W_mat[M][N - M]\<close> is the flat list of its rows.  The lemmas relate every operation to arithmetic
  modulo 127 and bound its results.
\<close>

definition FZRED_SINGLE :: "u32 \<Rightarrow> u32" where
  "FZRED_SINGLE x = (x AND 0x7f) + drop_bit 7 x"

definition FZRED_DOUBLE :: "u32 \<Rightarrow> u32" where
  "FZRED_DOUBLE x = FZRED_SINGLE (FZRED_SINGLE x)"

definition FZRED_OPPOSITE :: "u32 \<Rightarrow> u32" where
  "FZRED_OPPOSITE x = x XOR 0x7f"

definition FZ_DOUBLE_ZERO_NORM :: "u32 \<Rightarrow> u32" where
  "FZ_DOUBLE_ZERO_NORM x = (x + drop_bit 7 (x + 1)) AND 0x7f"

definition fz_dz_norm_n :: "cross_params \<Rightarrow> u8 list \<Rightarrow> u8 list" where
  "fz_dz_norm_n p v = for_range 0 (par_N p)
     (\<lambda>i v. v[i := ucast (FZ_DOUBLE_ZERO_NORM (ucast (v ! i)))]) v"

definition fz_dz_norm_m :: "cross_params \<Rightarrow> u8 list \<Rightarrow> u8 list" where
  "fz_dz_norm_m p v = for_range 0 (par_M p)
     (\<lambda>i v. v[i := ucast (FZ_DOUBLE_ZERO_NORM (ucast (v ! i)))]) v"

text \<open>An output array whose cell \<open>i\<close> is written once, from the inputs, is the \<open>map\<close> over its index range.\<close>

definition fz_vec_sub_n :: "cross_params \<Rightarrow> u8 list \<Rightarrow> u8 list \<Rightarrow> u8 list" where
  "fz_vec_sub_n p a b = map (\<lambda>i. ucast (FZRED_SINGLE (ucast (a ! i) + FZRED_OPPOSITE (ucast (b ! i)))))
     [0..<par_N p]"

definition fz_vec_sub_m :: "cross_params \<Rightarrow> u8 list \<Rightarrow> u8 list \<Rightarrow> u8 list" where
  "fz_vec_sub_m p a b = map (\<lambda>i. ucast (FZRED_SINGLE (ucast (a ! i) + FZRED_OPPOSITE (ucast (b ! i)))))
     [0..<par_M p]"

definition is_fz_vec_in_restr_group_n :: "cross_params \<Rightarrow> u8 list \<Rightarrow> bool" where
  "is_fz_vec_in_restr_group_n p v = for_range 0 (par_N p)
     (\<lambda>i is_in_ok. is_in_ok \<and> unat (v ! i) < Z) True"

definition is_fz_vec_in_restr_group_m :: "cross_params \<Rightarrow> u8 list \<Rightarrow> bool" where
  "is_fz_vec_in_restr_group_m p v = for_range 0 (par_M p)
     (\<lambda>i is_in_ok. is_in_ok \<and> unat (v ! i) < Z) True"

text \<open>The portable \<open>fz_inf_w_by_fz_matrix\<close>.\<close>

definition fz_inf_w_by_fz_matrix :: "cross_params \<Rightarrow> u8 list \<Rightarrow> u8 list \<Rightarrow> u8 list" where
  "fz_inf_w_by_fz_matrix p e W_mat =
     for_range 0 (par_M p) (\<lambda>i res.
       for_range 0 (par_N p - par_M p) (\<lambda>j res.
         res[j := ucast (FZRED_DOUBLE (ucast (res ! j)
                   + ucast (e ! i) * ucast (W_mat ! (i * (par_N p - par_M p) + j))))]) res)
       (replicate (par_N p - par_M p) 0 @ take (par_M p) e)"

subsection \<open>The macros on numbers\<close>

lemma unat_FZRED_SINGLE: "unat (FZRED_SINGLE x) = unat x mod 128 + unat x div 128"
proof -
  have "unat x mod 128 < 128" by simp
  moreover have "unat x div 128 < 33554432"
    by (rule less_mult_imp_div_less) simp
  ultimately have "unat x mod 128 + unat x div 128 < 4294967296" by linarith
  then show ?thesis unfolding FZRED_SINGLE_def by (subst unat_add32) (simp_all add: unat_simps)
qed

lemma FZRED_SINGLE_mod: "unat (FZRED_SINGLE x) mod Z = unat x mod Z"
  unfolding unat_FZRED_SINGLE Z_def by (rule mod_127_fold)

lemma FZRED_DOUBLE_mod: "unat (FZRED_DOUBLE x) mod Z = unat x mod Z"
  by (simp add: FZRED_DOUBLE_def FZRED_SINGLE_mod)

lemma fold_127_le:
  assumes "(x :: nat) \<le> 254"
  shows "x mod 128 + x div 128 \<le> 127"
proof (cases "x < 128")
  case False
  then have "x div 128 = 1" and "x mod 128 = x - 128"
    using assms by (auto simp: div_if mod_if)
  then show ?thesis using assms by simp
qed simp

lemma FZRED_SINGLE_le: "unat x \<le> 254 \<Longrightarrow> unat (FZRED_SINGLE x) \<le> Z"
  unfolding unat_FZRED_SINGLE Z_def by (rule fold_127_le)

lemma FZRED_DOUBLE_le:
  assumes "unat x \<le> 16383"
  shows "unat (FZRED_DOUBLE x) \<le> Z"
proof -
  have "unat x div 128 < 128" by (rule less_mult_imp_div_less) (use assms in simp)
  moreover have "unat x mod 128 < 128" by simp
  ultimately have "unat (FZRED_SINGLE x) \<le> 254" unfolding unat_FZRED_SINGLE by linarith
  then show ?thesis unfolding FZRED_DOUBLE_def by (rule FZRED_SINGLE_le)
qed

lemma unat_FZ_DOUBLE_ZERO_NORM:
  assumes "unat x \<le> 253"
  shows "unat (FZ_DOUBLE_ZERO_NORM x) = unat x mod Z"
proof -
  have 1: "unat (x + 1) = unat x + 1"
    using assms by (subst unat_add32) simp_all
  have d: "(unat x + 1) div 128 = (if unat x < 127 then 0 else 1)"
    using assms by (auto simp: div_if)
  have "unat (x + drop_bit 7 (x + 1)) = unat x + (unat x + 1) div 128"
    using assms d by (subst unat_add32) (simp_all add: unat_drop_bit 1)
  then have "unat (FZ_DOUBLE_ZERO_NORM x) = (unat x + (unat x + 1) div 128) mod 128"
    by (simp add: FZ_DOUBLE_ZERO_NORM_def unat_and_7f)
  also have "\<dots> = unat x mod 127"
    using assms d by (auto simp: mod_if)
  finally show ?thesis by (simp add: Z_def)
qed

lemma unat_FZRED_OPPOSITE:
  assumes "unat x \<le> 127"
  shows "unat (FZRED_OPPOSITE x) = 127 - unat x"
proof -
  have "unat x mod 128 = unat x" using assms by simp
  then have m: "x AND 0x7f = x" by (simp add: word_eq_unat unat_and_7f)
  have "x XOR 0x7f = 0x7f - x"
    unfolding word_7f by (rule xor_mask_eq_diff) (simp add: m take_bit_eq_mask flip: word_7f)
  moreover have "unat (0x7f - x) = 127 - unat x"
    using assms by (subst unat_diff) simp_all
  ultimately show ?thesis by (simp add: FZRED_OPPOSITE_def)
qed

subsection \<open>Vectors\<close>

text \<open>
  An element stands for the residue of its byte; \<open>fz_ok\<close> is the redundant range of the code, and
  \<open>fz_canon\<close> the canonical range that \<open>fz_dz_norm\<close> establishes.
\<close>

definition fz_ok :: "u8 list \<Rightarrow> bool" where
  "fz_ok v \<longleftrightarrow> (\<forall>x\<in>set v. unat x \<le> Z)"

definition fz_canon :: "u8 list \<Rightarrow> bool" where
  "fz_canon v \<longleftrightarrow> (\<forall>x\<in>set v. unat x < Z)"

lemma fz_canon_ok: "fz_canon v \<Longrightarrow> fz_ok v"
  by (auto simp: fz_canon_def fz_ok_def intro: less_imp_le)

lemma fz_okD: "fz_ok v \<Longrightarrow> i < length v \<Longrightarrow> unat (v ! i) \<le> 127"
  by (auto simp: fz_ok_def Z_def)

lemma fz_canonD: "fz_canon v \<Longrightarrow> i < length v \<Longrightarrow> unat (v ! i) < 127"
  by (auto simp: fz_canon_def Z_def)

definition dz_norm :: "u8 \<Rightarrow> u8" where
  "dz_norm x = ucast (FZ_DOUBLE_ZERO_NORM (ucast x))"

lemma unat_dz_norm: "unat x \<le> 253 \<Longrightarrow> unat (dz_norm x) = unat x mod Z"
  unfolding dz_norm_def
  by (subst unat_ucast_small) (auto simp: unat_FZ_DOUBLE_ZERO_NORM Z_def)

lemma fz_dz_norm_n_eq: "length v = par_N p \<Longrightarrow> fz_dz_norm_n p v = map dz_norm v"
  unfolding fz_dz_norm_n_def dz_norm_def [symmetric]
  by (subst for_range_update) (auto intro: nth_equalityI)

lemma fz_dz_norm_m_eq: "length v = par_M p \<Longrightarrow> fz_dz_norm_m p v = map dz_norm v"
  unfolding fz_dz_norm_m_def dz_norm_def [symmetric]
  by (subst for_range_update) (auto intro: nth_equalityI)

lemma fz_canon_dz_norm: "fz_ok v \<Longrightarrow> fz_canon (map dz_norm v)"
  by (auto simp: fz_ok_def fz_canon_def unat_dz_norm Z_def)

text \<open>Subtraction: the residue of the difference, in the redundant range.\<close>

definition fz_sub :: "u8 \<Rightarrow> u8 \<Rightarrow> u8" where
  "fz_sub a b = ucast (FZRED_SINGLE (ucast a + FZRED_OPPOSITE (ucast b)))"

lemma unat_fz_sub:
  assumes "unat a \<le> 127" and "unat b \<le> 127"
  shows "unat (fz_sub a b) \<le> 127" and "unat (fz_sub a b) mod 127 = (unat a + (127 - unat b)) mod 127"
proof -
  have o: "unat (FZRED_OPPOSITE (ucast b)) = 127 - unat b"
    using assms(2) by (simp add: unat_FZRED_OPPOSITE)
  have s: "unat (ucast a + FZRED_OPPOSITE (ucast b)) = unat a + (127 - unat b)"
    using assms by (subst unat_add32) (simp_all add: o)
  have le: "unat (FZRED_SINGLE (ucast a + FZRED_OPPOSITE (ucast b))) \<le> 127"
    by (rule FZRED_SINGLE_le [unfolded Z_def]) (use assms s in simp)
  then have e: "unat (fz_sub a b) = unat (FZRED_SINGLE (ucast a + FZRED_OPPOSITE (ucast b)))"
    unfolding fz_sub_def by (subst unat_ucast_small) simp_all
  show "unat (fz_sub a b) \<le> 127" using le e by simp
  show "unat (fz_sub a b) mod 127 = (unat a + (127 - unat b)) mod 127"
    unfolding e using FZRED_SINGLE_mod [unfolded Z_def] s by simp
qed

lemma fz_vec_sub_n_eq: "fz_vec_sub_n p a b = map (\<lambda>i. fz_sub (a ! i) (b ! i)) [0..<par_N p]"
  by (simp add: fz_vec_sub_n_def fz_sub_def)

lemma fz_vec_sub_m_eq: "fz_vec_sub_m p a b = map (\<lambda>i. fz_sub (a ! i) (b ! i)) [0..<par_M p]"
  by (simp add: fz_vec_sub_m_def fz_sub_def)

text \<open>The range test of the verifier.\<close>

lemma is_fz_vec_in_restr_group_m_iff:
  "length v = par_M p \<Longrightarrow> is_fz_vec_in_restr_group_m p v \<longleftrightarrow> fz_canon v"
  by (auto simp: is_fz_vec_in_restr_group_m_def for_range_conj fz_canon_def in_set_conv_nth Ball_def)

lemma is_fz_vec_in_restr_group_n_iff:
  "length v = par_N p \<Longrightarrow> is_fz_vec_in_restr_group_n p v \<longleftrightarrow> fz_canon v"
  by (auto simp: is_fz_vec_in_restr_group_n_def for_range_conj fz_canon_def in_set_conv_nth Ball_def)

subsection \<open>The product with \<open>M_G = [W | I]\<close>\<close>

text \<open>The mathematical product: residue of column \<open>j\<close> of \<open>e * [W | I]\<close>.\<close>

definition fz_dot :: "cross_params \<Rightarrow> u8 list \<Rightarrow> u8 list \<Rightarrow> nat \<Rightarrow> nat" where
  "fz_dot p e W_mat j = (\<Sum>i<par_M p. unat (e ! i) * unat (W_mat ! (i * (par_N p - par_M p) + j)))"

definition fz_mac :: "u8 \<Rightarrow> u8 \<Rightarrow> u8 \<Rightarrow> u8" where
  "fz_mac r e w = ucast (FZRED_DOUBLE (ucast r + ucast e * ucast w))"

lemma unat_fz_mac:
  assumes "unat r \<le> 127" and "unat e \<le> 127" and "unat w \<le> 127"
  shows "unat (fz_mac r e w) \<le> 127"
    and "unat (fz_mac r e w) mod 127 = (unat r + unat e * unat w) mod 127"
proof -
  have "unat e * unat w \<le> 127 * 127" using assms by (intro mult_mono) auto
  then have b: "unat r + unat e * unat w \<le> 16383" using assms(1) by linarith
  then have m: "unat (ucast e * ucast w :: u32) = unat e * unat w"
    by (subst unat_mult32) simp_all
  have s: "unat (ucast r + ucast e * ucast w :: u32) = unat r + unat e * unat w"
    using b by (subst unat_add32) (simp_all add: m)
  have le: "unat (FZRED_DOUBLE (ucast r + ucast e * ucast w)) \<le> 127"
    by (rule FZRED_DOUBLE_le [unfolded Z_def]) (use b s in simp)
  then have e: "unat (fz_mac r e w) = unat (FZRED_DOUBLE (ucast r + ucast e * ucast w))"
    unfolding fz_mac_def by (subst unat_ucast_small) simp_all
  show "unat (fz_mac r e w) \<le> 127" using le e by simp
  show "unat (fz_mac r e w) mod 127 = (unat r + unat e * unat w) mod 127"
    unfolding e using FZRED_DOUBLE_mod [unfolded Z_def] s by simp
qed

lemma fz_inf_w_by_fz_matrix_eq:
  assumes "length e = par_M p"
  shows "fz_inf_w_by_fz_matrix p e W_mat
    = map (\<lambda>j. for_range 0 (par_M p)
        (\<lambda>i r. fz_mac r (e ! i) (W_mat ! (i * (par_N p - par_M p) + j))) 0) [0..<par_N p - par_M p] @ e"
  unfolding fz_inf_w_by_fz_matrix_def fz_mac_def [symmetric]
  by (subst for_range_matrix) (auto simp: assms nth_append intro!: nth_equalityI)

lemma fz_column:
  assumes "\<forall>i<m. unat (e ! i) \<le> 127" and "\<forall>i<m. unat (w i) \<le> 127"
  shows "unat (for_range 0 m (\<lambda>i r. fz_mac r (e ! i) (w i)) 0) \<le> 127 \<and>
    unat (for_range 0 m (\<lambda>i r. fz_mac r (e ! i) (w i)) 0) mod 127
      = (\<Sum>i<m. unat (e ! i) * unat (w i)) mod 127"
  using assms
proof (induction m)
  case 0
  then show ?case by simp
next
  case (Suc m)
  let ?r = "for_range 0 m (\<lambda>i r. fz_mac r (e ! i) (w i)) 0"
  have IH: "unat ?r \<le> 127" "unat ?r mod 127 = (\<Sum>i<m. unat (e ! i) * unat (w i)) mod 127"
    using Suc by simp_all
  note mac = unat_fz_mac [of ?r "e ! m" "w m"]
  have m: "unat (e ! m) \<le> 127" "unat (w m) \<le> 127" using Suc.prems by simp_all
  have "(unat ?r + unat (e ! m) * unat (w m)) mod 127
      = ((\<Sum>i<m. unat (e ! i) * unat (w i)) + unat (e ! m) * unat (w m)) mod 127"
    by (rule mod_add_cong [OF IH(2) refl])
  then show ?case
    using mac(1) [OF IH(1) m] mac(2) [OF IH(1) m] by (simp add: for_range_Suc)
qed

text \<open>Sizes: \<open>mat_ok\<close> says that a flat matrix has its entries, all of them canonical.\<close>

definition fz_mat_ok :: "cross_params \<Rightarrow> u8 list \<Rightarrow> bool" where
  "fz_mat_ok p w \<longleftrightarrow> length w = par_M p * (par_N p - par_M p) \<and> fz_canon w"

lemma mat_index: "i < m \<Longrightarrow> j < n \<Longrightarrow> i * n + j < m * (n :: nat)"
proof -
  assume "i < m" and "j < n"
  then have "i * n + j < Suc i * n" by simp
  also have "\<dots> \<le> m * n" using \<open>i < m\<close> by (intro mult_le_mono1) simp
  finally show ?thesis .
qed

lemma fz_inf_w_nth:
  assumes "length e = par_M p" and "fz_ok e" and "fz_mat_ok p W_mat" and "j < par_N p - par_M p"
  shows "unat (fz_inf_w_by_fz_matrix p e W_mat ! j) \<le> 127"
    and "unat (fz_inf_w_by_fz_matrix p e W_mat ! j) mod 127 = fz_dot p e W_mat j mod 127"
proof -
  have w: "\<forall>i<par_M p. unat (W_mat ! (i * (par_N p - par_M p) + j)) \<le> 127"
    using assms(3,4) by (auto simp: fz_mat_ok_def mat_index intro!: fz_okD fz_canon_ok)
  have e: "\<forall>i<par_M p. unat (e ! i) \<le> 127" using assms(1,2) by (auto intro: fz_okD)
  note col = fz_column [OF e w]
  from assms(4) show "unat (fz_inf_w_by_fz_matrix p e W_mat ! j) \<le> 127"
    using col by (simp add: fz_inf_w_by_fz_matrix_eq assms(1) nth_append)
  from assms(4) show "unat (fz_inf_w_by_fz_matrix p e W_mat ! j) mod 127 = fz_dot p e W_mat j mod 127"
    using col by (simp add: fz_inf_w_by_fz_matrix_eq assms(1) nth_append fz_dot_def)
qed

lemma length_fz_inf_w [simp, len_simps]:
  "length e = par_M p \<Longrightarrow> par_M p \<le> par_N p \<Longrightarrow> length (fz_inf_w_by_fz_matrix p e W_mat) = par_N p"
  by (simp add: fz_inf_w_by_fz_matrix_eq)

lemma fz_inf_w_tail:
  "length e = par_M p \<Longrightarrow> j < par_M p \<Longrightarrow> par_M p \<le> par_N p \<Longrightarrow>
    fz_inf_w_by_fz_matrix p e W_mat ! (par_N p - par_M p + j) = e ! j"
  unfolding fz_inf_w_by_fz_matrix_eq by (subst nth_append) (simp, arith)

lemma fz_ok_fz_inf_w:
  assumes "length e = par_M p" and "fz_ok e" and "fz_mat_ok p W_mat"
  shows "fz_ok (fz_inf_w_by_fz_matrix p e W_mat)"
proof -
  have "\<forall>x\<in>set (map (\<lambda>j. for_range 0 (par_M p)
      (\<lambda>i r. fz_mac r (e ! i) (W_mat ! (i * (par_N p - par_M p) + j))) 0) [0..<par_N p - par_M p]). unat x \<le> Z"
    using fz_inf_w_nth(1) [OF assms] by (auto simp: fz_inf_w_by_fz_matrix_eq assms(1) nth_append Z_def)
  with assms(2) show ?thesis by (auto simp: fz_inf_w_by_fz_matrix_eq assms(1) fz_ok_def)
qed

end
