(* ===== verification/Cross_Fp.thy ===== *)
theory Cross_Fp
  imports Cross_Fz
begin

text \<open>
  \<open>fp_arith.h\<close>: arithmetic in the prime field of order \<open>P = 509\<close>, and the map from exponents to
  powers of the generator \<open>g = 16\<close> of the restricted group.  Every operation is shown to return the
  canonical residue of its mathematical counterpart.
\<close>

definition FPRED_SINGLE :: "u64 \<Rightarrow> u64" where
  "FPRED_SINGLE x = x - drop_bit 40 (x * 2160140723) * of_nat P"

definition FPRED_DOUBLE :: "u64 \<Rightarrow> u64" where
  "FPRED_DOUBLE x = FPRED_SINGLE x"

text \<open>\<open>P - (x)\<close> with \<open>x\<close> a reduced element: a non-negative \<open>int\<close>.\<close>

definition FPRED_OPPOSITE :: "u16 \<Rightarrow> u64" where
  "FPRED_OPPOSITE x = FPRED_SINGLE (ucast (of_nat P - ucast x :: u32))"

definition FP_DOUBLE_ZERO_NORM :: "u16 \<Rightarrow> u16" where
  "FP_DOUBLE_ZERO_NORM x = x"

definition RESTR_G_GEN_1 :: u32 where "RESTR_G_GEN_1 = of_nat RESTR_G_GEN"
definition RESTR_G_GEN_2 :: u32 where "RESTR_G_GEN_2 = 256"
definition RESTR_G_GEN_4 :: u32 where "RESTR_G_GEN_4 = 384"
definition RESTR_G_GEN_8 :: u32 where "RESTR_G_GEN_8 = 355"
definition RESTR_G_GEN_16 :: u32 where "RESTR_G_GEN_16 = 302"
definition RESTR_G_GEN_32 :: u32 where "RESTR_G_GEN_32 = 93"
definition RESTR_G_GEN_64 :: u32 where "RESTR_G_GEN_64 = 505"

definition FP_ELEM_CMOV :: "u32 \<Rightarrow> u32 \<Rightarrow> u32 \<Rightarrow> u32" where
  "FP_ELEM_CMOV BIT TRUE_V FALSE_V = ((0 - BIT) AND TRUE_V) OR (NOT (0 - BIT) AND FALSE_V)"

definition RESTR_TO_VAL :: "u16 \<Rightarrow> u16" where
  "RESTR_TO_VAL x =
     (let bit_of = (\<lambda>k. ucast (drop_bit k x AND 1) :: u32);
          res1 = FP_ELEM_CMOV (bit_of 0) RESTR_G_GEN_1 1 * FP_ELEM_CMOV (bit_of 1) RESTR_G_GEN_2 1;
          res2 = FP_ELEM_CMOV (bit_of 2) RESTR_G_GEN_4 1 * FP_ELEM_CMOV (bit_of 3) RESTR_G_GEN_8 1;
          res3 = FP_ELEM_CMOV (bit_of 4) RESTR_G_GEN_16 1 * FP_ELEM_CMOV (bit_of 5) RESTR_G_GEN_32 1;
          res4 = FP_ELEM_CMOV (bit_of 6) RESTR_G_GEN_64 1
      in ucast (FPRED_SINGLE (FPRED_SINGLE (ucast (res1 * res2)) * FPRED_SINGLE (ucast (res3 * res4)))))"

text \<open>\<open>FP_DOUBLEPREC\<close> products and sums, \<open>uint32_t\<close>.\<close>

definition fp_mac :: "u16 \<Rightarrow> u16 \<Rightarrow> u16 \<Rightarrow> u16" where
  "fp_mac r a b = ucast (FPRED_DOUBLE (ucast (ucast r + ucast a * ucast b :: u32)))"

definition fp_dz_norm_synd :: "cross_params \<Rightarrow> u16 list \<Rightarrow> u16 list" where
  "fp_dz_norm_synd p v = for_range 0 (par_N p - par_K p)
     (\<lambda>i v. v[i := FP_DOUBLE_ZERO_NORM (v ! i)]) v"

definition fp_dz_norm :: "cross_params \<Rightarrow> u16 list \<Rightarrow> u16 list" where
  "fp_dz_norm p v = for_range 0 (par_N p) (\<lambda>i v. v[i := FP_DOUBLE_ZERO_NORM (v ! i)]) v"

definition restr_vec_by_fp_matrix :: "cross_params \<Rightarrow> u8 list \<Rightarrow> u16 list \<Rightarrow> u16 list" where
  "restr_vec_by_fp_matrix p e V_tr =
     for_range 0 (par_K p) (\<lambda>i. for_range 0 (par_N p - par_K p) (\<lambda>j res.
         res[j := fp_mac (res ! j) (RESTR_TO_VAL (ucast (e ! i)))
                    (V_tr ! (i * (par_N p - par_K p) + j))]))
       (map (\<lambda>i. RESTR_TO_VAL (ucast (e ! i))) [par_K p..<par_N p])"

definition fp_vec_by_fp_matrix :: "cross_params \<Rightarrow> u16 list \<Rightarrow> u16 list \<Rightarrow> u16 list" where
  "fp_vec_by_fp_matrix p e V_tr =
     for_range 0 (par_K p) (\<lambda>i. for_range 0 (par_N p - par_K p) (\<lambda>j res.
         res[j := fp_mac (res ! j) (e ! i) (V_tr ! (i * (par_N p - par_K p) + j))]))
       (seg e (par_K p) (par_N p - par_K p))"

definition fp_vec_by_fp_vec_pointwise :: "cross_params \<Rightarrow> u16 list \<Rightarrow> u16 list \<Rightarrow> u16 list" where
  "fp_vec_by_fp_vec_pointwise p in1 in2 =
     map (\<lambda>i. ucast (FPRED_DOUBLE (ucast (ucast (in1 ! i) * ucast (in2 ! i) :: u32)))) [0..<par_N p]"

definition restr_by_fp_vec_pointwise :: "cross_params \<Rightarrow> u8 list \<Rightarrow> u16 list \<Rightarrow> u16 list" where
  "restr_by_fp_vec_pointwise p in1 in2 =
     map (\<lambda>i. ucast (FPRED_DOUBLE (ucast (ucast (RESTR_TO_VAL (ucast (in1 ! i))) * ucast (in2 ! i) :: u32))))
       [0..<par_N p]"

definition fp_vec_by_restr_vec_scaled ::
    "cross_params \<Rightarrow> u8 list \<Rightarrow> u16 \<Rightarrow> u16 list \<Rightarrow> u16 list" where
  "fp_vec_by_restr_vec_scaled p e chall_1 u_prime =
     map (\<lambda>i. fp_mac (u_prime ! i) (RESTR_TO_VAL (ucast (e ! i))) chall_1) [0..<par_N p]"

definition fp_synd_minus_fp_vec_scaled ::
    "cross_params \<Rightarrow> u16 list \<Rightarrow> u16 \<Rightarrow> u16 list \<Rightarrow> u16 list" where
  "fp_synd_minus_fp_vec_scaled p synd chall_1 s =
     map (\<lambda>j. let tmp = ucast (FPRED_DOUBLE (ucast (ucast (s ! j) * ucast chall_1 :: u32)));
                 tmp = FP_DOUBLE_ZERO_NORM tmp
             in ucast (FPRED_SINGLE (ucast (synd ! j) + FPRED_OPPOSITE tmp)))
       [0..<par_N p - par_K p]"

definition convert_restr_vec_to_fp :: "cross_params \<Rightarrow> u8 list \<Rightarrow> u16 list" where
  "convert_restr_vec_to_fp p v = map (\<lambda>j. RESTR_TO_VAL (ucast (v ! j))) [0..<par_N p]"

subsection \<open>Barrett reduction\<close>

text \<open>\<open>2160140723 = \<lceil>2 ^ 40 / 509\<rceil>\<close>, exact for every \<open>uint32_t\<close>.\<close>

lemma div_509:
  assumes "(x :: nat) < 4294967296"
  shows "x * 2160140723 div 1099511627776 = x div 509"
proof -
  define q r where "q = x div 509" and "r = x mod 509"
  have x: "x = 509 * q + r" and r: "r < 509" by (simp_all add: q_def r_def)
  have "q < 8438050" unfolding q_def by (rule less_mult_imp_div_less) (use assms in simp)
  with r have "231 * q + r * 2160140723 < 1099511627776" by linarith
  moreover have "x * 2160140723 = (231 * q + r * 2160140723) + q * 1099511627776"
    unfolding x by (simp add: algebra_simps)
  ultimately have "x * 2160140723 div 1099511627776 = q"
    by (simp only: div_mult_self1 [of "1099511627776 :: nat"] div_less add_0_right add_0 zero_neq_numeral not_False_eq_True)
  then show ?thesis by (simp add: q_def)
qed

lemma unat_FPRED_SINGLE:
  assumes "unat x < 4294967296"
  shows "unat (FPRED_SINGLE x) = unat x mod P"
proof -
  have m: "unat (x * 2160140723) = unat x * 2160140723"
    using assms by (subst unat_mult64) simp_all
  have d: "unat (drop_bit 40 (x * 2160140723)) = unat x div 509"
    using div_509 [OF assms] by (simp add: unat_drop_bit m)
  have le: "unat x div 509 * 509 \<le> unat x" by simp
  have "unat (drop_bit 40 (x * 2160140723) * of_nat P) = unat x div 509 * 509"
  proof -
    have "unat (drop_bit 40 (x * 2160140723)) * unat (of_nat P :: u64) = unat x div 509 * 509"
      by (simp add: d P_def)
    then show ?thesis using le assms by (subst unat_mult64) simp_all
  qed
  then show ?thesis
    using le unfolding FPRED_SINGLE_def P_def
    by (subst unat_diff) (simp_all add: minus_div_mult_eq_mod)
qed

lemma unat_FPRED_DOUBLE:
  "unat x < 4294967296 \<Longrightarrow> unat (FPRED_DOUBLE x) = unat x mod P"
  by (simp add: FPRED_DOUBLE_def unat_FPRED_SINGLE)

lemma P_pos [simp]: "0 < P"
  by (simp add: P_def)

lemma mod_P_lt: "x mod P < 65536"
  using mod_less_divisor [OF P_pos, of x] by (simp add: P_def)

lemma unat_FPRED_32: "unat (ucast (FPRED_SINGLE (ucast (x :: u32))) :: u16) = unat x mod P"
  by (subst unat_ucast_small) (simp_all add: unat_FPRED_SINGLE mod_P_lt)

lemma unat_FPRED_DOUBLE_32: "unat (ucast (FPRED_DOUBLE (ucast (x :: u32))) :: u16) = unat x mod P"
  by (simp add: FPRED_DOUBLE_def unat_FPRED_32)

subsection \<open>Powers of the generator\<close>

lemma FP_ELEM_CMOV_cases:
  "FP_ELEM_CMOV 0 t f = f" "FP_ELEM_CMOV 1 t f = t"
  by (simp_all add: FP_ELEM_CMOV_def)

lemma drop_bit_and_1: "drop_bit k x AND 1 = (if bit x k then 1 else (0 :: 'a::len word))"
  by (simp add: and_one_eq odd_iff_mod_2_eq_one [symmetric] bit_iff_odd_drop_bit mod_2_eq_odd)

lemma CMOV_bit:
  "FP_ELEM_CMOV (ucast (drop_bit k (x :: u16) AND 1)) t f = (if bit x k then t else f)"
  by (simp add: drop_bit_and_1 FP_ELEM_CMOV_cases)

lemma digit_step: "(m :: nat) div k = m div (k * 2) * 2 + m div k mod 2"
  by (simp add: div_mult2_eq)

lemma seven_digits:
  assumes "(n :: nat) < 128"
  shows "n = n mod 2 + n div 2 mod 2 * 2 + n div 4 mod 2 * 4 + n div 8 mod 2 * 8
    + n div 16 mod 2 * 16 + n div 32 mod 2 * 32 + n div 64 mod 2 * 64"
proof -
  define a where "a k = n div k" for k
  define b where "b k = n div k mod 2" for k
  have d: "a k = a (k * 2) * 2 + b k" for k
    unfolding a_def b_def by (rule digit_step)
  have "a 128 = 0" using assms by (simp add: a_def)
  with d [of 1] d [of 2] d [of 4] d [of 8] d [of 16] d [of 32] d [of 64]
  have "a 1 = b 1 + b 2 * 2 + b 4 * 4 + b 8 * 8 + b 16 * 16 + b 32 * 32 + b 64 * 64"
    by simp
  then show ?thesis by (simp add: a_def b_def)
qed

lemma bit_digit: "bit x k \<longleftrightarrow> unat x div 2 ^ k mod 2 = 1"
proof -
  have "bit x k \<longleftrightarrow> bit (unat x) k" by (simp add: bit_unsigned_iff)
  then show ?thesis by (simp add: bit_iff_odd odd_iff_mod_2_eq_one)
qed

text \<open>\<open>pow_digit\<close>: the factor that bit \<open>d\<close> contributes to a power of the generator.\<close>

lemma pow_digit:
  assumes "(g :: nat) = 16 ^ w mod 509"
  shows "16 ^ (d mod 2 * w) mod 509 = (if d mod 2 = 1 then g else 1) mod (509 :: nat)"
  using assms by (cases "d mod 2 = 1") (auto simp: not_mod_2_eq_1_eq_0)

lemma RESTR_G_GEN_powers:
  "(16 :: nat) = 16 ^ 1 mod 509" "(256 :: nat) = 16 ^ 2 mod 509" "(384 :: nat) = 16 ^ 4 mod 509"
  "(355 :: nat) = 16 ^ 8 mod 509" "(302 :: nat) = 16 ^ 16 mod 509" "(93 :: nat) = 16 ^ 32 mod 509"
  "(505 :: nat) = 16 ^ 64 mod 509"
  by simp_all

lemma mod_mult7:
  assumes "a1 mod m = b1 mod m" "a2 mod m = b2 mod m" "a3 mod m = b3 mod m" "a4 mod m = b4 mod m"
    "a5 mod m = b5 mod m" "a6 mod m = b6 mod m" "a7 mod m = b7 mod (m :: nat)"
  shows "(a1 * a2 * (a3 * a4) * (a5 * a6 * a7)) mod m = (b1 * b2 * (b3 * b4) * (b5 * b6 * b7)) mod m"
  by (intro mod_mult_cong assms)

definition if_bit :: "nat \<Rightarrow> nat \<Rightarrow> nat" where
  "if_bit d g = (if d mod 2 = 1 then g else 1)"

lemma generator_power:
  assumes "n < 128"
  shows "16 ^ n mod 509 = (if_bit n 16 * if_bit (n div 2) 256 * (if_bit (n div 4) 384 * if_bit (n div 8) 355)
    * (if_bit (n div 16) 302 * if_bit (n div 32) 93 * if_bit (n div 64) 505)) mod (509 :: nat)"
proof -
  have "(16 :: nat) ^ n = 16 ^ (n mod 2 * 1) * 16 ^ (n div 2 mod 2 * 2)
      * (16 ^ (n div 4 mod 2 * 4) * 16 ^ (n div 8 mod 2 * 8))
      * (16 ^ (n div 16 mod 2 * 16) * 16 ^ (n div 32 mod 2 * 32) * 16 ^ (n div 64 mod 2 * 64))"
    by (subst seven_digits [OF assms]) (simp only: power_add mult.assoc mult_1_right)
  then show ?thesis
    unfolding if_bit_def
    by (simp only:) (rule mod_mult7; rule pow_digit; rule RESTR_G_GEN_powers)
qed

lemma unat_if_bit:
  "unat (if bit (x :: u16) k then g else 1 :: u32) = if_bit (unat x div 2 ^ k) (unat g)"
  by (simp add: if_bit_def bit_digit)

lemma if_bit_le: "1 \<le> g \<Longrightarrow> if_bit d g \<le> g"
  by (simp add: if_bit_def)

lemma unat_mult_le32:
  assumes "unat (x :: u32) = a" and "unat y = b" and "a \<le> c" and "b \<le> d" and "c * d < 4294967296"
  shows "unat (x * y) = a * b \<and> a * b \<le> c * d"
proof -
  have "a * b \<le> c * d" using assms(3,4) by (rule mult_le_mono)
  with assms show ?thesis by (subst unat_mult32) simp_all
qed

lemma RESTR_TO_VAL_correct:
  assumes "unat x < 128"
  shows "unat (RESTR_TO_VAL x) = RESTR_G_GEN ^ unat x mod P"
proof -
  define n where "n = unat x"
  define cm where "cm k g = (if bit x k then g else 1 :: u32)" for k g
  have c: "unat (cm k g) = if_bit (n div 2 ^ k) (unat g)" for k g
    unfolding cm_def n_def by (rule unat_if_bit)
  define A where "A = cm 0 RESTR_G_GEN_1 * cm 1 RESTR_G_GEN_2 * (cm 2 RESTR_G_GEN_4 * cm 3 RESTR_G_GEN_8)"
  define B where "B = cm 4 RESTR_G_GEN_16 * cm 5 RESTR_G_GEN_32 * cm 6 RESTR_G_GEN_64"
  note G = RESTR_G_GEN_1_def RESTR_G_GEN_2_def RESTR_G_GEN_4_def RESTR_G_GEN_8_def RESTR_G_GEN_16_def
    RESTR_G_GEN_32_def RESTR_G_GEN_64_def RESTR_G_GEN_def
  have c0: "unat (cm 0 RESTR_G_GEN_1) = if_bit n 16" and c1: "unat (cm 1 RESTR_G_GEN_2) = if_bit (n div 2) 256"
    and c2: "unat (cm 2 RESTR_G_GEN_4) = if_bit (n div 4) 384" and c3: "unat (cm 3 RESTR_G_GEN_8) = if_bit (n div 8) 355"
    and c4: "unat (cm 4 RESTR_G_GEN_16) = if_bit (n div 16) 302" and c5: "unat (cm 5 RESTR_G_GEN_32) = if_bit (n div 32) 93"
    and c6: "unat (cm 6 RESTR_G_GEN_64) = if_bit (n div 64) 505"
    by (simp_all add: c G)
  have le: "if_bit d 16 \<le> 16" "if_bit d 256 \<le> 256" "if_bit d 384 \<le> 384" "if_bit d 355 \<le> 355"
      "if_bit d 302 \<le> 302" "if_bit d 93 \<le> 93" "if_bit d 505 \<le> 505" for d
    by (rule if_bit_le, simp)+
  have num: "(16 * 256 :: nat) < 4294967296" "(384 * 355 :: nat) < 4294967296" "(302 * 93 :: nat) < 4294967296"
      "(16 * 256) * (384 * 355) < (4294967296 :: nat)" "(302 * 93) * 505 < (4294967296 :: nat)"
    by simp_all
  note r1 = unat_mult_le32 [OF c0 c1 le(1,2) num(1)] and r2 = unat_mult_le32 [OF c2 c3 le(3,4) num(2)]
    and r3 = unat_mult_le32 [OF c4 c5 le(5,6) num(3)]
  have A: "unat A = if_bit n 16 * if_bit (n div 2) 256 * (if_bit (n div 4) 384 * if_bit (n div 8) 355)"
    unfolding A_def by (rule conjunct1 [OF unat_mult_le32
        [OF r1 [THEN conjunct1] r2 [THEN conjunct1] r1 [THEN conjunct2] r2 [THEN conjunct2] num(4)]])
  have B: "unat B = if_bit (n div 16) 302 * if_bit (n div 32) 93 * if_bit (n div 64) 505"
    unfolding B_def by (rule conjunct1 [OF unat_mult_le32
        [OF r3 [THEN conjunct1] c6 r3 [THEN conjunct2] le(7) num(5)]])
  have lt: "m mod 509 * (k mod 509) < (4294967296 :: nat)" for m k :: nat
  proof -
    have "m mod 509 * (k mod 509) \<le> 508 * 508" by (rule mult_le_mono) (simp_all add: less_Suc_eq_le [symmetric])
    then show ?thesis by simp
  qed
  have "unat (FPRED_SINGLE (ucast A) * FPRED_SINGLE (ucast B)) = unat A mod 509 * (unat B mod 509)"
    using lt [of "unat A" "unat B"]
    by (subst unat_mult64) (simp_all add: unat_FPRED_SINGLE P_def)
  then have "unat (FPRED_SINGLE (FPRED_SINGLE (ucast A) * FPRED_SINGLE (ucast B)))
      = unat A * unat B mod 509"
    using lt [of "unat A" "unat B"] by (subst unat_FPRED_SINGLE) (simp_all add: P_def mod_mult_eq)
  then have "unat (ucast (FPRED_SINGLE (FPRED_SINGLE (ucast A) * FPRED_SINGLE (ucast B))) :: u16)
      = 16 ^ n mod 509"
    unfolding generator_power [OF assms [folded n_def]] A [symmetric] B [symmetric]
    using mod_P_lt by (subst unat_ucast_small) (simp_all add: P_def)
  moreover have "RESTR_TO_VAL x = ucast (FPRED_SINGLE (FPRED_SINGLE (ucast A) * FPRED_SINGLE (ucast B)))"
    unfolding RESTR_TO_VAL_def Let_def CMOV_bit A_def B_def cm_def by (rule refl)
  ultimately show ?thesis by (simp add: n_def P_def RESTR_G_GEN_def)
qed

text \<open>The generator has order \<open>Z\<close>, so that an exponent may be given by any redundant representative.\<close>

lemma generator_order: "RESTR_G_GEN ^ Z mod P = 1"
  by (simp add: RESTR_G_GEN_def Z_def P_def)

lemma generator_pow_mod: "RESTR_G_GEN ^ (n mod Z) mod P = RESTR_G_GEN ^ n mod P"
proof -
  have "RESTR_G_GEN ^ n = (RESTR_G_GEN ^ Z) ^ (n div Z) * RESTR_G_GEN ^ (n mod Z)"
    by (simp flip: power_mult power_add)
  moreover have "(RESTR_G_GEN ^ Z) ^ k mod P = 1" for k
    using generator_order by (induction k) (auto simp: P_def mod_mult_left_eq intro: trans [OF mod_mult_eq [symmetric]])
  ultimately show ?thesis by (metis mod_mult_left_eq mult_1)
qed

lemma generator_cong:
  assumes "m mod Z = n mod Z"
  shows "RESTR_G_GEN ^ m mod P = RESTR_G_GEN ^ n mod P"
  using generator_pow_mod [of m] generator_pow_mod [of n] assms by simp

definition gpow :: "u8 \<Rightarrow> nat" where
  "gpow x = RESTR_G_GEN ^ unat x mod P"

lemma gpow_lt: "gpow x < P"
  by (simp add: gpow_def)

lemma unat_RESTR_TO_VAL [simp]:
  "unat x \<le> 127 \<Longrightarrow> unat (RESTR_TO_VAL (ucast (x :: u8))) = gpow x"
  by (subst RESTR_TO_VAL_correct) (simp_all add: gpow_def)

subsection \<open>Vectors\<close>

definition fp_canon :: "u16 list \<Rightarrow> bool" where
  "fp_canon v \<longleftrightarrow> (\<forall>x\<in>set v. unat x < P)"

text \<open>The range of unpacked elements, nine bits each.\<close>

definition fp_ok :: "u16 list \<Rightarrow> bool" where
  "fp_ok v \<longleftrightarrow> (\<forall>x\<in>set v. unat x < 512)"

lemma fp_canonD: "fp_canon v \<Longrightarrow> i < length v \<Longrightarrow> unat (v ! i) < P"
  by (auto simp: fp_canon_def)

lemma fp_okD: "fp_ok v \<Longrightarrow> i < length v \<Longrightarrow> unat (v ! i) < 512"
  by (auto simp: fp_ok_def)

lemma fp_canon_ok: "fp_canon v \<Longrightarrow> fp_ok v"
  by (force simp: fp_canon_def fp_ok_def P_def)

lemma fp_dz_norm_id [simp]: "fp_dz_norm p v = v"
  unfolding fp_dz_norm_def FP_DOUBLE_ZERO_NORM_def
  by (rule for_range_inv_const [where Q = "\<lambda>w. w = v"]) auto

lemma fp_dz_norm_synd_id [simp]: "fp_dz_norm_synd p v = v"
  unfolding fp_dz_norm_synd_def FP_DOUBLE_ZERO_NORM_def
  by (rule for_range_inv_const [where Q = "\<lambda>w. w = v"]) auto

lemma unat_mult_u16: "unat (ucast (a :: u16) * ucast (b :: u16) :: u32) = unat a * unat b"
proof -
  have "unat a * unat b \<le> 65535 * 65535" by (rule mult_le_mono) (simp_all add: less_Suc_eq_le [symmetric])
  then show ?thesis by (subst unat_mult32) simp_all
qed

lemma unat_fp_mac: "unat (fp_mac r a b) = (unat r + unat a * unat b) mod P"
proof -
  have "unat a * unat b \<le> 65535 * 65535" by (rule mult_le_mono) (simp_all add: less_Suc_eq_le [symmetric])
  moreover have "unat r < 65536" by simp
  ultimately have "unat r + unat a * unat b < 4294967296" by linarith
  then have "unat (ucast r + ucast a * ucast b :: u32) = unat r + unat a * unat b"
    by (subst unat_add32) (simp_all add: unat_mult_u16)
  then show ?thesis by (simp add: fp_mac_def unat_FPRED_DOUBLE_32)
qed

lemma unat_fp_mac_lt: "unat (fp_mac r a b) < P"
  by (simp add: unat_fp_mac)

subsection \<open>The product with the parity-check matrix \<open>[V; I]\<close>\<close>

definition fp_mat_ok :: "cross_params \<Rightarrow> u16 list \<Rightarrow> bool" where
  "fp_mat_ok p v \<longleftrightarrow> length v = par_K p * (par_N p - par_K p) \<and> fp_canon v"

definition fp_dot :: "cross_params \<Rightarrow> (nat \<Rightarrow> nat) \<Rightarrow> u16 list \<Rightarrow> nat \<Rightarrow> nat" where
  "fp_dot p x V_tr j = x (par_K p + j)
     + (\<Sum>i<par_K p. x i * unat (V_tr ! (i * (par_N p - par_K p) + j)))"

lemma fp_column:
  "unat (for_range 0 m (\<lambda>i r. fp_mac r (a i) (w i)) r0) mod P
      = (unat r0 + (\<Sum>i<m. unat (a i) * unat (w i))) mod P"
proof (induction m)
  case 0
  then show ?case by simp
next
  case (Suc m)
  let ?r = "for_range 0 m (\<lambda>i r. fp_mac r (a i) (w i)) r0"
  have "(unat ?r + unat (a m) * unat (w m)) mod P
      = (unat r0 + (\<Sum>i<m. unat (a i) * unat (w i)) + unat (a m) * unat (w m)) mod P"
    by (rule mod_add_cong [OF Suc refl])
  then show ?case by (simp add: for_range_Suc unat_fp_mac add.assoc)
qed

lemma fp_column_lt: "0 < m \<Longrightarrow> unat (for_range 0 m (\<lambda>i r. fp_mac r (a i) (w i)) r0) < P"
  by (cases m) (simp_all add: for_range_Suc unat_fp_mac_lt)

lemma fp_vec_by_fp_matrix_nth:
  assumes "length u = par_N p" and "0 < par_K p" and "par_K p \<le> par_N p" and "j < par_N p - par_K p"
  shows "unat (fp_vec_by_fp_matrix p u V_tr ! j) = fp_dot p (\<lambda>i. unat (u ! i)) V_tr j mod P"
proof -
  have "fp_vec_by_fp_matrix p u V_tr ! j = for_range 0 (par_K p)
      (\<lambda>i r. fp_mac r (u ! i) (V_tr ! (i * (par_N p - par_K p) + j))) (u ! (par_K p + j))"
    unfolding fp_vec_by_fp_matrix_def
    by (subst for_range_matrix) (use assms in \<open>simp_all add: nth_append nth_seg\<close>)
  then show ?thesis
    using fp_column [of "par_K p" "\<lambda>i. u ! i"] fp_column_lt [OF assms(2), of "\<lambda>i. u ! i"]
    by (simp add: fp_dot_def)
qed

lemma restr_vec_by_fp_matrix_nth:
  assumes "length e = par_N p" and "fz_ok e" and "0 < par_K p" and "par_K p \<le> par_N p"
    and "j < par_N p - par_K p"
  shows "unat (restr_vec_by_fp_matrix p e V_tr ! j) = fp_dot p (\<lambda>i. gpow (e ! i)) V_tr j mod P"
proof -
  have "restr_vec_by_fp_matrix p e V_tr ! j = for_range 0 (par_K p)
      (\<lambda>i r. fp_mac r (RESTR_TO_VAL (ucast (e ! i))) (V_tr ! (i * (par_N p - par_K p) + j)))
      (RESTR_TO_VAL (ucast (e ! (par_K p + j))))"
    unfolding restr_vec_by_fp_matrix_def
    by (subst for_range_matrix) (use assms in \<open>simp_all add: nth_append\<close>)
  moreover have "unat (RESTR_TO_VAL (ucast (e ! i))) = gpow (e ! i)" if "i < par_N p" for i
    using assms that by (simp add: fz_okD)
  ultimately show ?thesis
    using fp_column [of "par_K p" "\<lambda>i. RESTR_TO_VAL (ucast (e ! i))"] assms(4,5)
      fp_column_lt [OF assms(3), of "\<lambda>i. RESTR_TO_VAL (ucast (e ! i))"]
    by (simp add: fp_dot_def)
qed

lemma length_fp_vec_by_fp_matrix [simp, len_simps]:
  "length u = par_N p \<Longrightarrow> par_K p \<le> par_N p \<Longrightarrow>
    length (fp_vec_by_fp_matrix p u V_tr) = par_N p - par_K p"
  unfolding fp_vec_by_fp_matrix_def by (subst for_range_matrix) simp_all

lemma length_restr_vec_by_fp_matrix [simp, len_simps]:
  "length (restr_vec_by_fp_matrix p e V_tr) = par_N p - par_K p"
  unfolding restr_vec_by_fp_matrix_def by (subst for_range_matrix) simp_all

subsection \<open>Pointwise operations\<close>

lemma fp_pointwise_nth:
  "i < par_N p \<Longrightarrow> unat (fp_vec_by_fp_vec_pointwise p a b ! i) = unat (a ! i) * unat (b ! i) mod P"
  by (simp add: fp_vec_by_fp_vec_pointwise_def unat_FPRED_DOUBLE_32 unat_mult_u16)

lemma restr_pointwise_nth:
  "i < par_N p \<Longrightarrow> length a = par_N p \<Longrightarrow> fz_ok a \<Longrightarrow>
    unat (restr_by_fp_vec_pointwise p a b ! i) = gpow (a ! i) * unat (b ! i) mod P"
  by (simp add: restr_by_fp_vec_pointwise_def unat_FPRED_DOUBLE_32 unat_mult_u16 fz_okD)

lemma fp_scaled_nth:
  "i < par_N p \<Longrightarrow> length e = par_N p \<Longrightarrow> fz_ok e \<Longrightarrow>
    unat (fp_vec_by_restr_vec_scaled p e c u ! i) = (unat (u ! i) + gpow (e ! i) * unat c) mod P"
  by (simp add: fp_vec_by_restr_vec_scaled_def unat_fp_mac fz_okD)

lemma convert_restr_nth:
  "i < par_N p \<Longrightarrow> length e = par_N p \<Longrightarrow> fz_ok e \<Longrightarrow>
    unat (convert_restr_vec_to_fp p e ! i) = gpow (e ! i)"
  by (simp add: convert_restr_vec_to_fp_def fz_okD)

lemma unat_FPRED_OPPOSITE:
  assumes "unat x < P"
  shows "unat (FPRED_OPPOSITE x) = (P - unat x) mod P"
proof -
  have "unat (of_nat P - ucast x :: u32) = P - unat x"
    using assms by (subst unat_diff) (simp_all add: P_def)
  then show ?thesis unfolding FPRED_OPPOSITE_def by (subst unat_FPRED_SINGLE) (simp_all add: P_def)
qed

lemma fp_synd_minus_nth:
  assumes "j < par_N p - par_K p"
  shows "unat (fp_synd_minus_fp_vec_scaled p h c s ! j)
    = (unat (h ! j) + (P - unat (s ! j) * unat c mod P)) mod P"
proof -
  let ?t = "ucast (FPRED_DOUBLE (ucast (ucast (s ! j) * ucast c :: u32))) :: u16"
  have t: "unat ?t = unat (s ! j) * unat c mod P"
    by (simp add: unat_FPRED_DOUBLE_32 unat_mult_u16)
  have o: "unat (FPRED_OPPOSITE ?t) = (P - unat ?t) mod P"
    by (rule unat_FPRED_OPPOSITE) (simp add: t)
  have b: "unat (h ! j) < 65536" and "(P - unat ?t) mod P < 65536" by (simp_all add: mod_P_lt)
  then have lt: "unat (h ! j) + (P - unat ?t) mod P < 4294967296" by linarith
  then have a: "unat (ucast (h ! j) + FPRED_OPPOSITE ?t) = unat (h ! j) + (P - unat ?t) mod P"
    by (subst unat_add64) (simp_all add: o)
  have "unat (ucast (FPRED_SINGLE (ucast (h ! j) + FPRED_OPPOSITE ?t)) :: u16)
      = (unat (h ! j) + (P - unat ?t) mod P) mod P"
    using lt by (subst unat_ucast_small) (simp_all add: unat_FPRED_SINGLE a mod_P_lt)
  then show ?thesis
    using assms by (simp add: fp_synd_minus_fp_vec_scaled_def FP_DOUBLE_ZERO_NORM_def Let_def t mod_add_right_eq)
qed

lemma length_fp_ops [simp, len_simps]:
  "length (fp_vec_by_fp_vec_pointwise p a b) = par_N p"
  "length (restr_by_fp_vec_pointwise p x b) = par_N p"
  "length (fp_vec_by_restr_vec_scaled p x c u) = par_N p"
  "length (fp_synd_minus_fp_vec_scaled p a c u) = par_N p - par_K p"
  "length (convert_restr_vec_to_fp p x) = par_N p"
  by (simp_all add: fp_vec_by_fp_vec_pointwise_def restr_by_fp_vec_pointwise_def
      fp_vec_by_restr_vec_scaled_def fp_synd_minus_fp_vec_scaled_def convert_restr_vec_to_fp_def)

lemma fp_canon_nthI:
  assumes "\<And>i. i < length v \<Longrightarrow> unat (v ! i) < P"
  shows "fp_canon v"
  using assms by (auto simp: fp_canon_def in_set_conv_nth)

lemma fp_list_eqI:
  assumes "length v = length w" and "\<And>i. i < length v \<Longrightarrow> unat (v ! i) = unat (w ! i)"
  shows "v = (w :: 'a::len word list)"
  by (rule nth_equalityI) (use assms in \<open>auto simp: word_eq_unat\<close>)

end
