(* ===== verification/Cross_Pack.thy ===== *)
theory Cross_Pack
  imports Cross_Fp
begin

text \<open>
  \<open>pack_unpack.c\<close>: dense packing of 7-bit and 9-bit elements into bytes, eight elements to seven
  (nine) bytes, with a tail.  The unrolled statements of a block are indexed by \<open>k\<close>: statement \<open>k\<close>
  of block \<open>i\<close> writes byte \<open>i * 7 + k\<close> (\<open>i * 9 + k\<close>); the tail of \<open>n_remainder\<close> elements is a prefix of
  them, its last statement without the element that does not exist.  The lemmas read both
  routines bit by bit and give the round trip and the canonicity of the encoding.
\<close>

definition or_at :: "u8 list \<Rightarrow> nat \<Rightarrow> u8 \<Rightarrow> u8 list" where
  "or_at out i v = out[i := out ! i OR v]"

subsection \<open>Seven-bit elements\<close>

text \<open>\<open>(in[i*8+k] >> k) | (in[i*8+k+1] << (7-k))\<close>, truncated to \<open>uint8_t\<close>.\<close>

definition pack7_stmt :: "u8 list \<Rightarrow> nat \<Rightarrow> nat \<Rightarrow> u8" where
  "pack7_stmt inp i k = ucast ((drop_bit k (ucast (inp ! (i * 8 + k))) :: u32)
     OR push_bit (7 - k) (ucast (inp ! (i * 8 + k + 1))))"

text \<open>The last statement of the tail: \<open>in[i*8+k] >> k\<close>.\<close>

definition pack7_last :: "u8 list \<Rightarrow> nat \<Rightarrow> nat \<Rightarrow> u8" where
  "pack7_last inp i k = ucast (drop_bit k (ucast (inp ! (i * 8 + k))) :: u32)"

definition generic_pack_7_bit :: "u8 list \<Rightarrow> nat \<Rightarrow> nat \<Rightarrow> u8 list" where
  "generic_pack_7_bit inp outlen inlen =
     (let out = replicate outlen 0;
          i = inlen div 8;
          out = for_range 0 i (\<lambda>i. for_range 0 7 (\<lambda>k out. or_at out (i * 7 + k) (pack7_stmt inp i k))) out;
          n_remainder = inlen mod 8
      in if n_remainder = 0 then out
         else let out = for_range 0 (n_remainder - 1)
                    (\<lambda>k out. or_at out (i * 7 + k) (pack7_stmt inp i k)) out;
                  v = pack7_last inp i (n_remainder - 1)
              in if n_remainder \<le> 3 then out[i * 7 + (n_remainder - 1) := v]
                 else or_at out (i * 7 + (n_remainder - 1)) v)"

text \<open>Statement \<open>k\<close> of a block of \<open>generic_unpack_7_bit\<close>; the result also tells whether the padding is zero.\<close>

definition unpack7_stmt :: "u8 list \<Rightarrow> nat \<Rightarrow> nat \<Rightarrow> u8" where
  "unpack7_stmt inp i k =
     (if k = 0 then inp ! (i * 7) AND 0x7f
      else if k < 7 then ucast ((drop_bit (8 - k) (ucast (inp ! (i * 7 + k - 1))) :: u32)
                      OR (push_bit k (ucast (inp ! (i * 7 + k))) AND 0x7f))
      else drop_bit 1 (inp ! (i * 7 + 6)))"

definition generic_unpack_7_bit :: "u8 list \<Rightarrow> nat \<Rightarrow> nat \<Rightarrow> u8 list \<times> bool" where
  "generic_unpack_7_bit inp outlen inlen =
     (let out = replicate outlen 0;
          i = outlen div 8;
          out = for_range 0 i (\<lambda>i. for_range 0 8 (\<lambda>k out. out[i * 8 + k := unpack7_stmt inp i k])) out;
          n_remainder = outlen mod 8;
          out = for_range 0 n_remainder (\<lambda>k out. out[i * 8 + k := unpack7_stmt inp i k]) out;
          is_packed_padd_ok = (if n_remainder > 0
            then (ucast (inp ! (inlen - 1)) :: u32) AND push_bit (8 - n_remainder) 0xff = 0
            else True)
      in (out, is_packed_padd_ok))"

subsection \<open>Nine-bit elements\<close>

definition pack9_stmt :: "u16 list \<Rightarrow> nat \<Rightarrow> nat \<Rightarrow> u8" where
  "pack9_stmt inp i k =
     (if k = 0 then ucast (inp ! (i * 8))
      else if k < 8 then ucast ((drop_bit (9 - k) (ucast (inp ! (i * 8 + k - 1))) :: u32)
                      OR push_bit k (ucast (inp ! (i * 8 + k))))
      else ucast (drop_bit 1 (ucast (inp ! (i * 8 + 7))) :: u32))"

text \<open>Byte 0 of a block is assigned, the others are or-ed into the cleared array.\<close>

definition pack9_put :: "u16 list \<Rightarrow> nat \<Rightarrow> nat \<Rightarrow> u8 list \<Rightarrow> u8 list" where
  "pack9_put inp i k out = (if k = 0 then out[i * 9 + k := pack9_stmt inp i k]
     else or_at out (i * 9 + k) (pack9_stmt inp i k))"

definition pack9_last :: "u16 list \<Rightarrow> nat \<Rightarrow> nat \<Rightarrow> u8" where
  "pack9_last inp i k = ucast (drop_bit (9 - k) (ucast (inp ! (i * 8 + k - 1))) :: u32)"

definition generic_pack_9_bit :: "u16 list \<Rightarrow> nat \<Rightarrow> nat \<Rightarrow> u8 list" where
  "generic_pack_9_bit inp outlen inlen =
     (let out = replicate outlen 0;
          i = inlen div 8;
          out = for_range 0 i (\<lambda>i. for_range 0 9 (\<lambda>k. pack9_put inp i k)) out;
          n_remainder = inlen mod 8
      in if n_remainder = 0 then out
         else let out = for_range 0 n_remainder (\<lambda>k. pack9_put inp i k) out
              in or_at out (i * 9 + n_remainder) (pack9_last inp i n_remainder))"

definition unpack9_stmt :: "u8 list \<Rightarrow> nat \<Rightarrow> nat \<Rightarrow> u16" where
  "unpack9_stmt inp i k = ucast (((drop_bit k (ucast (inp ! (i * 9 + k))) :: u32)
     OR push_bit (8 - k) (ucast (inp ! (i * 9 + k + 1)))) AND 0x1ff)"

definition generic_unpack_9_bit :: "u8 list \<Rightarrow> nat \<Rightarrow> nat \<Rightarrow> u16 list \<times> bool" where
  "generic_unpack_9_bit inp outlen inlen =
     (let out = replicate outlen 0;
          i = inlen div 9;
          out = for_range 0 i (\<lambda>i. for_range 0 8 (\<lambda>k out. out[i * 8 + k := unpack9_stmt inp i k])) out;
          n_remainder = outlen mod 8;
          out = for_range 0 n_remainder (\<lambda>k out. out[i * 8 + k := unpack9_stmt inp i k]) out;
          is_packed_padd_ok = (if n_remainder > 0
            then (ucast (inp ! (inlen - 1)) :: u32) AND push_bit n_remainder 0xff = 0
            else True)
      in (out, is_packed_padd_ok))"

subsection \<open>The entry points\<close>

definition pack_fp_vec :: "cross_params \<Rightarrow> u16 list \<Rightarrow> bytes" where
  "pack_fp_vec p v = generic_pack_9_bit v (DENSELY_PACKED_FP_VEC_SIZE p) (par_N p)"

definition pack_fp_syn :: "cross_params \<Rightarrow> u16 list \<Rightarrow> bytes" where
  "pack_fp_syn p v = generic_pack_9_bit v (DENSELY_PACKED_FP_SYN_SIZE p) (par_N p - par_K p)"

definition pack_fz_vec :: "cross_params \<Rightarrow> u8 list \<Rightarrow> bytes" where
  "pack_fz_vec p v = generic_pack_7_bit v (DENSELY_PACKED_FZ_VEC_SIZE p) (par_N p)"

definition pack_fz_rsdp_g_vec :: "cross_params \<Rightarrow> u8 list \<Rightarrow> bytes" where
  "pack_fz_rsdp_g_vec p v = generic_pack_7_bit v (DENSELY_PACKED_FZ_RSDP_G_VEC_SIZE p) (par_M p)"

definition unpack_fp_vec :: "cross_params \<Rightarrow> bytes \<Rightarrow> u16 list \<times> bool" where
  "unpack_fp_vec p b = generic_unpack_9_bit b (par_N p) (DENSELY_PACKED_FP_VEC_SIZE p)"

definition unpack_fp_syn :: "cross_params \<Rightarrow> bytes \<Rightarrow> u16 list \<times> bool" where
  "unpack_fp_syn p b = generic_unpack_9_bit b (par_N p - par_K p) (DENSELY_PACKED_FP_SYN_SIZE p)"

definition unpack_fz_vec :: "cross_params \<Rightarrow> bytes \<Rightarrow> u8 list \<times> bool" where
  "unpack_fz_vec p b = generic_unpack_7_bit b (par_N p) (DENSELY_PACKED_FZ_VEC_SIZE p)"

definition unpack_fz_rsdp_g_vec :: "cross_params \<Rightarrow> bytes \<Rightarrow> u8 list \<times> bool" where
  "unpack_fz_rsdp_g_vec p b = generic_unpack_7_bit b (par_M p) (DENSELY_PACKED_FZ_RSDP_G_VEC_SIZE p)"

subsection \<open>Cell by cell\<close>

lemma mod_div_block: "0 < w \<Longrightarrow> (B div w) * w + B mod w = (B :: nat)"
  by simp

lemma block_index: "k < w \<Longrightarrow> (i * w + k) div w = i \<and> (i * w + k) mod w = (k :: nat)"
  by simp

text \<open>
  The bytes of the packed array: the formula of the statements, with the missing element of the
  tail read as 0.
\<close>

definition pack7_byte :: "u8 list \<Rightarrow> nat \<Rightarrow> nat \<Rightarrow> u8" where
  "pack7_byte inp n B = (if B = n div 8 * 7 + (n mod 8 - 1) \<and> n mod 8 \<noteq> 0
     then pack7_last inp (B div 7) (B mod 7) else pack7_stmt inp (B div 7) (B mod 7))"

lemma for_range_write:
  assumes "n \<le> m"
  shows "for_range 0 n (\<lambda>B xs. xs[B := f B (xs ! B)]) (replicate m z)
    = map (\<lambda>B. f B z) [0..<n] @ replicate (m - n) z"
  using assms by (subst for_range_update) (auto intro!: nth_equalityI simp: nth_append)

text \<open>
  The shape shared by the four routines: blocks of \<open>w\<close> statements, then the first \<open>c\<close> statements of
  a last block, write each cell once.
\<close>

lemma blocks_then_tail:
  assumes "\<And>i k. k < w \<Longrightarrow> F i k = g (i * w + k)" and "c \<le> w"
  shows "for_range 0 c (F m) (for_range 0 m (\<lambda>i. for_range 0 w (F i)) s) = for_range 0 (m * w + c) g s"
proof -
  have "for_range 0 m (\<lambda>i. for_range 0 w (F i)) s = for_range 0 m (\<lambda>i. for_range 0 w (\<lambda>k. g (i * w + k))) s"
    by (intro for_range_cong) (simp add: assms(1))
  then have 1: "for_range 0 m (\<lambda>i. for_range 0 w (F i)) s = for_range 0 (m * w) g s"
    by (simp only: for_range_nest)
  have "for_range 0 c (F m) t = for_range 0 c (\<lambda>k. g (m * w + k)) t" for t
    by (intro for_range_cong) (use assms in auto)
  then have 2: "for_range 0 c (F m) t = for_range (m * w) (m * w + c) g t" for t
    by (simp only: for_range_shift)
  show ?thesis unfolding 1 2 by (rule for_range_split [symmetric]) simp_all
qed

lemma tail_size7:
  assumes "(outlen :: nat) = (7 * n + 7) div 8"
  shows "outlen = n div 8 * 7 + n mod 8"
proof -
  define m r where "m = n div 8" and "r = n mod 8"
  have "n = m * 8 + r" and r: "r < 8" by (simp_all add: m_def r_def)
  then have n: "7 * n + 7 = 8 * (7 * m) + (7 * r + 7)" by simp
  have "(7 * r + 7) div 8 = r" by (rule div_nat_eqI) (use r in simp_all)
  then show ?thesis unfolding assms n m_def [symmetric] r_def [symmetric] by simp
qed

lemma tail_size9:
  assumes "(outlen :: nat) = (9 * n + 7) div 8"
  shows "outlen = n div 8 * 9 + (if n mod 8 = 0 then 0 else n mod 8 + 1)"
proof -
  define m r where "m = n div 8" and "r = n mod 8"
  have "n = m * 8 + r" and r: "r < 8" by (simp_all add: m_def r_def)
  then have n: "9 * n + 7 = 8 * (9 * m) + (9 * r + 7)" by simp
  have "(9 * r + 7) div 8 = (if r = 0 then 0 else r + 1)" by (rule div_nat_eqI) (use r in auto)
  then show ?thesis unfolding assms n m_def [symmetric] r_def [symmetric] by simp
qed

lemma generic_pack_7_bit_eq:
  assumes "outlen = (7 * n + 7) div 8"
  shows "generic_pack_7_bit inp outlen n = map (pack7_byte inp n) [0..<outlen]"
proof -
  define m r where "m = n div 8" and "r = n mod 8"
  have r: "r < 8" by (simp add: r_def)
  have len: "outlen = m * 7 + r" using tail_size7 [OF assms] by (simp add: m_def r_def)
  define g where "g B xs = xs[B := xs ! B OR pack7_stmt inp (B div 7) (B mod 7)]" for B xs
  have blocks: "for_range 0 c (\<lambda>k out. or_at out (m * 7 + k) (pack7_stmt inp m k))
      (for_range 0 m (\<lambda>i. for_range 0 7 (\<lambda>k out. or_at out (i * 7 + k) (pack7_stmt inp i k))) (replicate outlen 0))
      = map (\<lambda>B. pack7_stmt inp (B div 7) (B mod 7)) [0..<m * 7 + c] @ replicate (r - c) 0"
    if "c \<le> r" for c
  proof (subst blocks_then_tail [where g = g])
    show "for_range 0 (m * 7 + c) g (replicate outlen 0)
      = map (\<lambda>B. pack7_stmt inp (B div 7) (B mod 7)) [0..<m * 7 + c] @ replicate (r - c) 0"
      unfolding g_def using that by (subst for_range_write) (simp_all add: len)
  qed (use that r in \<open>simp_all add: g_def or_at_def fun_eq_iff\<close>)
  show ?thesis
  proof (cases "r = 0")
    case True
    then show ?thesis
      using blocks [of 0] by (simp add: generic_pack_7_bit_def Let_def m_def r_def pack7_byte_def len)
  next
    case False
    then obtain t where t: "r = Suc t" "t < 7" using r by (cases r) auto
    have last: "pack7_byte inp n (m * 7 + t) = pack7_last inp m t"
      using t by (simp add: pack7_byte_def m_def [symmetric] r_def [symmetric])
    have stmt: "map (\<lambda>B. pack7_stmt inp (B div 7) (B mod 7)) [0..<m * 7 + t] = map (pack7_byte inp n) [0..<m * 7 + t]"
      using t by (simp add: pack7_byte_def m_def [symmetric] r_def [symmetric])
    show ?thesis
      using blocks [of t] t len
      by (simp add: generic_pack_7_bit_def Let_def m_def [symmetric] r_def [symmetric] or_at_def stmt last
          list_update_append nth_append)
  qed
qed

lemma generic_unpack_7_bit_eq:
  "fst (generic_unpack_7_bit inp n inlen) = map (\<lambda>B. unpack7_stmt inp (B div 8) (B mod 8)) [0..<n]"
proof -
  define m r where "m = n div 8" and "r = n mod 8"
  have r: "r \<le> 8" and n: "n = m * 8 + r" by (simp_all add: m_def r_def less_imp_le)
  define g where "g B xs = xs[B := unpack7_stmt inp (B div 8) (B mod 8)]" for B xs
  have "fst (generic_unpack_7_bit inp n inlen)
      = for_range 0 r (\<lambda>k out. out[m * 8 + k := unpack7_stmt inp m k])
         (for_range 0 m (\<lambda>i. for_range 0 8 (\<lambda>k out. out[i * 8 + k := unpack7_stmt inp i k])) (replicate n 0))"
    by (simp add: generic_unpack_7_bit_def Let_def m_def r_def)
  also have "\<dots> = for_range 0 (m * 8 + r) g (replicate n 0)"
    by (rule blocks_then_tail) (use r in \<open>simp_all add: g_def fun_eq_iff\<close>)
  also have "\<dots> = map (\<lambda>B. unpack7_stmt inp (B div 8) (B mod 8)) [0..<n]"
    unfolding g_def n [symmetric] by (subst for_range_write) simp_all
  finally show ?thesis .
qed

lemma generic_unpack_9_bit_eq:
  assumes "inlen = (9 * n + 7) div 8"
  shows "fst (generic_unpack_9_bit inp n inlen) = map (\<lambda>B. unpack9_stmt inp (B div 8) (B mod 8)) [0..<n]"
proof -
  define m r where "m = n div 8" and "r = n mod 8"
  have r: "r < 8" and n: "n = m * 8 + r" by (simp_all add: m_def r_def)
  have "inlen = m * 9 + (if r = 0 then 0 else r + 1)" using tail_size9 [OF assms] by (simp add: m_def r_def)
  then have m: "inlen div 9 = m" using r by auto
  define g where "g B xs = xs[B := unpack9_stmt inp (B div 8) (B mod 8)]" for B xs
  have "fst (generic_unpack_9_bit inp n inlen)
      = for_range 0 r (\<lambda>k out. out[m * 8 + k := unpack9_stmt inp m k])
         (for_range 0 m (\<lambda>i. for_range 0 8 (\<lambda>k out. out[i * 8 + k := unpack9_stmt inp i k])) (replicate n 0))"
    by (simp add: generic_unpack_9_bit_def Let_def m r_def)
  also have "\<dots> = for_range 0 (m * 8 + r) g (replicate n 0)"
    by (rule blocks_then_tail) (use r in \<open>simp_all add: g_def fun_eq_iff\<close>)
  also have "\<dots> = map (\<lambda>B. unpack9_stmt inp (B div 8) (B mod 8)) [0..<n]"
    unfolding g_def n [symmetric] by (subst for_range_write) simp_all
  finally show ?thesis .
qed

definition pack9_byte :: "u16 list \<Rightarrow> nat \<Rightarrow> nat \<Rightarrow> u8" where
  "pack9_byte inp n B = (if B = n div 8 * 9 + n mod 8 \<and> n mod 8 \<noteq> 0
     then pack9_last inp (B div 9) (B mod 9) else pack9_stmt inp (B div 9) (B mod 9))"

lemma generic_pack_9_bit_eq:
  assumes "outlen = (9 * n + 7) div 8"
  shows "generic_pack_9_bit inp outlen n = map (pack9_byte inp n) [0..<outlen]"
proof -
  define m r where "m = n div 8" and "r = n mod 8"
  have r: "r < 8" by (simp add: r_def)
  have len: "outlen = m * 9 + (if r = 0 then 0 else r + 1)"
    using tail_size9 [OF assms] by (simp add: m_def r_def)
  define f where "f B z = (if B mod 9 = 0 then pack9_stmt inp (B div 9) (B mod 9)
      else z OR pack9_stmt inp (B div 9) (B mod 9))" for B z
  define g where "g B xs = xs[B := f B (xs ! B)]" for B xs
  have blocks: "for_range 0 r (\<lambda>k. pack9_put inp m k)
      (for_range 0 m (\<lambda>i. for_range 0 9 (\<lambda>k. pack9_put inp i k)) (replicate outlen 0))
      = map (\<lambda>B. pack9_stmt inp (B div 9) (B mod 9)) [0..<m * 9 + r] @ replicate (if r = 0 then 0 else 1) 0"
  proof (subst blocks_then_tail [where g = g])
    have "for_range 0 (m * 9 + r) g (replicate outlen 0)
      = map (\<lambda>B. f B 0) [0..<m * 9 + r] @ replicate (outlen - (m * 9 + r)) 0"
      unfolding g_def by (rule for_range_write) (simp add: len)
    then show "for_range 0 (m * 9 + r) g (replicate outlen 0)
      = map (\<lambda>B. pack9_stmt inp (B div 9) (B mod 9)) [0..<m * 9 + r] @ replicate (if r = 0 then 0 else 1) 0"
      by (simp add: len f_def)
  qed (use r in \<open>simp_all add: g_def f_def or_at_def pack9_put_def fun_eq_iff\<close>)
  show ?thesis
  proof (cases "r = 0")
    case True
    then show ?thesis
      using blocks by (simp add: generic_pack_9_bit_def Let_def m_def r_def pack9_byte_def len)
  next
    case False
    have last: "pack9_byte inp n (m * 9 + r) = pack9_last inp m r"
      using False r by (simp add: pack9_byte_def m_def [symmetric] r_def [symmetric])
    have stmt: "map (\<lambda>B. pack9_stmt inp (B div 9) (B mod 9)) [0..<m * 9 + r] = map (pack9_byte inp n) [0..<m * 9 + r]"
      by (simp add: pack9_byte_def m_def [symmetric] r_def [symmetric])
    show ?thesis
      using blocks False len
      by (simp add: generic_pack_9_bit_def Let_def m_def [symmetric] r_def [symmetric] or_at_def stmt last
          list_update_append nth_append)
  qed
qed

subsection \<open>Bit by bit\<close>

lemma bit_high: "unat (x :: 'a::len word) < 2 ^ w \<Longrightarrow> w \<le> j \<Longrightarrow> \<not> bit x j"
proof -
  assume x: "unat x < 2 ^ w" and j: "w \<le> j"
  then have "unat x < 2 ^ j" by (meson less_le_trans one_le_numeral power_increasing)
  then show "\<not> bit x j" by (simp add: bit_digit)
qed

lemma bits_lt_iff: "unat (x :: 'a::len word) < 2 ^ w \<longleftrightarrow> (\<forall>j\<ge>w. \<not> bit x j)"
proof
  assume "\<forall>j\<ge>w. \<not> bit x j"
  then have "take_bit w x = x" by (intro bit_word_eqI) (auto simp: bit_take_bit_iff not_le)
  then have "unat x = unat x mod 2 ^ w"
    by (metis take_bit_eq_mod unsigned_take_bit_eq)
  then show "unat x < 2 ^ w" by (metis mod_less_divisor zero_less_numeral zero_less_power)
qed (use bit_high in blast)

lemma bit_u8_range: "bit (x :: u8) j \<Longrightarrow> j < 8"
  using bit_imp_le_length by fastforce

lemma bit_u16_range: "bit (x :: u16) j \<Longrightarrow> j < 16"
  using bit_imp_le_length by fastforce

lemma bit_pack7_stmt:
  assumes "j < 8" and "k < 7" and "\<forall>x\<in>set inp. unat x < 128" and "i * 8 + k < length inp"
  shows "bit (pack7_stmt inp i k) j \<longleftrightarrow> (if k + j < 7 then bit (inp ! (i * 8 + k)) (k + j)
    else bit (inp ! (i * 8 + k + 1)) (k + j - 7))"
proof -
  have "\<not> bit (inp ! (i * 8 + k)) (k + j)" if "7 \<le> k + j"
    using that assms(3,4) by (intro bit_high [of _ 7]) auto
  moreover have "j - (7 - k) = k + j - 7" using assms(2) by simp
  ultimately show ?thesis
    using assms(1,2) by (auto simp: pack7_stmt_def bit_simps not_less le_diff_conv add.commute dest: bit_u8_range)
qed

lemma bit_pack7_last:
  assumes "j < 8" and "k < 7" and "\<forall>x\<in>set inp. unat x < 128" and "i * 8 + k < length inp"
  shows "bit (pack7_last inp i k) j \<longleftrightarrow> k + j < 7 \<and> bit (inp ! (i * 8 + k)) (k + j)"
proof -
  have "\<not> bit (inp ! (i * 8 + k)) (k + j)" if "7 \<le> k + j"
    using that assms(3,4) by (intro bit_high [of _ 7]) auto
  then show ?thesis
    using assms(1,2) by (auto simp: pack7_last_def bit_simps not_less add.commute not_le dest: bit_u8_range intro: ccontr)
qed

lemma bit_pack9_stmt:
  assumes "j < 8" and "k < 9" and "\<forall>x\<in>set inp. unat x < 512" and "0 < k \<Longrightarrow> i * 8 + k - 1 < length inp"
  shows "bit (pack9_stmt inp i k) j \<longleftrightarrow> (if j < k then bit (inp ! (i * 8 + k - 1)) (9 - k + j)
    else bit (inp ! (i * 8 + k)) (j - k))"
proof -
  have hi: "\<not> bit (inp ! (i * 8 + k - 1)) (9 - k + j)" if "k \<le> j" "0 < k"
    using that assms by (intro bit_high [of _ 9]) auto
  consider "k = 0" | "0 < k" "k < 8" | "k = 8" using assms(2) by linarith
  then show ?thesis
  proof cases
    case 1
    then show ?thesis using assms(1) by (simp add: pack9_stmt_def bit_simps)
  next
    case 2
    then show ?thesis
      using assms(1) hi by (auto simp: pack9_stmt_def bit_simps not_less dest: bit_u16_range)
  next
    case 3
    then show ?thesis using assms(1) by (simp add: pack9_stmt_def bit_simps add.commute)
  qed
qed

lemma bit_pack9_last:
  assumes "j < 8" and "0 < k" "k < 8" and "\<forall>x\<in>set inp. unat x < 512" and "i * 8 + k - 1 < length inp"
  shows "bit (pack9_last inp i k) j \<longleftrightarrow> j < k \<and> bit (inp ! (i * 8 + k - 1)) (9 - k + j)"
proof -
  have hi: "\<not> bit (inp ! (i * 8 + k - 1)) (9 - k + j)" if "k \<le> j"
    using that assms by (intro bit_high [of _ 9]) auto
  then show ?thesis
    using assms(1-3) by (auto simp: pack9_last_def bit_simps not_le dest: bit_u16_range intro: ccontr)
qed

text \<open>The bit stream of a vector of \<open>w\<close>-bit elements, and of a byte array.\<close>

definition stream_bit :: "nat \<Rightarrow> 'a::len word list \<Rightarrow> nat \<Rightarrow> bool" where
  "stream_bit w v b \<longleftrightarrow> b div w < length v \<and> bit (v ! (b div w)) (b mod w)"

lemma block_divmod:
  assumes "c < w"
  shows "(w * e + c) div w = e \<and> (w * e + c) mod w = (c :: nat)"
  using assms by simp

lemma stream_bit_index:
  "c < w \<Longrightarrow> stream_bit w v (w * e + c) \<longleftrightarrow> e < length v \<and> bit (v ! e) c"
  by (simp add: stream_bit_def)

lemma pack7_stream:
  assumes "\<forall>x\<in>set v. unat x < 128" and "B < (7 * length v + 7) div 8" and "j < 8"
  shows "bit (pack7_byte v (length v) B) j \<longleftrightarrow> stream_bit 7 v (8 * B + j)"
proof -
  define m r i k where "m = length v div 8" and "r = length v mod 8" and "i = B div 7" and "k = B mod 7"
  have n: "length v = m * 8 + r" and r: "r < 8" and B: "B = i * 7 + k" and k: "k < 7"
    by (simp_all add: m_def r_def i_def k_def)
  have "B < m * 7 + r" using assms(2) tail_size7 [OF refl, of "length v"] by (simp add: m_def r_def)
  then have im: "i < m \<or> i = m \<and> k < r"
    using B k r by (cases i m rule: linorder_cases) (auto dest!: Suc_leI)
  then have e: "i * 8 + k < length v"
    using n k by (auto dest!: Suc_leI)
  have last: "B = m * 7 + (r - 1) \<and> r \<noteq> 0 \<longleftrightarrow> i * 8 + k + 1 = length v"
    using im
  proof
    assume "i < m"
    then have "Suc i \<le> m" by simp
    then have "B < m * 7 + (r - 1)" "i * 8 + k + 1 < length v" using B n k by linarith+
    then show ?thesis by simp
  next
    assume "i = m \<and> k < r"
    then show ?thesis using B n by auto
  qed
  have pos: "8 * B + j = 7 * (i * 8 + k) + (k + j)" by (simp add: B)
  have stream: "stream_bit 7 v (8 * B + j) \<longleftrightarrow> (if k + j < 7 then bit (v ! (i * 8 + k)) (k + j)
      else i * 8 + k + 1 < length v \<and> bit (v ! (i * 8 + k + 1)) (k + j - 7))"
  proof (cases "k + j < 7")
    case True
    then show ?thesis unfolding pos by (subst stream_bit_index) (use e in simp_all)
  next
    case False
    then have "8 * B + j = 7 * (i * 8 + k + 1) + (k + j - 7)" and "k + j - 7 < 7"
      using pos k assms(3) by simp_all
    with False show ?thesis by (simp only: stream_bit_index if_False)
  qed
  have "pack7_byte v (length v) B
      = (if i * 8 + k + 1 = length v then pack7_last v i k else pack7_stmt v i k)"
    unfolding pack7_byte_def m_def [symmetric] r_def [symmetric] i_def [symmetric] k_def [symmetric] last
    by (rule refl)
  then show ?thesis
    using bit_pack7_stmt [OF assms(3) k assms(1) e] bit_pack7_last [OF assms(3) k assms(1) e] e
    unfolding stream by (cases "i * 8 + k + 1 = length v") auto
qed

lemma pack9_stream:
  assumes "\<forall>x\<in>set v. unat x < 512" and "B < (9 * length v + 7) div 8" and "j < 8"
  shows "bit (pack9_byte v (length v) B) j \<longleftrightarrow> stream_bit 9 v (8 * B + j)"
proof -
  define m r i k where "m = length v div 8" and "r = length v mod 8" and "i = B div 9" and "k = B mod 9"
  have n: "length v = m * 8 + r" and r: "r < 8" and B: "B = i * 9 + k" and k: "k < 9"
    by (simp_all add: m_def r_def i_def k_def)
  have "B < m * 9 + (if r = 0 then 0 else r + 1)"
    using assms(2) tail_size9 [OF refl, of "length v"] unfolding m_def r_def by (auto split: if_splits)
  then have im: "i < m \<or> i = m \<and> k \<le> r \<and> r \<noteq> 0"
    using B k r by (cases i m rule: linorder_cases) (auto dest!: Suc_leI split: if_splits)
  have e: "i * 8 + k - 1 < length v" if "0 < k"
    using im n k r that by (auto dest!: Suc_leI)
  have last: "B = m * 9 + r \<and> r \<noteq> 0 \<longleftrightarrow> i * 8 + k = length v \<and> k < 8"
    using im
  proof
    assume "i < m"
    then have "Suc i \<le> m" by simp
    then have "B < m * 9 + r" "k < 8 \<longrightarrow> i * 8 + k < length v" using B n k by linarith+
    then show ?thesis by auto
  next
    assume "i = m \<and> k \<le> r \<and> r \<noteq> 0"
    then show ?thesis using B n r by auto
  qed
  have "i * 8 + k \<le> length v" using im n k by (auto dest!: Suc_leI)
  have pos: "8 * B + j = 72 * i + 8 * k + j" by (simp add: B)
  have stream: "stream_bit 9 v (8 * B + j) \<longleftrightarrow> (if j < k then bit (v ! (i * 8 + k - 1)) (9 - k + j)
      else i * 8 + k < length v \<and> bit (v ! (i * 8 + k)) (j - k))"
  proof (cases "j < k")
    case True
    then have "8 * B + j = 9 * (i * 8 + k - 1) + (9 - k + j)" and "9 - k + j < 9"
      using pos k by simp_all
    then show ?thesis using True e by (simp only: stream_bit_index if_True) simp
  next
    case False
    then have "8 * B + j = 9 * (i * 8 + k) + (j - k)" and "j - k < 9"
      using pos assms(3) by simp_all
    with False show ?thesis by (simp only: stream_bit_index if_False)
  qed
  have "pack9_byte v (length v) B
      = (if i * 8 + k = length v \<and> k < 8 then pack9_last v i k else pack9_stmt v i k)"
    unfolding pack9_byte_def m_def [symmetric] r_def [symmetric] i_def [symmetric] k_def [symmetric] last
    by (rule refl)
  moreover have "0 < k" if "i * 8 + k = length v" "k < 8"
    using that im n by auto
  ultimately show ?thesis
    using bit_pack9_stmt [OF assms(3) k assms(1) e] bit_pack9_last [OF assms(3) _ _ assms(1) e]
      \<open>i * 8 + k \<le> length v\<close> assms(3) k
    unfolding stream by (cases "i * 8 + k = length v \<and> k < 8") auto
qed

lemma bit_unpack7_stmt:
  assumes "k < 8"
  shows "bit (unpack7_stmt inp i k) b \<longleftrightarrow> b < 7 \<and>
    (if b < k then bit (inp ! (i * 7 + k - 1)) (8 - k + b) else bit (inp ! (i * 7 + k)) (b - k))"
proof -
  consider "k = 0" | "0 < k" "k < 7" | "k = 7" using assms by linarith
  then show ?thesis
  proof cases
    case 1
    then show ?thesis unfolding unpack7_stmt_def word_7f by (auto simp: bit_simps)
  next
    case 2
    then show ?thesis
      unfolding unpack7_stmt_def word_7f by (auto simp: bit_simps dest: bit_u8_range)
  next
    case 3
    then show ?thesis
      by (auto simp: unpack7_stmt_def bit_simps add.commute dest: bit_u8_range)
  qed
qed

lemma bit_unpack9_stmt:
  assumes "k < 8"
  shows "bit (unpack9_stmt inp i k) b \<longleftrightarrow> b < 9 \<and>
    (if k + b < 8 then bit (inp ! (i * 9 + k)) (k + b) else bit (inp ! (i * 9 + k + 1)) (k + b - 8))"
  using assms unfolding unpack9_stmt_def word_1ff
  by (auto simp: bit_simps add.commute dest: bit_u8_range)

lemma unpack7_stream:
  assumes "e < n" and "length inp = (7 * n + 7) div 8" and "b < 7"
  shows "bit (unpack7_stmt inp (e div 8) (e mod 8)) b \<longleftrightarrow> stream_bit 8 inp (7 * e + b)"
proof -
  define i k where "i = e div 8" and "k = e mod 8"
  have ek: "e = i * 8 + k" and k: "k < 8" by (simp_all add: i_def k_def)
  have in_range: "(7 * e + b) div 8 < length inp"
    using assms by simp
  show ?thesis
  proof (cases "b < k")
    case True
    then have "7 * e + b = 8 * (i * 7 + k - 1) + (8 - k + b)" and "8 - k + b < 8"
      using ek k by simp_all
    then show ?thesis
      using True in_range assms(3) unfolding i_def [symmetric] k_def [symmetric] bit_unpack7_stmt [OF k]
      by (simp only: stream_bit_index block_divmod if_True)
  next
    case False
    then have "7 * e + b = 8 * (i * 7 + k) + (b - k)" and "b - k < 8"
      using ek assms(3) by simp_all
    then show ?thesis
      using False in_range assms(3) unfolding i_def [symmetric] k_def [symmetric] bit_unpack7_stmt [OF k]
      by (simp only: stream_bit_index block_divmod if_False)
  qed
qed

lemma unpack9_stream:
  assumes "e < n" and "length inp = (9 * n + 7) div 8" and "b < 9"
  shows "bit (unpack9_stmt inp (e div 8) (e mod 8)) b \<longleftrightarrow> stream_bit 8 inp (9 * e + b)"
proof -
  define i k where "i = e div 8" and "k = e mod 8"
  have ek: "e = i * 8 + k" and k: "k < 8" by (simp_all add: i_def k_def)
  have in_range: "(9 * e + b) div 8 < length inp"
    using assms by simp
  show ?thesis
  proof (cases "k + b < 8")
    case True
    then have "9 * e + b = 8 * (i * 9 + k) + (k + b)"
      using ek by simp
    then show ?thesis
      using True in_range assms(3) unfolding i_def [symmetric] k_def [symmetric] bit_unpack9_stmt [OF k]
      by (simp only: stream_bit_index block_divmod if_True)
  next
    case False
    then have "9 * e + b = 8 * (i * 9 + k + 1) + (k + b - 8)" and "k + b - 8 < 8"
      using ek k assms(3) by simp_all
    then show ?thesis
      using False in_range assms(3) unfolding i_def [symmetric] k_def [symmetric] bit_unpack9_stmt [OF k]
      by (simp only: stream_bit_index block_divmod if_False)
  qed
qed

text \<open>The padding test: no bit of the stream is set beyond the elements.\<close>

lemma padding_test:
  assumes "s < 8"
  shows "(ucast (x :: u8) :: u32) AND push_bit s 0xff = 0 \<longleftrightarrow> (\<forall>j\<ge>s. \<not> bit x j)"
proof
  assume z: "(ucast x :: u32) AND push_bit s 0xff = 0"
  show "\<forall>j\<ge>s. \<not> bit x j"
  proof (intro allI impI notI)
    fix j assume "s \<le> j" and b: "bit x j"
    then have "j < 8" by (simp add: bit_u8_range)
    then have "bit ((ucast x :: u32) AND push_bit s 0xff) j"
      using \<open>s \<le> j\<close> b unfolding word_ff by (simp add: bit_simps less_imp_diff_less)
    with z show False by simp
  qed
next
  assume "\<forall>j\<ge>s. \<not> bit x j"
  then show "(ucast x :: u32) AND push_bit s 0xff = 0"
    unfolding word_ff by (intro bit_word_eqI) (auto simp: bit_simps)
qed

lemma stream_padding:
  assumes "length inp = Suc l" and "t \<le> 8"
  shows "(\<forall>j\<ge>t. \<not> bit (inp ! l) j) \<longleftrightarrow> (\<forall>b\<ge>8 * l + t. \<not> stream_bit 8 (inp :: u8 list) b)"
proof
  assume h: "\<forall>j\<ge>t. \<not> bit (inp ! l) j"
  show "\<forall>b\<ge>8 * l + t. \<not> stream_bit 8 inp b"
  proof (intro allI impI)
    fix b assume b: "8 * l + t \<le> b"
    show "\<not> stream_bit 8 inp b"
    proof (cases "b div 8 = l")
      case True
      then have "b = 8 * l + b mod 8" by (metis mult_div_mod_eq)
      with b have "t \<le> b mod 8" by linarith
      with h True show ?thesis by (simp add: stream_bit_def)
    next
      case False
      moreover have "l \<le> b div 8" using b by simp
      ultimately show ?thesis using assms(1) by (simp add: stream_bit_def)
    qed
  qed
next
  assume h: "\<forall>b\<ge>8 * l + t. \<not> stream_bit 8 inp b"
  show "\<forall>j\<ge>t. \<not> bit (inp ! l) j"
  proof (intro allI impI)
    fix j assume j: "t \<le> j"
    show "\<not> bit (inp ! l) j"
    proof (cases "j < 8")
      case True
      then show ?thesis using h [rule_format, of "8 * l + j"] j assms(1) by (simp add: stream_bit_index)
    qed (auto dest: bit_u8_range)
  qed
qed

lemma stream_bit_beyond: "b \<ge> w * length v \<Longrightarrow> 0 < w \<Longrightarrow> \<not> stream_bit w v b"
  by (simp add: stream_bit_def not_less less_eq_div_iff_mult_less_eq mult.commute)

lemma generic_unpack_7_bit_pad:
  assumes "length inp = (7 * n + 7) div 8"
  shows "snd (generic_unpack_7_bit inp n (length inp)) \<longleftrightarrow> (\<forall>b\<ge>7 * n. \<not> stream_bit 8 inp b)"
proof -
  define m r where "m = n div 8" and "r = n mod 8"
  have n: "n = m * 8 + r" and r: "r < 8" by (simp_all add: m_def r_def)
  have len: "length inp = m * 7 + r" using tail_size7 [OF assms] by (simp add: m_def r_def)
  show ?thesis
  proof (cases "r = 0")
    case True
    then have "\<forall>b\<ge>7 * n. \<not> stream_bit 8 inp b"
      using stream_bit_beyond [of 8 inp] n len by auto
    with True show ?thesis by (simp add: generic_unpack_7_bit_def Let_def r_def)
  next
    case False
    then obtain l where l: "length inp = Suc l" "l = m * 7 + (r - 1)" using len by simp
    have "7 * n = 8 * l + (8 - r)" using n l False r by (simp add: algebra_simps)
    then show ?thesis
      using False r l(1) padding_test [of "8 - r" "inp ! l"] stream_padding [OF l(1), of "8 - r"]
      by (simp add: generic_unpack_7_bit_def Let_def r_def)
  qed
qed

lemma generic_unpack_9_bit_pad:
  assumes "length inp = (9 * n + 7) div 8"
  shows "snd (generic_unpack_9_bit inp n (length inp)) \<longleftrightarrow> (\<forall>b\<ge>9 * n. \<not> stream_bit 8 inp b)"
proof -
  define m r where "m = n div 8" and "r = n mod 8"
  have n: "n = m * 8 + r" and r: "r < 8" by (simp_all add: m_def r_def)
  have len: "length inp = m * 9 + (if r = 0 then 0 else r + 1)"
    using tail_size9 [OF assms] by (simp add: m_def r_def)
  show ?thesis
  proof (cases "r = 0")
    case True
    then have "\<forall>b\<ge>9 * n. \<not> stream_bit 8 inp b"
      using stream_bit_beyond [of 8 inp] n len by auto
    with True show ?thesis by (simp add: generic_unpack_9_bit_def Let_def r_def)
  next
    case False
    then obtain l where l: "length inp = Suc l" "l = m * 9 + r" using len by simp
    have "9 * n = 8 * l + r" using n l by (simp add: algebra_simps)
    then show ?thesis
      using False r l(1) padding_test [of r "inp ! l"] stream_padding [OF l(1), of r]
      by (simp add: generic_unpack_9_bit_def Let_def r_def)
  qed
qed

subsection \<open>Dense codes\<close>

text \<open>
  What the scheme relies on, stated once for both widths: the packed bytes carry the bit stream of
  the elements, the unpacked elements the bit stream of the bytes, and the padding test accepts
  exactly the streams that end with the last element.
\<close>

locale dense_code =
  fixes w :: nat
    and pack :: "'a::len word list \<Rightarrow> bytes"
    and unpack :: "bytes \<Rightarrow> nat \<Rightarrow> 'a word list \<times> bool"
  assumes w_pos: "0 < w"
    and length_pack: "length (pack v) = (w * length v + 7) div 8"
    and pack_stream: "\<lbrakk>\<forall>x\<in>set v. unat x < 2 ^ w; B < length (pack v); j < 8\<rbrakk> \<Longrightarrow>
      bit (pack v ! B) j \<longleftrightarrow> stream_bit w v (8 * B + j)"
    and length_unpack: "length (fst (unpack inp n)) = n"
    and unpack_stream: "\<lbrakk>e < n; length inp = (w * n + 7) div 8; b < w\<rbrakk> \<Longrightarrow>
      bit (fst (unpack inp n) ! e) b \<longleftrightarrow> stream_bit 8 inp (w * e + b)"
    and unpack_range: "\<lbrakk>e < n; length inp = (w * n + 7) div 8; w \<le> b\<rbrakk> \<Longrightarrow> \<not> bit (fst (unpack inp n) ! e) b"
    and unpack_pad: "length inp = (w * n + 7) div 8 \<Longrightarrow>
      snd (unpack inp n) \<longleftrightarrow> (\<forall>b\<ge>w * n. \<not> stream_bit 8 inp b)"
begin

lemma element_in_range:
  assumes "e < n" and "b < w" and "len = (w * n + 7) div 8"
  shows "(w * e + b) div 8 < len"
proof -
  have "w * e + b < w * Suc e" using assms(2) by simp
  also have "\<dots> \<le> w * n" using assms(1) by (intro mult_le_mono2) simp
  finally show ?thesis unfolding assms(3) by (simp add: div_less_iff_less_mult)
qed

lemma stream_of_pack:
  assumes "\<forall>x\<in>set v. unat x < 2 ^ w"
  shows "stream_bit 8 (pack v) b \<longleftrightarrow> b div 8 < length (pack v) \<and> stream_bit w v b"
  using pack_stream [OF assms, of "b div 8" "b mod 8"] by (auto simp: stream_bit_def)

lemma unpack_pack:
  assumes "\<forall>x\<in>set v. unat x < 2 ^ w"
  shows "unpack (pack v) (length v) = (v, True)"
proof -
  have "fst (unpack (pack v) (length v)) = v"
  proof (rule nth_equalityI)
    fix e assume "e < length (fst (unpack (pack v) (length v)))"
    then have e: "e < length v" by (simp add: length_unpack)
    show "fst (unpack (pack v) (length v)) ! e = v ! e"
    proof (rule bit_word_eqI)
      fix b
      show "bit (fst (unpack (pack v) (length v)) ! e) b = bit (v ! e) b"
      proof (cases "b < w")
        case True
        then show ?thesis
          using e element_in_range [OF e True refl]
          by (simp add: unpack_stream length_pack stream_of_pack [OF assms] stream_bit_index)
      next
        case False
        then have "\<not> bit (v ! e) b" using assms e by (intro bit_high [of _ w]) auto
        with False show ?thesis using e by (simp add: unpack_range length_pack)
      qed
    qed
  qed (simp add: length_unpack)
  moreover have "snd (unpack (pack v) (length v))"
    using stream_bit_beyond [of w v] w_pos by (simp add: unpack_pad length_pack stream_of_pack [OF assms])
  ultimately show ?thesis by (simp add: prod_eq_iff)
qed

lemma unpack_bound:
  assumes "length inp = (w * n + 7) div 8"
  shows "\<forall>x\<in>set (fst (unpack inp n)). unat x < 2 ^ w"
  unfolding bits_lt_iff
  using unpack_range [OF _ assms] by (auto simp: in_set_conv_nth length_unpack)

lemma pack_unpack:
  assumes "length inp = (w * n + 7) div 8" and "snd (unpack inp n)"
  shows "pack (fst (unpack inp n)) = inp"
proof (rule nth_equalityI)
  show len: "length (pack (fst (unpack inp n))) = length inp"
    by (simp add: length_pack length_unpack assms(1))
  fix B assume B: "B < length (pack (fst (unpack inp n)))"
  show "pack (fst (unpack inp n)) ! B = inp ! B"
  proof (rule bit_word_eqI)
    fix j assume "j < LENGTH(8)"
    then have j: "j < 8" by simp
    let ?b = "8 * B + j"
    have b: "bit (pack (fst (unpack inp n)) ! B) j \<longleftrightarrow> stream_bit w (fst (unpack inp n)) ?b"
      by (rule pack_stream [OF unpack_bound [OF assms(1)] B j])
    have i: "bit (inp ! B) j \<longleftrightarrow> stream_bit 8 inp ?b"
      using B len j by (simp add: stream_bit_index)
    show "bit (pack (fst (unpack inp n)) ! B) j = bit (inp ! B) j"
    proof (cases "?b div w < n")
      case True
      have "w * (?b div w) + ?b mod w = ?b" and "?b mod w < w" using w_pos by simp_all
      then show ?thesis
        unfolding b i using True unpack_stream [OF True assms(1), of "?b mod w"]
        by (simp add: stream_bit_def [of w] length_unpack)
    next
      case False
      then have "w * n \<le> ?b" using w_pos
        by (simp add: not_less less_eq_div_iff_mult_less_eq mult.commute)
      then have "\<not> stream_bit 8 inp ?b" using assms unpack_pad [OF assms(1)] by blast
      with False show ?thesis unfolding b i by (simp add: stream_bit_def [of w] length_unpack)
    qed
  qed
qed

end

definition pack7 :: "u8 list \<Rightarrow> bytes" where
  "pack7 v = generic_pack_7_bit v ((7 * length v + 7) div 8) (length v)"

definition pack9 :: "u16 list \<Rightarrow> bytes" where
  "pack9 v = generic_pack_9_bit v ((9 * length v + 7) div 8) (length v)"

interpretation fz: dense_code 7 pack7 "\<lambda>inp n. generic_unpack_7_bit inp n (length inp)"
proof
  fix inp :: bytes and n :: nat
  show "length (fst (generic_unpack_7_bit inp n (length inp))) = n"
    by (simp add: generic_unpack_7_bit_def Let_def for_range_length)
  assume len: "length inp = (7 * n + 7) div 8"
  show "snd (generic_unpack_7_bit inp n (length inp)) \<longleftrightarrow> (\<forall>b\<ge>7 * n. \<not> stream_bit 8 inp b)"
    by (rule generic_unpack_7_bit_pad [OF len])
  fix e b :: nat
  assume e: "e < n"
  have nth: "fst (generic_unpack_7_bit inp n (length inp)) ! e = unpack7_stmt inp (e div 8) (e mod 8)"
    using e by (simp add: generic_unpack_7_bit_eq)
  show "bit (fst (generic_unpack_7_bit inp n (length inp)) ! e) b \<longleftrightarrow> stream_bit 8 inp (7 * e + b)"
    if "b < 7" unfolding nth by (rule unpack7_stream [OF e len that])
  show "\<not> bit (fst (generic_unpack_7_bit inp n (length inp)) ! e) b" if "7 \<le> b"
    using that by (simp add: nth bit_unpack7_stmt)
qed (simp_all add: pack7_def generic_pack_7_bit_eq pack7_stream)

interpretation fp: dense_code 9 pack9 "\<lambda>inp n. generic_unpack_9_bit inp n (length inp)"
proof
  fix inp :: bytes and n :: nat
  show "length (fst (generic_unpack_9_bit inp n (length inp))) = n"
    by (simp add: generic_unpack_9_bit_def Let_def for_range_length)
  assume len: "length inp = (9 * n + 7) div 8"
  show "snd (generic_unpack_9_bit inp n (length inp)) \<longleftrightarrow> (\<forall>b\<ge>9 * n. \<not> stream_bit 8 inp b)"
    by (rule generic_unpack_9_bit_pad [OF len])
  fix e b :: nat
  assume e: "e < n"
  have nth: "fst (generic_unpack_9_bit inp n (length inp)) ! e = unpack9_stmt inp (e div 8) (e mod 8)"
    using e by (simp add: generic_unpack_9_bit_eq [OF len])
  show "bit (fst (generic_unpack_9_bit inp n (length inp)) ! e) b \<longleftrightarrow> stream_bit 8 inp (9 * e + b)"
    if "b < 9" unfolding nth by (rule unpack9_stream [OF e len that])
  show "\<not> bit (fst (generic_unpack_9_bit inp n (length inp)) ! e) b" if "9 \<le> b"
    using that by (simp add: nth bit_unpack9_stmt)
qed (simp_all add: pack9_def generic_pack_9_bit_eq pack9_stream)

subsection \<open>The packed vectors of the scheme\<close>

lemma pack_fp_vec_eq: "length v = par_N p \<Longrightarrow> pack_fp_vec p v = pack9 v"
  by (simp add: pack_fp_vec_def pack9_def densely_packed_fp)

lemma pack_fp_syn_eq: "length v = par_N p - par_K p \<Longrightarrow> pack_fp_syn p v = pack9 v"
  by (simp add: pack_fp_syn_def pack9_def densely_packed_fp)

lemma pack_fz_vec_eq: "length v = par_N p \<Longrightarrow> pack_fz_vec p v = pack7 v"
  by (simp add: pack_fz_vec_def pack7_def densely_packed_fz)

lemma pack_fz_rsdp_g_vec_eq: "length v = par_M p \<Longrightarrow> pack_fz_rsdp_g_vec p v = pack7 v"
  by (simp add: pack_fz_rsdp_g_vec_def pack7_def densely_packed_fz)

lemma length_pack_fp_vec [simp, len_simps]:
  "length v = par_N p \<Longrightarrow> length (pack_fp_vec p v) = DENSELY_PACKED_FP_VEC_SIZE p"
  by (simp add: pack_fp_vec_eq fp.length_pack densely_packed_fp)

lemma length_pack_fp_syn [simp, len_simps]:
  "length v = par_N p - par_K p \<Longrightarrow> length (pack_fp_syn p v) = DENSELY_PACKED_FP_SYN_SIZE p"
  by (simp add: pack_fp_syn_eq fp.length_pack densely_packed_fp)

lemma length_pack_fz_rsdp_g_vec [simp, len_simps]:
  "length v = par_M p \<Longrightarrow> length (pack_fz_rsdp_g_vec p v) = DENSELY_PACKED_FZ_RSDP_G_VEC_SIZE p"
  by (simp add: pack_fz_rsdp_g_vec_eq fz.length_pack densely_packed_fz)

lemma unpack_fp_vec_pack:
  assumes "length v = par_N p" and "fp_ok v"
  shows "unpack_fp_vec p (pack_fp_vec p v) = (v, True)"
  using fp.unpack_pack [of v] assms
  by (simp add: unpack_fp_vec_def pack_fp_vec_eq fp_ok_def fp.length_pack densely_packed_fp)

lemma unpack_fp_syn_pack:
  assumes "length v = par_N p - par_K p" and "fp_ok v"
  shows "unpack_fp_syn p (pack_fp_syn p v) = (v, True)"
  using fp.unpack_pack [of v] assms
  by (simp add: unpack_fp_syn_def pack_fp_syn_eq fp_ok_def fp.length_pack densely_packed_fp)

lemma unpack_fz_rsdp_g_vec_pack:
  assumes "length v = par_M p" and "fz_ok v"
  shows "unpack_fz_rsdp_g_vec p (pack_fz_rsdp_g_vec p v) = (v, True)"
proof -
  have "\<forall>x\<in>set v. unat x < 2 ^ 7" using assms(2) by (force simp: fz_ok_def Z_def)
  with fz.unpack_pack [of v] assms(1) show ?thesis
    by (simp add: unpack_fz_rsdp_g_vec_def pack_fz_rsdp_g_vec_eq fz.length_pack densely_packed_fz)
qed

end
