(* ===== verification/Cross_Csprng.thy ===== *)
theory Cross_Csprng
  imports Cross_Pack "HOL-Library.Multiset"
begin

text \<open>
  \<open>csprng_hash.h\<close> and \<open>csprng_hash.c\<close>: the seed expander and the hash of CROSS over the incremental
  sponge, the constant-size rejection samplers for vectors and matrices over both fields, and the
  expansion of a digest to a string of fixed weight.  The samplers read a 64-bit window that is
  refilled four bytes at a time; they are shown to terminate on every buffer and to return the
  first accepted candidates of the bit stream of the buffer (followed by zeros).
\<close>

subsection \<open>The expander and the hash\<close>

text \<open>
  \<open>xof_shake_*\<close> of \<open>sha3.h\<close> are \<open>shake128_inc_*\<close> or \<open>shake256_inc_*\<close> of the sponge, by the
  rate of the parameter set; \<open>0x1F\<close> is the domain byte of SHAKE.
\<close>

definition xof_shake_init :: "cross_params \<Rightarrow> keccak_ctx" where
  "xof_shake_init p = keccak_inc_reset"

definition xof_shake_update :: "cross_params \<Rightarrow> bytes \<Rightarrow> keccak_ctx \<Rightarrow> keccak_ctx" where
  "xof_shake_update p m s = keccak_inc_absorb (keccak_perm p) (xof_rate p) m s"

definition xof_shake_final :: "cross_params \<Rightarrow> keccak_ctx \<Rightarrow> keccak_ctx" where
  "xof_shake_final p s = keccak_inc_finalize (xof_rate p) 0x1F s"

definition xof_shake_extract :: "cross_params \<Rightarrow> nat \<Rightarrow> keccak_ctx \<Rightarrow> bytes \<times> keccak_ctx" where
  "xof_shake_extract p n s = keccak_inc_squeeze (keccak_perm p) (xof_rate p) n s"

definition dsc_ordered :: "u16 \<Rightarrow> bytes" where
  "dsc_ordered dsc = [ucast (dsc AND 0xff), ucast (drop_bit 8 dsc AND 0xff)]"

definition csprng_initialize :: "cross_params \<Rightarrow> bytes \<Rightarrow> u16 \<Rightarrow> keccak_ctx" where
  "csprng_initialize p seed dsc =
     (let s = xof_shake_init p;
          s = xof_shake_update p seed s;
          s = xof_shake_update p (dsc_ordered dsc) s
      in xof_shake_final p s)"

definition csprng_randombytes :: "cross_params \<Rightarrow> nat \<Rightarrow> keccak_ctx \<Rightarrow> bytes \<times> keccak_ctx" where
  "csprng_randombytes p xlen s = xof_shake_extract p xlen s"

definition hash :: "cross_params \<Rightarrow> bytes \<Rightarrow> u16 \<Rightarrow> bytes" where
  "hash p m dsc =
     (let s = xof_shake_init p;
          s = xof_shake_update p m s;
          s = xof_shake_update p (dsc_ordered dsc) s;
          s = xof_shake_final p s
      in fst (xof_shake_extract p (HASH_DIGEST_LENGTH p) s))"

subsection \<open>The 64-bit window on the buffer\<close>

record sampler =
  sub_buffer :: u64
  bits_in_sub_buf :: int
  pos_in_buf :: nat
  pos_remaining :: nat

definition sampler_init :: "bytes \<Rightarrow> sampler" where
  "sampler_init buf =
     \<lparr>sub_buffer = for_range 0 8 (\<lambda>i s. s OR push_bit (8 * i) (ucast (buf ! i))) 0,
      bits_in_sub_buf = 64, pos_in_buf = 8, pos_remaining = length buf - 8\<rparr>"

definition refill :: "bytes \<Rightarrow> sampler \<Rightarrow> sampler" where
  "refill buf s =
     (if bits_in_sub_buf s \<le> 32 \<and> 0 < pos_remaining s
      then let refresh_amount = (if 4 \<le> pos_remaining s then 4 else pos_remaining s);
               refresh_buf = for_range 0 refresh_amount
                 (\<lambda>i r. r OR push_bit (8 * i) (ucast (buf ! (pos_in_buf s + i)))) (0 :: u32)
           in \<lparr>sub_buffer = sub_buffer s OR push_bit (nat (bits_in_sub_buf s)) (ucast refresh_buf),
               bits_in_sub_buf = bits_in_sub_buf s + 8 * int refresh_amount,
               pos_in_buf = pos_in_buf s + refresh_amount,
               pos_remaining = pos_remaining s - refresh_amount\<rparr>
      else s)"

definition consume :: "nat \<Rightarrow> sampler \<Rightarrow> sampler" where
  "consume b s = s\<lparr>sub_buffer := drop_bit b (sub_buffer s), bits_in_sub_buf := bits_in_sub_buf s - int b\<rparr>"

text \<open>
  The decrease of a step: a refill takes bytes off the buffer, a shift shrinks a window that is not
  0, and an empty window yields the candidate 0, which every loop accepts.
\<close>

lemma refill_remaining:
  "pos_remaining (refill buf s) < pos_remaining s \<or> refill buf s = s"
  by (auto simp: refill_def Let_def)

lemma consume_sub_buffer:
  assumes "0 < b" and "sub_buffer s \<noteq> 0"
  shows "unat (sub_buffer (consume b s)) < unat (sub_buffer s)"
proof -
  have "0 < unat (sub_buffer s)" using assms(2) by (simp add: unat_gt_0)
  then show ?thesis
    using assms(1) unfolding consume_def
    by (simp add: unat_drop_bit) (intro div_less_dividend one_less_power, simp_all)
qed

lemma consume_sub_buffer_le: "unat (sub_buffer (consume b s)) \<le> unat (sub_buffer s)"
  by (simp add: consume_def unat_drop_bit)

lemma consume_remaining [simp]: "pos_remaining (consume b s) = pos_remaining s"
  by (simp add: consume_def)

subsection \<open>Rejection sampling\<close>

text \<open>
  The five samplers differ in the field they draw from.  The candidate is the low bits of the window,
  plus one for the nonzero elements of \<open>chall_1\<close>.
\<close>

datatype sample_kind = Sample_FP | Sample_FP_star | Sample_FZ

fun sample_bits :: "sample_kind \<Rightarrow> nat" where
  "sample_bits Sample_FP = BITS_TO_REPRESENT (P - 1)"
| "sample_bits Sample_FP_star = BITS_TO_REPRESENT (P - 2)"
| "sample_bits Sample_FZ = BITS_TO_REPRESENT (Z - 1)"

fun sample_bound :: "sample_kind \<Rightarrow> nat" where
  "sample_bound Sample_FP = P"
| "sample_bound Sample_FP_star = P"
| "sample_bound Sample_FZ = Z"

fun sample_offset :: "sample_kind \<Rightarrow> nat" where
  "sample_offset Sample_FP = 0"
| "sample_offset Sample_FP_star = 1"
| "sample_offset Sample_FZ = 0"

lemma sample_bits_simps [simp]: "sample_bits Sample_FP = 9" "sample_bits Sample_FP_star = 9"
  "sample_bits Sample_FZ = 7"
  by simp_all

declare sample_bits.simps [simp del]

lemma sample_bits_pos [simp]: "0 < sample_bits kd"
  by (cases kd) simp_all

lemma sample_bits_le: "sample_bits kd \<le> 9"
  by (cases kd) simp_all

lemma sample_offset_lt: "sample_offset kd < sample_bound kd"
  by (cases kd) (simp_all add: P_def Z_def)

definition sample_candidate :: "sample_kind \<Rightarrow> sampler \<Rightarrow> 'a::len word" where
  "sample_candidate kd s = ucast (sub_buffer s AND mask (sample_bits kd)) + of_nat (sample_offset kd)"

lemma candidate_0:
  assumes "sub_buffer s = 0"
  shows "unat (sample_candidate kd s :: 'a::len word) < sample_bound kd"
proof -
  have "unat (sample_candidate kd s :: 'a word) = sample_offset kd mod 2 ^ LENGTH('a)"
    by (simp add: sample_candidate_def assms unat_of_nat)
  also have "\<dots> \<le> sample_offset kd" by simp
  also have "\<dots> < sample_bound kd" by (rule sample_offset_lt)
  finally show ?thesis .
qed

text \<open>\<open>placed\<close> is the number of elements of \<open>res\<close>.\<close>

function sample_loop :: "sample_kind \<Rightarrow> bytes \<Rightarrow> nat \<Rightarrow> 'a::len word list \<Rightarrow> sampler \<Rightarrow> 'a word list" where
  "sample_loop kd buf n res s =
     (if length res < n
      then let s = refill buf s;
               c = sample_candidate kd s;
               res = (if unat c < sample_bound kd then res @ [c] else res)
           in sample_loop kd buf n res (consume (sample_bits kd) s)
      else res)"
  by pat_completeness auto

termination
proof (relation "measures [\<lambda>(kd, buf, n, res, s). pos_remaining s,
    \<lambda>(kd, buf, n, res, s). unat (sub_buffer s), \<lambda>(kd, buf, n, res, s). n - length res]", goal_cases)
  case 1
  then show ?case by simp
next
  case (2 kd buf n res s s' c res')
  consider "pos_remaining s' < pos_remaining s" | "s' = s" "sub_buffer s \<noteq> 0" | "s' = s" "sub_buffer s = 0"
    using refill_remaining [of buf s] 2(2) by blast
  then show ?case
  proof cases
    case 1
    then show ?thesis by simp
  next
    case 2
    then show ?thesis using consume_sub_buffer [of "sample_bits kd" s] by simp
  next
    case 3
    then have "unat c < sample_bound kd" using candidate_0 [of s kd] 2(3) by simp
    then have "length res' = Suc (length res)" using 2(4) by simp
    moreover have "unat (sub_buffer (consume (sample_bits kd) s)) = 0"
      using consume_sub_buffer_le [of "sample_bits kd" s] 3(2) by simp
    ultimately show ?thesis using 3 2(1) by simp
  qed
qed

declare sample_loop.simps [simp del]

definition csprng_fp_vec :: "cross_params \<Rightarrow> keccak_ctx \<Rightarrow> u16 list \<times> keccak_ctx" where
  "csprng_fp_vec p s =
     (let (buf, s) = csprng_randombytes p (ROUND_UP (BITS_N_FP_CT_RNG p) 8 div 8) s
      in (sample_loop Sample_FP buf (par_N p) [] (sampler_init buf), s))"

definition csprng_fp_vec_chall_1 :: "cross_params \<Rightarrow> keccak_ctx \<Rightarrow> u16 list \<times> keccak_ctx" where
  "csprng_fp_vec_chall_1 p s =
     (let (buf, s) = csprng_randombytes p (ROUND_UP (BITS_CHALL_1_FPSTAR_CT_RNG p) 8 div 8) s
      in (sample_loop Sample_FP_star buf (par_T p) [] (sampler_init buf), s))"

definition csprng_fp_mat :: "cross_params \<Rightarrow> keccak_ctx \<Rightarrow> u16 list \<times> keccak_ctx" where
  "csprng_fp_mat p s =
     (let (buf, s) = csprng_randombytes p (ROUND_UP (BITS_V_CT_RNG p) 8 div 8) s
      in (sample_loop Sample_FP buf (par_K p * (par_N p - par_K p)) [] (sampler_init buf), s))"

definition csprng_fz_inf_w :: "cross_params \<Rightarrow> keccak_ctx \<Rightarrow> u8 list \<times> keccak_ctx" where
  "csprng_fz_inf_w p s =
     (let (buf, s) = csprng_randombytes p (ROUND_UP (BITS_M_FZ_CT_RNG p) 8 div 8) s
      in (sample_loop Sample_FZ buf (par_M p) [] (sampler_init buf), s))"

definition csprng_fz_mat :: "cross_params \<Rightarrow> keccak_ctx \<Rightarrow> u8 list \<times> keccak_ctx" where
  "csprng_fz_mat p s =
     (let (buf, s) = csprng_randombytes p (ROUND_UP (BITS_W_CT_RNG p) 8 div 8) s
      in (sample_loop Sample_FZ buf (par_M p * (par_N p - par_M p)) [] (sampler_init buf), s))"

subsection \<open>The string of fixed weight\<close>

definition swap_cells :: "'a list \<Rightarrow> nat \<Rightarrow> nat \<Rightarrow> 'a list" where
  "swap_cells xs i j = (let tmp = xs ! i; xs = xs[i := xs ! j] in xs[j := tmp])"

definition bits_for_pos :: "cross_params \<Rightarrow> nat \<Rightarrow> nat" where
  "bits_for_pos p cur = BITS_TO_REPRESENT (par_T p - 1 - cur)"

definition candidate_pos :: "cross_params \<Rightarrow> nat \<Rightarrow> sampler \<Rightarrow> u16" where
  "candidate_pos p cur s = ucast (sub_buffer s AND mask (bits_for_pos p cur))"

lemma candidate_pos_0:
  "sub_buffer s = 0 \<or> bits_for_pos p cur = 0 \<Longrightarrow> unat (candidate_pos p cur s) = 0"
  by (auto simp: candidate_pos_def)

function fixed_weight_loop :: "cross_params \<Rightarrow> bytes \<Rightarrow> nat \<Rightarrow> u8 list \<Rightarrow> sampler \<Rightarrow> u8 list" where
  "fixed_weight_loop p buf cur fws s =
     (if cur < par_T p
      then let s = refill buf s;
               c = unat (candidate_pos p cur s);
               s' = consume (bits_for_pos p cur) s
           in if c < par_T p - cur
              then fixed_weight_loop p buf (cur + 1) (swap_cells fws cur (cur + c)) s'
              else fixed_weight_loop p buf cur fws s'
      else fws)"
  by pat_completeness auto

termination
proof (relation "measures [\<lambda>(p, buf, cur, fws, s). pos_remaining s,
    \<lambda>(p, buf, cur, fws, s). unat (sub_buffer s), \<lambda>(p, buf, cur, fws, s). par_T p - cur]", goal_cases)
  case 1
  then show ?case by simp
next
  case (2 p buf cur fws s s' c s'')
  then show ?case
    using refill_remaining [of buf s] consume_sub_buffer_le [of "bits_for_pos p cur" s]
    by (auto simp: nat_less_le)
next
  case (3 p buf cur fws s s' c s'')
  then show ?case
    using refill_remaining [of buf s] consume_sub_buffer [of "bits_for_pos p cur" s]
      candidate_pos_0 [of s p cur] by fastforce
qed

declare fixed_weight_loop.simps [simp del]

definition expand_digest_to_fixed_weight :: "cross_params \<Rightarrow> bytes \<Rightarrow> u8 list" where
  "expand_digest_to_fixed_weight p digest =
     (let dsc_csprng_b = CSPRNG_DOMAIN_SEP_CONST + of_nat (3 * par_T p);
          s = csprng_initialize p digest dsc_csprng_b;
          (buf, s) = csprng_randombytes p (ROUND_UP (BITS_CWSTR_RNG p) 8 div 8) s;
          fixed_weight_string = replicate (par_W p) 1 @ replicate (par_T p - par_W p) 0
      in fixed_weight_loop p buf 0 fixed_weight_string (sampler_init buf))"

subsection \<open>What the samplers return\<close>

lemma sample_loop_done: "n \<le> length res \<Longrightarrow> sample_loop kd buf n res s = res"
  by (simp add: sample_loop.simps)

definition sample_step :: "sample_kind \<Rightarrow> 'a::len word list \<Rightarrow> sampler \<Rightarrow> 'a word list" where
  "sample_step kd res s = (if unat (sample_candidate kd s :: 'a word) < sample_bound kd
     then res @ [sample_candidate kd s] else res)"

lemma sample_loop_step:
  assumes "length res < n"
  shows "sample_loop kd buf n res s
    = sample_loop kd buf n (sample_step kd res (refill buf s)) (consume (sample_bits kd) (refill buf s))"
  using assms by (subst sample_loop.simps) (simp only: Let_def sample_step_def if_True)

lemma sample_loop_result:
  assumes "length res \<le> n" and "\<forall>c\<in>set res. unat c < sample_bound kd"
  shows "length (sample_loop kd buf n res s) = n
    \<and> (\<forall>c\<in>set (sample_loop kd buf n res s). unat c < sample_bound kd)"
  using assms
proof (induction kd buf n res s rule: sample_loop.induct)
  case (1 kd buf n res s)
  show ?case
  proof (cases "length res < n")
    case True
    let ?res = "sample_step kd res (refill buf s)"
    have "length ?res \<le> n" and "\<forall>c\<in>set ?res. unat c < sample_bound kd"
      using True "1.prems" by (auto simp: sample_step_def)
    then show ?thesis
      unfolding sample_loop_step [OF True]
      by (rule "1.IH" [OF True refl refl refl, folded sample_step_def])
  next
    case False
    then show ?thesis using "1.prems" by (simp add: sample_loop_done)
  qed
qed

lemma length_sample_loop: "length (sample_loop kd buf n [] s) = n"
  by (rule conjunct1 [OF sample_loop_result]) simp_all

lemma sample_loop_bound: "\<forall>c\<in>set (sample_loop kd buf n [] s). unat c < sample_bound kd"
  by (rule conjunct2 [OF sample_loop_result]) simp_all

lemma csprng_results:
  "length (fst (csprng_fp_vec p s)) = par_N p" "fp_canon (fst (csprng_fp_vec p s))"
  "length (fst (csprng_fp_vec_chall_1 p s)) = par_T p" "fp_canon (fst (csprng_fp_vec_chall_1 p s))"
  "fp_mat_ok p (fst (csprng_fp_mat p s))"
  "length (fst (csprng_fz_inf_w p s)) = par_M p" "fz_canon (fst (csprng_fz_inf_w p s))"
  "fz_mat_ok p (fst (csprng_fz_mat p s))"
  using sample_loop_bound [where kd = Sample_FP and 'a = 16] sample_loop_bound [where kd = Sample_FP_star and 'a = 16]
    sample_loop_bound [where kd = Sample_FZ and 'a = 8]
  by (simp_all add: csprng_fp_vec_def csprng_fp_vec_chall_1_def csprng_fp_mat_def csprng_fz_inf_w_def
      csprng_fz_mat_def length_sample_loop fp_canon_def fz_canon_def fp_mat_ok_def fz_mat_ok_def
      split: prod.splits)

subsection \<open>The fixed-weight string is a permutation\<close>

lemma mset_swap_cells:
  "i < length xs \<Longrightarrow> j < length xs \<Longrightarrow> mset (swap_cells xs i j) = mset xs"
  by (simp add: swap_cells_def Let_def mset_swap)

lemma length_swap_cells [simp, len_simps]: "length (swap_cells xs i j) = length xs"
  by (simp add: swap_cells_def Let_def)

lemma mset_fixed_weight_loop:
  assumes "length fws = par_T p"
  shows "mset (fixed_weight_loop p buf cur fws s) = mset fws"
  using assms
proof (induction p buf cur fws s rule: fixed_weight_loop.induct)
  case (1 p buf cur fws s)
  show ?case
  proof (cases "cur < par_T p")
    case True
    let ?s = "refill buf s"
    let ?c = "unat (candidate_pos p cur ?s)"
    show ?thesis
    proof (cases "?c < par_T p - cur")
      case c: True
      then have "mset (swap_cells fws cur (cur + ?c)) = mset fws"
        using True "1.prems" by (intro mset_swap_cells) auto
      then show ?thesis
        using "1.IH"(1) [OF True refl refl refl c] "1.prems" True c
        by (subst fixed_weight_loop.simps) (simp add: Let_def)
    next
      case c: False
      then show ?thesis
        using "1.IH"(2) [OF True refl refl refl c] "1.prems" True
        by (subst fixed_weight_loop.simps) (simp add: Let_def)
    qed
  next
    case False
    then show ?thesis by (subst fixed_weight_loop.simps) simp
  qed
qed

lemma mset_expand_digest:
  assumes "par_W p \<le> par_T p"
  shows "mset (expand_digest_to_fixed_weight p d)
    = replicate_mset (par_W p) 1 + replicate_mset (par_T p - par_W p) 0"
  using assms by (simp add: expand_digest_to_fixed_weight_def mset_fixed_weight_loop split: prod.splits)

lemma length_expand_digest [simp, len_simps]:
  "par_W p \<le> par_T p \<Longrightarrow> length (expand_digest_to_fixed_weight p d) = par_T p"
  using arg_cong [OF mset_expand_digest, of p size d] by simp

lemma set_expand_digest:
  assumes "par_W p \<le> par_T p"
  shows "set (expand_digest_to_fixed_weight p d) \<subseteq> {0, 1}"
proof -
  have "set (expand_digest_to_fixed_weight p d) = set_mset (mset (expand_digest_to_fixed_weight p d))" by simp
  also have "\<dots> \<subseteq> {0, 1}" by (auto simp: mset_expand_digest [OF assms] split: if_splits)
  finally show ?thesis .
qed

lemma expand_digest_01:
  assumes "par_W p \<le> par_T p" and "i < par_T p"
  shows "expand_digest_to_fixed_weight p d ! i = 0 \<or> expand_digest_to_fixed_weight p d ! i = 1"
  using set_expand_digest [OF assms(1), of d] assms nth_mem [of i "expand_digest_to_fixed_weight p d"]
  by (simp add: subset_iff)

lemma count_expand_digest:
  assumes "par_W p \<le> par_T p"
  shows "count_list (expand_digest_to_fixed_weight p d) 0 = par_T p - par_W p"
    and "count_list (expand_digest_to_fixed_weight p d) 1 = par_W p"
  using mset_expand_digest [OF assms, of d] by (simp_all flip: count_mset)

end
