(* ===== verification/Cross_Merkle.thy ===== *)
theory Cross_Merkle
  imports Cross_Tree Cross_Csprng
begin

text \<open>
  \<open>merkle.c\<close>: the Merkle tree over the round commitments \<open>cmt_0\<close>, the proof of the revealed leaves
  and the recomputation of the root from it.  Trees and proofs are flat byte arrays, node \<open>i\<close> the
  \<open>HASH_DIGEST_LENGTH\<close> bytes from \<open>i * HASH_DIGEST_LENGTH\<close>; the local tree of \<open>recompute_root\<close>,
  which the code does not initialise, is an argument.  The main lemma runs \<open>tree_proof\<close> and
  \<open>recompute_root\<close> in lockstep over the inner nodes.
\<close>

definition CHALLENGE_PROOF_VALUE :: u8 where "CHALLENGE_PROOF_VALUE = 0"
definition NOT_COMPUTED :: u8 where "NOT_COMPUTED = 0"
definition COMPUTED :: u8 where "COMPUTED = 1"

definition place_cmt_on_leaves :: "cross_params \<Rightarrow> bytes \<Rightarrow> bytes list \<Rightarrow> bytes" where
  "place_cmt_on_leaves p merkle_tree commitments = walk_leaves p
     (\<lambda>cnt pos tree. memcpy tree (pos * HASH_DIGEST_LENGTH p) (commitments ! cnt)) merkle_tree"

definition merkle_label_leaves :: "cross_params \<Rightarrow> u8 list \<Rightarrow> u8 list \<Rightarrow> u8 list" where
  "merkle_label_leaves p flag_tree challenge = walk_leaves p
     (\<lambda>cnt pos flags. if challenge ! cnt = CHALLENGE_PROOF_VALUE then flags[pos := COMPUTED] else flags)
     flag_tree"

definition tree_root :: "cross_params \<Rightarrow> bytes \<Rightarrow> bytes list \<Rightarrow> bytes \<times> bytes" where
  "tree_root p tree leaves =
     (let tree = place_cmt_on_leaves p tree leaves;
          tree = walk_up p (\<lambda>current_node parent_node tree.
            memcpy tree (parent_node * HASH_DIGEST_LENGTH p)
              (hash p (seg tree (current_node * HASH_DIGEST_LENGTH p) (2 * HASH_DIGEST_LENGTH p))
                 HASH_DOMAIN_SEP_CONST)) tree
      in (take (HASH_DIGEST_LENGTH p) tree, tree))"

record proof_state =
  pf_flags :: "u8 list"
  pf_mtp :: bytes
  pf_published :: nat

definition tree_proof_step ::
    "cross_params \<Rightarrow> bytes \<Rightarrow> nat \<Rightarrow> nat \<Rightarrow> proof_state \<Rightarrow> proof_state" where
  "tree_proof_step p tree current_node parent_node s =
     (let flag = (\<lambda>s x. pf_flags s ! x);
          s = s\<lparr>pf_flags := (pf_flags s)[parent_node :=
                  (if flag s current_node = COMPUTED \<or> flag s (SIBLING current_node) = COMPUTED then 1 else 0)]\<rparr>;
          s = (if flag s current_node = NOT_COMPUTED \<and> flag s (SIBLING current_node) = COMPUTED
               then s\<lparr>pf_mtp := memcpy (pf_mtp s) (pf_published s * HASH_DIGEST_LENGTH p)
                        (blk (HASH_DIGEST_LENGTH p) tree current_node),
                      pf_published := pf_published s + 1\<rparr>
               else s);
          s = (if flag s current_node = COMPUTED \<and> flag s (SIBLING current_node) = NOT_COMPUTED
               then s\<lparr>pf_mtp := memcpy (pf_mtp s) (pf_published s * HASH_DIGEST_LENGTH p)
                        (blk (HASH_DIGEST_LENGTH p) tree (SIBLING current_node)),
                      pf_published := pf_published s + 1\<rparr>
               else s)
      in s)"

definition tree_proof :: "cross_params \<Rightarrow> bytes \<Rightarrow> bytes \<Rightarrow> u8 list \<Rightarrow> bytes \<times> nat" where
  "tree_proof p mtp tree leaves_to_reveal =
     (let flag_tree = merkle_label_leaves p (replicate (NUM_NODES p) NOT_COMPUTED) leaves_to_reveal;
          s = walk_up p (tree_proof_step p tree)
                \<lparr>pf_flags = flag_tree, pf_mtp = mtp, pf_published = 0\<rparr>
      in (pf_mtp s, pf_published s))"

record recompute_state =
  rc_tree :: bytes
  rc_flags :: "u8 list"
  rc_published :: nat

text \<open>The digest of one child: from the tree when computed, otherwise the next one of the proof.\<close>

definition take_child :: "cross_params \<Rightarrow> bytes \<Rightarrow> nat \<Rightarrow> recompute_state \<Rightarrow> bytes \<times> recompute_state" where
  "take_child p mtp x s =
     (if rc_flags s ! x = COMPUTED then (blk (HASH_DIGEST_LENGTH p) (rc_tree s) x, s)
      else (blk (HASH_DIGEST_LENGTH p) mtp (rc_published s), s\<lparr>rc_published := rc_published s + 1\<rparr>))"

definition recompute_step ::
    "cross_params \<Rightarrow> bytes \<Rightarrow> nat \<Rightarrow> nat \<Rightarrow> recompute_state \<Rightarrow> recompute_state" where
  "recompute_step p mtp current_node parent_node s =
     (if rc_flags s ! current_node = NOT_COMPUTED \<and> rc_flags s ! SIBLING current_node = NOT_COMPUTED then s
      else let (left, s) = take_child p mtp current_node s;
               (right, s) = take_child p mtp (SIBLING current_node) s
           in s\<lparr>rc_tree := memcpy (rc_tree s) (parent_node * HASH_DIGEST_LENGTH p)
                   (hash p (left @ right) HASH_DOMAIN_SEP_CONST),
                rc_flags := (rc_flags s)[parent_node := COMPUTED]\<rparr>)"

text \<open>\<open>error |= xs[i]\<close> over the rest of the storage.\<close>

definition zero_padding :: "bytes \<Rightarrow> nat \<Rightarrow> nat \<Rightarrow> bool" where
  "zero_padding xs from_byte to_byte = (for_range from_byte to_byte (\<lambda>i error. error OR xs ! i) 0 = 0)"

definition recompute_root :: "cross_params \<Rightarrow> bytes \<Rightarrow> bytes list \<Rightarrow> bytes \<Rightarrow> u8 list \<Rightarrow> bytes \<times> bool" where
  "recompute_root p tree recomputed_leaves mtp leaves_to_reveal =
     (let tree = place_cmt_on_leaves p tree recomputed_leaves;
          flag_tree = merkle_label_leaves p (replicate (NUM_NODES p) NOT_COMPUTED) leaves_to_reveal;
          s = walk_up p (recompute_step p mtp)
                \<lparr>rc_tree = tree, rc_flags = flag_tree, rc_published = 0\<rparr>
      in (take (HASH_DIGEST_LENGTH p) (rc_tree s),
          zero_padding mtp (rc_published s * HASH_DIGEST_LENGTH p)
            (TREE_NODES_TO_STORE p * HASH_DIGEST_LENGTH p)))"

subsection \<open>Hash values\<close>

lemma csprng_initialize_wf:
  assumes "perm_ok (keccak_perm p)"
  shows "keccak_wf (xof_rate p) (csprng_initialize p seed dsc)"
proof -
  let ?a = "keccak_inc_absorb (keccak_perm p) (xof_rate p)"
  have r: "length (kst keccak_inc_reset) = 200" "ks25 keccak_inc_reset < rate_bytes (xof_rate p)"
    by (simp_all add: keccak_inc_reset_def)
  note 1 = keccak_inc_absorb_wf [OF assms r]
  note 2 = keccak_inc_absorb_wf [OF assms 1]
  show ?thesis
    using 2(1) by (simp add: csprng_initialize_def xof_shake_init_def xof_shake_update_def
        xof_shake_final_def Let_def keccak_wf_finalize)
qed

lemma length_csprng_randombytes:
  "perm_ok (keccak_perm p) \<Longrightarrow> keccak_wf (xof_rate p) s \<Longrightarrow> length (fst (csprng_randombytes p n s)) = n"
  by (simp add: csprng_randombytes_def xof_shake_extract_def length_keccak_squeeze)

lemma csprng_randombytes_wf:
  "perm_ok (keccak_perm p) \<Longrightarrow> keccak_wf (xof_rate p) s \<Longrightarrow> keccak_wf (xof_rate p) (snd (csprng_randombytes p n s))"
  by (simp add: csprng_randombytes_def xof_shake_extract_def keccak_wf_squeeze)

lemma hash_eq_csprng: "hash p m dsc = fst (csprng_randombytes p (HASH_DIGEST_LENGTH p) (csprng_initialize p m dsc))"
  by (simp add: hash_def csprng_randombytes_def csprng_initialize_def Let_def)

lemma length_hash [simp, len_simps]:
  "perm_ok (keccak_perm p) \<Longrightarrow> length (hash p m dsc) = HASH_DIGEST_LENGTH p"
  unfolding hash_eq_csprng by (rule length_csprng_randombytes) (simp_all add: csprng_initialize_wf)

text \<open>
  What the signer stores of a tree: the nodes \<open>ns\<close>, in order, then zeros up to \<open>S\<close> nodes of
  \<open>L\<close> bytes.
\<close>

definition is_storage :: "nat \<Rightarrow> nat \<Rightarrow> bytes \<Rightarrow> bytes \<Rightarrow> nat list \<Rightarrow> bool" where
  "is_storage L S mtp tree ns \<longleftrightarrow> length mtp = S * L
    \<and> (\<forall>j<length ns. blk L mtp j = blk L tree (ns ! j))
    \<and> (\<forall>b. length ns * L \<le> b \<and> b < length mtp \<longrightarrow> mtp ! b = 0)"

lemma is_storage_append:
  assumes pf: "is_storage L S mtp tree ns" and bound: "length ns < S"
    and x: "length (blk L tree x) = L"
  shows "is_storage L S (memcpy mtp (length ns * L) (blk L tree x))
    tree (ns @ [x])"
proof -
  let ?m = "memcpy mtp (length ns * L) (blk L tree x)"
  have l: "length mtp = S * L" using pf by (simp add: is_storage_def)
  have "length ?m = S * L" by (rule length_memcpy_blk [OF l bound x])
  moreover have "blk L ?m j = blk L tree ((ns @ [x]) ! j)" if "j < length (ns @ [x])" for j
  proof (cases "j = length ns")
    case True
    then show ?thesis using blk_memcpy_same [OF l bound x] by simp
  next
    case False
    then show ?thesis
      using that pf blk_memcpy_other [OF l bound _ _ x, of j] bound
      by (simp add: is_storage_def nth_append)
  qed
  moreover have "?m ! b = 0" if b: "length (ns @ [x]) * L \<le> b" "b < length ?m" for b
  proof -
    have "length ns * L + L \<le> length mtp" using blk_bound [OF bound, of L] l by simp
    then have "?m ! b = mtp ! b"
      using b x by (subst nth_memcpy) auto
    also have "\<dots> = 0" using pf b \<open>length ?m = S * L\<close> l by (simp add: is_storage_def)
    finally show ?thesis .
  qed
  ultimately show ?thesis using l by (simp add: is_storage_def)
qed

subsection \<open>Marked nodes\<close>

text \<open>
  The nodes with a revealed leaf below them: what the flag trees hold at the end.  \<open>Q c\<close> says that
  leaf \<open>c\<close> is revealed.
\<close>

inductive marked :: "nat list \<Rightarrow> nat list \<Rightarrow> (nat \<Rightarrow> bool) \<Rightarrow> nat \<Rightarrow> bool"
  for inner leaves Q where
  leaf: "c < length leaves \<Longrightarrow> Q c \<Longrightarrow> marked inner leaves Q (leaves ! c)"
| left: "k < length inner \<Longrightarrow> marked inner leaves Q (2 * k + 1) \<Longrightarrow> marked inner leaves Q (inner ! k)"
| right: "k < length inner \<Longrightarrow> marked inner leaves Q (2 * k + 2) \<Longrightarrow> marked inner leaves Q (inner ! k)"

context tree_shape
begin

lemma leaf_inj: "c < length leaves \<Longrightarrow> d < length leaves \<Longrightarrow> leaves ! c = leaves ! d \<longleftrightarrow> c = d"
  using leaves_distinct by (simp add: nth_eq_iff_index_eq)

lemma leaf_neq_inner: "c < length leaves \<Longrightarrow> k < length inner \<Longrightarrow> leaves ! c \<noteq> inner ! k"
  using inner_not_leaf nth_mem by metis

lemma marked_leaf:
  assumes "c < length leaves"
  shows "marked inner leaves Q (leaves ! c) \<longleftrightarrow> Q c"
proof
  assume "marked inner leaves Q (leaves ! c)"
  then show "Q c" by cases (use assms leaf_inj leaf_neq_inner in auto)
qed (use assms in \<open>rule marked.leaf\<close>)

lemma marked_inner:
  assumes "k < length inner"
  shows "marked inner leaves Q (inner ! k)
    \<longleftrightarrow> marked inner leaves Q (2 * k + 1) \<or> marked inner leaves Q (2 * k + 2)"
proof
  assume "marked inner leaves Q (inner ! k)"
  then show "marked inner leaves Q (2 * k + 1) \<or> marked inner leaves Q (2 * k + 2)"
  proof cases
    case (leaf c)
    then show ?thesis using leaf_neq_inner [of c k] assms by simp
  qed (use assms inner_inj in auto)
qed (use assms marked.left marked.right in blast)

text \<open>Which node of a pair of siblings goes into the proof.\<close>

definition pick :: "(nat \<Rightarrow> bool) \<Rightarrow> nat \<Rightarrow> nat list" where
  "pick m k = (if \<not> m (2 * k + 1) \<and> m (2 * k + 2) then [2 * k + 1]
     else if m (2 * k + 1) \<and> \<not> m (2 * k + 2) then [2 * k + 2] else [])"

text \<open>The proof when the pairs from index \<open>i\<close> on have been visited.\<close>

definition picked :: "(nat \<Rightarrow> bool) \<Rightarrow> nat \<Rightarrow> nat list" where
  "picked m i = concat (map (pick m) (rev [i..<length inner]))"

lemma picked_step: "i < length inner \<Longrightarrow> picked m i = picked m (Suc i) @ pick m i"
  by (simp add: picked_def upt_conv_Cons)

lemma picked_end [simp]: "picked m (length inner) = []"
  by (simp add: picked_def)

lemma picked_prefix: "i \<le> j \<Longrightarrow> j \<le> length inner \<Longrightarrow> \<exists>r. picked m i = picked m j @ r"
proof (induction j)
  case (Suc j)
  then show ?case by (cases "i = Suc j") (auto simp: picked_step)
qed simp

lemma picked_nth:
  assumes "i \<le> length inner" and "j < length (picked m i)"
  shows "picked m 0 ! j = picked m i ! j" and "j < length (picked m 0)"
  using picked_prefix [of 0 i m] assms by (auto simp: nth_append)

text \<open>
  A bound on the length of the proof.  A potential \<open>B\<close> on the nodes that pays for the node a pair
  may publish bounds the proof by its value at the root, \<open>\<lambda>\<close> being charged to every revealed
  leaf.
\<close>

definition front :: "nat \<Rightarrow> nat set" where
  "front i = {x. x \<le> 2 * i \<and> (x \<in> set leaves \<or> (\<exists>k. i \<le> k \<and> k < length inner \<and> x = inner ! k))}"

lemma finite_front [simp]: "finite (front i)"
  by (rule finite_subset [of _ "{..2 * i}"]) (auto simp: front_def)

lemma node_kind:
  assumes "x \<le> 2 * length inner"
  shows "x \<in> set leaves \<or> (\<exists>k<length inner. x = inner ! k)"
proof -
  have "x \<in> set leaves \<or> x \<in> set inner" using assms by (auto simp: leaves_set)
  then show ?thesis by (metis in_set_conv_nth)
qed

lemma front_child:
  assumes "i < length inner" and "x = 2 * i + 1 \<or> x = 2 * i + 2"
  shows "x \<in> front (Suc i)" and "x \<notin> front i" and "x \<noteq> inner ! i"
proof -
  have "x \<in> set leaves \<or> (\<exists>k<length inner. x = inner ! k)"
    by (rule node_kind) (use assms in auto)
  then show "x \<in> front (Suc i)"
  proof
    assume "\<exists>k<length inner. x = inner ! k"
    then obtain k where k: "k < length inner" "x = inner ! k" by blast
    then have "Suc i \<le> k" using inner_below [of k] assms(2) by auto
    with k assms(2) show ?thesis by (auto simp: front_def)
  qed (use assms in \<open>auto simp: front_def\<close>)
  show "x \<notin> front i" "x \<noteq> inner ! i" using assms inner_below [of i] by (auto simp: front_def)
qed

lemma front_step:
  assumes "i < length inner"
  shows "front (Suc i) = insert (2 * i + 1) (insert (2 * i + 2) (front i - {inner ! i}))"
    and "inner ! i \<in> front i"
proof -
  show "inner ! i \<in> front i" using assms inner_below [of i] by (auto simp: front_def)
  show "front (Suc i) = insert (2 * i + 1) (insert (2 * i + 2) (front i - {inner ! i}))"
  proof (intro set_eqI iffI)
    fix x assume x: "x \<in> front (Suc i)"
    then have "x = 2 * i + 1 \<or> x = 2 * i + 2 \<or> x \<le> 2 * i" by (auto simp: front_def)
    moreover have "x \<noteq> inner ! i"
    proof
      assume xi: "x = inner ! i"
      then have "x \<notin> set leaves" using assms by (simp add: inner_not_leaf)
      then obtain k where "Suc i \<le> k" "k < length inner" "x = inner ! k" using x by (auto simp: front_def)
      then show False using xi assms inner_inj [of i k] by simp
    qed
    moreover have "x \<in> front i" if "x \<le> 2 * i"
      using x that Suc_leD unfolding front_def by blast
    ultimately show "x \<in> insert (2 * i + 1) (insert (2 * i + 2) (front i - {inner ! i}))" by blast
  next
    fix x assume "x \<in> insert (2 * i + 1) (insert (2 * i + 2) (front i - {inner ! i}))"
    then consider "x = 2 * i + 1 \<or> x = 2 * i + 2" | "x \<in> front i" "x \<noteq> inner ! i" by blast
    then show "x \<in> front (Suc i)"
    proof cases
      case 1
      then show ?thesis by (rule front_child(1) [OF assms])
    next
      case 2
      have "Suc i \<le> k" if "i \<le> k" "x = inner ! k" for k
        using that 2(2) by (cases "k = i") auto
      moreover have "x \<le> 2 * Suc i" using 2(1) by (simp add: front_def)
      ultimately show ?thesis using 2(1) unfolding front_def by blast
    qed
  qed
qed

lemma length_picked_le:
  fixes B :: "nat \<Rightarrow> int"
  assumes m: "\<And>k. k < length inner \<Longrightarrow> m (inner ! k) \<longleftrightarrow> m (2 * k + 1) \<or> m (2 * k + 2)"
    and B_leaf: "\<And>x. x \<in> set leaves \<Longrightarrow> B x = - lam"
    and B_inner: "\<And>k. k < length inner \<Longrightarrow> B (2 * k + 1) + B (2 * k + 2) \<le> B (inner ! k)
      \<and> B (2 * k + 1) + 1 \<le> B (inner ! k) \<and> B (2 * k + 2) + 1 \<le> B (inner ! k)"
    and "0 < length inner"
  shows "int (length (picked m 0)) \<le> lam * int (card {x \<in> set leaves. m x}) + max 0 (B 0)"
proof -
  define \<Phi> where "\<Phi> i = (\<Sum>x\<in>front i. if m x then B x else 0)" for i
  have "int (length (picked m i)) \<le> lam * int (card {x \<in> set leaves. m x}) + \<Phi> i"
    if "i \<le> length inner" for i
    using that
  proof (induction "length inner - i" arbitrary: i)
    case 0
    then have i: "i = length inner" by simp
    then have "front i = set leaves"
      by (auto simp: front_def leaves_set)
    then have "\<Phi> i = (\<Sum>x\<in>set leaves. if m x then - lam else 0)"
      unfolding \<Phi>_def by (auto intro: sum.cong simp: B_leaf)
    also have "\<dots> = - lam * int (card {x \<in> set leaves. m x})"
      by (simp add: sum.If_cases Int_def)
    finally show ?case by (simp add: i)
  next
    case (Suc d)
    then have i: "i < length inner" by simp
    let ?l = "2 * i + 1" and ?r = "2 * i + 2" and ?F = "front i - {inner ! i}"
    let ?b = "\<lambda>x. if m x then B x else 0"
    have IH: "int (length (picked m (Suc i))) \<le> lam * int (card {x \<in> set leaves. m x}) + \<Phi> (Suc i)"
      using Suc by simp
    have "\<Phi> (Suc i) = ?b ?l + (?b ?r + (\<Sum>x\<in>?F. ?b x))"
      unfolding \<Phi>_def front_step(1) [OF i]
      using front_child(2) [OF i, of ?l] front_child(2) [OF i, of ?r] by (subst sum.insert; simp)+
    moreover have "\<Phi> i = ?b (inner ! i) + (\<Sum>x\<in>?F. ?b x)"
      unfolding \<Phi>_def by (rule sum.remove) (simp_all add: front_step(2) [OF i])
    moreover have "int (length (pick m i)) + ?b ?l + ?b ?r \<le> ?b (inner ! i)"
      using m [OF i] B_inner [OF i] by (auto simp: pick_def)
    ultimately show ?case using IH by (simp add: picked_step [OF i])
  qed
  from this [of 0] have "int (length (picked m 0)) \<le> lam * int (card {x \<in> set leaves. m x}) + \<Phi> 0" by simp
  moreover have "\<Phi> 0 \<le> max 0 (B 0)"
  proof -
    have "inner ! 0 = 0" using inner_below [of 0] assms(4) by simp
    then have "front 0 = {0}" using front_step(2) [of 0] assms(4) by (auto simp: front_def)
    then show ?thesis unfolding \<Phi>_def by (simp only: sum.insert sum.empty) simp
  qed
  ultimately show ?thesis by linarith
qed

text \<open>The nodes whose flag is final when the pairs from index \<open>i\<close> on have been visited.\<close>

definition visited :: "nat \<Rightarrow> nat \<Rightarrow> bool" where
  "visited i x \<longleftrightarrow> x \<in> set leaves \<or> (\<exists>k. i \<le> k \<and> k < length inner \<and> x = inner ! k)"

lemma visited_child:
  "i < length inner \<Longrightarrow> x = 2 * i + 1 \<or> x = 2 * i + 2 \<Longrightarrow> visited (Suc i) x"
  using front_child(1) by (auto simp: front_def visited_def)

lemma visited_step: "i < length inner \<Longrightarrow> visited i x \<longleftrightarrow> visited (Suc i) x \<or> x = inner ! i"
  unfolding visited_def by (metis Suc_leD Suc_leI le_neq_implies_less le_refl)

lemma visited_all: "x < nodes \<Longrightarrow> visited 0 x"
  using node_kind [of x] by (auto simp: visited_def nodes_def)

lemma visited_start: "visited (length inner) x \<longleftrightarrow> x \<in> set leaves"
  by (auto simp: visited_def)

lemma not_visited_inner: "i < length inner \<Longrightarrow> \<not> visited (Suc i) (inner ! i)"
  unfolding visited_def using inner_inj inner_not_leaf by (metis Suc_n_not_le_n)

lemma child_lt_nodes: "i < length inner \<Longrightarrow> 2 * i + 1 < nodes \<and> 2 * i + 2 < nodes"
  by (simp add: nodes_def)

definition flags_at :: "(nat \<Rightarrow> bool) \<Rightarrow> nat \<Rightarrow> u8 list \<Rightarrow> bool" where
  "flags_at m i f \<longleftrightarrow> length f = nodes \<and> (\<forall>x<nodes. f ! x = (if m x \<and> visited i x then 1 else 0))"

lemma flags_at_child:
  assumes "flags_at m (Suc i) f" and "i < length inner" and "x = 2 * i + 1 \<or> x = 2 * i + 2"
  shows "f ! x = (if m x then 1 else 0)"
  using assms visited_child [OF assms(2,3)] child_lt_nodes [OF assms(2)] by (auto simp: flags_at_def)

lemma flags_at_update:
  assumes "flags_at m (Suc i) f" and "i < length inner"
    and "m (inner ! i) \<longleftrightarrow> m (2 * i + 1) \<or> m (2 * i + 2)"
    and "v = (if m (2 * i + 1) \<or> m (2 * i + 2) then 1 else 0)"
  shows "flags_at m i (f[inner ! i := v])"
  using assms inner_lt_nodes [OF assms(2)]
  by (auto simp: flags_at_def nth_list_update visited_step [OF assms(2)])

lemma flags_at_keep:
  assumes "flags_at m (Suc i) f" and "i < length inner" and "\<not> m (inner ! i)"
  shows "flags_at m i f"
  using assms by (auto simp: flags_at_def visited_step [OF assms(2)])

text \<open>A mark reaches the root.\<close>

lemma marked_root:
  assumes "marked inner leaves Q x" and "x < nodes"
  shows "marked inner leaves Q 0"
  using assms
proof (induction x rule: less_induct)
  case (less x)
  show ?case
  proof (cases "x = 0")
    case False
    then obtain k where k: "k < length inner" "x = 2 * k + 1 \<or> x = 2 * k + 2" "father x = inner ! k"
      using child_cases [of x] less.prems by blast
    then have "marked inner leaves Q (father x)" using less.prems marked_inner [OF k(1)] by auto
    moreover have "father x < x" using False less.prems father_lt by simp
    ultimately show ?thesis using less by simp
  qed (use less in simp)
qed

lemma SIBLING_left [simp]: "SIBLING (2 * k + 1) = 2 * k + 2"
  by (simp add: SIBLING_def)

lemma SIBLING_left' [simp]: "SIBLING (Suc (2 * k)) = 2 * k + 2"
  using SIBLING_left [of k] by simp

end

subsection \<open>The walks on a well-formed tree\<close>

lemma zero_padding_iff: "zero_padding xs a b \<longleftrightarrow> (\<forall>i. a \<le> i \<and> i < b \<longrightarrow> xs ! i = 0)"
proof (cases "a \<le> b")
  case True
  have "for_range a b (\<lambda>i e. e OR xs ! i) 0 = 0 \<longleftrightarrow> (\<forall>i. a \<le> i \<and> i < b \<longrightarrow> xs ! i = 0)"
    using True
  proof (induction b)
    case (Suc b)
    then show ?case
      by (cases "a = Suc b") (auto simp: for_range_Suc le_Suc_eq less_Suc_eq or_eq_0_iff)
  qed simp
  then show ?thesis by (simp add: zero_padding_def)
qed (auto simp: zero_padding_def)

context cross_tree
begin

lemma nodes_eq: "nodes = NUM_NODES p"
  using wf_total(3) by (simp add: nodes_def length_inner_nodes)

lemma leaf_lt: "c < par_T p \<Longrightarrow> leaf_nodes p ! c < NUM_NODES p"
  using leaf_lt_nodes [of c] by (simp add: nodes_eq length_leaf_nodes)

lemma leaf_distinct: "c < par_T p \<Longrightarrow> d < par_T p \<Longrightarrow> leaf_nodes p ! c = leaf_nodes p ! d \<longleftrightarrow> c = d"
  using leaf_inj by (simp add: length_leaf_nodes)

lemma place_cmt:
  assumes "length tree = NUM_NODES p * HASH_DIGEST_LENGTH p"
    and "\<And>c. c < par_T p \<Longrightarrow> length (cmts ! c) = HASH_DIGEST_LENGTH p"
  shows "length (place_cmt_on_leaves p tree cmts) = NUM_NODES p * HASH_DIGEST_LENGTH p
    \<and> (\<forall>c<par_T p. blk (HASH_DIGEST_LENGTH p) (place_cmt_on_leaves p tree cmts) (leaf_nodes p ! c) = cmts ! c)"
proof -
  let ?H = "HASH_DIGEST_LENGTH p"
  let ?P = "\<lambda>i t. length t = NUM_NODES p * ?H \<and> (\<forall>c<i. blk ?H t (leaf_nodes p ! c) = cmts ! c)"
  have "?P (par_T p) (for_range 0 (par_T p)
      (\<lambda>c tree. memcpy tree (leaf_nodes p ! c * ?H) (cmts ! c)) tree)"
  proof (rule for_range_inv [where P = ?P])
    fix i t assume i: "i < par_T p" and P: "?P i t"
    have l: "length t = NUM_NODES p * ?H" "leaf_nodes p ! i < NUM_NODES p" "length (cmts ! i) = ?H"
      using P i leaf_lt assms(2) by auto
    have "blk ?H (memcpy t (leaf_nodes p ! i * ?H) (cmts ! i)) (leaf_nodes p ! c) = cmts ! c" if "c < Suc i" for c
    proof (cases "c = i")
      case True
      then show ?thesis using blk_memcpy_same [OF l] by simp
    next
      case False
      then have "c < i" "c < par_T p" using that i by simp_all
      then show ?thesis
        using P i blk_memcpy_other [OF l(1,2) leaf_lt _ l(3)] leaf_distinct by simp
    qed
    moreover have "length (memcpy t (leaf_nodes p ! i * ?H) (cmts ! i)) = NUM_NODES p * ?H"
      by (rule length_memcpy_blk [OF l])
    ultimately show "?P (Suc i) (memcpy t (leaf_nodes p ! i * ?H) (cmts ! i))" by blast
  qed (use assms in simp_all)
  then show ?thesis unfolding place_cmt_on_leaves_def walk_leaves_eq .
qed

lemma label_leaves:
  fixes chall
  defines "m \<equiv> marked (inner_nodes p) (leaf_nodes p) (\<lambda>c. chall ! c = CHALLENGE_PROOF_VALUE)"
  shows "flags_at m (length (inner_nodes p)) (merkle_label_leaves p (replicate (NUM_NODES p) NOT_COMPUTED) chall)"
proof -
  let ?P = "\<lambda>i f. length f = NUM_NODES p \<and> (\<forall>x<NUM_NODES p. f ! x =
    (if \<exists>c<i. x = leaf_nodes p ! c \<and> chall ! c = CHALLENGE_PROOF_VALUE then 1 else 0))"
  let ?f = "for_range 0 (par_T p) (\<lambda>c flags. if chall ! c = CHALLENGE_PROOF_VALUE
      then flags[leaf_nodes p ! c := COMPUTED] else flags) (replicate (NUM_NODES p) NOT_COMPUTED)"
  have P: "?P (par_T p) ?f"
  proof (rule for_range_inv [where P = ?P])
    fix i and f :: "u8 list" assume i: "i < par_T p" and P: "?P i f"
    show "?P (Suc i) (if chall ! i = CHALLENGE_PROOF_VALUE then f[leaf_nodes p ! i := COMPUTED] else f)"
      using P i leaf_lt [OF i] by (auto simp: less_Suc_eq COMPUTED_def nth_list_update)
  qed (auto simp: NOT_COMPUTED_def)
  have "(\<exists>c<par_T p. x = leaf_nodes p ! c \<and> chall ! c = CHALLENGE_PROOF_VALUE)
      \<longleftrightarrow> m x \<and> x \<in> set (leaf_nodes p)" for x
    unfolding m_def by (auto simp: marked_leaf length_leaf_nodes in_set_conv_nth)
  with P show ?thesis
    by (simp add: merkle_label_leaves_def walk_leaves_eq flags_at_def visited_start nodes_eq)
qed

text \<open>\<open>is_merkle_tree\<close>: the leaves are the commitments, every inner node the hash of its children.\<close>

definition is_merkle_tree :: "bytes \<Rightarrow> bytes list \<Rightarrow> bool" where
  "is_merkle_tree tree cmts \<longleftrightarrow> length tree = NUM_NODES p * HASH_DIGEST_LENGTH p
    \<and> (\<forall>c<par_T p. blk (HASH_DIGEST_LENGTH p) tree (leaf_nodes p ! c) = cmts ! c)
    \<and> (\<forall>k<length (inner_nodes p). blk (HASH_DIGEST_LENGTH p) tree (inner_nodes p ! k)
        = hash p (blk (HASH_DIGEST_LENGTH p) tree (2 * k + 1) @ blk (HASH_DIGEST_LENGTH p) tree (2 * k + 2))
            HASH_DOMAIN_SEP_CONST)"

lemma tree_root_correct:
  assumes perm: "perm_ok (keccak_perm p)"
    and len: "length tree = NUM_NODES p * HASH_DIGEST_LENGTH p"
    and cmts: "\<And>c. c < par_T p \<Longrightarrow> length (cmts ! c) = HASH_DIGEST_LENGTH p"
  shows "is_merkle_tree (snd (tree_root p tree cmts)) cmts"
    and "fst (tree_root p tree cmts) = blk (HASH_DIGEST_LENGTH p) (snd (tree_root p tree cmts)) 0"
proof -
  let ?H = "HASH_DIGEST_LENGTH p" and ?I = "length (inner_nodes p)"
  let ?f = "\<lambda>k tree. memcpy tree (inner_nodes p ! k * ?H)
      (hash p (seg tree ((2 * k + 1) * ?H) (2 * ?H)) HASH_DOMAIN_SEP_CONST)"
  let ?node = "\<lambda>t k. blk ?H t (inner_nodes p ! k)
      = hash p (blk ?H t (2 * k + 1) @ blk ?H t (2 * k + 2)) HASH_DOMAIN_SEP_CONST"
  let ?P = "\<lambda>i t. length t = NUM_NODES p * ?H \<and> (\<forall>c<par_T p. blk ?H t (leaf_nodes p ! c) = cmts ! c)
      \<and> (\<forall>k. i \<le> k \<and> k < ?I \<longrightarrow> ?node t k)"
  let ?t = "for_down ?I ?f (place_cmt_on_leaves p tree cmts)"
  have "?P 0 ?t"
  proof (rule for_down_inv [where P = ?P])
    show "?P ?I (place_cmt_on_leaves p tree cmts)"
      using place_cmt [OF len cmts] by auto
    fix i t assume i: "i < ?I" and P: "?P (Suc i) t"
    let ?h = "hash p (seg t ((2 * i + 1) * ?H) (2 * ?H)) HASH_DOMAIN_SEP_CONST"
    have l: "length t = NUM_NODES p * ?H" "inner_nodes p ! i < NUM_NODES p" "length ?h = ?H"
      using P inner_lt_nodes [OF i] perm by (auto simp: nodes_eq)
    have other: "blk ?H (?f i t) x = blk ?H t x" if "x < NUM_NODES p" "x \<noteq> inner_nodes p ! i" for x
      using blk_memcpy_other [OF l(1,2) that(1) _ l(3)] that(2) by auto
    have child: "blk ?H (?f i t) x = blk ?H t x" if "k < ?I" "i \<le> k" "x = 2 * k + 1 \<or> x = 2 * k + 2" for k x
      using that inner_below [OF i] child_lt_nodes [of k] by (intro other) (auto simp: nodes_eq)
    have seg: "seg t ((2 * i + 1) * ?H) (2 * ?H) = blk ?H t (2 * i + 1) @ blk ?H t (2 * i + 2)"
      using seg_two_blks [of t "2 * i + 1" ?H] by simp
    have "?node (?f i t) k" if k: "i \<le> k" "k < ?I" for k
    proof (cases "k = i")
      case True
      then show ?thesis
        using blk_memcpy_same [OF l] child [OF i le_refl] by (simp only: seg) simp
    next
      case False
      then have "?node t k" using P k by simp
      moreover have "blk ?H (?f i t) (inner_nodes p ! k) = blk ?H t (inner_nodes p ! k)"
        using inner_lt_nodes [OF k(2)] inner_inj [OF k(2) i] False by (intro other) (auto simp: nodes_eq)
      ultimately show ?thesis using child [OF k(2,1)] by simp
    qed
    moreover have "blk ?H (?f i t) (leaf_nodes p ! c) = cmts ! c" if "c < par_T p" for c
      using P that leaf_lt [OF that] leaf_neq_inner [of c i] i
      by (subst other) (auto simp: length_leaf_nodes)
    moreover have "length (?f i t) = NUM_NODES p * ?H" by (rule length_memcpy_blk [OF l])
    ultimately show "?P i (?f i t)" by blast
  qed
  moreover have t: "snd (tree_root p tree cmts) = ?t"
    by (simp add: tree_root_def Let_def walk_up_eq length_inner_nodes)
  ultimately show "is_merkle_tree (snd (tree_root p tree cmts)) cmts"
    by (simp add: is_merkle_tree_def)
  show "fst (tree_root p tree cmts) = blk ?H (snd (tree_root p tree cmts)) 0"
    by (simp add: tree_root_def Let_def blk_def seg_def)
qed

text \<open>The proof: the picked nodes, in order, then zeros.\<close>

abbreviation is_merkle_proof :: "bytes \<Rightarrow> bytes \<Rightarrow> nat list \<Rightarrow> bool" where
  "is_merkle_proof \<equiv> is_storage (HASH_DIGEST_LENGTH p) (TREE_NODES_TO_STORE p)"

lemma tree_proof_correct:
  fixes chall
  defines "m \<equiv> marked (inner_nodes p) (leaf_nodes p) (\<lambda>c. chall ! c = CHALLENGE_PROOF_VALUE)"
  assumes len: "length tree = NUM_NODES p * HASH_DIGEST_LENGTH p"
    and mtp: "mtp = replicate (TREE_NODES_TO_STORE p * HASH_DIGEST_LENGTH p) 0"
    and bound: "length (picked m 0) \<le> TREE_NODES_TO_STORE p"
  shows "is_merkle_proof (fst (tree_proof p mtp tree chall)) tree (picked m 0)"
    and "snd (tree_proof p mtp tree chall) = length (picked m 0)"
proof -
  let ?H = "HASH_DIGEST_LENGTH p" and ?I = "length (inner_nodes p)"
  let ?s0 = "\<lparr>pf_flags = merkle_label_leaves p (replicate (NUM_NODES p) NOT_COMPUTED) chall,
      pf_mtp = mtp, pf_published = 0\<rparr>"
  let ?P = "\<lambda>i s. flags_at m i (pf_flags s) \<and> pf_published s = length (picked m i)
      \<and> is_merkle_proof (pf_mtp s) tree (picked m i)"
  have "?P 0 (for_down ?I (\<lambda>k. tree_proof_step p tree (2 * k + 1) (inner_nodes p ! k)) ?s0)"
  proof (rule for_down_inv [where P = ?P])
    show "?P ?I ?s0"
      using label_leaves [of chall] by (auto simp: m_def mtp is_storage_def)
    fix i and s :: proof_state assume i: "i < ?I" and P: "?P (Suc i) s"
    define f where "f = (pf_flags s)[inner_nodes p ! i := (if m (2 * i + 1) \<or> m (2 * i + 2) then 1 else 0 :: u8)]"
    have fc: "pf_flags s ! (2 * i + 1) = (if m (2 * i + 1) then 1 else 0)"
        "pf_flags s ! (2 * i + 2) = (if m (2 * i + 2) then 1 else 0)"
      using flags_at_child [OF conjunct1 [OF P] i] by simp_all
    have ne: "inner_nodes p ! i \<noteq> 2 * i + 1" "inner_nodes p ! i \<noteq> 2 * i + 2"
      using inner_below [OF i] by simp_all
    have f: "flags_at m i f"
      unfolding f_def by (rule flags_at_update [OF conjunct1 [OF P] i]) (use i in \<open>auto simp: m_def marked_inner\<close>)
    have "length (picked m i) \<le> TREE_NODES_TO_STORE p"
      using picked_prefix [of 0 i m] i bound by auto
    then have lt: "length (picked m (Suc i)) < TREE_NODES_TO_STORE p" if "pick m i \<noteq> []"
      using that by (cases "pick m i") (auto simp: picked_step [OF i])
    have blk: "length (blk ?H tree x) = ?H" if "x = 2 * i + 1 \<or> x = 2 * i + 2" for x
      by (rule length_blk [OF _ len]) (use that child_lt_nodes [OF i] in \<open>auto simp: nodes_eq\<close>)
    note app = is_storage_append [OF conjunct2 [OF conjunct2 [OF P]] lt blk]
    have upd: "(pf_flags s)[inner_nodes p ! i := v] ! x = pf_flags s ! x" if "x = 2 * i + 1 \<or> x = 2 * i + 2" for v x
      using ne that by auto
    have step: "tree_proof_step p tree (2 * i + 1) (inner_nodes p ! i) s
      = fold (\<lambda>x s. s\<lparr>pf_mtp := memcpy (pf_mtp s) (pf_published s * ?H) (blk ?H tree x),
                 pf_published := pf_published s + 1\<rparr>) (pick m i) (s\<lparr>pf_flags := f\<rparr>)"
    proof -
      define l r where "l = 2 * i + 1" and "r = 2 * i + 2"
      have lr: "SIBLING l = r" "l = 2 * i + 1 \<or> l = 2 * i + 2" "r = 2 * i + 1 \<or> r = 2 * i + 2"
        by (simp_all add: l_def r_def)
      show ?thesis
        unfolding tree_proof_step_def Let_def pick_def f_def l_def [symmetric] r_def [symmetric] lr(1)
          COMPUTED_def NOT_COMPUTED_def
        by (cases "m l"; cases "m r"; simp add: fc [folded l_def r_def] upd [OF lr(2)] upd [OF lr(3)])
    qed
    show "?P i (tree_proof_step p tree (2 * i + 1) (inner_nodes p ! i) s)"
    proof (cases "pick m i = []")
      case True
      then show ?thesis using P f unfolding step by (simp add: picked_step [OF i])
    next
      case False
      then obtain x where x: "pick m i = [x]" "x = 2 * i + 1 \<or> x = 2 * i + 2"
        by (auto simp: pick_def split: if_splits)
      then show ?thesis
        using P f app [OF False x(2)] unfolding step by (simp add: picked_step [OF i])
    qed
  qed
  then show "is_merkle_proof (fst (tree_proof p mtp tree chall)) tree (picked m 0)"
    and "snd (tree_proof p mtp tree chall) = length (picked m 0)"
    by (simp_all add: tree_proof_def Let_def walk_up_eq length_inner_nodes)
qed

text \<open>
  The verifier, given the signer's tree \<open>T\<close>, a proof for it and leaves that agree with the
  commitments where they are revealed, recomputes the root, whatever the memory of its tree held.
\<close>

lemma recompute_root_correct:
  fixes chall
  defines "m \<equiv> marked (inner_nodes p) (leaf_nodes p) (\<lambda>c. chall ! c = CHALLENGE_PROOF_VALUE)"
  assumes perm: "perm_ok (keccak_perm p)"
    and T: "is_merkle_tree T cmts" and pf: "is_merkle_proof mtp T (picked m 0)"
    and bound: "length (picked m 0) \<le> TREE_NODES_TO_STORE p"
    and len: "length tree = NUM_NODES p * HASH_DIGEST_LENGTH p"
    and cmts': "\<And>c. c < par_T p \<Longrightarrow> length (cmts' ! c) = HASH_DIGEST_LENGTH p"
    and agree: "\<And>c. c < par_T p \<Longrightarrow> chall ! c = CHALLENGE_PROOF_VALUE \<Longrightarrow> cmts' ! c = cmts ! c"
    and revealed: "c0 < par_T p" "chall ! c0 = CHALLENGE_PROOF_VALUE"
  shows "recompute_root p tree cmts' mtp chall = (blk (HASH_DIGEST_LENGTH p) T 0, True)"
proof -
  let ?H = "HASH_DIGEST_LENGTH p" and ?I = "length (inner_nodes p)"
  let ?s0 = "\<lparr>rc_tree = place_cmt_on_leaves p tree cmts',
      rc_flags = merkle_label_leaves p (replicate (NUM_NODES p) NOT_COMPUTED) chall, rc_published = 0\<rparr>"
  have lenT: "length T = NUM_NODES p * ?H" using T by (simp add: is_merkle_tree_def)
  have lenm: "length mtp = TREE_NODES_TO_STORE p * ?H" using pf by (simp add: is_storage_def)
  let ?P = "\<lambda>i s. flags_at m i (rc_flags s) \<and> rc_published s = length (picked m i)
      \<and> length (rc_tree s) = NUM_NODES p * ?H
      \<and> (\<forall>x<NUM_NODES p. m x \<and> visited i x \<longrightarrow> blk ?H (rc_tree s) x = blk ?H T x)"
  let ?final = "for_down ?I (\<lambda>k. recompute_step p mtp (2 * k + 1) (inner_nodes p ! k)) ?s0"
  have P0: "?P 0 ?final"
  proof (rule for_down_inv [where P = ?P])
    have "blk ?H (place_cmt_on_leaves p tree cmts') x = blk ?H T x" if m0: "m x" and xl: "x \<in> set (leaf_nodes p)" for x
    proof -
      obtain c where c: "c < par_T p" "x = leaf_nodes p ! c"
        using xl by (auto simp: in_set_conv_nth length_leaf_nodes)
      then have "chall ! c = CHALLENGE_PROOF_VALUE"
        using m0 by (simp add: m_def marked_leaf length_leaf_nodes)
      then show ?thesis
        using c place_cmt [OF len cmts'] T agree by (simp add: is_merkle_tree_def)
    qed
    then show "?P ?I ?s0"
      using label_leaves [of chall] place_cmt [OF len cmts'] by (simp add: m_def visited_start)
    fix i and s :: recompute_state assume i: "i < ?I" and P: "?P (Suc i) s"
    define l r x where "l = 2 * i + 1" and "r = 2 * i + 2" and "x = inner_nodes p ! i"
    have lr: "SIBLING l = r" "l < NUM_NODES p" "r < NUM_NODES p" "x < NUM_NODES p"
      using child_lt_nodes [OF i] inner_lt_nodes [OF i] by (simp_all add: l_def r_def x_def nodes_eq)
    have mx: "m x \<longleftrightarrow> m l \<or> m r" using i by (simp add: m_def x_def l_def r_def marked_inner)
    have vis: "visited (Suc i) l" "visited (Suc i) r" using visited_child [OF i] by (simp_all add: l_def r_def)
    have fc: "rc_flags s ! l = (if m l then 1 else 0)" "rc_flags s ! r = (if m r then 1 else 0)"
      using flags_at_child [OF conjunct1 [OF P] i] by (simp_all add: l_def r_def)
    have tree: "m y \<Longrightarrow> y = l \<or> y = r \<Longrightarrow> blk ?H (rc_tree s) y = blk ?H T y" for y
      using P vis lr by auto
    have proof_next: "blk ?H mtp (length (picked m (Suc i))) = blk ?H T y" if "pick m i = [y]" for y
    proof -
      have "length (picked m (Suc i)) < length (picked m i)" using that by (simp add: picked_step [OF i])
      then show ?thesis
        using picked_nth [of i "length (picked m (Suc i))" m] i pf that
        by (simp add: is_storage_def picked_step [OF i] nth_append)
    qed
    have pick: "pick m i = (if \<not> m l \<and> m r then [l] else if m l \<and> \<not> m r then [r] else [])"
      by (simp add: pick_def l_def r_def)
    show "?P i (recompute_step p mtp (2 * i + 1) (inner_nodes p ! i) s)"
    proof (cases "m l \<or> m r")
      case False
      then have "recompute_step p mtp l x s = s"
        by (simp add: recompute_step_def lr(1) fc NOT_COMPUTED_def)
      moreover have "flags_at m i (rc_flags s)"
        by (rule flags_at_keep [OF conjunct1 [OF P] i]) (use False mx x_def in simp)
      moreover have "blk ?H (rc_tree s) y = blk ?H T y" if "y < NUM_NODES p" "m y" "visited i y" for y
        using P that False mx by (auto simp: visited_step [OF i] x_def)
      ultimately show ?thesis
        using P False unfolding l_def [symmetric] x_def [symmetric]
        by (simp add: picked_step [OF i] pick)
    next
      case True
      define h where "h = hash p (blk ?H T l @ blk ?H T r) HASH_DOMAIN_SEP_CONST"
      have step: "recompute_step p mtp l x s = s\<lparr>rc_published := rc_published s + length (pick m i),
          rc_tree := memcpy (rc_tree s) (x * ?H) h, rc_flags := (rc_flags s)[x := 1]\<rparr>"
        using True tree [of l] tree [of r] proof_next [of l] proof_next [of r] P
        by (cases "m l"; cases "m r";
            simp add: recompute_step_def take_child_def lr(1) fc NOT_COMPUTED_def COMPUTED_def pick h_def)
      have len_h: "length h = ?H" using perm by (simp add: h_def)
      have lens: "length (rc_tree s) = NUM_NODES p * ?H" using P by simp
      have "blk ?H (memcpy (rc_tree s) (x * ?H) h) y = blk ?H T y" if y: "y < NUM_NODES p" "m y" "visited i y" for y
      proof (cases "y = x")
        case True
        have "blk ?H T x = h" using T i by (simp add: is_merkle_tree_def h_def x_def l_def r_def)
        with True show ?thesis using blk_memcpy_same [OF lens lr(4) len_h] by simp
      next
        case False
        then have "visited (Suc i) y" using y(3) by (simp add: visited_step [OF i] x_def)
        then show ?thesis
          using P y False blk_memcpy_other [OF lens lr(4) y(1) _ len_h] by simp
      qed
      moreover have "flags_at m i ((rc_flags s)[x := 1])"
        unfolding x_def by (rule flags_at_update [OF conjunct1 [OF P] i])
          (use True mx in \<open>simp_all add: x_def l_def r_def\<close>)
      moreover have "length (memcpy (rc_tree s) (x * ?H) h) = NUM_NODES p * ?H"
        by (rule length_memcpy_blk [OF lens lr(4) len_h])
      ultimately show ?thesis
        using P unfolding l_def [symmetric] x_def [symmetric] step by (simp add: picked_step [OF i])
    qed
  qed
  have root: "m 0"
    unfolding m_def using revealed leaf_lt
    by (intro marked_root [of _ "leaf_nodes p ! c0"]) (simp_all add: marked_leaf length_leaf_nodes nodes_eq)
  have "0 < NUM_NODES p" using wf_T by simp
  then have "blk ?H (rc_tree ?final) 0 = blk ?H T 0"
    using P0 root visited_all by (simp add: nodes_eq)
  then have "take ?H (rc_tree ?final) = blk ?H T 0" by (simp add: blk_def seg_def)
  moreover have "zero_padding mtp (rc_published ?final * ?H) (TREE_NODES_TO_STORE p * ?H)"
    using P0 pf lenm by (simp add: zero_padding_iff is_storage_def)
  ultimately show ?thesis
    by (simp add: recompute_root_def Let_def walk_up_eq length_inner_nodes)
qed

end

end
