(* ===== verification/Cross_Seedtree.thy ===== *)
theory Cross_Seedtree
  imports Cross_Merkle
begin

text \<open>
  \<open>seedtree.c\<close>: the tree of the round seeds, grown from one root seed, the path of the published
  seeds and the regrowth of the published part of the tree from it.  Here a leaf is published where
  the second challenge is 1, and an inner node where both children are; with \<open>marked\<close> as the nodes
  above an unpublished leaf, the published nodes are those that are not marked, and the path holds
  the unmarked nodes whose parent is marked, which are as many as the nodes of the Merkle proof.
\<close>

definition TO_PUBLISH :: u8 where "TO_PUBLISH = 1"
definition NOT_TO_PUBLISH :: u8 where "NOT_TO_PUBLISH = 0"

definition seed_label_leaves :: "cross_params \<Rightarrow> u8 list \<Rightarrow> u8 list \<Rightarrow> u8 list" where
  "seed_label_leaves p flag_tree indices_to_publish = walk_leaves p
     (\<lambda>cnt pos flags. flags[pos := indices_to_publish ! cnt]) flag_tree"

definition compute_seeds_to_publish :: "cross_params \<Rightarrow> u8 list \<Rightarrow> u8 list \<Rightarrow> u8 list" where
  "compute_seeds_to_publish p flags_tree_to_publish indices_to_publish =
     walk_up p (\<lambda>current_node parent_node flags. flags[parent_node :=
         (if flags ! current_node = TO_PUBLISH \<and> flags ! SIBLING current_node = TO_PUBLISH then 1 else 0)])
       (seed_label_leaves p flags_tree_to_publish indices_to_publish)"

text \<open>The two children of a node: the seed and the salt, under the index of the node.\<close>

definition expand_node :: "cross_params \<Rightarrow> bytes \<Rightarrow> bytes \<Rightarrow> nat \<Rightarrow> bytes" where
  "expand_node p salt seed father_node =
     (let csprng_input = seed @ salt;
          domain_sep = CSPRNG_DOMAIN_SEP_CONST + of_nat father_node;
          tree_csprng_state = csprng_initialize p csprng_input domain_sep
      in fst (csprng_randombytes p (2 * SEED_LENGTH_BYTES p) tree_csprng_state))"

definition gen_seed_tree :: "cross_params \<Rightarrow> bytes \<Rightarrow> bytes \<Rightarrow> bytes \<Rightarrow> bytes" where
  "gen_seed_tree p seed_tree root_seed salt = walk_down_fathers p
     (\<lambda>father_node left_child_node seed_tree.
        memcpy seed_tree (left_child_node * SEED_LENGTH_BYTES p)
          (expand_node p salt (blk (SEED_LENGTH_BYTES p) seed_tree father_node) father_node))
     (memcpy seed_tree 0 root_seed)"

definition seed_leaves :: "cross_params \<Rightarrow> bytes \<Rightarrow> bytes \<Rightarrow> bytes" where
  "seed_leaves p rounds_seeds seed_tree = walk_leaves p
     (\<lambda>cnt pos rounds_seeds. memcpy rounds_seeds (cnt * SEED_LENGTH_BYTES p)
        (blk (SEED_LENGTH_BYTES p) seed_tree pos)) rounds_seeds"

definition seed_path :: "cross_params \<Rightarrow> bytes \<Rightarrow> bytes \<Rightarrow> u8 list \<Rightarrow> bytes \<times> nat" where
  "seed_path p seed_storage seed_tree indices_to_publish =
     (let flags = compute_seeds_to_publish p (replicate (NUM_NODES p) NOT_TO_PUBLISH) indices_to_publish
      in walk_down_nodes p (\<lambda>current_node father_node left_child has_children (seed_storage, published).
           if flags ! current_node = TO_PUBLISH \<and> flags ! father_node = NOT_TO_PUBLISH
           then (memcpy seed_storage (published * SEED_LENGTH_BYTES p)
                   (blk (SEED_LENGTH_BYTES p) seed_tree current_node), published + 1)
           else (seed_storage, published))
         (seed_storage, 0))"

definition rebuild_step :: "cross_params \<Rightarrow> u8 list \<Rightarrow> bytes \<Rightarrow> bytes
    \<Rightarrow> nat \<Rightarrow> nat \<Rightarrow> nat \<Rightarrow> bool \<Rightarrow> bytes \<times> nat \<Rightarrow> bytes \<times> nat" where
  "rebuild_step p flags stored_seeds salt current_node father_node left_child has_children s =
     (let (seed_tree, nodes_used) = s;
          (seed_tree, nodes_used) =
            (if flags ! current_node = TO_PUBLISH \<and> flags ! father_node = NOT_TO_PUBLISH
             then (memcpy seed_tree (current_node * SEED_LENGTH_BYTES p)
                     (blk (SEED_LENGTH_BYTES p) stored_seeds nodes_used), nodes_used + 1)
             else (seed_tree, nodes_used));
          seed_tree =
            (if flags ! current_node = TO_PUBLISH \<and> has_children
             then memcpy seed_tree (left_child * SEED_LENGTH_BYTES p)
                    (expand_node p salt (blk (SEED_LENGTH_BYTES p) seed_tree current_node) current_node)
             else seed_tree)
      in (seed_tree, nodes_used))"

definition rebuild_tree :: "cross_params \<Rightarrow> bytes \<Rightarrow> u8 list \<Rightarrow> bytes \<Rightarrow> bytes \<Rightarrow> bytes \<times> bool" where
  "rebuild_tree p seed_tree indices_to_publish stored_seeds salt =
     (let flags = compute_seeds_to_publish p (replicate (NUM_NODES p) 0) indices_to_publish;
          (seed_tree, nodes_used) = walk_down_nodes p (rebuild_step p flags stored_seeds salt) (seed_tree, 0)
      in (seed_tree, zero_padding stored_seeds (nodes_used * SEED_LENGTH_BYTES p)
            (TREE_NODES_TO_STORE p * SEED_LENGTH_BYTES p)))"

lemma length_expand_node [simp, len_simps]:
  "perm_ok (keccak_perm p) \<Longrightarrow> length (expand_node p salt seed x) = 2 * SEED_LENGTH_BYTES p"
  by (simp add: expand_node_def Let_def length_csprng_randombytes csprng_initialize_wf)

subsection \<open>The path has as many nodes as the Merkle proof\<close>

context tree_shape
begin

definition path_nodes :: "(nat \<Rightarrow> bool) \<Rightarrow> nat \<Rightarrow> nat list" where
  "path_nodes m x = filter (\<lambda>x. \<not> m x \<and> m (father x)) [1..<x]"

lemma path_nodes_1 [simp]: "path_nodes m (Suc 0) = []"
  by (simp add: path_nodes_def)

lemma path_nodes_Suc: "0 < x \<Longrightarrow> path_nodes m (Suc x)
    = path_nodes m x @ (if \<not> m x \<and> m (father x) then [x] else [])"
  by (simp add: path_nodes_def)

lemma path_nodes_prefix: "0 < x \<Longrightarrow> x \<le> y \<Longrightarrow> \<exists>r. path_nodes m y = path_nodes m x @ r"
proof (induction y)
  case (Suc y)
  then show ?case by (cases "x = Suc y") (auto simp: path_nodes_Suc)
qed simp

lemma length_path_nodes:
  assumes m: "\<And>k. k < length inner \<Longrightarrow> m (inner ! k) \<longleftrightarrow> m (2 * k + 1) \<or> m (2 * k + 2)"
  shows "length (path_nodes m nodes) = length (picked m 0)"
proof -
  have "length (path_nodes m (2 * n + 1)) = (\<Sum>k<n. length (pick m k))" if "n \<le> length inner" for n
    using that
  proof (induction n)
    case (Suc n)
    have f: "father (Suc (2 * n)) = inner ! n" "father (Suc (Suc (2 * n))) = inner ! n"
      using father_child [of n] Suc.prems by simp_all
    have mi: "m (inner ! n) \<longleftrightarrow> m (Suc (2 * n)) \<or> m (Suc (Suc (2 * n)))" using m [of n] Suc.prems by simp
    show ?case
      using Suc by (simp add: path_nodes_Suc f pick_def mi)
  qed simp
  moreover have "length (picked m 0) = (\<Sum>k<length inner. length (pick m k))"
    by (simp add: picked_def length_concat rev_map [symmetric] comp_def sum_list_rev
        interv_sum_list_conv_sum_set_nat atLeast0LessThan)
  ultimately show ?thesis by (simp add: nodes_def)
qed

end

subsection \<open>The flags\<close>

context cross_tree
begin

definition unpublished :: "u8 list \<Rightarrow> nat \<Rightarrow> bool" where
  "unpublished indices = marked (inner_nodes p) (leaf_nodes p) (\<lambda>c. indices ! c \<noteq> TO_PUBLISH)"

lemma unpublished_inner:
  "k < length (inner_nodes p) \<Longrightarrow> unpublished idx (inner_nodes p ! k)
    \<longleftrightarrow> unpublished idx (2 * k + 1) \<or> unpublished idx (2 * k + 2)"
  unfolding unpublished_def by (rule marked_inner)

lemma unpublished_leaf:
  "c < par_T p \<Longrightarrow> unpublished idx (leaf_nodes p ! c) \<longleftrightarrow> idx ! c \<noteq> TO_PUBLISH"
  unfolding unpublished_def by (simp add: marked_leaf length_leaf_nodes)

lemma unpublished_father:
  assumes "0 < x" and "x < NUM_NODES p" and "unpublished idx x"
  shows "unpublished idx (father x)"
  using assms child_cases [of x] by (metis nodes_eq unpublished_inner)

lemma seed_label_leaves:
  assumes "length fl = NUM_NODES p" and "c < par_T p"
  shows "length (seed_label_leaves p fl idx) = NUM_NODES p"
    and "seed_label_leaves p fl idx ! (leaf_nodes p ! c) = idx ! c"
proof -
  let ?P = "\<lambda>i f. length f = NUM_NODES p \<and> (\<forall>c<i. f ! (leaf_nodes p ! c) = idx ! c)"
  have "?P (par_T p) (for_range 0 (par_T p) (\<lambda>c f. f[leaf_nodes p ! c := idx ! c]) fl)"
  proof (rule for_range_inv [where P = ?P])
    fix i and f :: "u8 list" assume i: "i < par_T p" and P: "?P i f"
    show "?P (Suc i) (f[leaf_nodes p ! i := idx ! i])"
      using P i leaf_lt [OF i] leaf_distinct [OF i] by (auto simp: less_Suc_eq nth_list_update)
  qed (use assms in simp_all)
  then show "length (seed_label_leaves p fl idx) = NUM_NODES p"
    and "seed_label_leaves p fl idx ! (leaf_nodes p ! c) = idx ! c"
    using assms(2) by (simp_all add: seed_label_leaves_def walk_leaves_eq)
qed

theorem compute_seeds_to_publish_correct:
  assumes len: "length fl = NUM_NODES p"
    and idx: "\<And>c. c < par_T p \<Longrightarrow> idx ! c = 0 \<or> idx ! c = 1"
    and x: "x < NUM_NODES p"
  shows "compute_seeds_to_publish p fl idx ! x = (if unpublished idx x then NOT_TO_PUBLISH else TO_PUBLISH)"
proof -
  let ?I = "length (inner_nodes p)"
  let ?f = "\<lambda>k (flags :: u8 list). flags[inner_nodes p ! k :=
      (if flags ! (2 * k + 1) = TO_PUBLISH \<and> flags ! SIBLING (2 * k + 1) = TO_PUBLISH then 1 else 0)]"
  let ?v = "\<lambda>x. if unpublished idx x then 0 else 1 :: u8"
  let ?P = "\<lambda>i f. length f = NUM_NODES p \<and> (\<forall>x<NUM_NODES p. visited i x \<longrightarrow> f ! x = ?v x)"
  have "?P 0 (for_down ?I ?f (seed_label_leaves p fl idx))"
  proof (rule for_down_inv [where P = ?P])
    have "seed_label_leaves p fl idx ! y = ?v y" if "y \<in> set (leaf_nodes p)" for y
    proof -
      obtain c where c: "c < par_T p" "y = leaf_nodes p ! c"
        using \<open>y \<in> set (leaf_nodes p)\<close> by (auto simp: in_set_conv_nth length_leaf_nodes)
      then show ?thesis using seed_label_leaves [OF len c(1)] idx [OF c(1)]
        by (auto simp: unpublished_leaf TO_PUBLISH_def)
    qed
    then show "?P ?I (seed_label_leaves p fl idx)"
      using seed_label_leaves(1) [OF len, of 0] wf_T by (simp add: visited_start)
    fix i and f :: "u8 list" assume i: "i < ?I" and P: "?P (Suc i) f"
    define l r where "l = 2 * i + 1" and "r = 2 * i + 2"
    have lr: "SIBLING l = r" by (simp add: l_def r_def)
    have "f ! l = ?v l" "f ! r = ?v r"
      using P visited_child [OF i] child_lt_nodes [OF i] by (simp_all add: l_def r_def nodes_eq)
    moreover have "unpublished idx (inner_nodes p ! i) \<longleftrightarrow> unpublished idx l \<or> unpublished idx r"
      using unpublished_inner [OF i] by (simp add: l_def r_def)
    moreover have "f[inner_nodes p ! i := v] ! x = (if x = inner_nodes p ! i then v else f ! x)" for v x
      using P inner_lt_nodes [OF i] by (auto simp: nodes_eq)
    ultimately show "?P i (?f i f)"
      unfolding l_def [symmetric] lr using P
      by (simp add: visited_step [OF i] TO_PUBLISH_def)
  qed
  then show ?thesis
    using x visited_all [of x]
    by (simp add: compute_seeds_to_publish_def walk_up_eq length_inner_nodes nodes_eq
        TO_PUBLISH_def NOT_TO_PUBLISH_def)
qed


subsection \<open>The tree, the path and the regrown tree\<close>

definition is_seed_tree :: "bytes \<Rightarrow> bytes \<Rightarrow> bytes \<Rightarrow> bool" where
  "is_seed_tree tree root_seed salt \<longleftrightarrow> length tree = NUM_NODES p * SEED_LENGTH_BYTES p
    \<and> blk (SEED_LENGTH_BYTES p) tree 0 = root_seed
    \<and> (\<forall>k<length (inner_nodes p). blk (SEED_LENGTH_BYTES p) tree (2 * k + 1)
          @ blk (SEED_LENGTH_BYTES p) tree (2 * k + 2)
        = expand_node p salt (blk (SEED_LENGTH_BYTES p) tree (inner_nodes p ! k)) (inner_nodes p ! k))"

lemma expand_children:
  fixes s x salt
  assumes perm: "perm_ok (keccak_perm p)" and k: "k < length (inner_nodes p)"
    and len: "length t = NUM_NODES p * SEED_LENGTH_BYTES p"
  defines "t' \<equiv> memcpy t ((2 * k + 1) * SEED_LENGTH_BYTES p) (expand_node p salt s x)"
  shows "length t' = NUM_NODES p * SEED_LENGTH_BYTES p"
    and "blk (SEED_LENGTH_BYTES p) t' (2 * k + 1) @ blk (SEED_LENGTH_BYTES p) t' (2 * k + 2) = expand_node p salt s x"
    and "y < NUM_NODES p \<Longrightarrow> y \<noteq> 2 * k + 1 \<Longrightarrow> y \<noteq> 2 * k + 2
      \<Longrightarrow> blk (SEED_LENGTH_BYTES p) t' y = blk (SEED_LENGTH_BYTES p) t y"
proof -
  define l where "l = 2 * k + 1"
  have r: "2 * k + 2 = Suc l" by (simp add: l_def)
  have lt: "Suc l < NUM_NODES p" using child_lt_nodes [OF k] by (simp add: l_def nodes_eq)
  have e: "length (expand_node p salt s x) = 2 * SEED_LENGTH_BYTES p" using perm by simp
  show "length t' = NUM_NODES p * SEED_LENGTH_BYTES p"
    unfolding t'_def l_def [symmetric] by (rule length_memcpy_blk2 [OF len lt e])
  show "blk (SEED_LENGTH_BYTES p) t' (2 * k + 1) @ blk (SEED_LENGTH_BYTES p) t' (2 * k + 2) = expand_node p salt s x"
    unfolding t'_def r l_def [symmetric] by (simp add: blk_memcpy2_left [OF len lt e] blk_memcpy2_right [OF len lt e])
  show "blk (SEED_LENGTH_BYTES p) t' y = blk (SEED_LENGTH_BYTES p) t y"
    if "y < NUM_NODES p" "y \<noteq> 2 * k + 1" "y \<noteq> 2 * k + 2"
    using that unfolding t'_def r l_def [symmetric] by (intro blk_memcpy2_other [OF len lt _ _ _ e]) auto
qed

theorem gen_seed_tree_correct:
  assumes perm: "perm_ok (keccak_perm p)"
    and len: "length tree = NUM_NODES p * SEED_LENGTH_BYTES p" "length root_seed = SEED_LENGTH_BYTES p"
  shows "is_seed_tree (gen_seed_tree p tree root_seed salt) root_seed salt"
proof -
  let ?S = "SEED_LENGTH_BYTES p" and ?I = "length (inner_nodes p)"
  let ?f = "\<lambda>k tree. memcpy tree ((2 * k + 1) * ?S)
      (expand_node p salt (blk ?S tree (inner_nodes p ! k)) (inner_nodes p ! k))"
  let ?node = "\<lambda>t k. blk ?S t (2 * k + 1) @ blk ?S t (2 * k + 2)
      = expand_node p salt (blk ?S t (inner_nodes p ! k)) (inner_nodes p ! k)"
  let ?P = "\<lambda>i t. length t = NUM_NODES p * ?S \<and> blk ?S t 0 = root_seed \<and> (\<forall>k<i. ?node t k)"
  have "?P ?I (for_range 0 ?I ?f (memcpy tree 0 root_seed))"
  proof (rule for_range_inv [where P = ?P])
    have "0 < NUM_NODES p" using wf_T by simp
    then show "?P 0 (memcpy tree 0 root_seed)"
      using blk_memcpy_same [OF len(1) _ len(2), of 0] length_memcpy_blk [OF len(1) _ len(2), of 0] by simp
    fix i t assume i: "i < ?I" and P: "?P i t"
    then have l: "length t = NUM_NODES p * ?S" by simp
    note ch = expand_children [OF perm i l, where salt = salt and s = "blk ?S t (inner_nodes p ! i)" and x = "inner_nodes p ! i"]
    have other: "blk ?S (?f i t) y = blk ?S t y" if "y \<le> 2 * i" for y
      using that child_lt_nodes [OF i] by (intro ch(3)) (auto simp: nodes_eq)
    have "?node (?f i t) k" if k: "k < Suc i" for k
    proof (cases "k = i")
      case True
      then show ?thesis using ch(2) other [of "inner_nodes p ! i"] inner_below [OF i] by simp
    next
      case False
      then have ki: "k < i" using k by simp
      then have "?node t k" using P by simp
      then show ?thesis
        using ki other [of "2 * k + 1"] other [of "2 * k + 2"] other [of "inner_nodes p ! k"] inner_below [of k] i
        by simp
    qed
    then show "?P (Suc i) (?f i t)"
      using ch(1) P other [of 0] by simp
  qed simp_all
  then show ?thesis
    by (simp add: is_seed_tree_def gen_seed_tree_def walk_down_fathers_eq length_inner_nodes)
qed

theorem seed_path_correct:
  assumes idx: "\<And>c. c < par_T p \<Longrightarrow> idx ! c = 0 \<or> idx ! c = 1"
    and len: "length tree = NUM_NODES p * SEED_LENGTH_BYTES p"
    and storage: "storage = replicate (TREE_NODES_TO_STORE p * SEED_LENGTH_BYTES p) 0"
    and bound: "length (path_nodes (unpublished idx) nodes) \<le> TREE_NODES_TO_STORE p"
  shows "is_storage (SEED_LENGTH_BYTES p) (TREE_NODES_TO_STORE p)
      (fst (seed_path p storage tree idx)) tree (path_nodes (unpublished idx) nodes)"
    and "snd (seed_path p storage tree idx) = length (path_nodes (unpublished idx) nodes)"
proof -
  let ?S = "SEED_LENGTH_BYTES p" and ?m = "unpublished idx"
  define fl where "fl = compute_seeds_to_publish p (replicate (NUM_NODES p) NOT_TO_PUBLISH) idx"
  let ?f = "\<lambda>x (st, n). if fl ! x = TO_PUBLISH \<and> fl ! father x = NOT_TO_PUBLISH
      then (memcpy st (n * ?S) (blk ?S tree x), n + 1) else (st, n)"
  let ?P = "\<lambda>x (st, n). is_storage ?S (TREE_NODES_TO_STORE p) st tree (path_nodes ?m x)
      \<and> n = length (path_nodes ?m x)"
  have flag: "fl ! x = (if ?m x then NOT_TO_PUBLISH else TO_PUBLISH)" if "x < NUM_NODES p" for x
    using that idx unfolding fl_def by (intro compute_seeds_to_publish_correct) simp_all
  have "?P (NUM_NODES p) (for_range 1 (NUM_NODES p) ?f (storage, 0))"
  proof (rule for_range_inv [where P = ?P])
    show "?P 1 (storage, 0)" by (auto simp: is_storage_def storage)
    fix x s assume x: "1 \<le> x" "x < NUM_NODES p" and P: "?P x s"
    obtain st n where s: "s = (st, n)" by fastforce
    have f: "father x < NUM_NODES p" using father_lt [of x] x by (simp add: nodes_eq)
    show "?P (Suc x) (?f x s)"
    proof (cases "\<not> ?m x \<and> ?m (father x)")
      case True
      then have Suc: "path_nodes ?m (Suc x) = path_nodes ?m x @ [x]" using x by (simp add: path_nodes_Suc)
      have lt: "length (path_nodes ?m x) < TREE_NODES_TO_STORE p"
        using path_nodes_prefix [of "Suc x" nodes ?m] x bound by (auto simp: Suc nodes_eq)
      note app = is_storage_append [OF _ lt length_blk [OF x(2) len], of st]
      show ?thesis
        using True P app unfolding s by (simp add: flag [OF x(2)] flag [OF f] Suc TO_PUBLISH_def NOT_TO_PUBLISH_def)
    next
      case False
      then have "path_nodes ?m (Suc x) = path_nodes ?m x" using x by (simp add: path_nodes_Suc)
      then show ?thesis
        using False P unfolding s by (auto simp: flag [OF x(2)] flag [OF f] TO_PUBLISH_def NOT_TO_PUBLISH_def)
    qed
  qed (use wf_T in simp)
  moreover have "seed_path p storage tree idx = for_range 1 (NUM_NODES p) ?f (storage, 0)"
    unfolding seed_path_def Let_def fl_def by (rule walk_down_nodes_eq) simp
  ultimately show "is_storage ?S (TREE_NODES_TO_STORE p)
      (fst (seed_path p storage tree idx)) tree (path_nodes ?m nodes)"
    and "snd (seed_path p storage tree idx) = length (path_nodes ?m nodes)"
    by (auto simp: nodes_eq split: prod.splits)
qed


text \<open>
  When at least one leaf is kept, the regrown tree has every published leaf, whatever the memory of
  the tree held.
\<close>

definition regrown :: "(nat \<Rightarrow> bool) \<Rightarrow> nat \<Rightarrow> nat \<Rightarrow> bool" where
  "regrown m x y \<longleftrightarrow> 0 < y \<and> (if m (father y) then y < x else father y < x)"

lemma rebuild_step_correct:
  fixes t n idx
  defines "m \<equiv> unpublished idx"
  assumes perm: "perm_ok (keccak_perm p)"
    and T: "is_seed_tree T root_seed salt"
    and path: "is_storage (SEED_LENGTH_BYTES p) (TREE_NODES_TO_STORE p) path T (path_nodes m nodes)"
    and flag: "\<And>x. x < NUM_NODES p \<Longrightarrow> fl ! x = (if m x then NOT_TO_PUBLISH else TO_PUBLISH)"
    and x: "0 < x" "x < NUM_NODES p"
    and t: "length t = NUM_NODES p * SEED_LENGTH_BYTES p" and n: "n = length (path_nodes m x)"
    and ok: "\<And>y. y < NUM_NODES p \<Longrightarrow> \<not> m y \<Longrightarrow> regrown m x y
      \<Longrightarrow> blk (SEED_LENGTH_BYTES p) t y = blk (SEED_LENGTH_BYTES p) T y"
  defines "s' \<equiv> rebuild_step p fl path salt x (father x) (first_child x) (x \<in> set (inner_nodes p)) (t, n)"
  shows "length (fst s') = NUM_NODES p * SEED_LENGTH_BYTES p" and "snd s' = length (path_nodes m (Suc x))"
    and "y < NUM_NODES p \<Longrightarrow> \<not> m y \<Longrightarrow> regrown m (Suc x) y
      \<Longrightarrow> blk (SEED_LENGTH_BYTES p) (fst s') y = blk (SEED_LENGTH_BYTES p) T y"
proof -
  let ?S = "SEED_LENGTH_BYTES p"
  have lenT: "length T = NUM_NODES p * ?S" using T by (simp add: is_seed_tree_def)
  have fx: "father x < x" "father x < NUM_NODES p" using father_lt [of x] x by (simp_all add: nodes_eq)
  define load where "load \<longleftrightarrow> \<not> m x \<and> m (father x)"
  define t1 where "t1 = (if load then memcpy t (x * ?S) (blk ?S path n) else t)"
  define t2 where "t2 = (if \<not> m x \<and> x \<in> set (inner_nodes p)
    then memcpy t1 (first_child x * ?S) (expand_node p salt (blk ?S t1 x) x) else t1)"
  have s': "s' = (t2, n + (if load then 1 else 0))"
    unfolding s'_def rebuild_step_def t2_def t1_def load_def
    by (simp add: flag [OF x(2)] flag [OF fx(2)] TO_PUBLISH_def NOT_TO_PUBLISH_def)
  have Suc: "path_nodes m (Suc x) = path_nodes m x @ (if load then [x] else [])"
    using x by (simp add: path_nodes_Suc load_def)
  have loaded: "blk ?S path n = blk ?S T x" if load
  proof -
    obtain r where "path_nodes m nodes = path_nodes m (Suc x) @ r"
      using path_nodes_prefix [of "Suc x" nodes m] x by (auto simp: nodes_eq)
    then show ?thesis using path that by (simp add: is_storage_def n Suc nth_append)
  qed
  have len1: "length t1 = NUM_NODES p * ?S"
    using t length_memcpy_blk [OF t x(2), of "blk ?S T x"] length_blk [OF x(2) lenT] loaded
    by (simp add: t1_def)
  have t1: "blk ?S t1 y = blk ?S T y"
    if y: "y < NUM_NODES p" "\<not> m y" "y = x \<or> regrown m x y" for y
  proof (cases "load \<and> y = x")
    case True
    then show ?thesis
      using loaded blk_memcpy_same [OF t x(2) length_blk [OF x(2) lenT]] by (simp add: t1_def)
  next
    case False
    then have "regrown m x y" using y fx x by (auto simp: load_def regrown_def)
    moreover have "blk ?S t1 y = blk ?S t y"
      using False blk_memcpy_other [OF t x(2) y(1) _ length_blk [OF x(2) lenT]] loaded by (auto simp: t1_def)
    ultimately show ?thesis using ok y by simp
  qed
  show "snd s' = length (path_nodes m (Suc x))" by (simp add: s' Suc n)
  have known: "regrown m (Suc x) y \<Longrightarrow> y = x \<or> regrown m x y \<or> (0 < y \<and> father y = x \<and> \<not> m x)" for y
    by (auto simp: regrown_def less_Suc_eq split: if_splits)
  have "length t2 = NUM_NODES p * ?S \<and> (y < NUM_NODES p \<longrightarrow> \<not> m y \<longrightarrow> regrown m (Suc x) y
      \<longrightarrow> blk ?S t2 y = blk ?S T y)" for y
  proof (cases "\<not> m x \<and> x \<in> set (inner_nodes p)")
    case True
    then obtain k where k: "k < length (inner_nodes p)" "x = inner_nodes p ! k" by (auto simp: in_set_conv_nth)
    have fc: "first_child x = 2 * k + 1" using first_child_inner [OF k(1)] k(2) by simp
    note ch = expand_children [OF perm k(1) len1, where salt = salt and s = "blk ?S T x" and x = x]
    have t2: "t2 = memcpy t1 ((2 * k + 1) * ?S) (expand_node p salt (blk ?S T x) x)"
      using True t1 [of x] x by (simp add: t2_def fc)
    have T': "blk ?S T (2 * k + 1) @ blk ?S T (2 * k + 2) = expand_node p salt (blk ?S T x) x"
      using T k by (simp add: is_seed_tree_def)
    have lens: "length (blk ?S t2 (2 * k + 1)) = length (blk ?S T (2 * k + 1))"
      using length_blk [OF _ lenT, of "2 * k + 1"] length_blk [OF _ ch(1), of "2 * k + 1"] child_lt_nodes [OF k(1)]
      by (simp add: t2 nodes_eq)
    then have children: "blk ?S t2 (2 * k + 1) = blk ?S T (2 * k + 1)" "blk ?S t2 (2 * k + 2) = blk ?S T (2 * k + 2)"
      using ch(2) T' unfolding t2 by (metis append_eq_append_conv)+
    have "blk ?S t2 y = blk ?S T y" if y: "y < NUM_NODES p" "\<not> m y" "regrown m (Suc x) y"
    proof (cases "y = 2 * k + 1 \<or> y = 2 * k + 2")
      case True
      then show ?thesis using children by auto
    next
      case False
      moreover have "father y \<noteq> x" if "0 < y"
        using that y(1) False child_cases [of y] k inner_inj by (metis nodes_eq)
      ultimately show ?thesis using ch(3) [of y] t1 [of y] y known [OF y(3)] by (auto simp: t2)
    qed
    then show ?thesis using ch(1) by (simp add: t2)
  next
    case False
    then have t2: "t2 = t1" by (auto simp: t2_def)
    have "father y \<noteq> x \<or> m x" if "0 < y" "y < NUM_NODES p"
      using that False child_cases [of y] by (metis nodes_eq nth_mem)
    then show ?thesis using len1 t1 [of y] known [of y] by (auto simp: t2)
  qed
  then show "length (fst s') = NUM_NODES p * ?S"
    and "y < NUM_NODES p \<Longrightarrow> \<not> m y \<Longrightarrow> regrown m (Suc x) y \<Longrightarrow> blk ?S (fst s') y = blk ?S T y"
    by (simp_all add: s')
qed

theorem rebuild_tree_correct:
  fixes tree idx
  defines "m \<equiv> unpublished idx"
  assumes perm: "perm_ok (keccak_perm p)"
    and T: "is_seed_tree T root_seed salt"
    and path: "is_storage (SEED_LENGTH_BYTES p) (TREE_NODES_TO_STORE p) path T (path_nodes m nodes)"
    and idx: "\<And>c. c < par_T p \<Longrightarrow> idx ! c = 0 \<or> idx ! c = 1"
    and kept: "c0 < par_T p" "idx ! c0 = 0"
    and len: "length tree = NUM_NODES p * SEED_LENGTH_BYTES p"
  shows "snd (rebuild_tree p tree idx path salt)"
    and "length (fst (rebuild_tree p tree idx path salt)) = NUM_NODES p * SEED_LENGTH_BYTES p"
    and "c < par_T p \<Longrightarrow> idx ! c = 1 \<Longrightarrow>
      blk (SEED_LENGTH_BYTES p) (fst (rebuild_tree p tree idx path salt)) (leaf_nodes p ! c)
      = blk (SEED_LENGTH_BYTES p) T (leaf_nodes p ! c)"
proof -
  let ?S = "SEED_LENGTH_BYTES p"
  define fl where "fl = compute_seeds_to_publish p (replicate (NUM_NODES p) 0) idx"
  have flag: "fl ! x = (if m x then NOT_TO_PUBLISH else TO_PUBLISH)" if "x < NUM_NODES p" for x
    using that idx unfolding fl_def m_def by (intro compute_seeds_to_publish_correct) simp_all
  have root: "m 0"
    unfolding m_def unpublished_def using kept leaf_lt
    by (intro marked_root [of _ "leaf_nodes p ! c0"])
      (simp_all add: marked_leaf length_leaf_nodes nodes_eq TO_PUBLISH_def)
  let ?f = "\<lambda>x. rebuild_step p fl path salt x (father x) (first_child x) (x \<in> set (inner_nodes p))"
  let ?P = "\<lambda>x s. length (fst s) = NUM_NODES p * ?S \<and> snd s = length (path_nodes m x)
      \<and> (\<forall>y<NUM_NODES p. \<not> m y \<longrightarrow> regrown m x y \<longrightarrow> blk ?S (fst s) y = blk ?S T y)"
  let ?final = "for_range 1 (NUM_NODES p) ?f (tree, 0)"
  have P: "?P (NUM_NODES p) ?final"
  proof (rule for_range_inv [where P = ?P])
    show "?P 1 (tree, 0)" using len root by (auto simp: regrown_def split: if_splits)
    fix x s assume x: "1 \<le> x" "x < NUM_NODES p" and P: "?P x s"
    have x0: "0 < x" using x by simp
    obtain t n where s: "s = (t, n)" by fastforce
    show "?P (Suc x) (?f x s)"
      using rebuild_step_correct [OF perm T path [unfolded m_def] flag [unfolded m_def] x0 x(2), of t n] P
      by (simp add: m_def s)
  qed (use wf_T in simp)
  have reb: "rebuild_tree p tree idx path salt = (fst ?final, zero_padding path (snd ?final * ?S) (TREE_NODES_TO_STORE p * ?S))"
  proof -
    have "walk_down_nodes p (rebuild_step p fl path salt) (tree, 0) = ?final"
      by (rule walk_down_nodes_eq) (simp add: rebuild_step_def)
    then show ?thesis
      unfolding rebuild_tree_def Let_def fl_def [symmetric] by (simp add: case_prod_unfold)
  qed
  show "snd (rebuild_tree p tree idx path salt)"
    using P path by (simp add: reb zero_padding_iff is_storage_def nodes_eq)
  show "length (fst (rebuild_tree p tree idx path salt)) = NUM_NODES p * ?S" using P by (simp add: reb)
  show "blk ?S (fst (rebuild_tree p tree idx path salt)) (leaf_nodes p ! c) = blk ?S T (leaf_nodes p ! c)"
    if c: "c < par_T p" "idx ! c = 1"
  proof -
    let ?y = "leaf_nodes p ! c"
    have y: "?y < NUM_NODES p" "\<not> m ?y" using c leaf_lt by (simp_all add: m_def unpublished_leaf TO_PUBLISH_def)
    moreover have "0 < ?y" using y(2) root by (cases "?y = 0") auto
    moreover have "father ?y < NUM_NODES p" using father_lt [of ?y] y(1) \<open>0 < ?y\<close> by (simp add: nodes_eq)
    ultimately show ?thesis using P by (simp add: reb regrown_def)
  qed
qed

theorem seed_leaves_correct:
  assumes "length out = par_T p * SEED_LENGTH_BYTES p" and "length tree = NUM_NODES p * SEED_LENGTH_BYTES p"
  shows "length (seed_leaves p out tree) = par_T p * SEED_LENGTH_BYTES p"
    and "c < par_T p \<Longrightarrow> blk (SEED_LENGTH_BYTES p) (seed_leaves p out tree) c
      = blk (SEED_LENGTH_BYTES p) tree (leaf_nodes p ! c)"
proof -
  let ?S = "SEED_LENGTH_BYTES p"
  let ?P = "\<lambda>i o'. length o' = par_T p * ?S \<and> (\<forall>c<i. blk ?S o' c = blk ?S tree (leaf_nodes p ! c))"
  have "?P (par_T p) (for_range 0 (par_T p) (\<lambda>c o'. memcpy o' (c * ?S) (blk ?S tree (leaf_nodes p ! c))) out)"
  proof (rule for_range_inv [where P = ?P])
    fix i o' assume i: "i < par_T p" and P: "?P i o'"
    have l: "length (blk ?S tree (leaf_nodes p ! i)) = ?S" by (rule length_blk [OF leaf_lt [OF i] assms(2)])
    have lo: "length o' = par_T p * ?S" using P by simp
    show "?P (Suc i) (memcpy o' (i * ?S) (blk ?S tree (leaf_nodes p ! i)))"
      using P i length_memcpy_blk [OF lo i l] blk_memcpy_same [OF lo i l] blk_memcpy_other [OF lo i _ _ l]
      by (auto simp: less_Suc_eq)
  qed (use assms in simp_all)
  then show "length (seed_leaves p out tree) = par_T p * ?S"
    and "c < par_T p \<Longrightarrow> blk ?S (seed_leaves p out tree) c = blk ?S tree (leaf_nodes p ! c)"
    by (simp_all add: seed_leaves_def walk_leaves_eq)
qed

end

end
