(* ===== verification/Cross_Sets.thy ===== *)
theory Cross_Sets
  imports Cross_Seedtree
begin

text \<open>
  The three parameter sets of the \<open>rsdpg-{128,192,256}-balanced\<close> builds, as values of
  \<open>cross_params\<close> over the permutation, and the condition \<open>wf_params\<close> that the scheme relies on,
  evaluated for each: the tree tables are consistent, and \<open>TREE_NODES_TO_STORE\<close> suffices for every
  second challenge.  The latter is shown by a potential on the nodes, computed level by level from
  the tables; each of the \<open>T - W\<close> zeros of a challenge is charged \<open>lam\<close>.
\<close>

definition rsdpg_128_balanced :: "(bytes \<Rightarrow> bytes) \<Rightarrow> cross_params" where
  "rsdpg_128_balanced perm =
     \<lparr>SEC_MARGIN_LAMBDA = 128, par_N = 55, par_K = 36, par_M = 25, par_T = 256, par_W = 220,
      TREE_OFFSETS = [0, 0, 0, 0, 0, 0, 0, 0, 0],
      TREE_NODES_PER_LEVEL = [1, 2, 4, 8, 16, 32, 64, 128, 256],
      TREE_LEAVES_PER_LEVEL = [0, 0, 0, 0, 0, 0, 0, 0, 256],
      TREE_SUBROOTS = 1, TREE_LEAVES_START_INDICES = [255], TREE_CONSECUTIVE_LEAVES = [256],
      TREE_NODES_TO_STORE = 101,
      BITS_N_FP_CT_RNG = 729, BITS_CHALL_1_FPSTAR_CT_RNG = 2682, BITS_V_CT_RNG = 6624,
      BITS_W_CT_RNG = 5677, BITS_M_FZ_CT_RNG = 343, BITS_CWSTR_RNG = 4776,
      xof_rate = SHAKE128_RATE, keccak_perm = perm\<rparr>"

definition rsdpg_192_balanced :: "(bytes \<Rightarrow> bytes) \<Rightarrow> cross_params" where
  "rsdpg_192_balanced perm =
     \<lparr>SEC_MARGIN_LAMBDA = 192, par_N = 79, par_K = 48, par_M = 40, par_T = 268, par_W = 196,
      TREE_OFFSETS = [0, 0, 0, 0, 0, 8, 24, 24, 24, 24],
      TREE_NODES_PER_LEVEL = [1, 2, 4, 8, 16, 24, 32, 64, 128, 256],
      TREE_LEAVES_PER_LEVEL = [0, 0, 0, 0, 4, 8, 0, 0, 0, 256],
      TREE_SUBROOTS = 3, TREE_LEAVES_START_INDICES = [279, 47, 27], TREE_CONSECUTIVE_LEAVES = [256, 8, 4],
      TREE_NODES_TO_STORE = 138,
      BITS_N_FP_CT_RNG = 1071, BITS_CHALL_1_FPSTAR_CT_RNG = 2925, BITS_V_CT_RNG = 14211,
      BITS_W_CT_RNG = 11655, BITS_M_FZ_CT_RNG = 539, BITS_CWSTR_RNG = 6444,
      xof_rate = SHAKE256_RATE, keccak_perm = perm\<rparr>"

definition rsdpg_256_balanced :: "(bytes \<Rightarrow> bytes) \<Rightarrow> cross_params" where
  "rsdpg_256_balanced perm =
     \<lparr>SEC_MARGIN_LAMBDA = 256, par_N = 106, par_K = 69, par_M = 48, par_T = 356, par_W = 258,
      TREE_OFFSETS = [0, 0, 0, 0, 0, 0, 8, 8, 8, 200],
      TREE_NODES_PER_LEVEL = [1, 2, 4, 8, 16, 32, 56, 112, 224, 256],
      TREE_LEAVES_PER_LEVEL = [0, 0, 0, 0, 0, 4, 0, 0, 96, 256],
      TREE_SUBROOTS = 3, TREE_LEAVES_START_INDICES = [455, 359, 59], TREE_CONSECUTIVE_LEAVES = [256, 96, 4],
      TREE_NODES_TO_STORE = 185,
      BITS_N_FP_CT_RNG = 1431, BITS_CHALL_1_FPSTAR_CT_RNG = 3897, BITS_V_CT_RNG = 24192,
      BITS_W_CT_RNG = 20594, BITS_M_FZ_CT_RNG = 679, BITS_CWSTR_RNG = 8937,
      xof_rate = SHAKE256_RATE, keccak_perm = perm\<rparr>"

subsection \<open>The bound on the published nodes\<close>

fun pair_pots :: "int list \<Rightarrow> int list" where
  "pair_pots (a # b # r) = max (a + b) (max (a + 1) (b + 1)) # pair_pots r"
| "pair_pots _ = []"

text \<open>\<open>level_pots p lam k\<close>: the potentials of the nodes of level \<open>LOG2(T) - k\<close>.\<close>

primrec level_pots :: "cross_params \<Rightarrow> int \<Rightarrow> nat \<Rightarrow> int list" where
  "level_pots p lam 0 = replicate (npl p (tree_log p)) (- lam)"
| "level_pots p lam (Suc k) = pair_pots (level_pots p lam k)
     @ replicate (lpl p (tree_log p - Suc k)) (- lam)"

definition root_pot :: "cross_params \<Rightarrow> int \<Rightarrow> int" where
  "root_pot p lam = hd (level_pots p lam (tree_log p))"

definition wf_params :: "cross_params \<Rightarrow> int \<Rightarrow> bool" where
  "wf_params p lam \<longleftrightarrow> wf_tree p \<and> par_W p < par_T p \<and> 3 * par_T p + 2 < 2 ^ 15
     \<and> 0 < par_K p \<and> par_K p < par_N p \<and> par_M p < par_N p \<and> par_N p < 2 ^ 8
     \<and> 0 < SEC_MARGIN_LAMBDA p \<and> SEC_MARGIN_LAMBDA p mod 8 = 0
     \<and> lam * int (par_T p - par_W p) + max 0 (root_pot p lam) \<le> int (TREE_NODES_TO_STORE p)"

lemma length_pair_pots [simp]: "length (pair_pots xs) = length xs div 2"
  by (induction xs rule: pair_pots.induct) auto

lemma nth_pair_pots: "2 * i + 1 < length xs \<Longrightarrow> pair_pots xs ! i
  = max (xs ! (2 * i) + xs ! (2 * i + 1)) (max (xs ! (2 * i) + 1) (xs ! (2 * i + 1) + 1))"
proof (induction xs arbitrary: i rule: pair_pots.induct)
  case (1 a b r)
  then show ?case by (cases i) auto
qed auto

lemma nth_concat_rows:
  assumes "\<And>l. l < n \<Longrightarrow> s (Suc l) = s l + length (f l)" and "s 0 = 0" and "l < n" and "i < length (f l)"
  shows "concat (map f [0..<n]) ! (s l + i) = f l ! i"
proof -
  have pre: "length (concat (map f [0..<m])) = s m" if "m \<le> n" for m
    using that by (induction m) (simp_all add: assms(1,2))
  have "[0..<n] = [0..<l] @ l # [Suc l..<n]" using assms(3) upt_split [of 0 l n] by (simp add: upt_rec)
  then have "concat (map f [0..<n]) = concat (map f [0..<l]) @ f l @ concat (map f [Suc l..<n])" by simp
  then show ?thesis using pre [of l] assms(3,4) by (simp add: nth_append)
qed

context cross_tree
begin

lemma length_level_pots: "k \<le> tree_log p \<Longrightarrow> length (level_pots p lam k) = npl p (tree_log p - k)"
proof (induction k)
  case (Suc k)
  define l where "l = tree_log p - Suc k"
  have l: "tree_log p - k = Suc l" "l < tree_log p" using Suc.prems by (simp_all add: l_def)
  show ?case
    using Suc wf_level(1,2) [OF l(2)] by (simp add: l(1) l_def [symmetric])
qed simp

definition node_pot :: "int \<Rightarrow> nat \<Rightarrow> int" where
  "node_pot lam x = concat (map (\<lambda>l. level_pots p lam (tree_log p - l)) [0..<tree_log p + 1]) ! x"

lemma node_pot_level:
  assumes "l \<le> tree_log p" and "i < npl p l"
  shows "node_pot lam (level_start p l + i) = level_pots p lam (tree_log p - l) ! i"
  unfolding node_pot_def
  by (rule nth_concat_rows) (use assms level_start_step in \<open>auto simp: length_level_pots\<close>)

lemma npl_split: "l \<le> tree_log p \<Longrightarrow> npl p l = inner_count l + lpl p l"
  using wf wf_level(1) [of l] by (cases "l = tree_log p") (auto simp: inner_count_def wf_tree_def)

lemma node_pot_leaf:
  assumes "x \<in> set (leaf_nodes p)"
  shows "node_pot lam x = - lam"
proof -
  obtain l where l: "l \<le> tree_log p" "level_start p l + inner_count l \<le> x" "x < level_start p (Suc l)"
    using assms by (auto simp: leaf_nodes_iff)
  define i where "i = x - level_start p l"
  have i: "x = level_start p l + i" "inner_count l \<le> i" "i < npl p l"
    using l level_start_step [OF l(1)] by (auto simp: i_def)
  have "level_pots p lam (tree_log p - l) ! i = - lam"
  proof (cases "l = tree_log p")
    case True
    then show ?thesis using i by simp
  next
    case False
    then have lt: "l < tree_log p" using l by simp
    define k where "k = tree_log p - Suc l"
    have k: "tree_log p - l = Suc k" "tree_log p - Suc k = l" "tree_log p - k = Suc l" "k \<le> tree_log p"
      using lt by (simp_all add: k_def)
    have "length (pair_pots (level_pots p lam k)) = inner_count l"
      using length_level_pots [OF k(4), of lam] wf_level(2) [OF lt] by (simp add: k(3) inner_count_def)
    then show ?thesis using i npl_split [OF l(1)] by (simp add: k(1,2) nth_append)
  qed
  then show ?thesis using node_pot_level [OF l(1) i(3)] i(1) by simp
qed

lemma node_pot_inner:
  assumes "k < length (inner_nodes p)"
  shows "node_pot lam (inner_nodes p ! k) = max (node_pot lam (2 * k + 1) + node_pot lam (2 * k + 2))
    (max (node_pot lam (2 * k + 1) + 1) (node_pot lam (2 * k + 2) + 1))"
proof -
  obtain l i where lt: "l < tree_log p" and i: "inner_nodes p ! k = level_start p l + i" "i < inner_count l"
      and k: "k = inner_before p l + i"
    using inner_nodes_pos [OF assms] by metis
  then have l: "l \<le> tree_log p" by simp
  have c: "2 * k + 1 = level_start p (Suc l) + 2 * i" "2 * k + 2 = level_start p (Suc l) + (2 * i + 1)"
    using level_start_inner [of l] lt by (simp_all add: k)
  have n: "npl p (Suc l) = 2 * inner_count l" using wf_level(2) [OF lt] by (simp add: inner_count_def)
  have n': "i < npl p l" "2 * i < npl p (Suc l)" "2 * i + 1 < npl p (Suc l)" "Suc l \<le> tree_log p"
    using i(2) lt npl_split [of l] by (auto simp: n)
  define j where "j = tree_log p - Suc l"
  have j: "tree_log p - l = Suc j" "tree_log p - j = Suc l" "j \<le> tree_log p" using lt by (simp_all add: j_def)
  note len = length_level_pots [OF j(3), of lam, unfolded j(2)]
  have "level_pots p lam (Suc j) ! i = pair_pots (level_pots p lam j) ! i"
    using len n i(2) by (simp add: nth_append)
  also have "\<dots> = max (level_pots p lam j ! (2 * i) + level_pots p lam j ! (2 * i + 1))
      (max (level_pots p lam j ! (2 * i) + 1) (level_pots p lam j ! (2 * i + 1) + 1))"
    using len n' by (intro nth_pair_pots) simp
  finally show ?thesis
    using node_pot_level [OF l n'(1), of lam] node_pot_level [OF n'(4,2), of lam] node_pot_level [OF n'(4,3), of lam]
    unfolding c i(1) j(1) j_def [symmetric] by simp
qed

theorem length_picked_marked:
  assumes "wf_params p lam" and Q: "card {c. c < par_T p \<and> Q c} = par_T p - par_W p"
  shows "length (picked (marked (inner_nodes p) (leaf_nodes p) Q) 0) \<le> TREE_NODES_TO_STORE p"
proof -
  let ?m = "marked (inner_nodes p) (leaf_nodes p) Q"
  have "{x \<in> set (leaf_nodes p). ?m x} = (!) (leaf_nodes p) ` {c. c < par_T p \<and> Q c}"
    by (auto simp: in_set_conv_nth length_leaf_nodes marked_leaf image_iff)
  moreover have "inj_on ((!) (leaf_nodes p)) {c. c < par_T p \<and> Q c}"
    by (auto intro!: inj_onI simp: leaf_distinct)
  ultimately have card: "card {x \<in> set (leaf_nodes p). ?m x} = par_T p - par_W p"
    using Q by (simp add: card_image)
  have nonempty: "0 < length (inner_nodes p)" using wf_T by (simp add: length_inner_nodes)
  have "int (length (picked ?m 0)) \<le> lam * int (card {x \<in> set (leaf_nodes p). ?m x}) + max 0 (node_pot lam 0)"
    by (rule length_picked_le) (simp_all add: node_pot_leaf node_pot_inner marked_inner nonempty le_max_iff_disj del: length_greater_0_conv)
  moreover have "node_pot lam 0 = root_pot p lam"
    using node_pot_level [of 0 0 lam] length_level_pots [of "tree_log p" lam] wf
    by (cases "level_pots p lam (tree_log p)") (auto simp: root_pot_def wf_tree_def)
  ultimately have "int (length (picked ?m 0)) \<le> int (TREE_NODES_TO_STORE p)"
    using assms(1) unfolding card wf_params_def by linarith
  then show ?thesis by simp
qed

end


subsection \<open>The three sets\<close>

lemma LOG2_simps [simp]: "LOG2 256 = 8" "LOG2 268 = 9" "LOG2 356 = 9"
proof -
  have "BITS_TO_REPRESENT 256 = 9" "BITS_TO_REPRESENT 255 = 8" "BITS_TO_REPRESENT 268 = 9"
      "BITS_TO_REPRESENT 267 = 9" "BITS_TO_REPRESENT 356 = 9" "BITS_TO_REPRESENT 355 = 9"
    by (simp_all add: BITS_TO_REPRESENT_eq)
  then show "LOG2 256 = 8" "LOG2 268 = 9" "LOG2 356 = 9" by (simp_all add: LOG2_def)
qed

lemma all_less_numeral:
  "(\<forall>l<numeral k. Q l) \<longleftrightarrow> (\<forall>l<pred_numeral k. Q l) \<and> Q (pred_numeral k)" for Q :: "nat \<Rightarrow> bool"
  by (auto simp: numeral_eq_Suc less_Suc_eq)

lemma wf_tree_128: "wf_tree (rsdpg_128_balanced perm)"
  by (simp add: wf_tree_def rsdpg_128_balanced_def level_start_def leaf_runs_def all_less_numeral All_less_Suc upt_rec)

lemma wf_tree_192: "wf_tree (rsdpg_192_balanced perm)"
  by (simp add: wf_tree_def rsdpg_192_balanced_def level_start_def leaf_runs_def all_less_numeral All_less_Suc upt_rec)

lemma wf_tree_256: "wf_tree (rsdpg_256_balanced perm)"
  by (simp add: wf_tree_def rsdpg_256_balanced_def level_start_def leaf_runs_def all_less_numeral All_less_Suc upt_rec)

lemma level_pots_numeral: "level_pots p lam (numeral k) = pair_pots (level_pots p lam (pred_numeral k))
     @ replicate (lpl p (tree_log p - numeral k)) (- lam)"
  by (simp add: numeral_eq_Suc)

lemma pair_pots_replicate:
  "even n \<Longrightarrow> pair_pots (replicate n a @ ys) = replicate (n div 2) (max (a + a) (a + 1)) @ pair_pots ys"
proof (induction n rule: less_induct)
  case (less n)
  show ?case
  proof (cases n)
    case (Suc m)
    then obtain k where k: "n = Suc (Suc k)" using less.prems by (cases m) auto
    then show ?thesis using less by simp
  qed simp
qed

lemma pair_pots_runs:
  "even n \<Longrightarrow> pair_pots (replicate n a) = replicate (n div 2) (max (a + a) (a + 1))"
  "odd n \<Longrightarrow> pair_pots (replicate n a @ b # ys)
    = replicate (n div 2) (max (a + a) (a + 1)) @ max (a + b) (max (a + 1) (b + 1)) # pair_pots ys"
proof -
  show "even n \<Longrightarrow> pair_pots (replicate n a) = replicate (n div 2) (max (a + a) (a + 1))"
    using pair_pots_replicate [of n a "[]"] by simp
  assume "odd n"
  then obtain m where m: "n = Suc m" "even m" by (auto elim: oddE)
  have "replicate n a @ b # ys = replicate m a @ a # b # ys"
    using replicate_append_same [of m a] by (simp add: m(1))
  then show "pair_pots (replicate n a @ b # ys)
      = replicate (n div 2) (max (a + a) (a + 1)) @ max (a + b) (max (a + 1) (b + 1)) # pair_pots ys"
    using pair_pots_replicate [OF m(2), of a "a # b # ys"] m by simp
qed

lemmas pots_simps = root_pot_def level_pots_numeral pair_pots_replicate pair_pots_runs

lemma wf_params_128: "wf_params (rsdpg_128_balanced perm) 1"
  using wf_tree_128 [of perm] by (simp add: wf_params_def rsdpg_128_balanced_def pots_simps)

lemma wf_params_192: "wf_params (rsdpg_192_balanced perm) 0"
  using wf_tree_192 [of perm] by (simp add: wf_params_def rsdpg_192_balanced_def pots_simps)

lemma wf_params_256: "wf_params (rsdpg_256_balanced perm) 0"
  using wf_tree_256 [of perm] by (simp add: wf_params_def rsdpg_256_balanced_def pots_simps)

interpretation tree_128: cross_tree "rsdpg_128_balanced perm" for perm
  by unfold_locales (rule wf_tree_128)

interpretation tree_192: cross_tree "rsdpg_192_balanced perm" for perm
  by unfold_locales (rule wf_tree_192)

interpretation tree_256: cross_tree "rsdpg_256_balanced perm" for perm
  by unfold_locales (rule wf_tree_256)

text \<open>The sets the repository builds, over one permutation.\<close>

definition balanced_params :: "(bytes \<Rightarrow> bytes) \<Rightarrow> cross_params set" where
  "balanced_params perm = {rsdpg_128_balanced perm, rsdpg_192_balanced perm, rsdpg_256_balanced perm}"

lemma balanced_cases:
  assumes "p \<in> balanced_params perm"
  obtains "p = rsdpg_128_balanced perm" | "p = rsdpg_192_balanced perm" | "p = rsdpg_256_balanced perm"
  using assms by (auto simp: balanced_params_def)

lemma keccak_perm_balanced [simp]:
  "keccak_perm (rsdpg_128_balanced perm) = perm" "keccak_perm (rsdpg_192_balanced perm) = perm"
  "keccak_perm (rsdpg_256_balanced perm) = perm"
  by (simp_all add: rsdpg_128_balanced_def rsdpg_192_balanced_def rsdpg_256_balanced_def)

end
