(* ===== verification/Cross_Scheme.thy ===== *)
theory Cross_Scheme
  imports Cross_Sets
begin

text \<open>
  \<open>CROSS.c\<close>, the portable branch, and \<open>sign.c\<close>: key expansion, key generation, signing and
  verification, and the byte interface.  The outputs of \<open>randombytes\<close> and the trees whose memory
  the code does not initialise are arguments.
\<close>

record pk_t =
  pk_seed_pk :: bytes
  pk_s :: bytes

record sk_t =
  sk_seed_sk :: bytes

record resp_0_t =
  resp_y :: bytes
  resp_v_G_bar :: bytes

record CROSS_sig_t =
  sig_salt :: bytes
  sig_digest_cmt :: bytes
  sig_digest_chall_2 :: bytes
  sig_path :: bytes
  sig_proof :: bytes
  sig_resp_1 :: "bytes list"
  sig_resp_0 :: "resp_0_t list"

subsection \<open>Keys\<close>

text \<open>The result is \<open>(V_tr, W_mat)\<close>; the stream is read for \<open>W_mat\<close> first.\<close>

definition expand_pk :: "cross_params \<Rightarrow> bytes \<Rightarrow> u16 list \<times> u8 list" where
  "expand_pk p seed_pk =
     (let dsc_csprng_seed_pk = CSPRNG_DOMAIN_SEP_CONST + of_nat (3 * par_T p + 2);
          csprng_state_mat = csprng_initialize p seed_pk dsc_csprng_seed_pk;
          (W_mat, csprng_state_mat) = csprng_fz_mat p csprng_state_mat;
          (V_tr, csprng_state_mat) = csprng_fp_mat p csprng_state_mat
      in (V_tr, W_mat))"

text \<open>\<open>seed_e_seed_pk\<close>, and the expansion of the secret vector from \<open>seed_e\<close>: \<open>(e_bar, e_G_bar)\<close>.\<close>

definition expand_seed_sk :: "cross_params \<Rightarrow> bytes \<Rightarrow> bytes \<times> bytes" where
  "expand_seed_sk p seed_sk =
     (let dsc_csprng_seed_sk = CSPRNG_DOMAIN_SEP_CONST + of_nat (3 * par_T p + 1);
          csprng_state = csprng_initialize p seed_sk dsc_csprng_seed_sk;
          (seed_e_seed_pk, csprng_state) = csprng_randombytes p (2 * KEYPAIR_SEED_LENGTH_BYTES p) csprng_state
      in (blk (KEYPAIR_SEED_LENGTH_BYTES p) seed_e_seed_pk 0, blk (KEYPAIR_SEED_LENGTH_BYTES p) seed_e_seed_pk 1))"

definition expand_seed_e :: "cross_params \<Rightarrow> bytes \<Rightarrow> u8 list \<Rightarrow> u8 list \<times> u8 list" where
  "expand_seed_e p seed_e W_mat =
     (let dsc_csprng_seed_e = CSPRNG_DOMAIN_SEP_CONST + of_nat (3 * par_T p + 3);
          csprng_state_e_bar = csprng_initialize p seed_e dsc_csprng_seed_e;
          (e_G_bar, csprng_state_e_bar) = csprng_fz_inf_w p csprng_state_e_bar;
          e_bar = fz_inf_w_by_fz_matrix p e_G_bar W_mat;
          e_bar = fz_dz_norm_n p e_bar
      in (e_bar, e_G_bar))"

definition expand_sk :: "cross_params \<Rightarrow> bytes \<Rightarrow> u8 list \<times> u8 list \<times> u16 list \<times> u8 list" where
  "expand_sk p seed_sk =
     (let (seed_e, seed_pk) = expand_seed_sk p seed_sk;
          (V_tr, W_mat) = expand_pk p seed_pk;
          (e_bar, e_G_bar) = expand_seed_e p seed_e W_mat
      in (e_bar, e_G_bar, V_tr, W_mat))"

definition CROSS_keygen :: "cross_params \<Rightarrow> bytes \<Rightarrow> sk_t \<times> pk_t" where
  "CROSS_keygen p random_seed_sk =
     (let SK = \<lparr>sk_seed_sk = random_seed_sk\<rparr>;
          (seed_e, seed_pk) = expand_seed_sk p (sk_seed_sk SK);
          (V_tr, W_mat) = expand_pk p seed_pk;
          (e_bar, e_G_bar) = expand_seed_e p seed_e W_mat;
          s = restr_vec_by_fp_matrix p e_bar V_tr;
          s = fp_dz_norm_synd p s
      in (SK, \<lparr>pk_seed_pk = seed_pk, pk_s = pack_fp_syn p s\<rparr>))"

subsection \<open>Signing\<close>

text \<open>The iteration \<open>i\<close> of the commitment loop: \<open>v_G_bar[i]\<close>, \<open>e_bar_prime[i]\<close>, \<open>u_prime[i]\<close>,
  \<open>cmt_0[i]\<close> and \<open>cmt_1[i]\<close>.\<close>

record sign_round =
  rd_v_G_bar :: "u8 list"
  rd_e_bar_prime :: "u8 list"
  rd_u_prime :: "u16 list"
  rd_cmt_0 :: bytes
  rd_cmt_1 :: bytes

definition round_dsc :: "cross_params \<Rightarrow> u16 \<Rightarrow> nat \<Rightarrow> u16" where
  "round_dsc p base i = base + of_nat i + of_nat (2 * par_T p - 1)"

definition CROSS_sign_round :: "cross_params \<Rightarrow> u8 list \<Rightarrow> u8 list \<Rightarrow> u16 list \<Rightarrow> u8 list
    \<Rightarrow> bytes \<Rightarrow> bytes \<Rightarrow> nat \<Rightarrow> sign_round" where
  "CROSS_sign_round p e_bar e_G_bar V_tr W_mat salt round_seeds i =
     (let seed_i = blk (SEED_LENGTH_BYTES p) round_seeds i;
          csprng_input = seed_i @ salt;
          csprng_state = csprng_initialize p csprng_input (round_dsc p CSPRNG_DOMAIN_SEP_CONST i);
          (e_G_bar_prime, csprng_state) = csprng_fz_inf_w p csprng_state;
          v_G_bar = fz_vec_sub_m p e_G_bar e_G_bar_prime;
          v_G_bar = fz_dz_norm_m p v_G_bar;
          e_bar_prime = fz_inf_w_by_fz_matrix p e_G_bar_prime W_mat;
          e_bar_prime = fz_dz_norm_n p e_bar_prime;
          v_bar = fz_vec_sub_n p e_bar e_bar_prime;
          v = convert_restr_vec_to_fp p v_bar;
          (u_prime, csprng_state) = csprng_fp_vec p csprng_state;
          u = fp_vec_by_fp_vec_pointwise p v u_prime;
          s_prime = fp_vec_by_fp_matrix p u V_tr;
          s_prime = fp_dz_norm_synd p s_prime;
          cmt_0_i_input = pack_fp_syn p s_prime @ pack_fz_rsdp_g_vec p v_G_bar @ salt;
          domain_sep_hash = round_dsc p HASH_DOMAIN_SEP_CONST i;
          cmt_1_i_input = seed_i @ salt
      in \<lparr>rd_v_G_bar = v_G_bar, rd_e_bar_prime = e_bar_prime, rd_u_prime = u_prime,
          rd_cmt_0 = hash p cmt_0_i_input domain_sep_hash, rd_cmt_1 = hash p cmt_1_i_input domain_sep_hash\<rparr>)"

text \<open>The digest of the commitments, and the two challenges with the digests they come from.\<close>

definition hash_commitments :: "cross_params \<Rightarrow> bytes \<Rightarrow> bytes list \<Rightarrow> bytes" where
  "hash_commitments p root cmt_1 =
     (let digest_cmt0_cmt1 = root @ hash p (concat cmt_1) HASH_DOMAIN_SEP_CONST
      in hash p digest_cmt0_cmt1 HASH_DOMAIN_SEP_CONST)"

definition first_challenge :: "cross_params \<Rightarrow> bytes \<Rightarrow> bytes \<Rightarrow> bytes \<Rightarrow> bytes \<times> u16 list" where
  "first_challenge p m digest_cmt salt =
     (let digest_msg_cmt_salt = hash p m HASH_DOMAIN_SEP_CONST @ digest_cmt @ salt;
          digest_chall_1 = hash p digest_msg_cmt_salt HASH_DOMAIN_SEP_CONST;
          dsc_csprng_chall_1 = CSPRNG_DOMAIN_SEP_CONST + of_nat (3 * par_T p - 1);
          csprng_state = csprng_initialize p digest_chall_1 dsc_csprng_chall_1
      in (digest_chall_1, fst (csprng_fp_vec_chall_1 p csprng_state)))"

definition hash_responses :: "cross_params \<Rightarrow> u16 list list \<Rightarrow> bytes \<Rightarrow> bytes" where
  "hash_responses p y digest_chall_1 =
     (let y_digest_chall_1 = concat (map (\<lambda>x. pack_fp_vec p (y ! x)) [0..<par_T p]) @ digest_chall_1
      in hash p y_digest_chall_1 HASH_DOMAIN_SEP_CONST)"

record responses =
  rs_resp_0 :: "resp_0_t list"
  rs_resp_1 :: "bytes list"
  rs_published :: nat

definition publish_responses ::
    "cross_params \<Rightarrow> u16 list list \<Rightarrow> u8 list list \<Rightarrow> bytes list \<Rightarrow> u8 list \<Rightarrow> responses" where
  "publish_responses p y v_G_bar cmt_1 chall_2 = for_range 0 (par_T p) (\<lambda>i s.
     if chall_2 ! i = 0
     then s\<lparr>rs_resp_0 := (rs_resp_0 s)[rs_published s :=
               \<lparr>resp_y = pack_fp_vec p (y ! i), resp_v_G_bar = pack_fz_rsdp_g_vec p (v_G_bar ! i)\<rparr>],
            rs_resp_1 := (rs_resp_1 s)[rs_published s := cmt_1 ! i],
            rs_published := rs_published s + 1\<rparr>
     else s)
     \<lparr>rs_resp_0 = replicate (par_T p - par_W p)
        \<lparr>resp_y = replicate (DENSELY_PACKED_FP_VEC_SIZE p) 0,
         resp_v_G_bar = replicate (DENSELY_PACKED_FZ_RSDP_G_VEC_SIZE p) 0\<rparr>,
      rs_resp_1 = replicate (par_T p - par_W p) (replicate (HASH_DIGEST_LENGTH p) 0), rs_published = 0\<rparr>"

text \<open>
  \<open>root_seed\<close> and \<open>salt\<close> are the random bytes the signer draws; \<open>merkle_memory\<close> is what the
  uninitialised \<open>merkle_tree_0\<close> holds.
\<close>

definition CROSS_sign ::
    "cross_params \<Rightarrow> sk_t \<Rightarrow> bytes \<Rightarrow> bytes \<Rightarrow> bytes \<Rightarrow> bytes \<Rightarrow> CROSS_sig_t" where
  "CROSS_sign p SK m root_seed salt merkle_memory =
     (let (e_bar, e_G_bar, V_tr, W_mat) = expand_sk p (sk_seed_sk SK);
          seed_tree = gen_seed_tree p (replicate (SEED_LENGTH_BYTES p * NUM_NODES p) 0) root_seed salt;
          round_seeds = seed_leaves p (replicate (par_T p * SEED_LENGTH_BYTES p) 0) seed_tree;
          rounds = map (CROSS_sign_round p e_bar e_G_bar V_tr W_mat salt round_seeds) [0..<par_T p];
          cmt_0 = map rd_cmt_0 rounds;
          cmt_1 = map rd_cmt_1 rounds;
          (root, merkle_tree_0) = tree_root p merkle_memory cmt_0;
          digest_cmt = hash_commitments p root cmt_1;
          (digest_chall_1, chall_1) = first_challenge p m digest_cmt salt;
          y = map (\<lambda>i. fp_dz_norm p (fp_vec_by_restr_vec_scaled p (rd_e_bar_prime (rounds ! i))
                 (chall_1 ! i) (rd_u_prime (rounds ! i)))) [0..<par_T p];
          digest_chall_2 = hash_responses p y digest_chall_1;
          chall_2 = expand_digest_to_fixed_weight p digest_chall_2;
          proof = fst (tree_proof p (replicate (HASH_DIGEST_LENGTH p * TREE_NODES_TO_STORE p) 0) merkle_tree_0 chall_2);
          path = fst (seed_path p (replicate (TREE_NODES_TO_STORE p * SEED_LENGTH_BYTES p) 0) seed_tree chall_2);
          rsp = publish_responses p y (map rd_v_G_bar rounds) cmt_1 chall_2
      in \<lparr>sig_salt = salt, sig_digest_cmt = digest_cmt, sig_digest_chall_2 = digest_chall_2,
          sig_path = path, sig_proof = proof, sig_resp_1 = rs_resp_1 rsp, sig_resp_0 = rs_resp_0 rsp\<rparr>)"

subsection \<open>Verification\<close>

record verify_state =
  vf_cmt_0 :: "bytes list"
  vf_cmt_1 :: "bytes list"
  vf_y :: "u16 list list"
  vf_used_rsps :: nat
  vf_signature_ok :: bool
  vf_packed_padd_ok :: bool

text \<open>A round with \<open>chall_2[i] == 1\<close>: the commitment to the seed, and the response recomputed from it.\<close>

definition verify_seed_round :: "cross_params \<Rightarrow> u8 list \<Rightarrow> u16 list \<Rightarrow> bytes \<Rightarrow> bytes \<Rightarrow> nat
    \<Rightarrow> verify_state \<Rightarrow> verify_state" where
  "verify_seed_round p W_mat chall_1 salt round_seeds i s =
     (let seed_i = blk (SEED_LENGTH_BYTES p) round_seeds i;
          cmt_1_i_input = seed_i @ salt;
          cmt_1_i = hash p cmt_1_i_input (round_dsc p HASH_DOMAIN_SEP_CONST i);
          csprng_input = seed_i @ salt;
          csprng_state = csprng_initialize p csprng_input (round_dsc p CSPRNG_DOMAIN_SEP_CONST i);
          (e_G_bar_prime, csprng_state) = csprng_fz_inf_w p csprng_state;
          e_bar_prime = fz_inf_w_by_fz_matrix p e_G_bar_prime W_mat;
          e_bar_prime = fz_dz_norm_n p e_bar_prime;
          (u_prime, csprng_state) = csprng_fp_vec p csprng_state;
          y_i = fp_vec_by_restr_vec_scaled p e_bar_prime (chall_1 ! i) u_prime;
          y_i = fp_dz_norm p y_i
      in s\<lparr>vf_cmt_1 := (vf_cmt_1 s)[i := cmt_1_i], vf_y := (vf_y s)[i := y_i]\<rparr>)"

text \<open>A round with \<open>chall_2[i] == 0\<close>: the response is in the signature.\<close>

definition verify_resp_round :: "cross_params \<Rightarrow> u16 list \<Rightarrow> u8 list \<Rightarrow> u16 list \<Rightarrow> u16 list \<Rightarrow> CROSS_sig_t
    \<Rightarrow> nat \<Rightarrow> verify_state \<Rightarrow> verify_state" where
  "verify_resp_round p V_tr W_mat pk_synd chall_1 sig i s =
     (let resp_0 = sig_resp_0 sig ! vf_used_rsps s;
          (y_i, is_packed_padd_y_ok) = unpack_fp_vec p (resp_y resp_0);
          is_packed_padd_ok = (vf_packed_padd_ok s \<and> is_packed_padd_y_ok);
          (v_G_bar, is_packed_padd_v_G_bar_ok) = unpack_fz_rsdp_g_vec p (resp_v_G_bar resp_0);
          is_packed_padd_ok = (is_packed_padd_ok \<and> is_packed_padd_v_G_bar_ok);
          is_signature_ok = (vf_signature_ok s \<and> is_fz_vec_in_restr_group_m p v_G_bar);
          v_bar = fz_inf_w_by_fz_matrix p v_G_bar W_mat;
          cmt_1_i = sig_resp_1 sig ! vf_used_rsps s;
          v = convert_restr_vec_to_fp p v_bar;
          y_prime = fp_vec_by_fp_vec_pointwise p v y_i;
          y_prime_H = fp_vec_by_fp_matrix p y_prime V_tr;
          y_prime_H = fp_dz_norm_synd p y_prime_H;
          s_prime = fp_synd_minus_fp_vec_scaled p y_prime_H (chall_1 ! i) pk_synd;
          s_prime = fp_dz_norm_synd p s_prime;
          cmt_0_i_input = pack_fp_syn p s_prime @ resp_v_G_bar resp_0 @ sig_salt sig
      in s\<lparr>vf_cmt_0 := (vf_cmt_0 s)[i := hash p cmt_0_i_input (round_dsc p HASH_DOMAIN_SEP_CONST i)],
           vf_cmt_1 := (vf_cmt_1 s)[i := cmt_1_i], vf_y := (vf_y s)[i := y_i],
           vf_used_rsps := vf_used_rsps s + 1,
           vf_signature_ok := is_signature_ok, vf_packed_padd_ok := is_packed_padd_ok\<rparr>)"

text \<open>
  \<open>proof_memory\<close> is what the uninitialised tree of \<open>recompute_root\<close> holds.  Every row of \<open>y\<close> is
  written by its round before it is read; the rows start out empty here.
\<close>

definition CROSS_verify :: "cross_params \<Rightarrow> pk_t \<Rightarrow> bytes \<Rightarrow> CROSS_sig_t \<Rightarrow> bytes \<Rightarrow> bool" where
  "CROSS_verify p PK m sig proof_memory =
     (let (V_tr, W_mat) = expand_pk p (pk_seed_pk PK);
          (synd, is_padd_key_ok) = unpack_fp_syn p (pk_s PK);
          (digest_chall_1, chall_1) = first_challenge p m (sig_digest_cmt sig) (sig_salt sig);
          chall_2 = expand_digest_to_fixed_weight p (sig_digest_chall_2 sig);
          (seed_tree, is_stree_padding_ok) = rebuild_tree p (replicate (SEED_LENGTH_BYTES p * NUM_NODES p) 0)
             chall_2 (sig_path sig) (sig_salt sig);
          round_seeds = seed_leaves p (replicate (par_T p * SEED_LENGTH_BYTES p) 0) seed_tree;
          st = for_range 0 (par_T p) (\<lambda>i.
             if chall_2 ! i = 1 then verify_seed_round p W_mat chall_1 (sig_salt sig) round_seeds i
             else verify_resp_round p V_tr W_mat synd chall_1 sig i)
             \<lparr>vf_cmt_0 = replicate (par_T p) (replicate (HASH_DIGEST_LENGTH p) 0),
              vf_cmt_1 = replicate (par_T p) (replicate (HASH_DIGEST_LENGTH p) 0),
              vf_y = replicate (par_T p) [], vf_used_rsps = 0,
              vf_signature_ok = True, vf_packed_padd_ok = True\<rparr>;
          (root, is_mtree_padding_ok) = recompute_root p proof_memory (vf_cmt_0 st) (sig_proof sig) chall_2;
          digest_cmt_prime = hash_commitments p root (vf_cmt_1 st);
          digest_chall_2_prime = hash_responses p (vf_y st) digest_chall_1;
          does_digest_cmt_match = (digest_cmt_prime = sig_digest_cmt sig);
          does_digest_chall_2_match = (digest_chall_2_prime = sig_digest_chall_2 sig)
      in vf_signature_ok st \<and> does_digest_cmt_match \<and> does_digest_chall_2_match
         \<and> is_mtree_padding_ok \<and> is_stree_padding_ok \<and> is_padd_key_ok \<and> vf_packed_padd_ok st)"

end
