(* ===== verification/Cross_Correct.thy ===== *)
theory Cross_Correct
  imports Cross_Scheme
begin

text \<open>
  Completeness: a signature made by \<open>CROSS_sign\<close> with the secret key of a pair made by
  \<open>CROSS_keygen\<close> is accepted by \<open>CROSS_verify\<close>, for every message, every random input and every
  content of the memory the code leaves uninitialised.
\<close>

subsection \<open>The algebra of one round\<close>

lemma sum_mod_cong:
  assumes "\<And>i. i < n \<Longrightarrow> f i mod m = g i mod (m :: nat)"
  shows "(\<Sum>i<n. f i) mod m = (\<Sum>i<n. g i) mod m"
  by (subst (1 2) mod_sum_eq [symmetric]) (simp add: assms)

lemma nat_mod_add_cancel:
  assumes "(x + b) mod m = (y + b) mod (m :: nat)"
  shows "x mod m = y mod m"
proof -
  have "(int x + int b) mod int m = (int y + int b) mod int m" using assms by (metis zmod_int of_nat_add)
  then have "int x mod int m = int y mod int m" by (simp add: mod_eq_dvd_iff)
  then show ?thesis by (metis zmod_int of_nat_eq_iff)
qed

lemma fp_dot_cong:
  assumes "\<And>k. k < par_N p \<Longrightarrow> f k mod P = g k mod P" and "j < par_N p - par_K p"
  shows "fp_dot p f V j mod P = fp_dot p g V j mod P"
  unfolding fp_dot_def by (intro mod_add_cong sum_mod_cong mod_mult_cong refl assms(1)) (use assms(2) in auto)

lemma fp_dot_linear: "fp_dot p (\<lambda>k. f k + g k * c) V j = fp_dot p f V j + fp_dot p g V j * c"
  by (simp add: fp_dot_def sum.distrib sum_distrib_left algebra_simps)

lemma mod_cancel_term:
  assumes "X mod P = (S + Y) mod P"
  shows "(X mod P + (P - Y mod P)) mod P = S mod P"
proof -
  have "(X mod P + (P - Y mod P)) mod P = (S + Y + (P - Y mod P)) mod P"
    using assms by (metis mod_add_left_eq)
  also have "S + Y + (P - Y mod P) = S + Y div P * P + P"
    using mod_less_divisor [OF P_pos, of Y] div_mult_mod_eq [of Y P] by linarith
  also have "\<dots> mod P = S mod P" by simp
  finally show ?thesis .
qed

lemma fz_sub_add_cong:
  assumes "unat a \<le> 127" and "unat b \<le> 127"
  shows "(unat (fz_sub a b) + unat b) mod 127 = unat a mod 127"
proof -
  have "(unat (fz_sub a b) + unat b) mod 127 = (unat a + (127 - unat b) + unat b) mod 127"
    by (rule mod_add_cong [OF unat_fz_sub(2) [OF assms] refl])
  also have "unat a + (127 - unat b) + unat b = unat a + 127" using assms by simp
  finally show ?thesis by simp
qed

lemma gpow_add:
  assumes "(unat a + unat b) mod 127 = unat c mod 127"
  shows "gpow a * gpow b mod P = gpow c mod P"
proof -
  have "gpow a * gpow b mod P = RESTR_G_GEN ^ (unat a + unat b) mod P"
    by (simp add: gpow_def power_add mod_mult_eq)
  also have "\<dots> = RESTR_G_GEN ^ unat c mod P" by (rule generator_cong) (use assms in \<open>simp add: Z_def\<close>)
  finally show ?thesis by (simp add: gpow_def)
qed

lemma gpow_cong: "unat a mod 127 = unat b mod 127 \<Longrightarrow> gpow a = gpow b"
  unfolding gpow_def by (rule generator_cong) (simp add: Z_def)

text \<open>\<open>secret_of p e_G W_mat\<close> is the vector \<open>e_bar\<close> of the exponents \<open>e_G_bar\<close>.\<close>

definition secret_of :: "cross_params \<Rightarrow> u8 list \<Rightarrow> u8 list \<Rightarrow> u8 list" where
  "secret_of p e_G W_mat = fz_dz_norm_n p (fz_inf_w_by_fz_matrix p e_G W_mat)"

definition sizes_ok :: "cross_params \<Rightarrow> bool" where
  "sizes_ok p \<longleftrightarrow> 0 < par_K p \<and> par_K p < par_N p \<and> par_M p < par_N p"

lemma secret_of_ok:
  assumes "sizes_ok p" and "length e_G = par_M p" and "fz_canon e_G" and "fz_mat_ok p W_mat"
  shows "length (secret_of p e_G W_mat) = par_N p" and "fz_canon (secret_of p e_G W_mat)"
    and "i < par_N p \<Longrightarrow> unat (secret_of p e_G W_mat ! i) mod 127 = unat (fz_inf_w_by_fz_matrix p e_G W_mat ! i) mod 127"
proof -
  have l: "length (fz_inf_w_by_fz_matrix p e_G W_mat) = par_N p" using assms by (simp add: sizes_ok_def)
  have ok: "fz_ok (fz_inf_w_by_fz_matrix p e_G W_mat)" by (rule fz_ok_fz_inf_w) (use assms in \<open>simp_all add: fz_canon_ok\<close>)
  have eq: "secret_of p e_G W_mat = map dz_norm (fz_inf_w_by_fz_matrix p e_G W_mat)"
    by (simp add: secret_of_def fz_dz_norm_n_eq [OF l])
  show "length (secret_of p e_G W_mat) = par_N p" by (simp add: eq l)
  show "fz_canon (secret_of p e_G W_mat)" using ok by (simp add: eq fz_canon_dz_norm)
  show "unat (secret_of p e_G W_mat ! i) mod 127 = unat (fz_inf_w_by_fz_matrix p e_G W_mat ! i) mod 127" if "i < par_N p"
    using that fz_okD [OF ok, of i] by (simp add: eq l unat_dz_norm Z_def)
qed

lemma fz_vec_sub_m_ok:
  assumes "length a = par_M p" and "fz_canon a" and "length b = par_M p" and "fz_canon b"
  defines "v \<equiv> fz_dz_norm_m p (fz_vec_sub_m p a b)"
  shows "length v = par_M p" and "fz_canon v"
    and "i < par_M p \<Longrightarrow> (unat (v ! i) + unat (b ! i)) mod 127 = unat (a ! i) mod 127"
proof -
  have le: "unat (a ! i) \<le> 127" "unat (b ! i) \<le> 127" if "i < par_M p" for i
    using that assms(1-4) by (simp_all add: fz_canonD less_imp_le)
  have eq: "v = map (\<lambda>i. dz_norm (fz_sub (a ! i) (b ! i))) [0..<par_M p]"
    unfolding v_def by (subst fz_dz_norm_m_eq) (simp_all add: fz_vec_sub_m_eq)
  have sub: "unat (fz_sub (a ! i) (b ! i)) \<le> 127" if "i < par_M p" for i
    by (rule unat_fz_sub(1) [OF le [OF that]])
  show "length v = par_M p" by (simp add: eq)
  have "unat (dz_norm (fz_sub (a ! i) (b ! i))) < Z" if "i < par_M p" for i
    using sub [OF that] by (simp add: unat_dz_norm Z_def)
  then show "fz_canon v" by (auto simp: fz_canon_def eq)
  show "(unat (v ! i) + unat (b ! i)) mod 127 = unat (a ! i) mod 127" if i: "i < par_M p"
  proof -
    have "unat (v ! i) mod 127 = unat (fz_sub (a ! i) (b ! i)) mod 127"
      using i sub [OF i] by (simp add: eq unat_dz_norm Z_def)
    then have "(unat (v ! i) + unat (b ! i)) mod 127 = (unat (fz_sub (a ! i) (b ! i)) + unat (b ! i)) mod 127"
      by (rule mod_add_cong) simp
    then show ?thesis using fz_sub_add_cong [OF le [OF i]] by simp
  qed
qed

text \<open>The verifier's product \<open>v_G_bar * W\<close> has the exponents of the signer's \<open>e_bar - e_bar_prime\<close>.\<close>

lemma fz_inf_w_sub:
  assumes sz: "sizes_ok p" and e_G: "length e_G = par_M p" "fz_canon e_G"
    and e_G': "length e_G' = par_M p" "fz_canon e_G'" and W: "fz_mat_ok p W_mat" and i: "i < par_N p"
  defines "v_G \<equiv> fz_dz_norm_m p (fz_vec_sub_m p e_G e_G')"
  shows "(unat (fz_inf_w_by_fz_matrix p v_G W_mat ! i) + unat (fz_inf_w_by_fz_matrix p e_G' W_mat ! i)) mod 127
    = unat (fz_inf_w_by_fz_matrix p e_G W_mat ! i) mod 127"
proof -
  note v = fz_vec_sub_m_ok [OF e_G e_G', folded v_G_def]
  have MN: "par_M p \<le> par_N p" using sz by (simp add: sizes_ok_def)
  show ?thesis
  proof (cases "i < par_N p - par_M p")
    case True
    let ?w = "\<lambda>k. unat (W_mat ! (k * (par_N p - par_M p) + i))"
    have nth: "unat (fz_inf_w_by_fz_matrix p a W_mat ! i) mod 127 = fz_dot p a W_mat i mod 127"
      if "length a = par_M p" "fz_canon a" for a
      by (rule fz_inf_w_nth(2)) (use that W True in \<open>simp_all add: fz_canon_ok\<close>)
    have "(fz_dot p v_G W_mat i + fz_dot p e_G' W_mat i) mod 127
        = (\<Sum>k<par_M p. (unat (v_G ! k) + unat (e_G' ! k)) * ?w k) mod 127"
      by (simp add: fz_dot_def sum.distrib [symmetric] algebra_simps)
    also have "\<dots> = (\<Sum>k<par_M p. unat (e_G ! k) * ?w k) mod 127"
      by (intro sum_mod_cong mod_mult_cong refl v(3))
    also have "\<dots> = fz_dot p e_G W_mat i mod 127" by (simp add: fz_dot_def)
    finally show ?thesis
      using nth [OF v(1,2)] nth [OF e_G'] nth [OF e_G] by (metis mod_add_eq)
  next
    case False
    define j where "j = i - (par_N p - par_M p)"
    have j: "j < par_M p" "i = par_N p - par_M p + j" using False i MN by (auto simp: j_def)
    show ?thesis
      using v(3) [OF j(1)]
      unfolding j(2) fz_inf_w_tail [OF v(1) j(1) MN] fz_inf_w_tail [OF e_G(1) j(1) MN]
        fz_inf_w_tail [OF e_G'(1) j(1) MN] .
  qed
qed

lemma convert_sub:
  assumes sz: "sizes_ok p" and e_G: "length e_G = par_M p" "fz_canon e_G"
    and e_G': "length e_G' = par_M p" "fz_canon e_G'" and W: "fz_mat_ok p W_mat"
  defines "e \<equiv> secret_of p e_G W_mat" and "e' \<equiv> secret_of p e_G' W_mat"
    and "v_G \<equiv> fz_dz_norm_m p (fz_vec_sub_m p e_G e_G')"
  shows "convert_restr_vec_to_fp p (fz_inf_w_by_fz_matrix p v_G W_mat) = convert_restr_vec_to_fp p (fz_vec_sub_n p e e')"
    and "i < par_N p \<Longrightarrow> unat (convert_restr_vec_to_fp p (fz_vec_sub_n p e e') ! i) * gpow (e' ! i) mod P = gpow (e ! i)"
proof -
  note v = fz_vec_sub_m_ok [OF e_G e_G', folded v_G_def]
  note e = secret_of_ok [OF sz e_G W, folded e_def] and e' = secret_of_ok [OF sz e_G' W, folded e'_def]
  have le: "unat (e ! i) \<le> 127" "unat (e' ! i) \<le> 127" if "i < par_N p" for i
    using that e(1,2) e'(1,2) by (simp_all add: fz_canonD less_imp_le)
  have sub: "fz_ok (fz_vec_sub_n p e e')"
    using unat_fz_sub(1) [OF le] by (auto simp: fz_ok_def fz_vec_sub_n_eq Z_def)
  have fzv: "fz_ok (fz_inf_w_by_fz_matrix p v_G W_mat)"
    by (rule fz_ok_fz_inf_w) (use v W in \<open>simp_all add: fz_canon_ok\<close>)
  have len: "length (fz_inf_w_by_fz_matrix p v_G W_mat) = par_N p" "length (fz_vec_sub_n p e e') = par_N p"
    using sz v(1) by (simp_all add: sizes_ok_def fz_vec_sub_n_eq)
  have add: "(unat (fz_vec_sub_n p e e' ! i) + unat (e' ! i)) mod 127 = unat (e ! i) mod 127" if "i < par_N p" for i
    using fz_sub_add_cong [OF le [OF that]] that by (simp add: fz_vec_sub_n_eq)
  have cong: "unat (fz_inf_w_by_fz_matrix p v_G W_mat ! i) mod 127 = unat (fz_vec_sub_n p e e' ! i) mod 127"
    if i: "i < par_N p" for i
  proof -
    let ?x = "unat (fz_inf_w_by_fz_matrix p v_G W_mat ! i)" and ?b = "unat (e' ! i)"
    have "(?x + ?b) mod 127 = (?x + unat (fz_inf_w_by_fz_matrix p e_G' W_mat ! i)) mod 127"
      by (rule mod_add_cong [OF refl e'(3) [OF i]])
    also have "\<dots> = unat (e ! i) mod 127"
      using fz_inf_w_sub [OF sz e_G e_G' W i, folded v_G_def] e(3) [OF i] by simp
    also have "\<dots> = (unat (fz_vec_sub_n p e e' ! i) + ?b) mod 127" by (rule add [OF i, symmetric])
    finally show ?thesis by (rule nat_mod_add_cancel)
  qed
  show "convert_restr_vec_to_fp p (fz_inf_w_by_fz_matrix p v_G W_mat) = convert_restr_vec_to_fp p (fz_vec_sub_n p e e')"
  proof (rule fp_list_eqI)
    fix i assume "i < length (convert_restr_vec_to_fp p (fz_inf_w_by_fz_matrix p v_G W_mat))"
    then have i: "i < par_N p" by simp
    show "unat (convert_restr_vec_to_fp p (fz_inf_w_by_fz_matrix p v_G W_mat) ! i)
        = unat (convert_restr_vec_to_fp p (fz_vec_sub_n p e e') ! i)"
      by (simp add: convert_restr_nth i len fzv sub gpow_cong [OF cong [OF i]])
  qed simp
  show "unat (convert_restr_vec_to_fp p (fz_vec_sub_n p e e') ! i) * gpow (e' ! i) mod P = gpow (e ! i)" if i: "i < par_N p"
    using gpow_add [OF add [OF i]] gpow_lt [of "e ! i"] by (simp add: convert_restr_nth i len sub)
qed

text \<open>
  The equation of the identification scheme: the verifier's \<open>s_prime\<close> is the signer's.
\<close>

lemma s_prime_eq:
  assumes sz: "sizes_ok p" and e_G: "length e_G = par_M p" "fz_canon e_G"
    and e_G': "length e_G' = par_M p" "fz_canon e_G'" and W: "fz_mat_ok p W_mat"
    and u': "length u' = par_N p"
  defines "e \<equiv> secret_of p e_G W_mat" and "e' \<equiv> secret_of p e_G' W_mat"
    and "v_G \<equiv> fz_dz_norm_m p (fz_vec_sub_m p e_G e_G')"
  defines "v \<equiv> convert_restr_vec_to_fp p (fz_vec_sub_n p e e')"
  shows "fp_synd_minus_fp_vec_scaled p
      (fp_vec_by_fp_matrix p (fp_vec_by_fp_vec_pointwise p
        (convert_restr_vec_to_fp p (fz_inf_w_by_fz_matrix p v_G W_mat))
        (fp_vec_by_restr_vec_scaled p e' c u')) V_tr)
      c (restr_vec_by_fp_matrix p e V_tr)
    = fp_vec_by_fp_matrix p (fp_vec_by_fp_vec_pointwise p v u') V_tr"
proof -
  note conv = convert_sub [OF sz e_G e_G' W, folded e_def e'_def v_G_def, folded v_def]
  note e = secret_of_ok [OF sz e_G W, folded e_def] and e' = secret_of_ok [OF sz e_G' W, folded e'_def]
  have K: "0 < par_K p" "par_K p \<le> par_N p" using sz by (simp_all add: sizes_ok_def)
  let ?y = "fp_vec_by_restr_vec_scaled p e' c u'"
  let ?f = "\<lambda>k. unat (fp_vec_by_fp_vec_pointwise p v u' ! k)" and ?g = "\<lambda>k. gpow (e ! k)"
  have eq: "unat (fp_vec_by_fp_vec_pointwise p v ?y ! k) mod P = (?f k + ?g k * unat c) mod P" if k: "k < par_N p" for k
  proof -
    have "unat (fp_vec_by_fp_vec_pointwise p v ?y ! k) mod P = unat (v ! k) * (unat (u' ! k) + gpow (e' ! k) * unat c) mod P"
      using k e'(1) fz_canon_ok [OF e'(2)] by (simp add: fp_pointwise_nth fp_scaled_nth mod_mult_right_eq)
    also have "unat (v ! k) * (unat (u' ! k) + gpow (e' ! k) * unat c)
        = unat (v ! k) * unat (u' ! k) + unat (v ! k) * gpow (e' ! k) * unat c" by (simp add: algebra_simps)
    also have "\<dots> mod P = (?f k + ?g k * unat c) mod P"
      using k conv(2) [OF k] gpow_lt [of "e ! k"]
      by (intro mod_add_cong mod_mult_cong) (simp_all add: fp_pointwise_nth)
    finally show ?thesis .
  qed
  show ?thesis
    unfolding conv(1)
  proof (rule fp_list_eqI)
    fix j assume "j < length (fp_synd_minus_fp_vec_scaled p (fp_vec_by_fp_matrix p (fp_vec_by_fp_vec_pointwise p v ?y) V_tr)
      c (restr_vec_by_fp_matrix p e V_tr))"
    then have j: "j < par_N p - par_K p" by simp
    have "fp_dot p (\<lambda>k. unat (fp_vec_by_fp_vec_pointwise p v ?y ! k)) V_tr j mod P
        = (fp_dot p ?f V_tr j + fp_dot p ?g V_tr j * unat c) mod P"
      using fp_dot_cong [OF eq j] by (simp add: fp_dot_linear)
    from mod_cancel_term [OF this]
    show "unat (fp_synd_minus_fp_vec_scaled p (fp_vec_by_fp_matrix p (fp_vec_by_fp_vec_pointwise p v ?y) V_tr)
        c (restr_vec_by_fp_matrix p e V_tr) ! j) = unat (fp_vec_by_fp_matrix p (fp_vec_by_fp_vec_pointwise p v u') V_tr ! j)"
      by (simp add: fp_synd_minus_nth j fp_vec_by_fp_matrix_nth K restr_vec_by_fp_matrix_nth e(1) fz_canon_ok e(2)
          mod_mult_left_eq)
  qed (use K in simp)
qed

subsection \<open>The published responses\<close>

definition zeros :: "u8 list \<Rightarrow> nat \<Rightarrow> nat" where
  "zeros c i = length (filter (\<lambda>k. c ! k = 0) [0..<i])"

lemma zeros_simps [simp]: "zeros c 0 = 0" "zeros c (Suc i) = zeros c i + (if c ! i = 0 then 1 else 0)"
  by (simp_all add: zeros_def)

lemma zeros_mono: "i \<le> j \<Longrightarrow> zeros c i \<le> zeros c j"
  by (induction j) (auto simp: le_Suc_eq)

lemma zeros_lt: "c ! i = 0 \<Longrightarrow> i < j \<Longrightarrow> zeros c i < zeros c j"
  using zeros_mono [of "Suc i" j c] by simp

lemma zeros_card: "zeros c i = card {k. k < i \<and> c ! k = 0}"
proof -
  have "zeros c i = card (set (filter (\<lambda>k. c ! k = 0) [0..<i]))"
    unfolding zeros_def by (rule distinct_card [symmetric]) simp
  also have "set (filter (\<lambda>k. c ! k = 0) [0..<i]) = {k. k < i \<and> c ! k = 0}" by auto
  finally show ?thesis .
qed

lemma zeros_count: "zeros c (length c) = count_list c 0"
  unfolding zeros_card count_list_eq_length_filter length_filter_conv_card
  by (rule arg_cong [where f = card]) auto

lemma publish_responses_nth:
  fixes y v_G cmt_1
  assumes "zeros chall_2 (par_T p) \<le> par_T p - par_W p" and "i < par_T p" and "chall_2 ! i = 0"
  defines "r \<equiv> publish_responses p y v_G cmt_1 chall_2"
  shows "rs_resp_0 r ! zeros chall_2 i
      = \<lparr>resp_y = pack_fp_vec p (y ! i), resp_v_G_bar = pack_fz_rsdp_g_vec p (v_G ! i)\<rparr>"
    and "rs_resp_1 r ! zeros chall_2 i = cmt_1 ! i"
proof -
  let ?rsp = "\<lambda>i. \<lparr>resp_y = pack_fp_vec p (y ! i), resp_v_G_bar = pack_fz_rsdp_g_vec p (v_G ! i)\<rparr>"
  let ?P = "\<lambda>i s. length (rs_resp_0 s) = par_T p - par_W p \<and> length (rs_resp_1 s) = par_T p - par_W p
      \<and> rs_published s = zeros chall_2 i
      \<and> (\<forall>k<i. chall_2 ! k = 0 \<longrightarrow> rs_resp_0 s ! zeros chall_2 k = ?rsp k \<and> rs_resp_1 s ! zeros chall_2 k = cmt_1 ! k)"
  have "?P (par_T p) r"
    unfolding r_def publish_responses_def
  proof (rule for_range_inv [where P = ?P])
    fix i and s :: responses assume i: "0 \<le> i" "i < par_T p" and P: "?P i s"
    have "zeros chall_2 i < par_T p - par_W p" if "chall_2 ! i = 0"
      using zeros_lt [OF that i(2)] assms(1) by simp
    moreover have "zeros chall_2 i \<noteq> zeros chall_2 k" if "chall_2 ! k = 0" "k < i" for k
      using zeros_lt [OF that] by simp
    ultimately show "?P (Suc i) (if chall_2 ! i = 0
        then s\<lparr>rs_resp_0 := (rs_resp_0 s)[rs_published s := ?rsp i],
               rs_resp_1 := (rs_resp_1 s)[rs_published s := cmt_1 ! i], rs_published := rs_published s + 1\<rparr>
        else s)"
      using P by (auto simp: less_Suc_eq)
  qed simp_all
  then show "rs_resp_0 r ! zeros chall_2 i = ?rsp i" and "rs_resp_1 r ! zeros chall_2 i = cmt_1 ! i"
    using assms(2,3) by blast+
qed

subsection \<open>The rounds\<close>

text \<open>What both sides draw from the seed of a round: \<open>(e_G_bar_prime, u_prime)\<close>.\<close>

definition round_draw :: "cross_params \<Rightarrow> bytes \<Rightarrow> bytes \<Rightarrow> nat \<Rightarrow> u8 list \<times> u16 list" where
  "round_draw p salt seed_i i =
     (let (e_G', st) = csprng_fz_inf_w p (csprng_initialize p (seed_i @ salt) (round_dsc p CSPRNG_DOMAIN_SEP_CONST i))
      in (e_G', fst (csprng_fp_vec p st)))"

lemma round_draw_ok:
  "length (fst (round_draw p salt sd i)) = par_M p" "fz_canon (fst (round_draw p salt sd i))"
  "length (snd (round_draw p salt sd i)) = par_N p"
proof -
  let ?d = "csprng_fz_inf_w p (csprng_initialize p (sd @ salt) (round_dsc p CSPRNG_DOMAIN_SEP_CONST i))"
  have eq: "round_draw p salt sd i = (fst ?d, fst (csprng_fp_vec p (snd ?d)))"
    by (simp add: round_draw_def case_prod_unfold Let_def)
  show "length (fst (round_draw p salt sd i)) = par_M p" "fz_canon (fst (round_draw p salt sd i))"
    "length (snd (round_draw p salt sd i)) = par_N p"
    by (simp_all add: eq csprng_results)
qed

text \<open>The fields of the signer's round in terms of what it draws.\<close>

lemma sign_round_fields:
  fixes p e_G V_tr W_mat salt round_seeds i
  defines "r \<equiv> CROSS_sign_round p (secret_of p e_G W_mat) e_G V_tr W_mat salt round_seeds i"
    and "sd \<equiv> blk (SEED_LENGTH_BYTES p) round_seeds i"
  shows "rd_e_bar_prime r = secret_of p (fst (round_draw p salt sd i)) W_mat"
    and "rd_u_prime r = snd (round_draw p salt sd i)"
    and "rd_v_G_bar r = fz_dz_norm_m p (fz_vec_sub_m p e_G (fst (round_draw p salt sd i)))"
    and "rd_cmt_1 r = hash p (sd @ salt) (round_dsc p HASH_DOMAIN_SEP_CONST i)"
    and "rd_cmt_0 r = hash p (pack_fp_syn p (fp_vec_by_fp_matrix p (fp_vec_by_fp_vec_pointwise p
           (convert_restr_vec_to_fp p (fz_vec_sub_n p (secret_of p e_G W_mat) (rd_e_bar_prime r))) (rd_u_prime r)) V_tr)
           @ pack_fz_rsdp_g_vec p (rd_v_G_bar r) @ salt) (round_dsc p HASH_DOMAIN_SEP_CONST i)"
  unfolding r_def sd_def CROSS_sign_round_def round_draw_def secret_of_def
  by (simp_all add: Let_def case_prod_unfold)

definition response :: "cross_params \<Rightarrow> u8 list \<Rightarrow> bytes \<Rightarrow> bytes \<Rightarrow> u16 \<Rightarrow> nat \<Rightarrow> u16 list" where
  "response p W_mat salt sd c i = fp_vec_by_restr_vec_scaled p
     (secret_of p (fst (round_draw p salt sd i)) W_mat) c (snd (round_draw p salt sd i))"

lemma response_ok: "length (response p W_mat salt sd c i) = par_N p" "fp_ok (response p W_mat salt sd c i)"
proof -
  show "length (response p W_mat salt sd c i) = par_N p" by (simp add: response_def)
  have "fp_canon (response p W_mat salt sd c i)"
    by (rule fp_canon_nthI) (simp add: response_def fp_vec_by_restr_vec_scaled_def unat_fp_mac_lt)
  then show "fp_ok (response p W_mat salt sd c i)" by (rule fp_canon_ok)
qed

lemma verify_seed_round_eq:
  fixes p round_seeds i
  defines "sd \<equiv> blk (SEED_LENGTH_BYTES p) round_seeds i"
  shows "verify_seed_round p W_mat chall_1 salt round_seeds i s
    = s\<lparr>vf_cmt_1 := (vf_cmt_1 s)[i := hash p (sd @ salt) (round_dsc p HASH_DOMAIN_SEP_CONST i)],
        vf_y := (vf_y s)[i := response p W_mat salt sd (chall_1 ! i) i]\<rparr>"
  by (simp add: verify_seed_round_def response_def round_draw_def secret_of_def sd_def Let_def case_prod_unfold)

lemma verify_resp_round_eq:
  fixes p e_G V_tr W_mat salt round_seeds i chall_1
  assumes sz: "sizes_ok p" and e_G: "length e_G = par_M p" "fz_canon e_G" and W: "fz_mat_ok p W_mat"
  defines "e \<equiv> secret_of p e_G W_mat"
  defines "r \<equiv> CROSS_sign_round p e e_G V_tr W_mat salt round_seeds i"
    and "sd \<equiv> blk (SEED_LENGTH_BYTES p) round_seeds i"
  defines "y_i \<equiv> response p W_mat salt sd (chall_1 ! i) i"
  assumes sig: "sig_resp_0 sig ! vf_used_rsps s
      = \<lparr>resp_y = pack_fp_vec p y_i, resp_v_G_bar = pack_fz_rsdp_g_vec p (rd_v_G_bar r)\<rparr>"
    "sig_resp_1 sig ! vf_used_rsps s = rd_cmt_1 r" "sig_salt sig = salt"
  shows "verify_resp_round p V_tr W_mat (restr_vec_by_fp_matrix p e V_tr) chall_1 sig i s
    = s\<lparr>vf_cmt_0 := (vf_cmt_0 s)[i := rd_cmt_0 r], vf_cmt_1 := (vf_cmt_1 s)[i := rd_cmt_1 r],
        vf_y := (vf_y s)[i := y_i], vf_used_rsps := vf_used_rsps s + 1\<rparr>"
proof -
  note f = sign_round_fields [where p = p and e_G = e_G and V_tr = V_tr and W_mat = W_mat and salt = salt
      and round_seeds = round_seeds and i = i, folded e_def, folded r_def sd_def]
  note d = round_draw_ok [of p salt sd i]
  note v = fz_vec_sub_m_ok [OF e_G d(1,2), folded f(3)]
  have group: "is_fz_vec_in_restr_group_m p (rd_v_G_bar r)"
    using v(1,2) by (simp add: is_fz_vec_in_restr_group_m_iff)
  have unpack: "unpack_fp_vec p (pack_fp_vec p y_i) = (y_i, True)"
      "unpack_fz_rsdp_g_vec p (pack_fz_rsdp_g_vec p (rd_v_G_bar r)) = (rd_v_G_bar r, True)"
    using v(1,2) by (simp_all add: unpack_fp_vec_pack unpack_fz_rsdp_g_vec_pack response_ok y_i_def fz_canon_ok)
  note s_prime = s_prime_eq [OF sz e_G d(1,2) W d(3), folded f(1-3) e_def, where c = "chall_1 ! i" and V_tr = V_tr]
  have y: "y_i = fp_vec_by_restr_vec_scaled p (rd_e_bar_prime r) (chall_1 ! i) (rd_u_prime r)"
    by (simp add: y_i_def response_def f(1,2))
  show ?thesis
    by (simp add: verify_resp_round_def sig unpack group Let_def f(5) s_prime [folded y])
qed

subsection \<open>The loop of the verifier\<close>

lemma verify_loop:
  fixes p e_G V_tr W_mat salt round_seeds chall_1
  assumes sz: "sizes_ok p" and e_G: "length e_G = par_M p" "fz_canon e_G" and W: "fz_mat_ok p W_mat"
  defines "e \<equiv> secret_of p e_G W_mat"
  defines "r \<equiv> CROSS_sign_round p e e_G V_tr W_mat salt round_seeds"
  defines "y \<equiv> \<lambda>i. response p W_mat salt (blk (SEED_LENGTH_BYTES p) round_seeds i) (chall_1 ! i) i"
  assumes sig: "\<And>i. i < par_T p \<Longrightarrow> chall_2 ! i = 0 \<Longrightarrow> sig_resp_0 sig ! zeros chall_2 i
        = \<lparr>resp_y = pack_fp_vec p (y i), resp_v_G_bar = pack_fz_rsdp_g_vec p (rd_v_G_bar (r i))\<rparr>"
      "\<And>i. i < par_T p \<Longrightarrow> chall_2 ! i = 0 \<Longrightarrow> sig_resp_1 sig ! zeros chall_2 i = rd_cmt_1 (r i)"
      "sig_salt sig = salt"
    and seeds: "\<And>i. i < par_T p \<Longrightarrow> chall_2 ! i = 1 \<Longrightarrow>
      blk (SEED_LENGTH_BYTES p) round_seeds' i = blk (SEED_LENGTH_BYTES p) round_seeds i"
    and c2: "\<And>i. i < par_T p \<Longrightarrow> chall_2 ! i = 0 \<or> chall_2 ! i = 1"
    and perm: "perm_ok (keccak_perm p)"
  defines "st \<equiv> for_range 0 (par_T p) (\<lambda>i.
      if chall_2 ! i = 1 then verify_seed_round p W_mat chall_1 salt round_seeds' i
      else verify_resp_round p V_tr W_mat (restr_vec_by_fp_matrix p e V_tr) chall_1 sig i)
      \<lparr>vf_cmt_0 = replicate (par_T p) (replicate (HASH_DIGEST_LENGTH p) 0),
       vf_cmt_1 = replicate (par_T p) (replicate (HASH_DIGEST_LENGTH p) 0),
       vf_y = replicate (par_T p) [], vf_used_rsps = 0,
       vf_signature_ok = True, vf_packed_padd_ok = True\<rparr>"
  shows "vf_signature_ok st" and "vf_packed_padd_ok st"
    and "vf_cmt_1 st = map (rd_cmt_1 \<circ> r) [0..<par_T p]" and "vf_y st = map y [0..<par_T p]"
    and "i < par_T p \<Longrightarrow> length (vf_cmt_0 st ! i) = HASH_DIGEST_LENGTH p"
    and "i < par_T p \<Longrightarrow> chall_2 ! i = 0 \<Longrightarrow> vf_cmt_0 st ! i = rd_cmt_0 (r i)"
proof -
  let ?P = "\<lambda>i s. length (vf_cmt_0 s) = par_T p \<and> length (vf_cmt_1 s) = par_T p \<and> length (vf_y s) = par_T p
      \<and> (\<forall>k<par_T p. length (vf_cmt_0 s ! k) = HASH_DIGEST_LENGTH p)
      \<and> (\<forall>k<i. vf_cmt_1 s ! k = rd_cmt_1 (r k) \<and> vf_y s ! k = y k \<and> (chall_2 ! k = 0 \<longrightarrow> vf_cmt_0 s ! k = rd_cmt_0 (r k)))
      \<and> vf_used_rsps s = zeros chall_2 i \<and> vf_signature_ok s \<and> vf_packed_padd_ok s"
  note f = sign_round_fields [where p = p and e_G = e_G and V_tr = V_tr and W_mat = W_mat and salt = salt
      and round_seeds = round_seeds, folded e_def, folded r_def]
  have len0: "length (rd_cmt_0 (r i)) = HASH_DIGEST_LENGTH p" for i
    unfolding f(5) using perm by simp
  have "?P (par_T p) st"
    unfolding st_def
  proof (rule for_range_inv [where P = ?P])
    fix i and s :: verify_state assume i: "0 \<le> i" "i < par_T p" and P: "?P i s"
    show "?P (Suc i) ((if chall_2 ! i = 1 then verify_seed_round p W_mat chall_1 salt round_seeds' i
      else verify_resp_round p V_tr W_mat (restr_vec_by_fp_matrix p e V_tr) chall_1 sig i) s)"
    proof (cases "chall_2 ! i = 1")
      case True
      then show ?thesis
        using P i by (simp add: verify_seed_round_eq seeds [OF i(2) True] less_Suc_eq nth_list_update f(4) y_def)
    next
      case False
      then have 0: "chall_2 ! i = 0" using c2 [OF i(2)] by simp
      have used: "vf_used_rsps s = zeros chall_2 i" using P by blast
      note step = verify_resp_round_eq [OF sz e_G W, folded e_def, where sig = sig and s = s and ?chall_1.0 = chall_1
          and i = i and salt = salt and round_seeds = round_seeds and V_tr = V_tr,
          folded r_def, unfolded used, OF sig(1) [OF i(2) 0, unfolded y_def] sig(2) [OF i(2) 0] sig(3)]
      show ?thesis
        using P i 0 by (simp add: step less_Suc_eq nth_list_update len0 y_def)
    qed
  qed (simp_all)
  then show "vf_signature_ok st" "vf_packed_padd_ok st"
    "vf_cmt_1 st = map (rd_cmt_1 \<circ> r) [0..<par_T p]" "vf_y st = map y [0..<par_T p]"
    "i < par_T p \<Longrightarrow> length (vf_cmt_0 st ! i) = HASH_DIGEST_LENGTH p"
    "i < par_T p \<Longrightarrow> chall_2 ! i = 0 \<Longrightarrow> vf_cmt_0 st ! i = rd_cmt_0 (r i)"
    by (auto intro: nth_equalityI)
qed

subsection \<open>Completeness\<close>

lemma expand_pk_ok: "fz_mat_ok p (snd (expand_pk p s))" "fp_mat_ok p (fst (expand_pk p s))"
  by (simp_all add: expand_pk_def Let_def case_prod_unfold csprng_results)

lemma expand_seed_e_ok:
  "length (snd (expand_seed_e p s W)) = par_M p" "fz_canon (snd (expand_seed_e p s W))"
  "fst (expand_seed_e p s W) = secret_of p (snd (expand_seed_e p s W)) W"
  by (simp_all add: expand_seed_e_def Let_def case_prod_unfold csprng_results secret_of_def)

lemma marked_cong:
  assumes "\<And>c. c < length leaves \<Longrightarrow> Q c \<longleftrightarrow> Q' c"
  shows "marked inner leaves Q = marked inner leaves Q'"
proof (intro ext iffI)
  show "marked inner leaves Q' x" if "marked inner leaves Q x" for x
    using that by induction (auto simp: assms intro: marked.intros)
  show "marked inner leaves Q x" if "marked inner leaves Q' x" for x
    using that by induction (auto simp: assms intro: marked.intros)
qed

locale cross_scheme =
  fixes p :: cross_params and lam :: int
  assumes params: "wf_params p lam"
begin

lemma params_simps:
  "wf_tree p" "par_W p < par_T p" "par_W p \<le> par_T p" "sizes_ok p" "0 < par_K p" "par_K p \<le> par_N p"
  using params by (simp_all add: wf_params_def sizes_ok_def)

end

sublocale cross_scheme < cross_tree p
  by unfold_locales (rule params_simps)

context cross_scheme
begin

text \<open>Both published sets fit, for every second challenge.\<close>

lemma published_fit:
  fixes d
  defines "c \<equiv> expand_digest_to_fixed_weight p d"
  shows "length (picked (marked (inner_nodes p) (leaf_nodes p) (\<lambda>i. c ! i = CHALLENGE_PROOF_VALUE)) 0) \<le> TREE_NODES_TO_STORE p"
    and "length (path_nodes (unpublished c) nodes) \<le> TREE_NODES_TO_STORE p"
    and "zeros c (par_T p) = par_T p - par_W p"
proof -
  note W = params_simps(3)
  show z: "zeros c (par_T p) = par_T p - par_W p"
    using zeros_count [of c] count_expand_digest(1) [OF W, of d] length_expand_digest [OF W, of d] by (simp add: c_def)
  then have card: "card {k. k < par_T p \<and> c ! k = CHALLENGE_PROOF_VALUE} = par_T p - par_W p"
    by (simp add: zeros_card CHALLENGE_PROOF_VALUE_def)
  show fit: "length (picked (marked (inner_nodes p) (leaf_nodes p) (\<lambda>i. c ! i = CHALLENGE_PROOF_VALUE)) 0) \<le> TREE_NODES_TO_STORE p"
    by (rule length_picked_marked [OF params card])
  have "{k. k < par_T p \<and> c ! k \<noteq> TO_PUBLISH} = {k. k < par_T p \<and> c ! k = CHALLENGE_PROOF_VALUE}"
    using expand_digest_01 [OF W, of _ d] by (auto simp: c_def TO_PUBLISH_def CHALLENGE_PROOF_VALUE_def)
  then have "card {k. k < par_T p \<and> c ! k \<noteq> TO_PUBLISH} = par_T p - par_W p" using card by simp
  then have "length (picked (unpublished c) 0) \<le> TREE_NODES_TO_STORE p"
    unfolding unpublished_def by (rule length_picked_marked [OF params])
  then show "length (path_nodes (unpublished c) nodes) \<le> TREE_NODES_TO_STORE p"
    using length_path_nodes [of "unpublished c", OF unpublished_inner] by simp
qed

lemma seed_path_roundtrip:
  fixes d salt mem mem' root_seed
  defines "c \<equiv> expand_digest_to_fixed_weight p d"
  assumes perm: "perm_ok (keccak_perm p)" and root_seed: "length root_seed = SEED_LENGTH_BYTES p"
    and mem: "length mem = NUM_NODES p * SEED_LENGTH_BYTES p" "length mem' = NUM_NODES p * SEED_LENGTH_BYTES p"
      "length out = par_T p * SEED_LENGTH_BYTES p" and i: "i < par_T p" "c ! i = 1"
  defines "tree \<equiv> gen_seed_tree p mem root_seed salt"
  defines "r \<equiv> rebuild_tree p mem' c
      (fst (seed_path p (replicate (TREE_NODES_TO_STORE p * SEED_LENGTH_BYTES p) 0) tree c)) salt"
  shows "snd r \<and> blk (SEED_LENGTH_BYTES p) (seed_leaves p out (fst r)) i
    = blk (SEED_LENGTH_BYTES p) (seed_leaves p out tree) i"
proof -
  have c01: "c ! i = 0 \<or> c ! i = 1" if "i < par_T p" for i
    using expand_digest_01 [OF params_simps(3) that] by (simp add: c_def)
  note fit = published_fit [of d, folded c_def]
  have "0 < zeros c (par_T p)" using fit(3) params_simps(2) by simp
  then obtain c0 where c0: "c0 < par_T p" "c ! c0 = 0" by (auto simp: zeros_card card_gt_0_iff)
  have st: "is_seed_tree tree root_seed salt"
    unfolding tree_def by (rule gen_seed_tree_correct [OF perm mem(1) root_seed])
  then have lt: "length tree = NUM_NODES p * SEED_LENGTH_BYTES p" by (simp add: is_seed_tree_def)
  have path: "is_storage (SEED_LENGTH_BYTES p) (TREE_NODES_TO_STORE p)
      (fst (seed_path p (replicate (TREE_NODES_TO_STORE p * SEED_LENGTH_BYTES p) 0) tree c)) tree
      (path_nodes (unpublished c) nodes)"
    using seed_path_correct(1) [OF c01 lt refl fit(2)] by simp
  have r: "snd r" "length (fst r) = NUM_NODES p * SEED_LENGTH_BYTES p"
      "blk (SEED_LENGTH_BYTES p) (fst r) (leaf_nodes p ! i) = blk (SEED_LENGTH_BYTES p) tree (leaf_nodes p ! i)"
    using rebuild_tree_correct [OF perm st path _ c0 mem(2), folded r_def] c01 i by blast+
  then show ?thesis using seed_leaves_correct(2) [OF mem(3) _ i(1)] lt by simp
qed

lemma merkle_roundtrip:
  fixes d
  defines "c \<equiv> expand_digest_to_fixed_weight p d"
  assumes perm: "perm_ok (keccak_perm p)"
    and mem: "length mem = NUM_NODES p * HASH_DIGEST_LENGTH p" "length mem' = NUM_NODES p * HASH_DIGEST_LENGTH p"
    and cmts: "\<And>i. i < par_T p \<Longrightarrow> length (cmts ! i) = HASH_DIGEST_LENGTH p"
      "\<And>i. i < par_T p \<Longrightarrow> length (cmts' ! i) = HASH_DIGEST_LENGTH p"
      "\<And>i. i < par_T p \<Longrightarrow> c ! i = 0 \<Longrightarrow> cmts' ! i = cmts ! i"
  shows "recompute_root p mem' cmts' (fst (tree_proof p (replicate (TREE_NODES_TO_STORE p * HASH_DIGEST_LENGTH p) 0)
      (snd (tree_root p mem cmts)) c)) c = (fst (tree_root p mem cmts), True)"
proof -
  note fit = published_fit [of d, folded c_def]
  have "0 < zeros c (par_T p)" using fit(3) params_simps(2) by simp
  then obtain c0 where c0: "c0 < par_T p" "c ! c0 = CHALLENGE_PROOF_VALUE"
    by (auto simp: zeros_card card_gt_0_iff CHALLENGE_PROOF_VALUE_def)
  have tr: "is_merkle_tree (snd (tree_root p mem cmts)) cmts"
      "fst (tree_root p mem cmts) = blk (HASH_DIGEST_LENGTH p) (snd (tree_root p mem cmts)) 0"
    using tree_root_correct [OF perm mem(1)] cmts(1) by blast+
  then have lt: "length (snd (tree_root p mem cmts)) = NUM_NODES p * HASH_DIGEST_LENGTH p"
    by (simp add: is_merkle_tree_def)
  note pf = tree_proof_correct(1) [OF lt refl fit(1)]
  show ?thesis
    unfolding tr(2)
    by (rule recompute_root_correct [OF perm tr(1) pf fit(1) mem(2) _ _ c0])
      (use cmts in \<open>simp_all add: CHALLENGE_PROOF_VALUE_def\<close>)
qed

lemma published_counts:
  fixes d tree seeds
  defines "c \<equiv> expand_digest_to_fixed_weight p d"
  assumes len: "length tree = NUM_NODES p * HASH_DIGEST_LENGTH p" "length seeds = NUM_NODES p * SEED_LENGTH_BYTES p"
  defines "n \<equiv> snd (tree_proof p (replicate (TREE_NODES_TO_STORE p * HASH_DIGEST_LENGTH p) 0) tree c)"
    and "n' \<equiv> snd (seed_path p (replicate (TREE_NODES_TO_STORE p * SEED_LENGTH_BYTES p) 0) seeds c)"
  shows "n \<le> TREE_NODES_TO_STORE p \<and> n' = n"
proof -
  have c01: "c ! i = 0 \<or> c ! i = 1" if "i < par_T p" for i
    using expand_digest_01 [OF params_simps(3) that] by (simp add: c_def)
  note fit = published_fit [of d, folded c_def]
  let ?Q = "\<lambda>i. c ! i = CHALLENGE_PROOF_VALUE"
  have n: "n = length (picked (marked (inner_nodes p) (leaf_nodes p) ?Q) 0)"
    unfolding n_def by (rule tree_proof_correct(2) [OF len(1) refl fit(1)])
  have n': "n' = length (path_nodes (unpublished c) nodes)"
    unfolding n'_def using seed_path_correct(2) [OF c01 len(2) refl fit(2)] by simp
  have "unpublished c = marked (inner_nodes p) (leaf_nodes p) ?Q"
    unfolding unpublished_def by (rule marked_cong) (use c01 in \<open>auto simp: TO_PUBLISH_def CHALLENGE_PROOF_VALUE_def length_leaf_nodes\<close>)
  then have "n' = n" using n n' length_path_nodes [of "unpublished c", OF unpublished_inner] by simp
  with n fit(1) show ?thesis by simp
qed

theorem sign_verify:
  assumes perm: "perm_ok (keccak_perm p)"
    and keys: "CROSS_keygen p seed_sk = (SK, PK)"
    and root_seed: "length root_seed = SEED_LENGTH_BYTES p"
    and mem: "length merkle_memory = NUM_NODES p * HASH_DIGEST_LENGTH p"
      "length proof_memory = NUM_NODES p * HASH_DIGEST_LENGTH p"
  shows "CROSS_verify p PK m (CROSS_sign p SK m root_seed salt merkle_memory) proof_memory"
proof -
  let ?S = "SEED_LENGTH_BYTES p" and ?H = "HASH_DIGEST_LENGTH p" and ?T = "par_T p"
  define seed_e seed_pk where "seed_e = fst (expand_seed_sk p seed_sk)" and "seed_pk = snd (expand_seed_sk p seed_sk)"
  define V_tr W_mat where "V_tr = fst (expand_pk p seed_pk)" and "W_mat = snd (expand_pk p seed_pk)"
  define e_G where "e_G = snd (expand_seed_e p seed_e W_mat)"
  define e where "e = secret_of p e_G W_mat"
  have W: "fz_mat_ok p W_mat" by (simp add: W_mat_def expand_pk_ok)
  have e_G: "length e_G = par_M p" "fz_canon e_G" by (simp_all add: e_G_def expand_seed_e_ok)
  have SK: "expand_sk p (sk_seed_sk SK) = (e, e_G, V_tr, W_mat)"
    and PK: "expand_pk p (pk_seed_pk PK) = (V_tr, W_mat)" "pk_s PK = pack_fp_syn p (restr_vec_by_fp_matrix p e V_tr)"
    using keys by (auto simp: CROSS_keygen_def expand_sk_def case_prod_unfold Let_def seed_e_def seed_pk_def
        V_tr_def W_mat_def e_G_def e_def expand_seed_e_ok)
  have synd: "unpack_fp_syn p (pk_s PK) = (restr_vec_by_fp_matrix p e V_tr, True)"
  proof -
    have "fp_canon (restr_vec_by_fp_matrix p e V_tr)"
      by (rule fp_canon_nthI)
        (simp add: restr_vec_by_fp_matrix_nth e_def secret_of_ok [OF params_simps(4) e_G W] fz_canon_ok params_simps)
    then show ?thesis by (simp add: PK(2) unpack_fp_syn_pack fp_canon_ok)
  qed
  define seed_tree where "seed_tree = gen_seed_tree p (replicate (?S * NUM_NODES p) 0) root_seed salt"
  define round_seeds where "round_seeds = seed_leaves p (replicate (?T * ?S) 0) seed_tree"
  define r where "r = CROSS_sign_round p e e_G V_tr W_mat salt round_seeds"
  define cmt_0 cmt_1 where "cmt_0 = map (rd_cmt_0 \<circ> r) [0..<?T]" and "cmt_1 = map (rd_cmt_1 \<circ> r) [0..<?T]"
  define root tree where "root = fst (tree_root p merkle_memory cmt_0)" and "tree = snd (tree_root p merkle_memory cmt_0)"
  define digest_cmt where "digest_cmt = hash_commitments p root cmt_1"
  define d_1 chall_1 where "d_1 = fst (first_challenge p m digest_cmt salt)"
    and "chall_1 = snd (first_challenge p m digest_cmt salt)"
  define y where "y = (\<lambda>i. response p W_mat salt (blk ?S round_seeds i) (chall_1 ! i) i)"
  define d_2 where "d_2 = hash_responses p (map y [0..<?T]) d_1"
  define chall_2 where "chall_2 = expand_digest_to_fixed_weight p d_2"
  define sig where "sig = CROSS_sign p SK m root_seed salt merkle_memory"
  note f = sign_round_fields [where p = p and e_G = e_G and V_tr = V_tr and W_mat = W_mat and salt = salt
      and round_seeds = round_seeds, folded e_def, folded r_def]
  have ymap: "map (\<lambda>i. fp_vec_by_restr_vec_scaled p (rd_e_bar_prime (map r [0..<?T] ! i)) (chall_1 ! i)
      (rd_u_prime (map r [0..<?T] ! i))) [0..<?T] = map y [0..<?T]"
    by (rule map_cong) (simp_all add: f(1,2) y_def response_def)
  define rsp where "rsp = publish_responses p (map y [0..<?T]) (map (rd_v_G_bar \<circ> r) [0..<?T]) cmt_1 chall_2"
  have sig: "sig = \<lparr>sig_salt = salt, sig_digest_cmt = digest_cmt, sig_digest_chall_2 = d_2,
      sig_path = fst (seed_path p (replicate (TREE_NODES_TO_STORE p * ?S) 0) seed_tree chall_2),
      sig_proof = fst (tree_proof p (replicate (TREE_NODES_TO_STORE p * ?H) 0) tree chall_2),
      sig_resp_1 = rs_resp_1 rsp, sig_resp_0 = rs_resp_0 rsp\<rparr>"
    unfolding sig_def CROSS_sign_def SK Let_def case_prod_unfold prod.sel seed_tree_def [symmetric]
      round_seeds_def [symmetric] r_def [symmetric] map_map cmt_0_def [symmetric] cmt_1_def [symmetric] root_def [symmetric]
      tree_def [symmetric] digest_cmt_def [symmetric] d_1_def [symmetric] chall_1_def [symmetric] fp_dz_norm_id ymap
      d_2_def [symmetric] chall_2_def [symmetric] rsp_def [symmetric] mult.commute [of ?H]
    by (rule refl)
  note W_T = params_simps(3)
  have c2: "chall_2 ! i = 0 \<or> chall_2 ! i = 1" if "i < ?T" for i
    using expand_digest_01 [OF W_T that] by (simp add: chall_2_def)
  note fit = published_fit [of d_2, folded chall_2_def]
  have "0 < zeros chall_2 ?T" using fit(3) params_simps(2) by simp
  then obtain c0 where c0: "c0 < ?T" "chall_2 ! c0 = 0" by (auto simp: zeros_card card_gt_0_iff)
  \<comment> \<open>the seed tree\<close>
  have st: "is_seed_tree seed_tree root_seed salt"
    unfolding seed_tree_def by (rule gen_seed_tree_correct [OF perm _ root_seed]) (simp add: mult.commute)
  then have lst: "length seed_tree = NUM_NODES p * ?S" by (simp add: is_seed_tree_def)
  define path where "path = sig_path sig"
  have path: "is_storage ?S (TREE_NODES_TO_STORE p) path seed_tree (path_nodes (unpublished chall_2) nodes)"
    unfolding path_def sig using seed_path_correct(1) [OF c2 lst refl fit(2)] by simp
  define rebuilt where "rebuilt = rebuild_tree p (replicate (?S * NUM_NODES p) 0) chall_2 path salt"
  have lz: "length (replicate (?S * NUM_NODES p) (0 :: u8)) = NUM_NODES p * ?S" by (simp add: mult.commute)
  have rb: "snd rebuilt" "length (fst rebuilt) = NUM_NODES p * ?S"
      "i < ?T \<Longrightarrow> chall_2 ! i = 1 \<Longrightarrow> blk ?S (fst rebuilt) (leaf_nodes p ! i) = blk ?S seed_tree (leaf_nodes p ! i)" for i
    using rebuild_tree_correct [OF perm st path _ c0 lz, folded rebuilt_def] c2 by blast+
  define round_seeds' where "round_seeds' = seed_leaves p (replicate (?T * ?S) 0) (fst rebuilt)"
  have seeds: "blk ?S round_seeds' i = blk ?S round_seeds i" if "i < ?T" "chall_2 ! i = 1" for i
    using that rb(3) [OF that] seed_leaves_correct(2) [of "replicate (?T * ?S) 0"] rb(2) lst
    by (simp add: round_seeds'_def round_seeds_def)
  \<comment> \<open>the rounds\<close>
  have salt: "sig_salt sig = salt" by (simp add: sig)
  have resp: "sig_resp_0 sig ! zeros chall_2 i
        = \<lparr>resp_y = pack_fp_vec p (y i), resp_v_G_bar = pack_fz_rsdp_g_vec p (rd_v_G_bar (r i))\<rparr>"
      "sig_resp_1 sig ! zeros chall_2 i = rd_cmt_1 (r i)" if "i < ?T" "chall_2 ! i = 0" for i
    using publish_responses_nth [OF _ that, of "map y [0..<?T]" "map (rd_v_G_bar \<circ> r) [0..<?T]" cmt_1] fit(3) that
    by (simp_all add: sig rsp_def cmt_1_def)
  define vs where "vs = for_range 0 ?T (\<lambda>i. if chall_2 ! i = 1 then verify_seed_round p W_mat chall_1 salt round_seeds' i
      else verify_resp_round p V_tr W_mat (restr_vec_by_fp_matrix p e V_tr) chall_1 sig i)
      \<lparr>vf_cmt_0 = replicate ?T (replicate ?H 0), vf_cmt_1 = replicate ?T (replicate ?H 0),
       vf_y = replicate ?T [], vf_used_rsps = 0, vf_signature_ok = True, vf_packed_padd_ok = True\<rparr>"
  note loop = verify_loop [OF params_simps(4) e_G W, folded e_def, where V_tr = V_tr and salt = salt
      and round_seeds = round_seeds and ?chall_1.0 = chall_1 and ?chall_2.0 = chall_2 and sig = sig
      and round_seeds' = round_seeds', folded r_def vs_def, OF resp [unfolded y_def] salt seeds c2 perm]
  have loop': "vf_signature_ok vs" "vf_packed_padd_ok vs"
    by (rule loop; assumption)+
  have loop2: "vf_cmt_1 vs = cmt_1" "vf_y vs = map y [0..<?T]"
    unfolding cmt_1_def y_def by (rule loop; assumption)+
  have loop3: "length (vf_cmt_0 vs ! i) = ?H" if "i < ?T" for i
    by (rule loop(5); (assumption | rule that))
  have loop4: "vf_cmt_0 vs ! i = rd_cmt_0 (r i)" if "i < ?T" "chall_2 ! i = 0" for i
    by (rule loop(6); (assumption | rule that))
  \<comment> \<open>the Merkle tree\<close>
  have lc: "length (cmt_0 ! i) = ?H" if "i < ?T" for i
    using that perm by (simp add: cmt_0_def f(5))
  have tr: "is_merkle_tree tree cmt_0" "root = blk ?H tree 0"
    using tree_root_correct [OF perm mem(1), of cmt_0, folded root_def tree_def] lc by blast+
  define mproof where "mproof = sig_proof sig"
  have lt: "length tree = NUM_NODES p * ?H" using tr(1) by (simp add: is_merkle_tree_def)
  have mproof: "is_merkle_proof mproof tree (picked (marked (inner_nodes p) (leaf_nodes p) (\<lambda>c. chall_2 ! c = CHALLENGE_PROOF_VALUE)) 0)"
    unfolding mproof_def sig using tree_proof_correct(1) [OF lt refl fit(1)] by simp
  have rr: "recompute_root p proof_memory (vf_cmt_0 vs) mproof chall_2 = (root, True)"
    unfolding tr(2)
    by (rule recompute_root_correct [OF perm tr(1) mproof fit(1) mem(2) loop3 _ c0 [folded CHALLENGE_PROOF_VALUE_def]])
      (simp_all add: loop4 cmt_0_def CHALLENGE_PROOF_VALUE_def)
  have fc: "first_challenge p m (sig_digest_cmt sig) salt = (d_1, chall_1)"
    by (simp add: sig d_1_def chall_1_def)
  have ch: "expand_digest_to_fixed_weight p (sig_digest_chall_2 sig) = chall_2" by (simp add: sig chall_2_def)
  have reb: "rebuild_tree p (replicate (?S * NUM_NODES p) 0) chall_2 path salt = (fst rebuilt, True)"
    using rb(1) unfolding rebuilt_def by (metis prod.collapse)
  have "CROSS_verify p PK m sig proof_memory"
    unfolding CROSS_verify_def Let_def PK(1) synd salt path_def [symmetric] fc ch reb prod.case round_seeds'_def [symmetric]
      vs_def [symmetric] mproof_def [symmetric] rr loop2
    by (simp add: loop' sig digest_cmt_def [symmetric] d_2_def [symmetric])
  then show ?thesis by (simp add: sig_def)
qed

end

interpretation scheme_128: cross_scheme "rsdpg_128_balanced perm" 1 for perm
  by unfold_locales (rule wf_params_128)

interpretation scheme_192: cross_scheme "rsdpg_192_balanced perm" 0 for perm
  by unfold_locales (rule wf_params_192)

interpretation scheme_256: cross_scheme "rsdpg_256_balanced perm" 0 for perm
  by unfold_locales (rule wf_params_256)

text \<open>The interpretations, for a member of the three sets.\<close>

lemma balanced_scheme:
  assumes "p \<in> balanced_params perm" and "perm_ok perm"
  obtains lam where "cross_scheme p lam" and "perm_ok (keccak_perm p)"
  using assms(1)
proof (cases rule: balanced_cases)
  case 1
  then show ?thesis using that scheme_128.cross_scheme_axioms [of perm] assms(2) by simp
next
  case 2
  then show ?thesis using that scheme_192.cross_scheme_axioms [of perm] assms(2) by simp
next
  case 3
  then show ?thesis using that scheme_256.cross_scheme_axioms [of perm] assms(2) by simp
qed

lemma balanced_scheme_only:
  assumes "p \<in> balanced_params perm"
  obtains lam where "cross_scheme p lam"
  using assms by (elim balanced_cases)
    (use that scheme_128.cross_scheme_axioms scheme_192.cross_scheme_axioms scheme_256.cross_scheme_axioms in auto)

lemma balanced_facts:
  assumes "p \<in> balanced_params perm"
  shows "cross_tree p" and "keccak_perm p = perm" and "par_W p < par_T p" and "par_W p \<le> par_T p" and "sizes_ok p"
  using assms
  by (auto simp: sizes_ok_def intro: tree_128.cross_tree_axioms tree_192.cross_tree_axioms tree_256.cross_tree_axioms
      elim!: balanced_cases simp del: keccak_perm_balanced)
    (simp_all add: rsdpg_128_balanced_def rsdpg_192_balanced_def rsdpg_256_balanced_def)

text \<open>Some round is opened: the challenge has a 1, and a 0, whatever the digest.\<close>

lemma challenge_has_1:
  assumes "p \<in> balanced_params perm"
  obtains c where "c < par_T p" and "expand_digest_to_fixed_weight p d ! c = 1"
proof -
  have W: "par_W p \<le> par_T p" and pos: "0 < par_W p"
    using balanced_facts(4) [OF assms] assms
    by (auto elim!: balanced_cases simp: rsdpg_128_balanced_def rsdpg_192_balanced_def rsdpg_256_balanced_def)
  have "1 \<in> set (expand_digest_to_fixed_weight p d)"
    using count_expand_digest(2) [OF W, of d] pos by (metis count_list_0_iff less_numeral_extra(3))
  then show ?thesis using that W by (auto simp: in_set_conv_nth)
qed

text \<open>The sizes of category 1, and a permutation of the right shape, for concrete instances.\<close>

lemma sizes_128:
  "SEED_LENGTH_BYTES (rsdpg_128_balanced perm) = 16" "HASH_DIGEST_LENGTH (rsdpg_128_balanced perm) = 32"
  "SALT_LENGTH_BYTES (rsdpg_128_balanced perm) = 32" "KEYPAIR_SEED_LENGTH_BYTES (rsdpg_128_balanced perm) = 32"
  "par_T (rsdpg_128_balanced perm) = 256" "par_N (rsdpg_128_balanced perm) = 55" "par_K (rsdpg_128_balanced perm) = 36"
  "par_M (rsdpg_128_balanced perm) = 25" "par_W (rsdpg_128_balanced perm) = 220"
  "TREE_NODES_TO_STORE (rsdpg_128_balanced perm) = 101" "keccak_perm (rsdpg_128_balanced perm) = perm"
  by (simp_all add: rsdpg_128_balanced_def SEED_LENGTH_BYTES_def HASH_DIGEST_LENGTH_def SALT_LENGTH_BYTES_def
      KEYPAIR_SEED_LENGTH_BYTES_def)

lemma balanced_128: "rsdpg_128_balanced perm \<in> balanced_params perm"
  by (simp add: balanced_params_def)

lemma perm_ok_rotate1: "perm_ok rotate1"
  by (simp add: perm_ok_def)

end
