(* ===== verification/Cross_Api.thy ===== *)
theory Cross_Api
  imports Cross_Correct
begin

text \<open>
  \<open>sign.c\<close>: the byte interface over the structures, which are arrays of bytes without padding, so
  that a cast is a split at the field offsets.  Signatures are shown to have the declared size and
  to survive the casts; \<open>crypto_sign_open\<close> undoes \<open>crypto_sign\<close>.
\<close>

definition bytes_of_pk :: "pk_t \<Rightarrow> bytes" where
  "bytes_of_pk PK = pk_seed_pk PK @ pk_s PK"

definition pk_of_bytes :: "cross_params \<Rightarrow> bytes \<Rightarrow> pk_t" where
  "pk_of_bytes p b = \<lparr>pk_seed_pk = seg b 0 (KEYPAIR_SEED_LENGTH_BYTES p),
     pk_s = seg b (KEYPAIR_SEED_LENGTH_BYTES p) (DENSELY_PACKED_FP_SYN_SIZE p)\<rparr>"

definition bytes_of_sk :: "sk_t \<Rightarrow> bytes" where
  "bytes_of_sk SK = sk_seed_sk SK"

definition sk_of_bytes :: "cross_params \<Rightarrow> bytes \<Rightarrow> sk_t" where
  "sk_of_bytes p b = \<lparr>sk_seed_sk = seg b 0 (KEYPAIR_SEED_LENGTH_BYTES p)\<rparr>"

definition sizeof_resp_0 :: "cross_params \<Rightarrow> nat" where
  "sizeof_resp_0 p = DENSELY_PACKED_FP_VEC_SIZE p + DENSELY_PACKED_FZ_RSDP_G_VEC_SIZE p"

definition bytes_of_resp_0 :: "resp_0_t \<Rightarrow> bytes" where
  "bytes_of_resp_0 r = resp_y r @ resp_v_G_bar r"

definition resp_0_of_bytes :: "cross_params \<Rightarrow> bytes \<Rightarrow> resp_0_t" where
  "resp_0_of_bytes p b = \<lparr>resp_y = seg b 0 (DENSELY_PACKED_FP_VEC_SIZE p),
     resp_v_G_bar = seg b (DENSELY_PACKED_FP_VEC_SIZE p) (DENSELY_PACKED_FZ_RSDP_G_VEC_SIZE p)\<rparr>"

text \<open>The offsets of the fields of \<open>CROSS_sig_t\<close>.\<close>

definition off_digest_cmt :: "cross_params \<Rightarrow> nat" where
  "off_digest_cmt p = SALT_LENGTH_BYTES p"
definition off_digest_chall_2 :: "cross_params \<Rightarrow> nat" where
  "off_digest_chall_2 p = off_digest_cmt p + HASH_DIGEST_LENGTH p"
definition off_path :: "cross_params \<Rightarrow> nat" where
  "off_path p = off_digest_chall_2 p + HASH_DIGEST_LENGTH p"
definition off_proof :: "cross_params \<Rightarrow> nat" where
  "off_proof p = off_path p + TREE_NODES_TO_STORE p * SEED_LENGTH_BYTES p"
definition off_resp_1 :: "cross_params \<Rightarrow> nat" where
  "off_resp_1 p = off_proof p + HASH_DIGEST_LENGTH p * TREE_NODES_TO_STORE p"
definition off_resp_0 :: "cross_params \<Rightarrow> nat" where
  "off_resp_0 p = off_resp_1 p + (par_T p - par_W p) * HASH_DIGEST_LENGTH p"
definition sizeof_sig :: "cross_params \<Rightarrow> nat" where
  "sizeof_sig p = off_resp_0 p + (par_T p - par_W p) * sizeof_resp_0 p"

definition bytes_of_sig :: "CROSS_sig_t \<Rightarrow> bytes" where
  "bytes_of_sig sig = sig_salt sig @ sig_digest_cmt sig @ sig_digest_chall_2 sig @ sig_path sig @ sig_proof sig
     @ concat (sig_resp_1 sig) @ concat (map bytes_of_resp_0 (sig_resp_0 sig))"

definition sig_of_bytes :: "cross_params \<Rightarrow> bytes \<Rightarrow> CROSS_sig_t" where
  "sig_of_bytes p b =
     \<lparr>sig_salt = seg b 0 (SALT_LENGTH_BYTES p),
      sig_digest_cmt = seg b (off_digest_cmt p) (HASH_DIGEST_LENGTH p),
      sig_digest_chall_2 = seg b (off_digest_chall_2 p) (HASH_DIGEST_LENGTH p),
      sig_path = seg b (off_path p) (TREE_NODES_TO_STORE p * SEED_LENGTH_BYTES p),
      sig_proof = seg b (off_proof p) (HASH_DIGEST_LENGTH p * TREE_NODES_TO_STORE p),
      sig_resp_1 = map (\<lambda>i. seg b (off_resp_1 p + i * HASH_DIGEST_LENGTH p) (HASH_DIGEST_LENGTH p))
        [0..<par_T p - par_W p],
      sig_resp_0 = map (\<lambda>i. resp_0_of_bytes p (seg b (off_resp_0 p + i * sizeof_resp_0 p) (sizeof_resp_0 p)))
        [0..<par_T p - par_W p]\<rparr>"

subsection \<open>The functions\<close>

text \<open>
  The results are the output buffers and the \<open>int\<close> that is returned.  The random bytes and the
  uninitialised memory are arguments, as in the functions they call.
\<close>

definition crypto_sign_keypair :: "cross_params \<Rightarrow> bytes \<Rightarrow> bytes \<times> bytes \<times> int" where
  "crypto_sign_keypair p seed_sk =
     (let (SK, PK) = CROSS_keygen p seed_sk in (bytes_of_pk PK, bytes_of_sk SK, 0))"

definition crypto_sign_signature ::
    "cross_params \<Rightarrow> bytes \<Rightarrow> bytes \<Rightarrow> bytes \<Rightarrow> bytes \<Rightarrow> bytes \<Rightarrow> bytes \<times> nat \<times> int" where
  "crypto_sign_signature p m sk root_seed salt merkle_memory =
     (bytes_of_sig (CROSS_sign p (sk_of_bytes p sk) m root_seed salt merkle_memory), sizeof_sig p, 0)"

definition crypto_sign ::
    "cross_params \<Rightarrow> bytes \<Rightarrow> bytes \<Rightarrow> bytes \<Rightarrow> bytes \<Rightarrow> bytes \<Rightarrow> bytes \<times> nat \<times> int" where
  "crypto_sign p m sk root_seed salt merkle_memory =
     (m @ bytes_of_sig (CROSS_sign p (sk_of_bytes p sk) m root_seed salt merkle_memory),
      length m + sizeof_sig p, 0)"

definition crypto_sign_verify :: "cross_params \<Rightarrow> bytes \<Rightarrow> nat \<Rightarrow> bytes \<Rightarrow> bytes \<Rightarrow> bytes \<Rightarrow> int" where
  "crypto_sign_verify p sig siglen m pk proof_memory =
     (let ok = (if CROSS_verify p (pk_of_bytes p pk) m (sig_of_bytes p sig) proof_memory then 1 else 0)
      in ok - 1)"

text \<open>
  \<open>*mlen = smlen - sizeof(CROSS_sig_t)\<close> is computed in \<open>size_t\<close>; the code does not check that
  \<open>smlen\<close> is large enough, and then copies outside of \<open>sm\<close>, which is the result \<open>None\<close> here.
\<close>

definition crypto_sign_open :: "cross_params \<Rightarrow> bytes \<Rightarrow> bytes \<Rightarrow> bytes \<Rightarrow> (bytes \<times> nat \<times> int) option" where
  "crypto_sign_open p sm pk proof_memory =
     (if length sm < sizeof_sig p then None
      else let mlen = length sm - sizeof_sig p;
               m = take mlen sm;
               ok = (if CROSS_verify p (pk_of_bytes p pk) m (sig_of_bytes p (drop mlen sm)) proof_memory then 1 else 0)
           in Some (m, mlen, ok - 1))"

subsection \<open>The casts\<close>

definition resp_0_wf :: "cross_params \<Rightarrow> resp_0_t \<Rightarrow> bool" where
  "resp_0_wf p r \<longleftrightarrow> length (resp_y r) = DENSELY_PACKED_FP_VEC_SIZE p
     \<and> length (resp_v_G_bar r) = DENSELY_PACKED_FZ_RSDP_G_VEC_SIZE p"

definition sig_wf :: "cross_params \<Rightarrow> CROSS_sig_t \<Rightarrow> bool" where
  "sig_wf p sig \<longleftrightarrow> length (sig_salt sig) = SALT_LENGTH_BYTES p
     \<and> length (sig_digest_cmt sig) = HASH_DIGEST_LENGTH p
     \<and> length (sig_digest_chall_2 sig) = HASH_DIGEST_LENGTH p
     \<and> length (sig_path sig) = TREE_NODES_TO_STORE p * SEED_LENGTH_BYTES p
     \<and> length (sig_proof sig) = HASH_DIGEST_LENGTH p * TREE_NODES_TO_STORE p
     \<and> length (sig_resp_1 sig) = par_T p - par_W p \<and> (\<forall>x\<in>set (sig_resp_1 sig). length x = HASH_DIGEST_LENGTH p)
     \<and> length (sig_resp_0 sig) = par_T p - par_W p \<and> (\<forall>x\<in>set (sig_resp_0 sig). resp_0_wf p x)"

lemma length_concat_blocks: "\<forall>x\<in>set xs. length x = L \<Longrightarrow> length (concat xs) = length xs * L"
  by (induction xs) auto

lemma seg_concat_block:
  "\<forall>x\<in>set xs. length x = L \<Longrightarrow> i < length xs \<Longrightarrow> seg (concat xs) (i * L) L = xs ! i"
proof (induction xs arbitrary: i)
  case (Cons x xs)
  then show ?case
    by (cases i) (simp_all add: seg_def)
qed simp

lemma seg_append_at: "length xs = n \<Longrightarrow> seg (xs @ ys) (n + k) L = seg ys k L"
  by (simp add: seg_def)

lemma seg_append_next: "length xs = n \<Longrightarrow> seg (xs @ ys) n L = seg ys 0 L"
  by (simp add: seg_def)

lemma seg_append_here: "length xs = L \<Longrightarrow> seg (xs @ ys) 0 L = xs"
  by (simp add: seg_def)

lemma resp_0_roundtrip: "resp_0_wf p r \<Longrightarrow> resp_0_of_bytes p (bytes_of_resp_0 r) = r"
  by (simp add: resp_0_wf_def resp_0_of_bytes_def bytes_of_resp_0_def seg_def)

lemma length_bytes_of_resp_0: "resp_0_wf p r \<Longrightarrow> length (bytes_of_resp_0 r) = sizeof_resp_0 p"
  by (simp add: resp_0_wf_def bytes_of_resp_0_def sizeof_resp_0_def)

lemmas sig_offsets = off_digest_cmt_def off_digest_chall_2_def off_path_def off_proof_def off_resp_1_def
  off_resp_0_def

lemma length_bytes_of_sig: "sig_wf p sig \<Longrightarrow> length (bytes_of_sig sig) = sizeof_sig p"
  by (simp add: sig_wf_def bytes_of_sig_def sizeof_sig_def sig_offsets length_concat_blocks [where L = "HASH_DIGEST_LENGTH p"]
      length_concat_blocks [where L = "sizeof_resp_0 p"] length_bytes_of_resp_0)

lemma sig_roundtrip:
  assumes wf: "sig_wf p sig"
  shows "sig_of_bytes p (bytes_of_sig sig @ junk) = sig"
proof -
  let ?H = "HASH_DIGEST_LENGTH p" and ?R = "sizeof_resp_0 p"
  have l1: "length (concat (sig_resp_1 sig)) = (par_T p - par_W p) * ?H"
    using wf by (simp add: sig_wf_def length_concat_blocks [where L = ?H])
  have b0: "\<forall>x\<in>set (map bytes_of_resp_0 (sig_resp_0 sig)). length x = ?R"
    using wf by (auto simp: sig_wf_def length_bytes_of_resp_0)
  have r1: "seg (concat (sig_resp_1 sig) @ r) (i * ?H) ?H = sig_resp_1 sig ! i" if "i < par_T p - par_W p" for i r
  proof -
    have "i * ?H + ?H \<le> length (concat (sig_resp_1 sig))" using that blk_bound [OF that, of ?H] by (simp add: l1)
    then show ?thesis
      using wf that seg_concat_block [of "sig_resp_1 sig" ?H i] by (simp add: seg_append_left sig_wf_def)
  qed
  have r0: "seg (concat (map bytes_of_resp_0 (sig_resp_0 sig)) @ r) (i * ?R) ?R = bytes_of_resp_0 (sig_resp_0 sig ! i)"
    if "i < par_T p - par_W p" for i r
  proof -
    have l: "length (sig_resp_0 sig) = par_T p - par_W p" using wf by (simp add: sig_wf_def)
    have "i * ?R + ?R \<le> length (concat (map bytes_of_resp_0 (sig_resp_0 sig)))"
      using blk_bound [OF that, of ?R] length_concat_blocks [OF b0] by (simp add: l)
    then show ?thesis
      using seg_concat_block [OF b0, of i] that by (simp add: seg_append_left l)
  qed
  show ?thesis
    using wf unfolding sig_wf_def
    by (auto intro!: CROSS_sig_t.equality nth_equalityI
        simp: sig_of_bytes_def bytes_of_sig_def sig_offsets seg_append_at seg_append_next seg_append_here add.assoc
          l1 r1 r0 resp_0_roundtrip)
qed

subsection \<open>The signer's output has the declared sizes\<close>

lemma publish_responses_wf:
  assumes "\<And>i. i < par_T p \<Longrightarrow> length (y ! i) = par_N p" and "\<And>i. i < par_T p \<Longrightarrow> length (v_G ! i) = par_M p"
    and "\<And>i. i < par_T p \<Longrightarrow> length (cmt_1 ! i) = HASH_DIGEST_LENGTH p"
  shows "length (rs_resp_0 (publish_responses p y v_G cmt_1 c)) = par_T p - par_W p
    \<and> length (rs_resp_1 (publish_responses p y v_G cmt_1 c)) = par_T p - par_W p
    \<and> (\<forall>x\<in>set (rs_resp_0 (publish_responses p y v_G cmt_1 c)). resp_0_wf p x)
    \<and> (\<forall>x\<in>set (rs_resp_1 (publish_responses p y v_G cmt_1 c)). length x = HASH_DIGEST_LENGTH p)"
  unfolding publish_responses_def
proof (rule for_range_inv_const [where Q = "\<lambda>s. length (rs_resp_0 s) = par_T p - par_W p
    \<and> length (rs_resp_1 s) = par_T p - par_W p
    \<and> (\<forall>x\<in>set (rs_resp_0 s). resp_0_wf p x) \<and> (\<forall>x\<in>set (rs_resp_1 s). length x = HASH_DIGEST_LENGTH p)"], goal_cases)
  case 1
  then show ?case by (auto simp: resp_0_wf_def)
next
  case (2 i s)
  have "resp_0_wf p \<lparr>resp_y = pack_fp_vec p (y ! i), resp_v_G_bar = pack_fz_rsdp_g_vec p (v_G ! i)\<rparr>"
    using assms(1,2) 2 by (simp add: resp_0_wf_def)
  then show ?case
    using 2 assms(3) by (auto dest!: set_update_subset_insert [THEN subsetD])
qed

lemma length_snd_expand_seed_sk:
  "perm_ok (keccak_perm p) \<Longrightarrow> length (snd (expand_seed_sk p s)) = KEYPAIR_SEED_LENGTH_BYTES p"
  unfolding expand_seed_sk_def case_prod_unfold Let_def snd_conv
  by (rule length_blk [where n = 2]) (simp_all add: length_csprng_randombytes csprng_initialize_wf)

context cross_scheme
begin

lemma length_tree_proof:
  assumes "perm_ok (keccak_perm p)" and "length tree = NUM_NODES p * HASH_DIGEST_LENGTH p"
  shows "length (fst (tree_proof p (replicate (TREE_NODES_TO_STORE p * HASH_DIGEST_LENGTH p) 0) tree
    (expand_digest_to_fixed_weight p d))) = TREE_NODES_TO_STORE p * HASH_DIGEST_LENGTH p"
  using tree_proof_correct(1) [OF assms(2) refl published_fit(1) [of d]] by (simp add: is_storage_def)

lemma length_seed_path:
  assumes "length tree = NUM_NODES p * SEED_LENGTH_BYTES p"
  shows "length (fst (seed_path p (replicate (TREE_NODES_TO_STORE p * SEED_LENGTH_BYTES p) 0) tree
    (expand_digest_to_fixed_weight p d))) = TREE_NODES_TO_STORE p * SEED_LENGTH_BYTES p"
  using seed_path_correct(1) [OF expand_digest_01 [OF params_simps(3), of _ d] assms refl published_fit(2) [of d]]
  by (simp add: is_storage_def)

lemma sign_wf:
  assumes perm: "perm_ok (keccak_perm p)"
    and len: "length root_seed = SEED_LENGTH_BYTES p" "length salt = SALT_LENGTH_BYTES p"
      "length merkle_memory = NUM_NODES p * HASH_DIGEST_LENGTH p"
  shows "sig_wf p (CROSS_sign p SK m root_seed salt merkle_memory)"
proof -
  define se spk where "se = fst (expand_seed_sk p (sk_seed_sk SK))" and "spk = snd (expand_seed_sk p (sk_seed_sk SK))"
  define V_tr W_mat where "V_tr = fst (expand_pk p spk)" and "W_mat = snd (expand_pk p spk)"
  define e_G where "e_G = snd (expand_seed_e p se W_mat)"
  have e_G: "length e_G = par_M p" "fz_canon e_G" by (simp_all add: e_G_def expand_seed_e_ok)
  have SK: "expand_sk p (sk_seed_sk SK) = (secret_of p e_G W_mat, e_G, V_tr, W_mat)"
    by (simp add: expand_sk_def case_prod_unfold Let_def se_def spk_def V_tr_def W_mat_def e_G_def expand_seed_e_ok)
  define seed_tree where "seed_tree = gen_seed_tree p (replicate (SEED_LENGTH_BYTES p * NUM_NODES p) 0) root_seed salt"
  have st: "length seed_tree = NUM_NODES p * SEED_LENGTH_BYTES p"
    using gen_seed_tree_correct [OF perm _ len(1)] by (simp add: is_seed_tree_def seed_tree_def mult.commute)
  define rs where "rs = seed_leaves p (replicate (par_T p * SEED_LENGTH_BYTES p) 0) seed_tree"
  define r where "r = CROSS_sign_round p (secret_of p e_G W_mat) e_G V_tr W_mat salt rs"
  note f = sign_round_fields [where p = p and e_G = e_G and V_tr = V_tr and W_mat = W_mat and salt = salt
      and round_seeds = rs, folded r_def]
  have r: "length (rd_v_G_bar (r i)) = par_M p" "length (rd_cmt_0 (r i)) = HASH_DIGEST_LENGTH p"
      "length (rd_cmt_1 (r i)) = HASH_DIGEST_LENGTH p" for i
    unfolding f using fz_vec_sub_m_ok(1) [OF e_G round_draw_ok(1,2)] perm by simp_all
  define tree where "tree = snd (tree_root p merkle_memory (map (rd_cmt_0 \<circ> r) [0..<par_T p]))"
  have "length tree = NUM_NODES p * HASH_DIGEST_LENGTH p"
    using tree_root_correct(1) [OF perm len(3), of "map (rd_cmt_0 \<circ> r) [0..<par_T p]"] r(2)
    by (simp add: tree_def is_merkle_tree_def)
  note lp = length_tree_proof [OF perm this]
  define cmt_1 where "cmt_1 = map (rd_cmt_1 \<circ> r) [0..<par_T p]"
  define dc where "dc = hash_commitments p (fst (tree_root p merkle_memory (map (rd_cmt_0 \<circ> r) [0..<par_T p]))) cmt_1"
  define ch where "ch = first_challenge p m dc salt"
  define y where "y = map (\<lambda>i. fp_vec_by_restr_vec_scaled p (rd_e_bar_prime (map r [0..<par_T p] ! i)) (snd ch ! i)
      (rd_u_prime (map r [0..<par_T p] ! i))) [0..<par_T p]"
  define d_2 where "d_2 = hash_responses p y (fst ch)"
  define rsp where "rsp = publish_responses p y (map (rd_v_G_bar \<circ> r) [0..<par_T p]) cmt_1 (expand_digest_to_fixed_weight p d_2)"
  have sig: "CROSS_sign p SK m root_seed salt merkle_memory
    = \<lparr>sig_salt = salt, sig_digest_cmt = dc, sig_digest_chall_2 = d_2,
      sig_path = fst (seed_path p (replicate (TREE_NODES_TO_STORE p * SEED_LENGTH_BYTES p) 0) seed_tree
        (expand_digest_to_fixed_weight p d_2)),
      sig_proof = fst (tree_proof p (replicate (TREE_NODES_TO_STORE p * HASH_DIGEST_LENGTH p) 0) tree
        (expand_digest_to_fixed_weight p d_2)),
      sig_resp_1 = rs_resp_1 rsp, sig_resp_0 = rs_resp_0 rsp\<rparr>"
    unfolding CROSS_sign_def SK Let_def case_prod_unfold prod.sel seed_tree_def [symmetric] rs_def [symmetric]
      r_def [symmetric] map_map tree_def [symmetric] cmt_1_def [symmetric] dc_def [symmetric] ch_def [symmetric]
      fp_dz_norm_id y_def [symmetric] d_2_def [symmetric] rsp_def [symmetric] mult.commute [of "HASH_DIGEST_LENGTH p"]
    by (rule refl)
  have "length (rs_resp_0 rsp) = par_T p - par_W p \<and> length (rs_resp_1 rsp) = par_T p - par_W p
    \<and> (\<forall>x\<in>set (rs_resp_0 rsp). resp_0_wf p x) \<and> (\<forall>x\<in>set (rs_resp_1 rsp). length x = HASH_DIGEST_LENGTH p)"
    unfolding rsp_def by (rule publish_responses_wf) (simp_all add: y_def cmt_1_def r)
  moreover have "length dc = HASH_DIGEST_LENGTH p" "length d_2 = HASH_DIGEST_LENGTH p"
    using perm by (simp_all add: dc_def d_2_def hash_commitments_def hash_responses_def)
  ultimately show ?thesis
    using len(2) length_seed_path [OF st, of d_2] lp [of d_2]
    unfolding sig sig_wf_def by (simp add: mult.commute)
qed

theorem sign_verify_bytes:
  assumes perm: "perm_ok (keccak_perm p)" and keys: "crypto_sign_keypair p seed_sk = (pk, sk, 0)"
    and len: "length seed_sk = KEYPAIR_SEED_LENGTH_BYTES p"
      "length root_seed = SEED_LENGTH_BYTES p" "length salt = SALT_LENGTH_BYTES p"
      "length merkle_memory = NUM_NODES p * HASH_DIGEST_LENGTH p" "length proof_memory = NUM_NODES p * HASH_DIGEST_LENGTH p"
  shows "crypto_sign_verify p (fst (crypto_sign_signature p m sk root_seed salt merkle_memory)) siglen m pk proof_memory = 0"
    and "crypto_sign_open p (fst (crypto_sign p m sk root_seed salt merkle_memory)) pk proof_memory
      = Some (m, length m, 0)"
proof -
  obtain SK PK where SP: "CROSS_keygen p seed_sk = (SK, PK)" by fastforce
  have eSK: "SK = \<lparr>sk_seed_sk = seed_sk\<rparr>" using SP by (simp add: CROSS_keygen_def case_prod_unfold Let_def)
  have lpk: "length (pk_seed_pk PK) = KEYPAIR_SEED_LENGTH_BYTES p" "length (pk_s PK) = DENSELY_PACKED_FP_SYN_SIZE p"
    using SP length_snd_expand_seed_sk [OF perm] by (auto simp: CROSS_keygen_def case_prod_unfold Let_def)
  have kb: "pk = bytes_of_pk PK" "sk = seed_sk"
    using keys unfolding crypto_sign_keypair_def SP by (simp_all add: bytes_of_sk_def eSK)
  have casts: "sk_of_bytes p sk = SK" "pk_of_bytes p pk = PK"
  proof -
    show "sk_of_bytes p sk = SK" by (simp add: kb(2) eSK sk_of_bytes_def len(1) [symmetric])
    show "pk_of_bytes p pk = PK"
      by (rule pk_t.equality) (simp_all add: kb(1) pk_of_bytes_def bytes_of_pk_def lpk seg_append_here seg_append_next
          seg_def)
  qed
  define sig where "sig = CROSS_sign p SK m root_seed salt merkle_memory"
  have wf: "sig_wf p sig" unfolding sig_def by (rule sign_wf [OF perm len(2-4)])
  have ok: "CROSS_verify p PK m sig proof_memory" unfolding sig_def by (rule sign_verify [OF perm SP len(2,4,5)])
  have cast: "sig_of_bytes p (bytes_of_sig sig) = sig" using sig_roundtrip [OF wf, of "[]"] by simp
  show "crypto_sign_verify p (fst (crypto_sign_signature p m sk root_seed salt merkle_memory)) siglen m pk proof_memory = 0"
    unfolding crypto_sign_verify_def crypto_sign_signature_def casts sig_def [symmetric] fst_conv cast by (simp add: ok)
  show "crypto_sign_open p (fst (crypto_sign p m sk root_seed salt merkle_memory)) pk proof_memory = Some (m, length m, 0)"
    unfolding crypto_sign_open_def crypto_sign_def casts sig_def [symmetric] fst_conv
    by (simp add: length_bytes_of_sig [OF wf] cast ok Let_def)
qed

end

end
