(* ===== verification/Cross_Reject.thy ===== *)
theory Cross_Reject
  imports Cross_Api
begin

text \<open>
  What an accepted signature must satisfy: the checks \<open>CROSS_verify\<close> folds into its result (padding
  of every packed vector, range of every \<open>v_G_bar\<close>, padding of path and proof, the two digests), what
  that means for the bytes of a response, and the bytes the byte interface never looks at.
\<close>

text \<open>The test of the \<open>k\<close>-th response, on the bytes of the signature.\<close>

definition resp_ok :: "cross_params \<Rightarrow> CROSS_sig_t \<Rightarrow> nat \<Rightarrow> bool" where
  "resp_ok p sig k \<longleftrightarrow> snd (unpack_fp_vec p (resp_y (sig_resp_0 sig ! k)))
     \<and> snd (unpack_fz_rsdp_g_vec p (resp_v_G_bar (sig_resp_0 sig ! k)))
     \<and> is_fz_vec_in_restr_group_m p (fst (unpack_fz_rsdp_g_vec p (resp_v_G_bar (sig_resp_0 sig ! k))))"

lemma verify_seed_round_flags [simp]:
  "vf_used_rsps (verify_seed_round p W_mat chall_1 salt rs i s) = vf_used_rsps s"
  "vf_signature_ok (verify_seed_round p W_mat chall_1 salt rs i s) = vf_signature_ok s"
  "vf_packed_padd_ok (verify_seed_round p W_mat chall_1 salt rs i s) = vf_packed_padd_ok s"
  by (simp_all add: verify_seed_round_def Let_def case_prod_unfold)

lemma verify_resp_round_flags [simp]:
  "vf_used_rsps (verify_resp_round p V W synd chall_1 sig i s) = Suc (vf_used_rsps s)"
  "vf_signature_ok (verify_resp_round p V W synd chall_1 sig i s)
      \<and> vf_packed_padd_ok (verify_resp_round p V W synd chall_1 sig i s)
    \<longleftrightarrow> vf_signature_ok s \<and> vf_packed_padd_ok s \<and> resp_ok p sig (vf_used_rsps s)"
  by (auto simp: verify_resp_round_def Let_def case_prod_unfold resp_ok_def)

lemma verify_flags:
  assumes c2: "\<And>i. i < n \<Longrightarrow> chall_2 ! i = 0 \<or> chall_2 ! i = 1"
    and s0: "vf_used_rsps s0 = 0" "vf_signature_ok s0 \<and> vf_packed_padd_ok s0"
    and st: "st = for_range 0 n (\<lambda>i. if chall_2 ! i = 1 then verify_seed_round p W_mat chall_1 salt rs i
             else verify_resp_round p V_tr W_mat synd chall_1 sig i) s0"
  shows "vf_signature_ok st \<and> vf_packed_padd_ok st \<longleftrightarrow> (\<forall>k<zeros chall_2 n. resp_ok p sig k)"
proof -
  let ?P = "\<lambda>i (s :: verify_state). vf_used_rsps s = zeros chall_2 i
      \<and> (vf_signature_ok s \<and> vf_packed_padd_ok s \<longleftrightarrow> (\<forall>k<zeros chall_2 i. resp_ok p sig k))"
  have "?P n st"
    unfolding st
  proof (rule for_range_inv [where P = ?P])
    fix i s assume i: "0 \<le> i" "i < n" and P: "?P i s"
    from c2 [OF i(2)] show "?P (Suc i) ((if chall_2 ! i = 1 then verify_seed_round p W_mat chall_1 salt rs i
             else verify_resp_round p V_tr W_mat synd chall_1 sig i) s)"
    proof
      assume "chall_2 ! i = 1"
      with P show ?thesis by simp
    next
      assume 0: "chall_2 ! i = 0"
      from 0 P show ?thesis
        by (simp add: verify_resp_round_flags(2)) (metis less_Suc_eq)
    qed
  qed (use s0 in simp_all)
  then show ?thesis by simp
qed

lemma verify_flagsD:
  assumes "vf_signature_ok st" and "vf_packed_padd_ok st"
    and "st = for_range 0 n (\<lambda>i. if chall_2 ! i = 1 then verify_seed_round p W_mat chall_1 salt rs i
             else verify_resp_round p V_tr W_mat synd chall_1 sig i) s0"
    and "vf_used_rsps s0 = 0" and "vf_signature_ok s0 \<and> vf_packed_padd_ok s0"
    and "k < zeros chall_2 n" and "\<And>i. i < n \<Longrightarrow> chall_2 ! i = 0 \<or> chall_2 ! i = 1"
  shows "resp_ok p sig k"
  using verify_flags [OF assms(7,4,5,3)] assms(1,2,6) by simp

context cross_scheme
begin

text \<open>Acceptance implies every check; a failed one makes the verifier reject.\<close>

theorem verify_checks:
  assumes "CROSS_verify p PK m sig mem"
  defines "c \<equiv> expand_digest_to_fixed_weight p (sig_digest_chall_2 sig)"
  shows "snd (unpack_fp_syn p (pk_s PK))"
    and "snd (rebuild_tree p (replicate (SEED_LENGTH_BYTES p * NUM_NODES p) 0) c (sig_path sig) (sig_salt sig))"
    and "k < par_T p - par_W p \<Longrightarrow> resp_ok p sig k"
proof -
  note W = params_simps(3)
  have z: "zeros c (par_T p) = par_T p - par_W p" using published_fit(3) by (simp add: c_def)
  have c01: "c ! i = 0 \<or> c ! i = 1" if "i < par_T p" for i
    using expand_digest_01 [OF W that] by (simp add: c_def)
  show "resp_ok p sig k" if "k < par_T p - par_W p"
    using assms(1) that unfolding CROSS_verify_def Let_def case_prod_unfold c_def [symmetric] z [symmetric]
    by (elim conjE) (rule verify_flagsD, assumption, assumption, rule refl, simp, simp, assumption, rule c01)
  from assms(1) show "snd (unpack_fp_syn p (pk_s PK))"
    and "snd (rebuild_tree p (replicate (SEED_LENGTH_BYTES p * NUM_NODES p) 0) c (sig_path sig) (sig_salt sig))"
    by (simp_all add: CROSS_verify_def Let_def case_prod_unfold c_def)
qed

end

subsection \<open>Bytes the interface ignores\<close>

lemma sig_of_bytes_prefix:
  assumes "sizeof_sig p \<le> length b"
  shows "sig_of_bytes p (b @ junk) = sig_of_bytes p b"
proof -
  have off: "off_resp_1 p + i * HASH_DIGEST_LENGTH p + HASH_DIGEST_LENGTH p \<le> off_resp_0 p"
    if "i < par_T p - par_W p" for i
  proof -
    have "Suc i * HASH_DIGEST_LENGTH p \<le> (par_T p - par_W p) * HASH_DIGEST_LENGTH p"
      using that by (intro mult_le_mono1) simp
    then show ?thesis by (simp add: off_resp_0_def)
  qed
  have off': "off_resp_0 p + i * sizeof_resp_0 p + sizeof_resp_0 p \<le> sizeof_sig p"
    if "i < par_T p - par_W p" for i
  proof -
    have "Suc i * sizeof_resp_0 p \<le> (par_T p - par_W p) * sizeof_resp_0 p"
      using that by (intro mult_le_mono1) simp
    then show ?thesis by (simp add: sizeof_sig_def)
  qed
  have le: "off_resp_0 p \<le> length b" using assms by (simp add: sizeof_sig_def)
  have r1: "seg (b @ junk) (off_resp_1 p + i * HASH_DIGEST_LENGTH p) (HASH_DIGEST_LENGTH p)
      = seg b (off_resp_1 p + i * HASH_DIGEST_LENGTH p) (HASH_DIGEST_LENGTH p)" if "i < par_T p - par_W p" for i
    using off [OF that] le by (intro seg_append_left) linarith
  have r0: "seg (b @ junk) (off_resp_0 p + i * sizeof_resp_0 p) (sizeof_resp_0 p)
      = seg b (off_resp_0 p + i * sizeof_resp_0 p) (sizeof_resp_0 p)" if "i < par_T p - par_W p" for i
    using off' [OF that] assms by (intro seg_append_left) linarith
  have m1: "map (\<lambda>i. seg (b @ junk) (off_resp_1 p + i * HASH_DIGEST_LENGTH p) (HASH_DIGEST_LENGTH p)) [0..<par_T p - par_W p]
      = map (\<lambda>i. seg b (off_resp_1 p + i * HASH_DIGEST_LENGTH p) (HASH_DIGEST_LENGTH p)) [0..<par_T p - par_W p]"
    by (simp add: r1)
  have m0: "map (\<lambda>i. resp_0_of_bytes p (seg (b @ junk) (off_resp_0 p + i * sizeof_resp_0 p) (sizeof_resp_0 p))) [0..<par_T p - par_W p]
      = map (\<lambda>i. resp_0_of_bytes p (seg b (off_resp_0 p + i * sizeof_resp_0 p) (sizeof_resp_0 p))) [0..<par_T p - par_W p]"
    by (simp add: r0)
  show ?thesis
    unfolding sig_of_bytes_def m1 m0
    using le by (simp add: seg_append_left sig_offsets)
qed

subsection \<open>The bytes of an accepted signature\<close>

text \<open>The bytes of a response that passes the tests are the packing of vectors in range.\<close>

lemma resp_ok_bytes:
  assumes ok: "resp_ok p sig k" and r: "length r = sizeof_resp_0 p" "sig_resp_0 sig ! k = resp_0_of_bytes p r"
  obtains y v where "length y = par_N p" "\<forall>x\<in>set y. unat x < 512" "length v = par_M p" "\<forall>x\<in>set v. unat x < Z"
    and "r = pack_fp_vec p y @ pack_fz_rsdp_g_vec p v"
proof -
  define a b where "a = seg r 0 (DENSELY_PACKED_FP_VEC_SIZE p)"
    and "b = seg r (DENSELY_PACKED_FP_VEC_SIZE p) (DENSELY_PACKED_FZ_RSDP_G_VEC_SIZE p)"
  have l: "length a = (9 * par_N p + 7) div 8" "length b = (7 * par_M p + 7) div 8" and ab: "r = a @ b"
    using r(1) by (simp_all add: a_def b_def sizeof_resp_0_def seg_def densely_packed_fp densely_packed_fz)
  have y: "sig_resp_0 sig ! k = \<lparr>resp_y = a, resp_v_G_bar = b\<rparr>" by (simp add: r(2) resp_0_of_bytes_def a_def b_def)
  define y v where "y = fst (generic_unpack_9_bit a (par_N p) (length a))" and "v = fst (generic_unpack_7_bit b (par_M p) (length b))"
  have ok': "snd (generic_unpack_9_bit a (par_N p) (length a))" "snd (generic_unpack_7_bit b (par_M p) (length b))"
      "is_fz_vec_in_restr_group_m p v"
    using ok l by (simp_all add: resp_ok_def y unpack_fp_vec_def unpack_fz_rsdp_g_vec_def v_def densely_packed_fp densely_packed_fz)
  have len: "length y = par_N p" "length v = par_M p" by (simp_all add: y_def v_def fp.length_unpack fz.length_unpack)
  show ?thesis
  proof
    show "\<forall>x\<in>set y. unat x < 512" using fp.unpack_bound [OF l(1)] by (simp add: y_def)
    show "\<forall>x\<in>set v. unat x < Z" using ok'(3) by (simp add: is_fz_vec_in_restr_group_m_iff len fz_canon_def)
    have "pack9 y = a" "pack7 v = b"
      unfolding y_def v_def by (rule fp.pack_unpack [OF l(1) ok'(1)], rule fz.pack_unpack [OF l(2) ok'(2)])
    then show "r = pack_fp_vec p y @ pack_fz_rsdp_g_vec p v"
      by (simp add: ab pack_fp_vec_eq len pack_fz_rsdp_g_vec_eq)
  qed (rule len)+
qed

text \<open>Nine times the length is no multiple of eight in the three sets: the last bit of a packed vector is padding.\<close>

lemma pack_fp_vec_last:
  assumes "p \<in> balanced_params perm" and "length y = par_N p" and "\<forall>x\<in>set y. unat x < 512"
  shows "\<not> bit ((pack_fp_vec p y @ r) ! (DENSELY_PACKED_FP_VEC_SIZE p - 1)) 7"
proof -
  have n: "9 * par_N p \<le> 8 * (DENSELY_PACKED_FP_VEC_SIZE p - 1) + 7" "0 < DENSELY_PACKED_FP_VEC_SIZE p"
    using assms(1) by (auto simp: balanced_params_def densely_packed_fp rsdpg_128_balanced_def rsdpg_192_balanced_def rsdpg_256_balanced_def)
  have l: "DENSELY_PACKED_FP_VEC_SIZE p - 1 < length (pack9 y)"
    using n(2) by (simp add: fp.length_pack assms(2) densely_packed_fp)
  then have "bit (pack9 y ! (DENSELY_PACKED_FP_VEC_SIZE p - 1)) 7 \<longleftrightarrow> stream_bit 9 y (8 * (DENSELY_PACKED_FP_VEC_SIZE p - 1) + 7)"
    using assms(3) by (intro fp.pack_stream) simp_all
  then show ?thesis using l n(1) stream_bit_beyond [of 9 y] by (simp add: nth_append assms(2) pack_fp_vec_eq)
qed

context cross_scheme
begin

lemma accepted_response:
  assumes ok: "CROSS_verify p PK m (sig_of_bytes p b) mem" and b: "sizeof_sig p \<le> length b" and k: "k < par_T p - par_W p"
  obtains y v where "length y = par_N p" "\<forall>x\<in>set y. unat x < 512" "length v = par_M p" "\<forall>x\<in>set v. unat x < Z"
    and "seg b (off_resp_0 p + k * sizeof_resp_0 p) (sizeof_resp_0 p) = pack_fp_vec p y @ pack_fz_rsdp_g_vec p v"
proof (rule resp_ok_bytes)
  have "Suc k * sizeof_resp_0 p \<le> (par_T p - par_W p) * sizeof_resp_0 p" using k by (intro mult_le_mono1) simp
  then show "length (seg b (off_resp_0 p + k * sizeof_resp_0 p) (sizeof_resp_0 p)) = sizeof_resp_0 p"
    using b by (simp add: sizeof_sig_def)
  show "resp_ok p (sig_of_bytes p b) k" by (rule verify_checks(3) [OF ok k])
  show "sig_resp_0 (sig_of_bytes p b) ! k
    = resp_0_of_bytes p (seg b (off_resp_0 p + k * sizeof_resp_0 p) (sizeof_resp_0 p))"
    using k by (simp add: sig_of_bytes_def)
qed (rule that)

lemma verify_genuine_tail:
  assumes perm: "perm_ok (keccak_perm p)" and keys: "crypto_sign_keypair p seed_sk = (pk, sk, 0)"
    and len: "length seed_sk = KEYPAIR_SEED_LENGTH_BYTES p"
      "length root_seed = SEED_LENGTH_BYTES p" "length salt = SALT_LENGTH_BYTES p"
      "length merkle_memory = NUM_NODES p * HASH_DIGEST_LENGTH p" "length proof_memory = NUM_NODES p * HASH_DIGEST_LENGTH p"
  shows "crypto_sign_verify p (fst (crypto_sign_signature p m sk root_seed salt merkle_memory) @ tail) siglen m pk proof_memory = 0"
proof -
  have "sizeof_sig p \<le> length (fst (crypto_sign_signature p m sk root_seed salt merkle_memory))"
    by (simp add: crypto_sign_signature_def length_bytes_of_sig [OF sign_wf [OF perm len(2-4)]])
  with sign_verify_bytes(1) [OF perm keys len, of m siglen] show ?thesis
    by (simp add: crypto_sign_verify_def sig_of_bytes_prefix)
qed

end

lemma crypto_sign_verify_iff:
  "crypto_sign_verify p b n m pk mem = 0 \<longleftrightarrow> CROSS_verify p (pk_of_bytes p pk) m (sig_of_bytes p b) mem"
  "crypto_sign_verify p b n m pk mem \<noteq> 0 \<longleftrightarrow> crypto_sign_verify p b n m pk mem = - 1"
  by (simp_all add: crypto_sign_verify_def)

end
