(* ===== verification/Keccak_Stream.thy ===== *)
theory Keccak_Stream
  imports Keccak_Inc
begin

text \<open>
  What the incremental sponge computes.  Absorbing is a fold over the bytes of the message and
  squeezing an iteration over the bytes of the output, so that the calls may be split anywhere; a whole
  run (reset, absorb, finalize, squeeze) is the sponge construction of FIPS 202 over the
  permutation: pad, absorb block by block, squeeze block by block.
\<close>

subsection \<open>Absorbing byte by byte\<close>

definition absorb_byte :: "(bytes \<Rightarrow> bytes) \<Rightarrow> keccak_rate \<Rightarrow> u8 \<Rightarrow> keccak_ctx \<Rightarrow> keccak_ctx" where
  "absorb_byte perm r b s = (if Suc (ks25 s) = rate_bytes r
     then \<lparr>kst = perm (add_byte (kst s) b (ks25 s)), ks25 = 0\<rparr>
     else \<lparr>kst = add_byte (kst s) b (ks25 s), ks25 = Suc (ks25 s)\<rparr>)"

text \<open>The invariant of the absorbing phase.\<close>

definition absorbing :: "keccak_rate \<Rightarrow> keccak_ctx \<Rightarrow> bool" where
  "absorbing r s \<longleftrightarrow> length (kst s) = 200 \<and> ks25 s < rate_bytes r"

lemma absorbing_reset [simp]: "absorbing r keccak_inc_reset"
  by (simp add: absorbing_def keccak_inc_reset_def)

lemma absorbing_wf: "absorbing r s \<Longrightarrow> keccak_wf r s"
  by (simp add: absorbing_def keccak_wf_def)

lemma absorbing_absorb [simp]: "perm_ok perm \<Longrightarrow> absorbing r s \<Longrightarrow> absorbing r (keccak_inc_absorb perm r m s)"
  by (simp add: absorbing_def keccak_inc_absorb_wf)

lemma absorb_run:
  assumes "length (kst s) = 200" and "ks25 s + length m < rate_bytes r"
  shows "fold (absorb_byte perm r) m s = \<lparr>kst = add_bytes (kst s) m (ks25 s), ks25 = ks25 s + length m\<rparr>"
  using assms(2)
proof (induction m rule: rev_induct)
  case Nil
  then show ?case by simp
next
  case (snoc b m)
  then have IH: "fold (absorb_byte perm r) m s = \<lparr>kst = add_bytes (kst s) m (ks25 s), ks25 = ks25 s + length m\<rparr>"
    by simp
  have lt: "ks25 s + length m < 200" using snoc.prems rate_bytes_le [of r] unfolding length_append by linarith
  show ?case
    unfolding fold_append comp_apply IH
    using snoc.prems lt assms(1) by (simp add: absorb_byte_def add_byte_eq_add_bytes add_bytes_append)
qed

lemma absorb_full:
  assumes "length (kst s) = 200" and "ks25 s + length m = rate_bytes r" and "m \<noteq> []"
  shows "fold (absorb_byte perm r) m s = \<lparr>kst = perm (add_bytes (kst s) m (ks25 s)), ks25 = 0\<rparr>"
proof -
  obtain m' b where m: "m = m' @ [b]" using assms(3) by (metis append_butlast_last_id)
  have lt: "ks25 s + length m' < rate_bytes r" using assms(2) by (simp add: m)
  then have "ks25 s + length m' < 200" using rate_bytes_le [of r] by linarith
  then show ?thesis
    unfolding m fold_append comp_apply absorb_run [OF assms(1) lt]
    using assms(1,2) by (simp add: m absorb_byte_def add_byte_eq_add_bytes add_bytes_append)
qed

lemma fold_take_drop: "fold f xs s = fold f (drop n xs) (fold f (take n xs) s)"
  by (metis append_take_drop_id fold_append comp_apply)

lemma absorb_blocks_fold:
  assumes "perm_ok perm" and "length st = 200" and "absorb_blocks perm r m st = (m', st')"
  shows "fold (absorb_byte perm r) m \<lparr>kst = st, ks25 = 0\<rparr> = fold (absorb_byte perm r) m' \<lparr>kst = st', ks25 = 0\<rparr>"
  using assms
proof (induction perm r m st rule: absorb_blocks.induct)
  case (1 perm r m st)
  show ?case
  proof (cases "rate_bytes r \<le> length m")
    case True
    let ?st = "perm (add_bytes st (take (rate_bytes r) m) 0)"
    have "absorb_blocks perm r (drop (rate_bytes r) m) ?st = (m', st')"
      using 1 True by (subst (asm) (2) absorb_blocks.simps) simp
    then have "fold (absorb_byte perm r) (drop (rate_bytes r) m) \<lparr>kst = ?st, ks25 = 0\<rparr>
        = fold (absorb_byte perm r) m' \<lparr>kst = st', ks25 = 0\<rparr>"
      using "1.IH" [OF True] "1.prems" by simp
    moreover have "fold (absorb_byte perm r) m \<lparr>kst = st, ks25 = 0\<rparr>
        = fold (absorb_byte perm r) (drop (rate_bytes r) m) (fold (absorb_byte perm r) (take (rate_bytes r) m) \<lparr>kst = st, ks25 = 0\<rparr>)"
      by (rule fold_take_drop)
    moreover have "fold (absorb_byte perm r) (take (rate_bytes r) m) \<lparr>kst = st, ks25 = 0\<rparr> = \<lparr>kst = ?st, ks25 = 0\<rparr>"
      using True "1.prems"(2) rate_bytes_pos [of r] by (subst absorb_full) auto
    ultimately show ?thesis by simp
  next
    case False
    with "1.prems"(3) show ?thesis by (simp add: absorb_blocks_short)
  qed
qed

theorem keccak_inc_absorb_fold:
  assumes "perm_ok perm" and "absorbing r s"
  shows "keccak_inc_absorb perm r m s = fold (absorb_byte perm r) m s"
proof -
  have len: "length (kst s) = 200" and lt: "ks25 s < rate_bytes r" using assms(2) by (simp_all add: absorbing_def)
  have blocks: "(case absorb_blocks perm r m1 st1 of (m2, st2) \<Rightarrow> \<lparr>kst = add_bytes st2 m2 0, ks25 = 0 + length m2\<rparr>)
      = fold (absorb_byte perm r) m1 \<lparr>kst = st1, ks25 = 0\<rparr>" if "length st1 = 200" for m1 st1
  proof -
    obtain m2 st2 where b: "absorb_blocks perm r m1 st1 = (m2, st2)" by fastforce
    have "length m2 < rate_bytes r" "length st2 = 200"
      using absorb_blocks_inv [OF assms(1) that, of r m1] by (simp_all add: b)
    then show ?thesis
      by (simp add: b absorb_blocks_fold [OF assms(1) that b] absorb_run)
  qed
  define c where "c = rate_bytes r - ks25 s"
  consider "ks25 s = 0" | "ks25 s \<noteq> 0" "c \<le> length m" | "ks25 s \<noteq> 0" "length m < c" by linarith
  then show ?thesis
  proof cases
    case 1
    then have "s = \<lparr>kst = kst s, ks25 = 0\<rparr>" by simp
    with 1 blocks [OF len, of m] show ?thesis by (simp add: keccak_inc_absorb_def)
  next
    case 2
    have take_m: "fold (absorb_byte perm r) (take c m) s = \<lparr>kst = perm (add_bytes (kst s) (take c m) (ks25 s)), ks25 = 0\<rparr>"
      using 2 lt len by (intro absorb_full) (auto simp: c_def)
    have l: "length (perm (add_bytes (kst s) (take c m) (ks25 s))) = 200" using assms(1) len by simp
    show ?thesis
      using 2 blocks [OF l, of "drop c m"]
      by (simp add: keccak_inc_absorb_def c_def [symmetric] fold_take_drop [of _ m s c] take_m)
  next
    case 3
    then have sh: "ks25 s + length m < rate_bytes r" by (simp add: c_def)
    then show ?thesis
      using 3 by (simp add: keccak_inc_absorb_def c_def [symmetric] absorb_blocks_short absorb_run [OF len sh])
  qed
qed

theorem keccak_inc_absorb_append:
  assumes "perm_ok perm" and "absorbing r s"
  shows "keccak_inc_absorb perm r b (keccak_inc_absorb perm r a s) = keccak_inc_absorb perm r (a @ b) s"
  using assms absorbing_absorb [OF assms, of a] by (simp add: keccak_inc_absorb_fold [OF assms(1)])

subsection \<open>Squeezing byte by byte\<close>

definition squeeze_byte :: "(bytes \<Rightarrow> bytes) \<Rightarrow> keccak_rate \<Rightarrow> keccak_ctx \<Rightarrow> u8 \<times> keccak_ctx" where
  "squeeze_byte perm r s =
     (let s = (if ks25 s = 0 then \<lparr>kst = perm (kst s), ks25 = rate_bytes r\<rparr> else s)
      in (kst s ! (rate_bytes r - ks25 s), s\<lparr>ks25 := ks25 s - 1\<rparr>))"

fun squeeze_bytes :: "(bytes \<Rightarrow> bytes) \<Rightarrow> keccak_rate \<Rightarrow> nat \<Rightarrow> keccak_ctx \<Rightarrow> bytes \<times> keccak_ctx" where
  "squeeze_bytes perm r 0 s = ([], s)"
| "squeeze_bytes perm r (Suc n) s =
     (let (b, s) = squeeze_byte perm r s; (h, s) = squeeze_bytes perm r n s in (b # h, s))"

lemma squeeze_bytes_add:
  "squeeze_bytes perm r (m + n) s =
     (let (h, s) = squeeze_bytes perm r m s; (h', s) = squeeze_bytes perm r n s in (h @ h', s))"
  by (induction m arbitrary: s) (simp_all add: case_prod_unfold Let_def)

lemma seg_Suc: "off + Suc n \<le> length xs \<Longrightarrow> seg xs off (Suc n) = xs ! off # seg xs (Suc off) n"
  by (rule nth_equalityI) (auto simp: nth_seg nth_Cons split: nat.splits)

lemma squeeze_run:
  assumes "n \<le> ks25 s" and "ks25 s \<le> rate_bytes r" and "length (kst s) = 200"
  shows "squeeze_bytes perm r n s
    = (extract_bytes (kst s) (rate_bytes r - ks25 s) n, s\<lparr>ks25 := ks25 s - n\<rparr>)"
  using assms
proof (induction n arbitrary: s)
  case 0
  then show ?case by (simp add: extract_bytes_def seg_def)
next
  case (Suc n)
  have "rate_bytes r - ks25 s + Suc n \<le> 200" using Suc.prems rate_bytes_le [of r] by linarith
  then show ?case
    using Suc.prems Suc.IH [of "s\<lparr>ks25 := ks25 s - 1\<rparr>"]
    by (simp add: squeeze_byte_def extract_bytes_def seg_Suc Suc_diff_Suc Suc_diff_le)
qed

lemma squeeze_refill:
  "ks25 s = 0 \<Longrightarrow> 0 < n \<Longrightarrow>
    squeeze_bytes perm r n s = squeeze_bytes perm r n \<lparr>kst = perm (kst s), ks25 = rate_bytes r\<rparr>"
  by (cases n) (simp_all add: squeeze_byte_def)

theorem keccak_inc_squeeze_bytes:
  assumes "perm_ok perm" and "keccak_wf r s"
  shows "keccak_inc_squeeze perm r n s = squeeze_bytes perm r n s"
  using assms
proof (induction perm r n s rule: keccak_inc_squeeze.induct)
  case (1 perm r n s)
  show ?case
  proof (cases "ks25 s < n")
    case True
    let ?s = "\<lparr>kst = perm (kst s), ks25 = rate_bytes r\<rparr>"
    have "keccak_wf r ?s" using "1.prems" by (simp add: keccak_wf_def)
    then have IH: "keccak_inc_squeeze perm r (n - ks25 s) ?s = squeeze_bytes perm r (n - ks25 s) ?s"
      using "1.IH" True "1.prems" by simp
    have "squeeze_bytes perm r n s = squeeze_bytes perm r (ks25 s + (n - ks25 s)) s" using True by simp
    also have "\<dots> = (let (h', s') = squeeze_bytes perm r (n - ks25 s) (s\<lparr>ks25 := 0\<rparr>)
        in (extract_bytes (kst s) (rate_bytes r - ks25 s) (ks25 s) @ h', s'))"
      unfolding squeeze_bytes_add using "1.prems"(2) by (subst squeeze_run) (simp_all add: keccak_wf_def)
    also have "squeeze_bytes perm r (n - ks25 s) (s\<lparr>ks25 := 0\<rparr>) = squeeze_bytes perm r (n - ks25 s) ?s"
      using True by (subst squeeze_refill) simp_all
    finally show ?thesis using True by (subst keccak_inc_squeeze.simps) (simp add: IH Let_def)
  next
    case False
    then show ?thesis
      using "1.prems"(2) by (subst keccak_inc_squeeze.simps) (simp add: squeeze_run keccak_wf_def)
  qed
qed

theorem keccak_inc_squeeze_add:
  assumes "perm_ok perm" and "keccak_wf r s"
  shows "keccak_inc_squeeze perm r (m + n) s =
     (let (h, s) = keccak_inc_squeeze perm r m s; (h', s) = keccak_inc_squeeze perm r n s in (h @ h', s))"
proof -
  have "keccak_wf r (snd (squeeze_bytes perm r m s))"
    using keccak_wf_squeeze [OF assms, of m] by (simp add: keccak_inc_squeeze_bytes [OF assms])
  then show ?thesis
    by (simp add: keccak_inc_squeeze_bytes [OF assms] squeeze_bytes_add case_prod_unfold Let_def
        keccak_inc_squeeze_bytes [OF assms(1)])
qed

subsection \<open>The sponge construction\<close>

text \<open>
  FIPS 202: the message with the domain bits and \<open>pad10*1\<close>, in bytes; the absorbing loop over whole
  blocks; the squeezing loop.
\<close>

definition pad_message :: "keccak_rate \<Rightarrow> u8 \<Rightarrow> bytes \<Rightarrow> bytes" where
  "pad_message r p m = (let k = rate_bytes r - length m mod rate_bytes r
     in m @ (if k = 1 then [p XOR 0x80] else p # replicate (k - 2) 0 @ [0x80]))"

function sponge_absorb :: "(bytes \<Rightarrow> bytes) \<Rightarrow> keccak_rate \<Rightarrow> bytes \<Rightarrow> bytes \<Rightarrow> bytes" where
  "sponge_absorb perm r m st = (if m = [] then st
     else sponge_absorb perm r (drop (rate_bytes r) m) (perm (add_bytes st (take (rate_bytes r) m) 0)))"
  by pat_completeness auto
termination by (relation "measure (\<lambda>(perm, r, m, st). length m)") auto

function sponge_squeeze :: "(bytes \<Rightarrow> bytes) \<Rightarrow> keccak_rate \<Rightarrow> nat \<Rightarrow> bytes \<Rightarrow> bytes" where
  "sponge_squeeze perm r n st = (if n \<le> rate_bytes r then take n st
     else take (rate_bytes r) st @ sponge_squeeze perm r (n - rate_bytes r) (perm st))"
  by pat_completeness auto
termination by (relation "measure (\<lambda>(perm, r, n, st). n)") auto

declare sponge_absorb.simps [simp del] sponge_squeeze.simps [simp del]

definition sponge :: "(bytes \<Rightarrow> bytes) \<Rightarrow> keccak_rate \<Rightarrow> u8 \<Rightarrow> bytes \<Rightarrow> nat \<Rightarrow> bytes" where
  "sponge perm r p m n = sponge_squeeze perm r n (sponge_absorb perm r (pad_message r p m) (replicate 200 0))"

lemma length_absorb_fold [simp]:
  assumes "perm_ok perm"
  shows "absorbing r s \<Longrightarrow> absorbing r (fold (absorb_byte perm r) m s)"
  using keccak_inc_absorb_fold [OF assms] absorbing_absorb [OF assms] by metis

lemma ks25_absorb_fold:
  "ks25 s < rate_bytes r \<Longrightarrow> ks25 (fold (absorb_byte perm r) m s) = (ks25 s + length m) mod rate_bytes r"
proof (induction m arbitrary: s)
  case Nil
  then show ?case by simp
next
  case (Cons b m)
  show ?case
  proof (cases "Suc (ks25 s) = rate_bytes r")
    case True
    then have "ks25 (absorb_byte perm r b s) = 0" by (simp add: absorb_byte_def)
    then have "ks25 (fold (absorb_byte perm r) (b # m) s) = length m mod rate_bytes r"
      using Cons.IH [of "absorb_byte perm r b s"] by simp
    also have "\<dots> = (rate_bytes r + length m) mod rate_bytes r" by simp
    also have "\<dots> = (ks25 s + length (b # m)) mod rate_bytes r" by (simp flip: True)
    finally show ?thesis .
  next
    case False
    then have "ks25 (absorb_byte perm r b s) = Suc (ks25 s)" by (simp add: absorb_byte_def)
    then show ?thesis using Cons.IH [of "absorb_byte perm r b s"] Cons.prems False by simp
  qed
qed

lemma sponge_absorb_fold:
  assumes "perm_ok perm" and "length st = 200" and "length m mod rate_bytes r = 0"
  shows "fold (absorb_byte perm r) m \<lparr>kst = st, ks25 = 0\<rparr> = \<lparr>kst = sponge_absorb perm r m st, ks25 = 0\<rparr>"
  using assms
proof (induction perm r m st rule: sponge_absorb.induct)
  case (1 perm r m st)
  show ?case
  proof (cases "m = []")
    case False
    let ?st = "perm (add_bytes st (take (rate_bytes r) m) 0)"
    have ge: "rate_bytes r \<le> length m"
    proof (rule ccontr)
      assume "\<not> rate_bytes r \<le> length m"
      then have "length m = 0" using "1.prems"(3) by simp
      with False show False by simp
    qed
    have "fold (absorb_byte perm r) (take (rate_bytes r) m) \<lparr>kst = st, ks25 = 0\<rparr> = \<lparr>kst = ?st, ks25 = 0\<rparr>"
      using ge False "1.prems"(2) by (subst absorb_full) auto
    moreover have "length (drop (rate_bytes r) m) mod rate_bytes r = 0"
      using ge "1.prems"(3) by (simp add: mod_if [of "length m"])
    ultimately show ?thesis
      using "1.IH" [OF False] "1.prems" False
      by (subst sponge_absorb.simps) (simp add: fold_take_drop [of _ m _ "rate_bytes r"])
  qed (simp add: sponge_absorb.simps)
qed

lemma finalize_pad:
  assumes "absorbing r s"
  shows "kst (keccak_inc_finalize r p s) = add_bytes (kst s)
    (let k = rate_bytes r - ks25 s in if k = 1 then [p XOR 0x80] else p # replicate (k - 2) 0 @ [0x80]) (ks25 s)"
proof -
  have len: "length (kst s) = 200" and lt: "ks25 s < rate_bytes r" using assms by (simp_all add: absorbing_def)
  have le: "rate_bytes r \<le> 200" by simp
  show ?thesis
    by (rule nth_equalityI)
      (use len lt le in \<open>auto simp: keccak_inc_finalize_def add_byte_def nth_add_bytes nth_list_update nth_append
        nth_Cons xor.assoc Let_def split: nat.splits\<close>)
qed

lemma squeeze_sponge:
  assumes "perm_ok perm" and "length st = 200"
  shows "fst (squeeze_bytes perm r n \<lparr>kst = st, ks25 = rate_bytes r\<rparr>) = sponge_squeeze perm r n st"
  using assms
proof (induction perm r n st rule: sponge_squeeze.induct)
  case (1 perm r n st)
  let ?s = "\<lparr>kst = st, ks25 = rate_bytes r\<rparr>"
  show ?case
  proof (cases "n \<le> rate_bytes r")
    case True
    then show ?thesis
      using "1.prems" by (subst sponge_squeeze.simps) (simp add: squeeze_run extract_bytes_def seg_def)
  next
    case False
    then have "squeeze_bytes perm r n ?s = squeeze_bytes perm r (rate_bytes r + (n - rate_bytes r)) ?s" by simp
    also have "fst \<dots> = take (rate_bytes r) st @ fst (squeeze_bytes perm r (n - rate_bytes r) \<lparr>kst = st, ks25 = 0\<rparr>)"
      unfolding squeeze_bytes_add using "1.prems"
      by (subst squeeze_run) (simp_all add: extract_bytes_def seg_def case_prod_unfold Let_def)
    also have "squeeze_bytes perm r (n - rate_bytes r) \<lparr>kst = st, ks25 = 0\<rparr>
        = squeeze_bytes perm r (n - rate_bytes r) \<lparr>kst = perm st, ks25 = rate_bytes r\<rparr>"
      using False by (subst squeeze_refill) simp_all
    finally show ?thesis using False 1 by (subst sponge_squeeze.simps) simp
  qed
qed

theorem keccak_inc_sponge:
  assumes "perm_ok perm"
  shows "fst (keccak_inc_squeeze perm r n (keccak_inc_finalize r p (keccak_inc_absorb perm r m keccak_inc_reset)))
    = sponge perm r p m n"
proof (cases "n = 0")
  case True
  have "sponge_squeeze perm r 0 st = []" for st by (simp add: sponge_squeeze.simps)
  with True show ?thesis
    by (subst keccak_inc_squeeze.simps) (simp add: sponge_def extract_bytes_def seg_def)
next
  case False
  define s where "s = keccak_inc_absorb perm r m keccak_inc_reset"
  have abs: "absorbing r s" unfolding s_def using assms by simp
  have lt: "ks25 s < rate_bytes r" using abs by (simp add: absorbing_def)
  have s: "s = fold (absorb_byte perm r) m \<lparr>kst = replicate 200 0, ks25 = 0\<rparr>"
    using keccak_inc_absorb_fold [OF assms absorbing_reset] by (simp add: s_def keccak_inc_reset_def)
  then have off: "ks25 s = length m mod rate_bytes r" by (simp add: ks25_absorb_fold)
  define pad where "pad = (let k = rate_bytes r - ks25 s in if k = 1 then [p XOR 0x80] else p # replicate (k - 2) 0 @ [0x80])"
  have pm: "pad_message r p m = m @ pad" by (simp add: pad_message_def pad_def off Let_def)
  have lpad: "length pad = rate_bytes r - ks25 s" using lt by (auto simp: pad_def Let_def)
  have lp: "length (m @ pad) mod rate_bytes r = 0"
  proof -
    have "length (m @ pad) = rate_bytes r * (length m div rate_bytes r) + rate_bytes r"
      using lt lpad unfolding off length_append by (metis add.assoc le_add_diff_inverse less_imp_le mult_div_mod_eq)
    then show ?thesis by simp
  qed
  have "\<lparr>kst = perm (kst (keccak_inc_finalize r p s)), ks25 = 0\<rparr> = fold (absorb_byte perm r) pad s"
    using lpad lt abs by (subst absorb_full) (auto simp: absorbing_def finalize_pad [OF abs] pad_def)
  also have "\<dots> = fold (absorb_byte perm r) (pad_message r p m) \<lparr>kst = replicate 200 0, ks25 = 0\<rparr>"
    by (simp add: pm s)
  also have "\<dots> = \<lparr>kst = sponge_absorb perm r (pad_message r p m) (replicate 200 0), ks25 = 0\<rparr>"
    by (rule sponge_absorb_fold [OF assms]) (use lp in \<open>simp_all add: pm\<close>)
  finally have f: "perm (kst (keccak_inc_finalize r p s)) = sponge_absorb perm r (pad_message r p m) (replicate 200 0)"
    by simp
  have wf: "keccak_wf r (keccak_inc_finalize r p s)" and len: "length (kst (keccak_inc_finalize r p s)) = 200"
    using abs keccak_wf_finalize [of s r p] by (simp_all add: absorbing_def keccak_inc_finalize_def)
  have "keccak_inc_squeeze perm r n (keccak_inc_finalize r p s)
      = squeeze_bytes perm r n \<lparr>kst = perm (kst (keccak_inc_finalize r p s)), ks25 = rate_bytes r\<rparr>"
    unfolding keccak_inc_squeeze_bytes [OF assms wf]
    by (rule squeeze_refill) (use False in \<open>simp_all add: keccak_inc_finalize_def\<close>)
  then show ?thesis
    using squeeze_sponge [OF assms perm_okD [OF assms len], of r n] by (simp add: s_def [symmetric] sponge_def f)
qed

end
