(* ===== verification/Sha3_Api.thy ===== *)
theory Sha3_Api
  imports Keccak_Stream
begin

text \<open>
  The SHA-3 and SHAKE entry points of \<open>src/common/sha3/xkcp_sha3.c\<close> over the incremental sponge.  A context is
  the heap block that \<open>state->ctx\<close> points to: \<open>None\<close> when there is none (the allocation failed, which makes the
  library exit, or the context was released).  \<open>alloc\<close> says whether an allocation succeeds.  The
  theorems: every one-shot function is the sponge of FIPS 202 with its rate, suffix and output
  length, and the incremental functions give the same result for every way to cut the message.
\<close>

definition OQS_MEM_ctx :: "bool \<Rightarrow> keccak_ctx option" where
  "OQS_MEM_ctx alloc = (if alloc then Some keccak_inc_reset else None)"

subsection \<open>SHA3-256\<close>

definition SHA3_sha3_256_inc_init :: "bool \<Rightarrow> keccak_ctx option" where
  "SHA3_sha3_256_inc_init alloc = OQS_MEM_ctx alloc"

definition SHA3_sha3_256_inc_absorb :: "(bytes \<Rightarrow> bytes) \<Rightarrow> keccak_ctx option \<Rightarrow> bytes \<Rightarrow> keccak_ctx option" where
  "SHA3_sha3_256_inc_absorb perm ctx inp = map_option (keccak_inc_absorb perm SHA3_256_RATE inp) ctx"

definition SHA3_sha3_256_inc_finalize :: "(bytes \<Rightarrow> bytes) \<Rightarrow> keccak_ctx option \<Rightarrow> (bytes \<times> keccak_ctx) option" where
  "SHA3_sha3_256_inc_finalize perm ctx =
     map_option (\<lambda>s. keccak_inc_squeeze perm SHA3_256_RATE 32 (keccak_inc_finalize SHA3_256_RATE 0x06 s)) ctx"

definition SHA3_sha3_256_inc_ctx_release :: "keccak_ctx option \<Rightarrow> keccak_ctx option" where
  "SHA3_sha3_256_inc_ctx_release ctx = None"

definition SHA3_sha3_256_inc_ctx_clone :: "keccak_ctx option \<Rightarrow> keccak_ctx option \<Rightarrow> keccak_ctx option" where
  "SHA3_sha3_256_inc_ctx_clone dest src = (if dest = None then None else src)"

definition SHA3_sha3_256_inc_ctx_reset :: "keccak_ctx option \<Rightarrow> keccak_ctx option" where
  "SHA3_sha3_256_inc_ctx_reset ctx = map_option (\<lambda>_. keccak_inc_reset) ctx"

definition SHA3_sha3_256 :: "(bytes \<Rightarrow> bytes) \<Rightarrow> bool \<Rightarrow> bytes \<Rightarrow> bytes option" where
  "SHA3_sha3_256 perm alloc inp =
     (let s = SHA3_sha3_256_inc_init alloc;
          s = SHA3_sha3_256_inc_absorb perm s inp
      in map_option fst (SHA3_sha3_256_inc_finalize perm s))"

subsection \<open>SHA3-384\<close>

definition SHA3_sha3_384_inc_init :: "bool \<Rightarrow> keccak_ctx option" where
  "SHA3_sha3_384_inc_init alloc = OQS_MEM_ctx alloc"

definition SHA3_sha3_384_inc_absorb :: "(bytes \<Rightarrow> bytes) \<Rightarrow> keccak_ctx option \<Rightarrow> bytes \<Rightarrow> keccak_ctx option" where
  "SHA3_sha3_384_inc_absorb perm ctx inp = map_option (keccak_inc_absorb perm SHA3_384_RATE inp) ctx"

definition SHA3_sha3_384_inc_finalize :: "(bytes \<Rightarrow> bytes) \<Rightarrow> keccak_ctx option \<Rightarrow> (bytes \<times> keccak_ctx) option" where
  "SHA3_sha3_384_inc_finalize perm ctx =
     map_option (\<lambda>s. keccak_inc_squeeze perm SHA3_384_RATE 48 (keccak_inc_finalize SHA3_384_RATE 0x06 s)) ctx"

definition SHA3_sha3_384_inc_ctx_release :: "keccak_ctx option \<Rightarrow> keccak_ctx option" where
  "SHA3_sha3_384_inc_ctx_release ctx = None"

definition SHA3_sha3_384_inc_ctx_clone :: "keccak_ctx option \<Rightarrow> keccak_ctx option \<Rightarrow> keccak_ctx option" where
  "SHA3_sha3_384_inc_ctx_clone dest src = (if dest = None then None else src)"

definition SHA3_sha3_384_inc_ctx_reset :: "keccak_ctx option \<Rightarrow> keccak_ctx option" where
  "SHA3_sha3_384_inc_ctx_reset ctx = map_option (\<lambda>_. keccak_inc_reset) ctx"

definition SHA3_sha3_384 :: "(bytes \<Rightarrow> bytes) \<Rightarrow> bool \<Rightarrow> bytes \<Rightarrow> bytes option" where
  "SHA3_sha3_384 perm alloc inp =
     (let s = SHA3_sha3_384_inc_init alloc;
          s = SHA3_sha3_384_inc_absorb perm s inp
      in map_option fst (SHA3_sha3_384_inc_finalize perm s))"

subsection \<open>SHA3-512\<close>

definition SHA3_sha3_512_inc_init :: "bool \<Rightarrow> keccak_ctx option" where
  "SHA3_sha3_512_inc_init alloc = OQS_MEM_ctx alloc"

definition SHA3_sha3_512_inc_absorb :: "(bytes \<Rightarrow> bytes) \<Rightarrow> keccak_ctx option \<Rightarrow> bytes \<Rightarrow> keccak_ctx option" where
  "SHA3_sha3_512_inc_absorb perm ctx inp = map_option (keccak_inc_absorb perm SHA3_512_RATE inp) ctx"

definition SHA3_sha3_512_inc_finalize :: "(bytes \<Rightarrow> bytes) \<Rightarrow> keccak_ctx option \<Rightarrow> (bytes \<times> keccak_ctx) option" where
  "SHA3_sha3_512_inc_finalize perm ctx =
     map_option (\<lambda>s. keccak_inc_squeeze perm SHA3_512_RATE 64 (keccak_inc_finalize SHA3_512_RATE 0x06 s)) ctx"

definition SHA3_sha3_512_inc_ctx_release :: "keccak_ctx option \<Rightarrow> keccak_ctx option" where
  "SHA3_sha3_512_inc_ctx_release ctx = None"

definition SHA3_sha3_512_inc_ctx_clone :: "keccak_ctx option \<Rightarrow> keccak_ctx option \<Rightarrow> keccak_ctx option" where
  "SHA3_sha3_512_inc_ctx_clone dest src = (if dest = None then None else src)"

definition SHA3_sha3_512_inc_ctx_reset :: "keccak_ctx option \<Rightarrow> keccak_ctx option" where
  "SHA3_sha3_512_inc_ctx_reset ctx = map_option (\<lambda>_. keccak_inc_reset) ctx"

definition SHA3_sha3_512 :: "(bytes \<Rightarrow> bytes) \<Rightarrow> bool \<Rightarrow> bytes \<Rightarrow> bytes option" where
  "SHA3_sha3_512 perm alloc inp =
     (let s = SHA3_sha3_512_inc_init alloc;
          s = SHA3_sha3_512_inc_absorb perm s inp
      in map_option fst (SHA3_sha3_512_inc_finalize perm s))"

subsection \<open>SHAKE128\<close>

definition SHA3_shake128_inc_init :: "bool \<Rightarrow> keccak_ctx option" where
  "SHA3_shake128_inc_init alloc = OQS_MEM_ctx alloc"

definition SHA3_shake128_inc_absorb :: "(bytes \<Rightarrow> bytes) \<Rightarrow> keccak_ctx option \<Rightarrow> bytes \<Rightarrow> keccak_ctx option" where
  "SHA3_shake128_inc_absorb perm ctx inp = map_option (keccak_inc_absorb perm SHAKE128_RATE inp) ctx"

definition SHA3_shake128_inc_finalize :: "keccak_ctx option \<Rightarrow> keccak_ctx option" where
  "SHA3_shake128_inc_finalize ctx = map_option (keccak_inc_finalize SHAKE128_RATE 0x1F) ctx"

definition SHA3_shake128_inc_squeeze :: "(bytes \<Rightarrow> bytes) \<Rightarrow> nat \<Rightarrow> keccak_ctx option \<Rightarrow> (bytes \<times> keccak_ctx) option" where
  "SHA3_shake128_inc_squeeze perm outlen ctx = map_option (keccak_inc_squeeze perm SHAKE128_RATE outlen) ctx"

definition SHA3_shake128_inc_ctx_clone :: "keccak_ctx option \<Rightarrow> keccak_ctx option \<Rightarrow> keccak_ctx option" where
  "SHA3_shake128_inc_ctx_clone dest src = (if dest = None then None else src)"

definition SHA3_shake128_inc_ctx_release :: "keccak_ctx option \<Rightarrow> keccak_ctx option" where
  "SHA3_shake128_inc_ctx_release ctx = None"

definition SHA3_shake128_inc_ctx_reset :: "keccak_ctx option \<Rightarrow> keccak_ctx option" where
  "SHA3_shake128_inc_ctx_reset ctx = map_option (\<lambda>_. keccak_inc_reset) ctx"

definition SHA3_shake128 :: "(bytes \<Rightarrow> bytes) \<Rightarrow> bool \<Rightarrow> nat \<Rightarrow> bytes \<Rightarrow> bytes option" where
  "SHA3_shake128 perm alloc outlen inp =
     (let s = SHA3_shake128_inc_init alloc;
          s = SHA3_shake128_inc_absorb perm s inp;
          s = SHA3_shake128_inc_finalize s
      in map_option fst (SHA3_shake128_inc_squeeze perm outlen s))"

subsection \<open>SHAKE256\<close>

definition SHA3_shake256_inc_init :: "bool \<Rightarrow> keccak_ctx option" where
  "SHA3_shake256_inc_init alloc = OQS_MEM_ctx alloc"

definition SHA3_shake256_inc_absorb :: "(bytes \<Rightarrow> bytes) \<Rightarrow> keccak_ctx option \<Rightarrow> bytes \<Rightarrow> keccak_ctx option" where
  "SHA3_shake256_inc_absorb perm ctx inp = map_option (keccak_inc_absorb perm SHAKE256_RATE inp) ctx"

definition SHA3_shake256_inc_finalize :: "keccak_ctx option \<Rightarrow> keccak_ctx option" where
  "SHA3_shake256_inc_finalize ctx = map_option (keccak_inc_finalize SHAKE256_RATE 0x1F) ctx"

definition SHA3_shake256_inc_squeeze :: "(bytes \<Rightarrow> bytes) \<Rightarrow> nat \<Rightarrow> keccak_ctx option \<Rightarrow> (bytes \<times> keccak_ctx) option" where
  "SHA3_shake256_inc_squeeze perm outlen ctx = map_option (keccak_inc_squeeze perm SHAKE256_RATE outlen) ctx"

definition SHA3_shake256_inc_ctx_clone :: "keccak_ctx option \<Rightarrow> keccak_ctx option \<Rightarrow> keccak_ctx option" where
  "SHA3_shake256_inc_ctx_clone dest src = (if dest = None then None else src)"

definition SHA3_shake256_inc_ctx_release :: "keccak_ctx option \<Rightarrow> keccak_ctx option" where
  "SHA3_shake256_inc_ctx_release ctx = None"

definition SHA3_shake256_inc_ctx_reset :: "keccak_ctx option \<Rightarrow> keccak_ctx option" where
  "SHA3_shake256_inc_ctx_reset ctx = map_option (\<lambda>_. keccak_inc_reset) ctx"

definition SHA3_shake256 :: "(bytes \<Rightarrow> bytes) \<Rightarrow> bool \<Rightarrow> nat \<Rightarrow> bytes \<Rightarrow> bytes option" where
  "SHA3_shake256 perm alloc outlen inp =
     (let s = SHA3_shake256_inc_init alloc;
          s = SHA3_shake256_inc_absorb perm s inp;
          s = SHA3_shake256_inc_finalize s
      in map_option fst (SHA3_shake256_inc_squeeze perm outlen s))"

subsection \<open>The functions are the sponge of FIPS 202\<close>

lemmas sha3_api_defs = OQS_MEM_ctx_def
  SHA3_sha3_256_def SHA3_sha3_256_inc_init_def SHA3_sha3_256_inc_absorb_def SHA3_sha3_256_inc_finalize_def
  SHA3_sha3_384_def SHA3_sha3_384_inc_init_def SHA3_sha3_384_inc_absorb_def SHA3_sha3_384_inc_finalize_def
  SHA3_sha3_512_def SHA3_sha3_512_inc_init_def SHA3_sha3_512_inc_absorb_def SHA3_sha3_512_inc_finalize_def
  SHA3_shake128_def SHA3_shake128_inc_init_def SHA3_shake128_inc_absorb_def SHA3_shake128_inc_finalize_def
  SHA3_shake256_def SHA3_shake256_inc_init_def SHA3_shake256_inc_absorb_def SHA3_shake256_inc_finalize_def
  SHA3_shake128_inc_squeeze_def SHA3_shake256_inc_squeeze_def

theorem one_shot_sponge:
  assumes "perm_ok perm"
  shows "SHA3_sha3_256 perm True m = Some (sponge perm SHA3_256_RATE 0x06 m 32)"
    and "SHA3_sha3_384 perm True m = Some (sponge perm SHA3_384_RATE 0x06 m 48)"
    and "SHA3_sha3_512 perm True m = Some (sponge perm SHA3_512_RATE 0x06 m 64)"
    and "SHA3_shake128 perm True n m = Some (sponge perm SHAKE128_RATE 0x1F m n)"
    and "SHA3_shake256 perm True n m = Some (sponge perm SHAKE256_RATE 0x1F m n)"
  by (simp_all add: sha3_api_defs keccak_inc_sponge [OF assms])

text \<open>Absorbing a list of pieces is absorbing their concatenation.\<close>

lemma absorb_pieces:
  assumes "perm_ok perm" and "absorbing r s"
  shows "fold (keccak_inc_absorb perm r) ms s = keccak_inc_absorb perm r (concat ms) s"
  using assms(2)
proof (induction ms arbitrary: s)
  case Nil
  then show ?case by (simp add: keccak_inc_absorb_fold [OF assms(1)])
next
  case (Cons m ms)
  then show ?case by (simp add: assms(1) keccak_inc_absorb_append [OF assms(1)])
qed

lemma map_option_fold: "fold (\<lambda>m. map_option (f m)) ms (Some s) = Some (fold f ms s)"
  by (induction ms arbitrary: s) simp_all

theorem incremental_shake:
  assumes "perm_ok perm"
  shows "map_option fst (SHA3_shake128_inc_squeeze perm n (SHA3_shake128_inc_finalize
      (fold (\<lambda>m s. SHA3_shake128_inc_absorb perm s m) ms (SHA3_shake128_inc_init True)))) = SHA3_shake128 perm True n (concat ms)"
    and "map_option fst (SHA3_shake256_inc_squeeze perm n (SHA3_shake256_inc_finalize
      (fold (\<lambda>m s. SHA3_shake256_inc_absorb perm s m) ms (SHA3_shake256_inc_init True)))) = SHA3_shake256 perm True n (concat ms)"
  by (simp_all add: sha3_api_defs map_option_fold absorb_pieces [OF assms])

theorem incremental_sha3:
  assumes "perm_ok perm"
  shows "map_option fst (SHA3_sha3_256_inc_finalize perm
      (fold (\<lambda>m s. SHA3_sha3_256_inc_absorb perm s m) ms (SHA3_sha3_256_inc_init True))) = SHA3_sha3_256 perm True (concat ms)"
    and "map_option fst (SHA3_sha3_384_inc_finalize perm
      (fold (\<lambda>m s. SHA3_sha3_384_inc_absorb perm s m) ms (SHA3_sha3_384_inc_init True))) = SHA3_sha3_384 perm True (concat ms)"
    and "map_option fst (SHA3_sha3_512_inc_finalize perm
      (fold (\<lambda>m s. SHA3_sha3_512_inc_absorb perm s m) ms (SHA3_sha3_512_inc_init True))) = SHA3_sha3_512 perm True (concat ms)"
  by (simp_all add: sha3_api_defs map_option_fold absorb_pieces [OF assms])

end
