(* ===== verification/Sve.thy ===== *)
theory Sve
  imports Words
begin

text \<open>
  The SVE2 intrinsics of \<open>arm_sve.h\<close> that the vector branches use.  A vector is the list of its lanes, a
  predicate the list of its flags; the vector length \<open>vl\<close> (\<open>svcntb\<close> and its siblings) is a property of the
  machine and so an argument.  An inactive lane of a load is 0; the \<open>_x\<close> operations leave inactive lanes
  unspecified and are modelled as acting on every lane, which no store can observe.  The lemmas reduce
  a loop over vectors to one loop per lane, whatever \<open>vl\<close> is.
\<close>

type_synonym svbool = "bool list"

definition svwhilelt :: "nat \<Rightarrow> nat \<Rightarrow> nat \<Rightarrow> svbool" where
  "svwhilelt vl a b = map (\<lambda>k. a + k < b) [0..<vl]"

definition svptrue :: "nat \<Rightarrow> svbool" where
  "svptrue vl = replicate vl True"

definition svdup :: "nat \<Rightarrow> 'a \<Rightarrow> 'a list" where
  "svdup vl x = replicate vl x"

text \<open>A load widens each element to the lane, a store narrows it.\<close>

definition svld1 :: "svbool \<Rightarrow> 'b::len word list \<Rightarrow> nat \<Rightarrow> 'a::len word list" where
  "svld1 pg mem off = map (\<lambda>k. if pg ! k then ucast (mem ! (off + k)) else 0) [0..<length pg]"

definition svst1 :: "svbool \<Rightarrow> 'b::len word list \<Rightarrow> nat \<Rightarrow> 'a::len word list \<Rightarrow> 'b word list" where
  "svst1 pg mem off v = for_range 0 (length pg) (\<lambda>k mem. if pg ! k then mem[off + k := ucast (v ! k)] else mem) mem"

definition svadd :: "'a::len word list \<Rightarrow> 'a word list \<Rightarrow> 'a word list" where
  "svadd a b = map2 (+) a b"

definition svand_n :: "'a::len word list \<Rightarrow> 'a word \<Rightarrow> 'a word list" where
  "svand_n a n = map (\<lambda>x. x AND n) a"

definition svlsr_n :: "'a::len word list \<Rightarrow> nat \<Rightarrow> 'a word list" where
  "svlsr_n a n = map (drop_bit n) a"

definition svmul_n :: "'a::len word list \<Rightarrow> 'a word \<Rightarrow> 'a word list" where
  "svmul_n a n = map (\<lambda>x. x * n) a"

definition svmla :: "'a::len word list \<Rightarrow> 'a word list \<Rightarrow> 'a word list \<Rightarrow> 'a word list" where
  "svmla acc a b = map2 (+) acc (map2 (*) a b)"

definition svmla_n :: "'a::len word list \<Rightarrow> 'a word list \<Rightarrow> 'a word \<Rightarrow> 'a word list" where
  "svmla_n acc a n = map2 (+) acc (map (\<lambda>x. x * n) a)"

definition svmls_n :: "'a::len word list \<Rightarrow> 'a word list \<Rightarrow> 'a word \<Rightarrow> 'a word list" where
  "svmls_n acc a n = map2 (-) acc (map (\<lambda>x. x * n) a)"

definition sveor :: "'a::len word list \<Rightarrow> 'a word list \<Rightarrow> 'a word list" where
  "sveor a b = map2 (XOR) a b"

text \<open>\<open>for (int j = 0; j < n; j += vl)\<close>.\<close>

definition for_step :: "nat \<Rightarrow> nat \<Rightarrow> (nat \<Rightarrow> 's \<Rightarrow> 's) \<Rightarrow> 's \<Rightarrow> 's" where
  "for_step vl n f s = for_range 0 ((n + vl - 1) div vl) (\<lambda>c. f (c * vl)) s"

subsection \<open>Lengths and lanes\<close>

lemma length_sv [simp]:
  "length (svwhilelt vl a b) = vl" "length (svptrue vl) = vl" "length (svdup vl x) = vl"
  "length (svld1 pg mem off) = length pg" "length (svadd u v) = min (length u) (length v)"
  "length (svand_n u n) = length u" "length (svlsr_n u k) = length u" "length (svmul_n u n) = length u"
  "length (svmla w u v) = min (length w) (min (length u) (length v))"
  "length (svmla_n w u n) = min (length w) (length u)" "length (svmls_n w u n) = min (length w) (length u)"
  "length (sveor u v) = min (length u) (length v)"
  by (simp_all add: svwhilelt_def svptrue_def svdup_def svld1_def svadd_def svand_n_def svlsr_n_def
      svmul_n_def svmla_def svmla_n_def svmls_n_def sveor_def)

lemma nth_sv [simp]:
  "k < vl \<Longrightarrow> svwhilelt vl a b ! k \<longleftrightarrow> a + k < b" "k < vl \<Longrightarrow> svptrue vl ! k" "k < vl \<Longrightarrow> svdup vl x ! k = x"
  "k < length pg \<Longrightarrow> svld1 pg mem off ! k = (if pg ! k then ucast (mem ! (off + k)) else 0)"
  by (simp_all add: svwhilelt_def svptrue_def svdup_def svld1_def)

lemma nth_sv_ops [simp]:
  "k < length u \<Longrightarrow> k < length v \<Longrightarrow> svadd u v ! k = u ! k + v ! k"
  "k < length u \<Longrightarrow> svand_n u n ! k = u ! k AND n" "k < length u \<Longrightarrow> svlsr_n u i ! k = drop_bit i (u ! k)"
  "k < length u \<Longrightarrow> svmul_n u n ! k = u ! k * n"
  "k < length w \<Longrightarrow> k < length u \<Longrightarrow> k < length v \<Longrightarrow> svmla w u v ! k = w ! k + u ! k * v ! k"
  "k < length w \<Longrightarrow> k < length u \<Longrightarrow> svmla_n w u n ! k = w ! k + u ! k * n"
  "k < length w \<Longrightarrow> k < length u \<Longrightarrow> svmls_n w u n ! k = w ! k - u ! k * n"
  "k < length u \<Longrightarrow> k < length v \<Longrightarrow> sveor u v ! k = u ! k XOR v ! k"
  by (simp_all add: svadd_def svand_n_def svlsr_n_def svmul_n_def svmla_def svmla_n_def svmls_n_def sveor_def)

lemma length_svst1 [simp]: "length (svst1 pg mem off v) = length mem"
  by (auto simp: svst1_def intro!: for_range_inv_const [where Q = "\<lambda>m. length m = length mem"])

lemma nth_svst1:
  assumes "i < length mem"
  shows "svst1 pg mem off v ! i = (if off \<le> i \<and> i - off < length pg \<and> pg ! (i - off) then ucast (v ! (i - off)) else mem ! i)"
proof -
  let ?P = "\<lambda>n m. length m = length mem \<and> (\<forall>i<length mem.
      m ! i = (if off \<le> i \<and> i - off < n \<and> pg ! (i - off) then ucast (v ! (i - off)) else mem ! i))"
  have "?P (length pg) (svst1 pg mem off v)"
    unfolding svst1_def
  proof (rule for_range_inv [where P = ?P])
    fix k m assume k: "0 \<le> k" "k < length pg" and m: "?P k m"
    have "(if pg ! k then m[off + k := ucast (v ! k)] else m) ! i
        = (if off \<le> i \<and> i - off < Suc k \<and> pg ! (i - off) then ucast (v ! (i - off)) else mem ! i)"
      if i: "i < length mem" for i
      by (cases "i = off + k") (use i m in \<open>auto simp: less_Suc_eq\<close>)
    with m show "?P (Suc k) (if pg ! k then m[off + k := ucast (v ! k)] else m)" by simp
  qed simp_all
  with assms show ?thesis by simp
qed

text \<open>A loop over vectors runs the lanes independently.\<close>

lemma for_range_lanes:
  assumes "length acc = vl"
    and "\<And>i v. a \<le> i \<Longrightarrow> i < b \<Longrightarrow> length v = vl \<Longrightarrow> length (f i v) = vl"
    and "\<And>i v k. a \<le> i \<Longrightarrow> i < b \<Longrightarrow> length v = vl \<Longrightarrow> k < vl \<Longrightarrow> P k \<Longrightarrow> f i v ! k = g k i (v ! k)"
    and "k < vl" and "P k"
  shows "for_range a b f acc ! k = for_range a b (g k) (acc ! k)"
proof (cases "a \<le> b")
  case True
  have "length (for_range a b f acc) = vl \<and> for_range a b f acc ! k = for_range a b (g k) (acc ! k)"
    by (rule for_range_rel [OF True, where R = "\<lambda>_ v x. length v = vl \<and> v ! k = x"]) (use assms in auto)
  then show ?thesis by simp
qed simp

lemma length_for_range_lanes:
  assumes "length acc = vl" and "\<And>i v. length v = vl \<Longrightarrow> length (f i v) = vl"
  shows "length (for_range a b f acc) = vl"
  by (rule for_range_inv_const [where Q = "\<lambda>v. length v = vl"]) (use assms in auto)

text \<open>Storing the columns of a row vector by vector: every column, and nothing past the last.\<close>

lemma for_step_store:
  assumes "0 < vl" and "n \<le> length res"
    and "\<And>j k. k < vl \<Longrightarrow> j + k < n \<Longrightarrow> ucast (vec j ! k) = col (j + k)"
  shows "for_step vl n (\<lambda>j res. svst1 (svwhilelt vl j n) res j (vec j)) res = map col [0..<n] @ drop n res"
proof -
  let ?C = "(n + vl - 1) div vl"
  let ?P = "\<lambda>c m. length m = length res \<and> (\<forall>i<length res. m ! i = (if i < c * vl \<and> i < n then col i else res ! i))"
  have P: "?P ?C (for_step vl n (\<lambda>j res. svst1 (svwhilelt vl j n) res j (vec j)) res)"
    unfolding for_step_def
  proof (rule for_range_inv [where P = ?P])
    fix c m assume m: "?P c m"
    show "?P (Suc c) (svst1 (svwhilelt vl (c * vl) n) m (c * vl) (vec (c * vl)))"
    proof (intro conjI allI impI)
      fix i assume i: "i < length res"
      show "svst1 (svwhilelt vl (c * vl) n) m (c * vl) (vec (c * vl)) ! i
          = (if i < Suc c * vl \<and> i < n then col i else res ! i)"
      proof (cases "c * vl \<le> i \<and> i - c * vl < vl \<and> i < n")
        case True
        then have "ucast (vec (c * vl) ! (i - c * vl)) = col (c * vl + (i - c * vl))"
          by (intro assms(3)) auto
        moreover have "i < Suc c * vl" using True unfolding mult_Suc by linarith
        ultimately show ?thesis using True i m by (simp add: nth_svst1)
      next
        case False
        with i m show ?thesis by (auto simp: nth_svst1)
      qed
    qed (use m in simp)
  qed simp_all
  have "n \<le> ?C * vl"
  proof -
    have "n + vl - 1 < Suc ?C * vl" using assms(1) by (metis dividend_less_div_times mult_Suc add.commute)
    then show ?thesis using assms(1) by simp
  qed
  with P assms(2) show ?thesis
    by (intro nth_equalityI) (auto simp: nth_append)
qed

end
