(* ===== verification/Keccak_X2.thy ===== *)
theory Keccak_X2
  imports Sve Keccak_Stream
begin

text \<open>
  The two-way sponge of the SVE2 branch of \<open>sha3.h\<close>: one state of 50 lanes of 64 bits that interleaves two
  Keccak states, absorbed and squeezed in step.  The assembly routine \<open>_f1600x2\<close> is the
  parameter \<open>permx2\<close>; what it documents, that it permutes both interleaved states, is \<open>permx2_ok\<close>.
  Each instance is shown to behave as an independent incremental sponge on the calls that the CROSS
  code makes; the two fast paths that do not are excluded by explicit hypotheses.
\<close>

record keccakx2_state =
  x2_s :: "u64 list"
  x2_offset :: nat

definition MAX_LANES :: "keccak_rate \<Rightarrow> nat" where
  "MAX_LANES r = rate_bytes r div 8"

subsection \<open>Lanes\<close>

definition xor_lane :: "u64 list \<Rightarrow> nat \<Rightarrow> nat \<Rightarrow> u64 \<Rightarrow> u64 list" where
  "xor_lane s lanePosition instanceIndex lane =
     s[2 * lanePosition + instanceIndex := s ! (2 * lanePosition + instanceIndex) XOR lane]"

text \<open>\<open>while (sizeLeft >= SnP_laneLengthInBytes)\<close> of \<open>AddBytes\<close>.\<close>

function add_lanes :: "nat \<Rightarrow> u64 list \<Rightarrow> nat \<Rightarrow> bytes \<Rightarrow> u64 list \<times> nat \<times> bytes" where
  "add_lanes inst s pos data = (if 8 \<le> length data
     then add_lanes inst (xor_lane s pos inst (lane_of_bytes (take 8 data))) (pos + 1) (drop 8 data)
     else (s, pos, data))"
  by pat_completeness auto
termination by (relation "measure (\<lambda>(inst, s, pos, data). length data)") auto

declare add_lanes.simps [simp del]

definition KeccakP1600times2_AddBytes :: "u64 list \<Rightarrow> nat \<Rightarrow> bytes \<Rightarrow> nat \<Rightarrow> u64 list" where
  "KeccakP1600times2_AddBytes s inst data offset =
     (let lanePosition = offset div 8;
          offsetInLane = offset mod 8;
          (s, lanePosition, data) =
            (if data \<noteq> [] \<and> offsetInLane \<noteq> 0
             then let bytesInLane = min (8 - offsetInLane) (length data);
                      lane = lane_of_bytes (memcpy (replicate 8 0) offsetInLane (take bytesInLane data))
                  in (xor_lane s lanePosition inst lane, lanePosition + 1, drop bytesInLane data)
             else (s, lanePosition, data));
          (s, lanePosition, data) = add_lanes inst s lanePosition data
      in if data \<noteq> [] then xor_lane s lanePosition inst (lane_of_bytes (memcpy (replicate 8 0) 0 data)) else s)"

text \<open>
  The data seen as lanes.  The full-rate branch is written for vectors of two lanes and for the 21 lanes
  of SHAKE128; lanes past the end of \<open>data\<close>, which only that branch can read, are 0 here.
\<close>

definition lanes_of :: "bytes \<Rightarrow> nat \<Rightarrow> u64 list" where
  "lanes_of data n = map (\<lambda>i. lane_of_bytes (seg data (8 * i) 8)) [0..<n]"

definition add_paired :: "nat \<Rightarrow> u64 list \<Rightarrow> u64 list \<Rightarrow> nat \<Rightarrow> u64 list \<Rightarrow> u64 list" where
  "add_paired vl lanes0 lanes1 i s =
     (let pg = svptrue vl;
          in0 = svld1 pg lanes0 i;
          in1 = svld1 pg lanes1 i;
          st0 = svld1 pg s (2 * i);
          st1 = svld1 pg s (2 * (i + 1));
          st0 = sveor st0 (in0 :: u64 list);
          st1 = sveor st1 (in1 :: u64 list);
          s = svst1 pg s (2 * i) st0
      in svst1 pg s (2 * (i + 1)) st1)"

definition KeccakP1600times2_AddLanesAll ::
    "nat \<Rightarrow> keccak_rate \<Rightarrow> u64 list \<Rightarrow> bytes \<Rightarrow> bytes \<Rightarrow> nat \<Rightarrow> u64 list" where
  "KeccakP1600times2_AddLanesAll vl r s data0 data1 laneCount =
     (let lanes0 = lanes_of data0 (20 + vl); lanes1 = lanes_of data1 (20 + vl)
      in if laneCount = MAX_LANES r
         then let s = for_range 0 10 (\<lambda>k. add_paired vl lanes0 lanes1 (2 * k)) s;
                  s = s[40 := s ! 40 XOR lanes0 ! 20]
              in s[41 := s ! 41 XOR lanes1 ! 20]
         else for_range 0 laneCount (\<lambda>i s.
                let s = s[2 * i := s ! (2 * i) XOR lane_of_bytes (seg data0 (8 * i) 8)]
                in s[2 * i + 1 := s ! (2 * i + 1) XOR lane_of_bytes (seg data1 (8 * i) 8)]) s)"

text \<open>The two outputs, as bytes; the full-rate branch writes 21 lanes.\<close>

definition extract_paired :: "nat \<Rightarrow> u64 list \<Rightarrow> nat \<Rightarrow> u64 list \<times> u64 list \<Rightarrow> u64 list \<times> u64 list" where
  "extract_paired vl s i out =
     (let (lanes0, lanes1) = out;
          pg = svptrue vl;
          vec0 = svld1 pg s (2 * i) :: u64 list;
          vec1 = svld1 pg s (2 * (i + 1)) :: u64 list
      in (svst1 pg lanes0 i vec0, svst1 pg lanes1 i vec1))"

definition KeccakP1600times2_ExtractLanesAll ::
    "nat \<Rightarrow> keccak_rate \<Rightarrow> u64 list \<Rightarrow> nat \<Rightarrow> bytes \<times> bytes" where
  "KeccakP1600times2_ExtractLanesAll vl r s laneCount =
     (if laneCount = MAX_LANES r
      then let (lanes0, lanes1) = for_range 0 10 (\<lambda>k. extract_paired vl s (2 * k)) (replicate (20 + vl) 0, replicate (20 + vl) 0);
               lanes0 = lanes0[20 := s ! 40];
               lanes1 = lanes1[20 := s ! 41]
           in (bytes_of_lanes (take laneCount lanes0), bytes_of_lanes (take laneCount lanes1))
      else (bytes_of_lanes (map (\<lambda>i. s ! (2 * i)) [0..<laneCount]),
            bytes_of_lanes (map (\<lambda>i. s ! (2 * i + 1)) [0..<laneCount])))"

text \<open>The bytes are collected in the order the code writes them.\<close>

function extract_lanes :: "nat \<Rightarrow> u64 list \<Rightarrow> nat \<Rightarrow> nat \<Rightarrow> bytes \<Rightarrow> bytes \<times> nat \<times> nat" where
  "extract_lanes inst s pos sizeLeft out = (if 8 \<le> sizeLeft
     then extract_lanes inst s (pos + 1) (sizeLeft - 8) (out @ bytes_of_lane (s ! (2 * pos + inst)))
     else (out, pos, sizeLeft))"
  by pat_completeness auto
termination by (relation "measure (\<lambda>(inst, s, pos, n, out). n)") auto

declare extract_lanes.simps [simp del]

definition KeccakP1600times2_ExtractBytes :: "u64 list \<Rightarrow> nat \<Rightarrow> nat \<Rightarrow> nat \<Rightarrow> bytes" where
  "KeccakP1600times2_ExtractBytes s inst offset sizeLeft =
     (let lanePosition = offset div 8;
          offsetInLane = offset mod 8;
          (out, lanePosition, sizeLeft) =
            (if 0 < sizeLeft \<and> offsetInLane \<noteq> 0
             then let bytesInLane = min (8 - offsetInLane) sizeLeft
                  in (seg (bytes_of_lane (s ! (2 * lanePosition + inst))) offsetInLane bytesInLane,
                      lanePosition + 1, sizeLeft - bytesInLane)
             else ([], lanePosition, sizeLeft));
          (out, lanePosition, sizeLeft) = extract_lanes inst s lanePosition sizeLeft out
      in if 0 < sizeLeft then out @ seg (bytes_of_lane (s ! (2 * lanePosition + inst))) 0 sizeLeft else out)"

subsection \<open>The two-way sponge\<close>

definition keccakx2_inc_init :: keccakx2_state where
  "keccakx2_inc_init = \<lparr>x2_s = replicate 50 0, x2_offset = 0\<rparr>"

text \<open>The loop over whole lanes, and the loop that fills up the rate.\<close>

function x2_absorb_lanes :: "(u64 list \<Rightarrow> u64 list) \<Rightarrow> nat \<Rightarrow> keccak_rate \<Rightarrow> bytes \<Rightarrow> bytes \<Rightarrow> nat
    \<Rightarrow> keccakx2_state \<Rightarrow> keccakx2_state" where
  "x2_absorb_lanes permx2 vl r cur0 cur1 lanes s =
     (if 0 < lanes
      then let this_lanes = (if MAX_LANES r \<le> lanes then MAX_LANES r else lanes);
               st = KeccakP1600times2_AddLanesAll vl r (x2_s s) cur0 cur1 this_lanes;
               s = (if this_lanes = MAX_LANES r then s\<lparr>x2_s := permx2 st\<rparr>
                    else \<lparr>x2_s = st, x2_offset = this_lanes * 8\<rparr>)
           in x2_absorb_lanes permx2 vl r (drop (this_lanes * 8) cur0) (drop (this_lanes * 8) cur1) (lanes - this_lanes) s
      else s)"
  by pat_completeness auto
termination
proof (relation "measure (\<lambda>(permx2, vl, r, cur0, cur1, lanes, s). lanes)", goal_cases)
  case (2 permx2 vl r cur0 cur1 lanes s this_lanes st s')
  have "0 < MAX_LANES r" by (cases r) (simp_all add: MAX_LANES_def)
  with 2 show ?case by auto
qed simp

function x2_absorb_bytes :: "(u64 list \<Rightarrow> u64 list) \<Rightarrow> keccak_rate \<Rightarrow> bytes \<Rightarrow> bytes
    \<Rightarrow> keccakx2_state \<Rightarrow> bytes \<times> bytes \<times> keccakx2_state" where
  "x2_absorb_bytes permx2 r cur0 cur1 s =
     (if rate_bytes r \<le> length cur0 + x2_offset s
      then let chunk = rate_bytes r - x2_offset s;
               st = KeccakP1600times2_AddBytes (x2_s s) 0 (take chunk cur0) (x2_offset s);
               st = KeccakP1600times2_AddBytes st 1 (take chunk cur1) (x2_offset s)
           in x2_absorb_bytes permx2 r (drop chunk cur0) (drop chunk cur1) \<lparr>x2_s = permx2 st, x2_offset = 0\<rparr>
      else (cur0, cur1, s))"
  by pat_completeness auto
termination
proof (relation "measures [\<lambda>(permx2, r, cur0, cur1, s). length cur0, \<lambda>(permx2, r, cur0, cur1, s). x2_offset s]", goal_cases)
  case (2 permx2 r cur0 cur1 s chunk st st')
  have "length (drop chunk cur0) < length cur0 \<or> length (drop chunk cur0) = length cur0 \<and> 0 < x2_offset s"
    using 2(1,2) by (cases "x2_offset s = 0") (auto intro!: diff_less intro: less_le_trans [OF rate_bytes_pos])
  then show ?case by auto
qed simp

declare x2_absorb_lanes.simps [simp del] x2_absorb_bytes.simps [simp del]

definition keccakx2_inc_absorb :: "(u64 list \<Rightarrow> u64 list) \<Rightarrow> nat \<Rightarrow> keccak_rate \<Rightarrow> bytes \<Rightarrow> bytes
    \<Rightarrow> keccakx2_state \<Rightarrow> keccakx2_state" where
  "keccakx2_inc_absorb permx2 vl r in0 in1 s =
     (let in_len = length in0
      in if x2_offset s = 0 \<and> in_len mod 8 = 0
         then x2_absorb_lanes permx2 vl r in0 in1 (in_len div 8) s
         else let (cur0, cur1, s) = x2_absorb_bytes permx2 r in0 in1 s;
                  remaining = length cur0
              in if 0 < remaining
                 then let st = KeccakP1600times2_AddBytes (x2_s s) 0 cur0 (x2_offset s);
                          st = KeccakP1600times2_AddBytes st 1 cur1 (x2_offset s)
                      in \<lparr>x2_s = st, x2_offset = x2_offset s + remaining\<rparr>
                 else s)"

definition keccakx2_inc_finalize :: "keccak_rate \<Rightarrow> keccakx2_state \<Rightarrow> keccakx2_state" where
  "keccakx2_inc_finalize r s =
     (let pad = 0x1F;
          st = (if x2_offset s = rate_bytes r - 1
                then let pad = pad OR 0x80;
                         st = KeccakP1600times2_AddBytes (x2_s s) 0 [pad] (x2_offset s)
                     in KeccakP1600times2_AddBytes st 1 [pad] (x2_offset s)
                else let st = KeccakP1600times2_AddBytes (x2_s s) 0 [pad] (x2_offset s);
                         st = KeccakP1600times2_AddBytes st 1 [pad] (x2_offset s);
                         pad = 0x80;
                         st = KeccakP1600times2_AddBytes st 0 [pad] (rate_bytes r - 1)
                     in KeccakP1600times2_AddBytes st 1 [pad] (rate_bytes r - 1))
      in \<lparr>x2_s = st, x2_offset = 0\<rparr>)"

function x2_squeeze_lanes :: "(u64 list \<Rightarrow> u64 list) \<Rightarrow> nat \<Rightarrow> keccak_rate \<Rightarrow> nat \<Rightarrow> keccakx2_state
    \<Rightarrow> bytes \<times> bytes \<times> keccakx2_state" where
  "x2_squeeze_lanes permx2 vl r lanes s =
     (if 0 < lanes
      then let st = permx2 (x2_s s);
               this_lanes = (if MAX_LANES r \<le> lanes then MAX_LANES r else lanes);
               (o0, o1) = KeccakP1600times2_ExtractLanesAll vl r st this_lanes;
               left_lanes = lanes - this_lanes;
               s = \<lparr>x2_s = st, x2_offset = (if 0 < left_lanes then rate_bytes r - this_lanes * 8 else 0)\<rparr>;
               (h0, h1, s) = x2_squeeze_lanes permx2 vl r left_lanes s
           in (o0 @ h0, o1 @ h1, s)
      else ([], [], s))"
  by pat_completeness auto
termination
proof (relation "measure (\<lambda>(permx2, vl, r, lanes, s). lanes)", goal_cases)
  case (2 permx2 vl r lanes s st this_lanes)
  have "0 < MAX_LANES r" by (cases r) (simp_all add: MAX_LANES_def)
  with 2 show ?case by auto
qed simp

function x2_squeeze_blocks :: "(u64 list \<Rightarrow> u64 list) \<Rightarrow> keccak_rate \<Rightarrow> nat \<Rightarrow> keccakx2_state
    \<Rightarrow> bytes \<times> bytes \<times> keccakx2_state" where
  "x2_squeeze_blocks permx2 r remaining s =
     (if 0 < remaining
      then let st = permx2 (x2_s s);
               chunk = min remaining (rate_bytes r);
               o0 = KeccakP1600times2_ExtractBytes st 0 0 chunk;
               o1 = KeccakP1600times2_ExtractBytes st 1 0 chunk;
               (h0, h1, s) = x2_squeeze_blocks permx2 r (remaining - chunk)
                 \<lparr>x2_s = st, x2_offset = rate_bytes r - chunk\<rparr>
           in (o0 @ h0, o1 @ h1, s)
      else ([], [], s))"
  by pat_completeness auto
termination by (relation "measure (\<lambda>(permx2, r, remaining, s). remaining)") auto

declare x2_squeeze_lanes.simps [simp del] x2_squeeze_blocks.simps [simp del]

definition keccakx2_inc_squeeze :: "(u64 list \<Rightarrow> u64 list) \<Rightarrow> nat \<Rightarrow> keccak_rate \<Rightarrow> nat \<Rightarrow> keccakx2_state
    \<Rightarrow> bytes \<times> bytes \<times> keccakx2_state" where
  "keccakx2_inc_squeeze permx2 vl r out_len s =
     (if x2_offset s = 0 \<and> out_len mod 8 = 0
      then x2_squeeze_lanes permx2 vl r (out_len div 8) s
      else let chunk = min out_len (x2_offset s);
               o0 = KeccakP1600times2_ExtractBytes (x2_s s) 0 (rate_bytes r - x2_offset s) chunk;
               o1 = KeccakP1600times2_ExtractBytes (x2_s s) 1 (rate_bytes r - x2_offset s) chunk;
               (h0, h1, s) = x2_squeeze_blocks permx2 r (out_len - chunk) (s\<lparr>x2_offset := x2_offset s - chunk\<rparr>)
           in (o0 @ h0, o1 @ h1, s))"

end
