(* ===== verification/Keccak_X2_Correct.thy ===== *)
theory Keccak_X2_Correct
  imports Keccak_X2
begin

text \<open>
  Each half of the two-way sponge is an incremental sponge.  \<open>instance_bytes k s\<close> are the 200 bytes of
  the Keccak state that the lanes \<open>s[2 * i + k]\<close> interleave.
\<close>

subsection \<open>The instances\<close>

definition instance_bytes :: "nat \<Rightarrow> u64 list \<Rightarrow> bytes" where
  "instance_bytes k s = map (\<lambda>i. bytes_of_lane (s ! (2 * (i div 8) + k)) ! (i mod 8)) [0..<200]"

lemma length_instance_bytes [simp]: "length (instance_bytes k s) = 200"
  by (simp add: instance_bytes_def)

lemma nth_instance_bytes: "i < 200 \<Longrightarrow> instance_bytes k s ! i = bytes_of_lane (s ! (2 * (i div 8) + k)) ! (i mod 8)"
  by (simp add: instance_bytes_def)

lemma seg_instance_lane:
  assumes "pos < 25" and "o' + n \<le> 8"
  shows "seg (bytes_of_lane (s ! (2 * pos + k))) o' n = seg (instance_bytes k s) (8 * pos + o') n"
proof (rule nth_equalityI)
  show "length (seg (bytes_of_lane (s ! (2 * pos + k))) o' n) = length (seg (instance_bytes k s) (8 * pos + o') n)"
    using assms by simp
  fix i assume "i < length (seg (bytes_of_lane (s ! (2 * pos + k))) o' n)"
  then have i: "i < n" using assms(2) by simp
  then have "(8 * pos + (o' + i)) div 8 = pos" "(8 * pos + (o' + i)) mod 8 = o' + i" using assms(2) by simp_all
  then have "(8 * pos + o' + i) div 8 = pos" "(8 * pos + o' + i) mod 8 = o' + i" by (simp_all add: add.assoc)
  with i assms show "seg (bytes_of_lane (s ! (2 * pos + k))) o' n ! i = seg (instance_bytes k s) (8 * pos + o') n ! i"
    by (simp add: nth_seg nth_instance_bytes)
qed

lemma instance_eqI:
  assumes "\<And>i. i < 25 \<Longrightarrow> s ! (2 * i + k) = t ! (2 * i + k)"
  shows "instance_bytes k s = instance_bytes k t"
proof -
  have "s ! (2 * (i div 8) + k) = t ! (2 * (i div 8) + k)" if "i < 200" for i
    by (rule assms) (rule less_mult_imp_div_less, use that in simp)
  then show ?thesis by (simp add: instance_bytes_def)
qed

lemma instance_write:
  assumes "length s = 50" and "pos < 25" and "inst < 2" and "k < 2"
  shows "instance_bytes k (s[2 * pos + inst := s ! (2 * pos + inst) XOR lane])
    = (if k = inst then add_bytes (instance_bytes k s) (bytes_of_lane lane) (8 * pos) else instance_bytes k s)"
proof (rule nth_equalityI)
  fix i assume "i < length (instance_bytes k (s[2 * pos + inst := s ! (2 * pos + inst) XOR lane]))"
  then have i: "i < 200" by simp
  have lt: "2 * pos + inst < 50" using assms(2,3) by simp
  let ?t = "s[2 * pos + inst := s ! (2 * pos + inst) XOR lane]"
  show "instance_bytes k ?t ! i
      = (if k = inst then add_bytes (instance_bytes k s) (bytes_of_lane lane) (8 * pos) else instance_bytes k s) ! i"
  proof (cases "k = inst \<and> pos = i div 8")
    case True
    then have "8 * pos \<le> i" "i < 8 * pos + 8" "i - 8 * pos = i mod 8"
      using div_mult_mod_eq [of i 8] mod_less_divisor [of 8 i] by (simp_all add: minus_mult_div_eq_mod)
    moreover have "?t ! (2 * (i div 8) + k) = s ! (2 * (i div 8) + k) XOR lane" using True lt assms(1) by simp
    ultimately show ?thesis
      using True i by (simp add: nth_instance_bytes nth_add_bytes bytes_of_lane_xor)
  next
    case False
    have uniq: "pos = q" if "2 * pos + inst = 2 * q + k" "k = inst" for q using that by simp
    have par: "k = inst" if "2 * pos + inst = 2 * q + k" for q
      using arg_cong [OF that, of "\<lambda>n. n mod 2"] assms(3,4) by simp
    have "2 * pos + inst \<noteq> 2 * (i div 8) + k" using False uniq par by blast
    then have "?t ! (2 * (i div 8) + k) = s ! (2 * (i div 8) + k)" by simp
    moreover have "\<not> (8 * pos \<le> i \<and> i < 8 * pos + 8)" if "k = inst"
    proof
      assume "8 * pos \<le> i \<and> i < 8 * pos + 8"
      then have "i div 8 = pos" by (simp add: div_nat_eqI)
      with that False show False by simp
    qed
    ultimately show ?thesis using i by (auto simp: nth_instance_bytes nth_add_bytes)
  qed
qed simp

lemma length_xor_lane [simp]: "length (xor_lane s pos inst lane) = length s"
  by (simp add: xor_lane_def)

text \<open>A partial lane: the bytes outside of the data are 0 and change nothing.\<close>

lemma add_bytes_padded:
  assumes "o' + length data \<le> 8" and "8 * pos + 8 \<le> length st"
  shows "add_bytes st (bytes_of_lane (lane_of_bytes (memcpy (replicate 8 0) o' data))) (8 * pos)
    = add_bytes st data (8 * pos + o')"
proof -
  have "length (memcpy (replicate 8 (0 :: u8)) o' data) = 8" using assms(1) by simp
  then show ?thesis
    unfolding bytes_of_lane_of_bytes [OF \<open>length _ = 8\<close>]
    by (intro nth_equalityI) (use assms in \<open>auto simp: nth_add_bytes nth_memcpy\<close>)
qed

text \<open>\<open>adds inst s s' data off\<close>: the state \<open>s'\<close> is \<open>s\<close> with \<open>data\<close> added to one instance.\<close>

definition adds :: "nat \<Rightarrow> u64 list \<Rightarrow> u64 list \<Rightarrow> bytes \<Rightarrow> nat \<Rightarrow> bool" where
  "adds inst s s' data off \<longleftrightarrow> length s' = 50 \<and> (\<forall>k<2. instance_bytes k s'
     = (if k = inst then add_bytes (instance_bytes k s) data off else instance_bytes k s))"

lemma adds_refl: "length s = 50 \<Longrightarrow> adds inst s s [] off"
  by (simp add: adds_def)

lemma adds_trans:
  assumes "adds inst s s' a off" and "adds inst s' s'' b (off + length a)"
  shows "adds inst s s'' (a @ b) off"
  using assms by (simp add: adds_def add_bytes_append)

lemma adds_length: "adds inst s s' data off \<Longrightarrow> length s' = 50"
  by (simp add: adds_def)

lemma adds_xor_padded:
  assumes "length s = 50" and "inst < 2" and "8 * pos + 8 \<le> 200" and "o' + length data \<le> 8" and "off = 8 * pos + o'"
  shows "adds inst s (xor_lane s pos inst (lane_of_bytes (memcpy (replicate 8 0) o' data))) data off"
  unfolding adds_def
proof (intro conjI allI impI)
  fix k :: nat assume k: "k < 2"
  have pos: "pos < 25" using assms(3) by simp
  show "instance_bytes k (xor_lane s pos inst (lane_of_bytes (memcpy (replicate 8 0) o' data)))
    = (if k = inst then add_bytes (instance_bytes k s) data off else instance_bytes k s)"
    unfolding xor_lane_def instance_write [OF assms(1) pos assms(2) k] assms(5)
    using add_bytes_padded [OF assms(4), of pos "instance_bytes k s"] assms(3) by (cases "k = inst") simp_all
qed (simp add: assms(1))

lemma adds_xor_lane:
  assumes "length s = 50" and "inst < 2" and "8 * pos + 8 \<le> 200" and "length data = 8"
  shows "adds inst s (xor_lane s pos inst (lane_of_bytes data)) data (8 * pos)"
proof -
  have "memcpy (replicate 8 0) 0 data = data" using assms(4) by (simp add: memcpy_def)
  then show ?thesis using adds_xor_padded [of s inst pos 0 data "8 * pos"] assms by simp
qed

lemma add_lanes_correct:
  assumes "length s = 50" and "inst < 2" and "8 * pos + length data \<le> 200"
    and "add_lanes inst s pos data = (s', pos', data')"
  shows "\<exists>d. data = d @ data' \<and> length data' < 8 \<and> 8 * pos' = 8 * pos + length d \<and> adds inst s s' d (8 * pos)"
  using assms
proof (induction inst s pos data arbitrary: s' pos' data' rule: add_lanes.induct)
  case (1 inst s pos data)
  show ?case
  proof (cases "8 \<le> length data")
    case True
    let ?x = "xor_lane s pos inst (lane_of_bytes (take 8 data))"
    have rec: "add_lanes inst ?x (pos + 1) (drop 8 data) = (s', pos', data')"
      using "1.prems"(4) True by (subst (asm) add_lanes.simps) simp
    have le: "8 * pos + 8 \<le> 200" "8 * (pos + 1) + length (drop 8 data) \<le> 200" using "1.prems"(3) True by simp_all
    have x: "adds inst s ?x (take 8 data) (8 * pos)"
      by (rule adds_xor_lane [OF "1.prems"(1,2) le(1)]) (use True in simp)
    from "1.IH" [OF True adds_length [OF x] "1.prems"(2) le(2) rec]
    obtain d where d: "drop 8 data = d @ data'" "length data' < 8" "8 * pos' = 8 * (pos + 1) + length d"
        "adds inst ?x s' d (8 * (pos + 1))" by blast
    have l8: "length (take 8 data) = 8" using True by simp
    have "adds inst s s' (take 8 data @ d) (8 * pos)"
      by (rule adds_trans [OF x]) (use d(4) l8 in \<open>simp add: add.commute\<close>)
    moreover have "data = (take 8 data @ d) @ data'" using d(1) by (metis append_take_drop_id append.assoc)
    moreover have "8 * pos' = 8 * pos + length (take 8 data @ d)" using d(3) l8 by simp
    ultimately show ?thesis using d(2) by blast
  next
    case False
    then show ?thesis using "1.prems" by (auto simp: add_lanes.simps adds_refl)
  qed
qed

lemma AddBytes_adds:
  assumes "length s = 50" and "inst < 2" and "off + length data \<le> 200"
  shows "adds inst s (KeccakP1600times2_AddBytes s inst data off) data off"
proof -
  define n where "n = min (8 - off mod 8) (length data)"
  have off: "off = 8 * (off div 8) + off mod 8" by simp
  have mod8: "off mod 8 < 8" by simp
  \<comment> \<open>the loop and the last partial lane, from a lane boundary\<close>
  have rest: "adds inst s1 (let (s, lanePosition, data) = add_lanes inst s1 p d
      in if data \<noteq> [] then xor_lane s lanePosition inst (lane_of_bytes (memcpy (replicate 8 0) 0 data)) else s) d (8 * p)"
    if l: "length s1 = 50" "8 * p + length d \<le> 200" for s1 p d
  proof -
    obtain s2 p2 d2 where a: "add_lanes inst s1 p d = (s2, p2, d2)" by (metis prod_cases3)
    obtain e where e: "d = e @ d2" "length d2 < 8" "8 * p2 = 8 * p + length e" "adds inst s1 s2 e (8 * p)"
      using add_lanes_correct [OF l(1) assms(2) l(2) a] by blast
    show ?thesis
    proof (cases "d2 = []")
      case True
      with e(1,4) show ?thesis unfolding a by simp
    next
      case False
      then have "0 < length d2" by simp
      moreover have "length d = length e + length d2" by (simp add: e(1))
      ultimately have "8 * p2 + 1 \<le> 200" using e(3) l(2) by linarith
      then have p2: "8 * p2 + 8 \<le> 200" by presburger
      have "adds inst s2 (xor_lane s2 p2 inst (lane_of_bytes (memcpy (replicate 8 0) 0 d2))) d2 (8 * p + length e)"
        by (rule adds_xor_padded [OF adds_length [OF e(4)] assms(2) p2]) (use e in simp_all)
      from adds_trans [OF e(4) this] show ?thesis using False e(1) unfolding a by simp
    qed
  qed
  show ?thesis
  proof (cases "data \<noteq> [] \<and> off mod 8 \<noteq> 0")
    case True
    let ?x = "xor_lane s (off div 8) inst (lane_of_bytes (memcpy (replicate 8 0) (off mod 8) (take n data)))"
    have n: "off mod 8 + length (take n data) \<le> 8" using mod8 by (simp add: n_def)
    have "0 < length data" using True by simp
    then have "8 * (off div 8) + 1 \<le> 200" using assms(3) off by linarith
    then have p: "8 * (off div 8) + 8 \<le> 200" by presburger
    have x: "adds inst s ?x (take n data) off" by (rule adds_xor_padded [OF assms(1,2) p n off])
    have A: "KeccakP1600times2_AddBytes s inst data off = (let (s, lanePosition, data) = add_lanes inst ?x (off div 8 + 1) (drop n data)
      in if data \<noteq> [] then xor_lane s lanePosition inst (lane_of_bytes (memcpy (replicate 8 0) 0 data)) else s)"
      using True by (simp add: KeccakP1600times2_AddBytes_def Let_def n_def)
    show ?thesis
    proof (cases "drop n data = []")
      case True
      then have "take n data = data" by simp
      with x True show ?thesis unfolding A by (simp add: add_lanes.simps)
    next
      case False
      then have "n = 8 - off mod 8" "n < length data" by (auto simp: n_def)
      then have pos: "8 * (off div 8 + 1) = off + length (take n data)" by simp presburger
      have "8 * (off div 8 + 1) + length (drop n data) \<le> 200" using pos assms(3) \<open>n < length data\<close> by simp
      from adds_trans [OF x rest [OF adds_length [OF x] this, unfolded pos]] show ?thesis unfolding A by simp
    qed
  next
    case False
    then have A: "KeccakP1600times2_AddBytes s inst data off = (let (s, lanePosition, data) = add_lanes inst s (off div 8) data
      in if data \<noteq> [] then xor_lane s lanePosition inst (lane_of_bytes (memcpy (replicate 8 0) 0 data)) else s)"
      by (auto simp: KeccakP1600times2_AddBytes_def Let_def)
    show ?thesis
    proof (cases "data = []")
      case True
      then show ?thesis using assms(1) unfolding A by (simp add: add_lanes.simps adds_refl)
    next
      case False
      then have "8 * (off div 8) = off" using \<open>\<not> (data \<noteq> [] \<and> off mod 8 \<noteq> 0)\<close> by auto
      with rest [OF assms(1), of "off div 8" data] assms(3) show ?thesis unfolding A by simp
    qed
  qed
qed

subsection \<open>Extraction\<close>

lemma extract_lanes_correct:
  assumes "inst < 2" and "8 * pos + n \<le> 200" and "extract_lanes inst s pos n out = (out', pos', n')"
  shows "n' < 8 \<and> n' \<le> n \<and> 8 * pos' + n' = 8 * pos + n \<and> out' = out @ seg (instance_bytes inst s) (8 * pos) (n - n')"
  using assms
proof (induction inst s pos n out arbitrary: out' pos' n' rule: extract_lanes.induct)
  case (1 inst s pos n out)
  show ?case
  proof (cases "8 \<le> n")
    case True
    let ?o = "out @ bytes_of_lane (s ! (2 * pos + inst))"
    have rec: "extract_lanes inst s (pos + 1) (n - 8) ?o = (out', pos', n')"
      using "1.prems"(3) True by (subst (asm) extract_lanes.simps) simp
    have le: "8 * (pos + 1) + (n - 8) \<le> 200" and p: "pos < 25" using "1.prems"(2) True by simp_all
    have IH: "n' < 8" "n' \<le> n - 8" "8 * pos' + n' = 8 * (pos + 1) + (n - 8)"
        "out' = ?o @ seg (instance_bytes inst s) (8 * (pos + 1)) (n - 8 - n')"
      using "1.IH" [OF True "1.prems"(1) le rec] by blast+
    have "seg (bytes_of_lane (s ! (2 * pos + inst))) 0 8 = bytes_of_lane (s ! (2 * pos + inst))" by (simp add: seg_def)
    then have lane: "bytes_of_lane (s ! (2 * pos + inst)) = seg (instance_bytes inst s) (8 * pos) 8"
      using seg_instance_lane [OF p, of 0 8 s inst] by simp
    have e: "n - n' = 8 + (n - 8 - n')" "8 * (pos + 1) = 8 * pos + 8" using IH(2) True by simp_all
    have "out' = out @ seg (instance_bytes inst s) (8 * pos) (n - n')"
      unfolding IH(4) e lane by (simp add: seg_def take_add add.commute)
    moreover have "n' \<le> n" using IH(2) by simp
    moreover have "8 * pos' + n' = 8 * pos + n" using IH(3) True unfolding e(2) by linarith
    ultimately show ?thesis using IH(1) by blast
  next
    case False
    then show ?thesis using "1.prems" by (auto simp: extract_lanes.simps seg_def)
  qed
qed

lemma ExtractBytes_correct:
  assumes "inst < 2" and "off + n \<le> 200"
  shows "KeccakP1600times2_ExtractBytes s inst off n = seg (instance_bytes inst s) off n"
proof -
  let ?S = "seg (instance_bytes inst s)"
  have seg_add: "?S a (b + c) = ?S a b @ ?S (a + b) c" for a b c
    by (simp add: seg_def take_add add.commute)
  have rest: "(let (out, lanePosition, sizeLeft) = extract_lanes inst s p m out
      in if 0 < sizeLeft then out @ seg (bytes_of_lane (s ! (2 * lanePosition + inst))) 0 sizeLeft else out) = out @ ?S (8 * p) m"
    if l: "8 * p + m \<le> 200" for p m out
  proof -
    obtain o2 p2 m2 where x: "extract_lanes inst s p m out = (o2, p2, m2)" by (metis prod_cases3)
    have e: "m2 < 8" "m2 \<le> m" "8 * p2 + m2 = 8 * p + m" "o2 = out @ ?S (8 * p) (m - m2)"
      using extract_lanes_correct [OF assms(1) l x] by blast+
    have p2: "8 * p2 = 8 * p + (m - m2)" using e(2,3) by linarith
    have split: "?S (8 * p) m = ?S (8 * p) (m - m2) @ ?S (8 * p2) m2"
      using seg_add [of "8 * p" "m - m2" m2] e(2) by (simp add: p2)
    show ?thesis
    proof (cases "0 < m2")
      case True
      then have "p2 < 25" using e(3) l by linarith
      then have "seg (bytes_of_lane (s ! (2 * p2 + inst))) 0 m2 = ?S (8 * p2) m2"
        using seg_instance_lane [of p2 0 m2 s inst] e(1) by simp
      with True show ?thesis unfolding x split e(4) by simp
    next
      case False
      then show ?thesis unfolding x e(4) by simp
    qed
  qed
  show ?thesis
  proof (cases "0 < n \<and> off mod 8 \<noteq> 0")
    case True
    define b where "b = min (8 - off mod 8) n"
    have off: "8 * (off div 8) + off mod 8 = off" by simp
    have b: "off mod 8 + b \<le> 8" "b \<le> n" using mod_less_divisor [of 8 off] by (auto simp: b_def)
    have p: "off div 8 < 25" by (rule less_mult_imp_div_less) (use assms(2) True in simp)
    have first: "seg (bytes_of_lane (s ! (2 * (off div 8) + inst))) (off mod 8) b = ?S off b"
      using seg_instance_lane [OF p b(1), of s inst] by (simp add: off)
    have A: "KeccakP1600times2_ExtractBytes s inst off n = (let (out, lanePosition, sizeLeft) = extract_lanes inst s (off div 8 + 1) (n - b) (?S off b)
      in if 0 < sizeLeft then out @ seg (bytes_of_lane (s ! (2 * lanePosition + inst))) 0 sizeLeft else out)"
      using True first by (simp add: KeccakP1600times2_ExtractBytes_def Let_def b_def)
    show ?thesis
    proof (cases "n = b")
      case True
      then show ?thesis unfolding A by (simp add: extract_lanes.simps)
    next
      case False
      then have "b = 8 - off mod 8" by (auto simp: b_def)
      then have pos: "8 * (off div 8 + 1) = off + b" by presburger
      then have "8 * (off div 8 + 1) + (n - b) \<le> 200" using assms(2) b(2) by simp
      from rest [OF this] show ?thesis unfolding A pos using seg_add [of off b "n - b"] b(2) by simp
    qed
  next
    case False
    then have A: "KeccakP1600times2_ExtractBytes s inst off n = (let (out, lanePosition, sizeLeft) = extract_lanes inst s (off div 8) n []
      in if 0 < sizeLeft then out @ seg (bytes_of_lane (s ! (2 * lanePosition + inst))) 0 sizeLeft else out)"
      by (auto simp: KeccakP1600times2_ExtractBytes_def Let_def)
    show ?thesis
    proof (cases "n = 0")
      case True
      then show ?thesis unfolding A by (simp add: extract_lanes.simps seg_def)
    next
      case n: False
      then have eq: "8 * (off div 8) = off" using False by auto
      show ?thesis unfolding A using rest [of "off div 8" n "[]", unfolded eq, OF assms(2)] by simp
    qed
  qed
qed

end
