(* ===== verification/Keccak_X2_Sim.thy ===== *)
theory Keccak_X2_Sim
  imports Keccak_X2_Correct
begin

text \<open>
  The simulation: \<open>x2_rel s c0 c1\<close> says that the two-way state \<open>s\<close> holds the incremental sponges \<open>c0\<close> and
  \<open>c1\<close>.  Absorbing, finalising and squeezing keep it, outside of the two fast paths that are only right
  below one full rate.
\<close>

definition permx2_ok :: "(bytes \<Rightarrow> bytes) \<Rightarrow> (u64 list \<Rightarrow> u64 list) \<Rightarrow> bool" where
  "permx2_ok perm permx2 \<longleftrightarrow> (\<forall>s. length s = 50 \<longrightarrow> length (permx2 s) = 50
     \<and> (\<forall>k<2. instance_bytes k (permx2 s) = perm (instance_bytes k s)))"

definition x2_rel :: "keccakx2_state \<Rightarrow> keccak_ctx \<Rightarrow> keccak_ctx \<Rightarrow> bool" where
  "x2_rel s c0 c1 \<longleftrightarrow> length (x2_s s) = 50 \<and> instance_bytes 0 (x2_s s) = kst c0 \<and> instance_bytes 1 (x2_s s) = kst c1
     \<and> ks25 c0 = x2_offset s \<and> ks25 c1 = x2_offset s"

lemma permx2D:
  assumes "permx2_ok perm permx2" and "length s = 50"
  shows "length (permx2 s) = 50" "instance_bytes 0 (permx2 s) = perm (instance_bytes 0 s)"
    "instance_bytes 1 (permx2 s) = perm (instance_bytes 1 s)" "instance_bytes (Suc 0) (permx2 s) = perm (instance_bytes (Suc 0) s)"
  using assms by (simp_all add: permx2_ok_def)

lemma x2_rel_init: "x2_rel keccakx2_inc_init keccak_inc_reset keccak_inc_reset"
proof -
  have z: "bytes_of_lane 0 = replicate 8 0" by (simp add: bytes_of_lane_def map_replicate_const)
  have "instance_bytes k (replicate 50 0) = replicate 200 0" if "k < 2" for k
  proof (rule nth_equalityI)
    fix i assume "i < length (instance_bytes k (replicate 50 0))"
    then have i: "i < 200" by simp
    then have "i div 8 < 25" by (intro less_mult_imp_div_less) simp
    then have "2 * (i div 8) + k < 50" using that by simp
    then show "instance_bytes k (replicate 50 0) ! i = replicate 200 0 ! i"
      using i by (simp add: nth_instance_bytes z)
  qed simp
  then show ?thesis by (simp add: x2_rel_def keccakx2_inc_init_def keccak_inc_reset_def)
qed

text \<open>Adding to both instances.\<close>

lemma add_both:
  assumes "length s = 50" and "off + length d0 \<le> 200" and "off + length d1 \<le> 200"
  defines "t \<equiv> KeccakP1600times2_AddBytes (KeccakP1600times2_AddBytes s 0 d0 off) 1 d1 off"
  shows "length t = 50" "instance_bytes 0 t = add_bytes (instance_bytes 0 s) d0 off"
    "instance_bytes 1 t = add_bytes (instance_bytes 1 s) d1 off"
    "instance_bytes (Suc 0) t = add_bytes (instance_bytes (Suc 0) s) d1 off"
proof -
  have a: "adds 0 s (KeccakP1600times2_AddBytes s 0 d0 off) d0 off"
    by (rule AddBytes_adds) (use assms in simp_all)
  have b: "adds 1 (KeccakP1600times2_AddBytes s 0 d0 off) t d1 off"
    unfolding t_def by (rule AddBytes_adds [OF adds_length [OF a]]) (use assms in simp_all)
  show "length t = 50" "instance_bytes 0 t = add_bytes (instance_bytes 0 s) d0 off"
    "instance_bytes 1 t = add_bytes (instance_bytes 1 s) d1 off"
    "instance_bytes (Suc 0) t = add_bytes (instance_bytes (Suc 0) s) d1 off"
    using a b by (simp_all add: adds_def)
qed

lemma MAX_LANES_rate [simp]: "MAX_LANES r * 8 = rate_bytes r" "8 * MAX_LANES r = rate_bytes r"
  by (cases r; simp add: MAX_LANES_def)+

lemma MAX_LANES_pos [simp]: "0 < MAX_LANES r"
  by (cases r) (simp_all add: MAX_LANES_def)

lemma MAX_LANES_le: "MAX_LANES r \<le> 25"
  by (cases r) (simp_all add: MAX_LANES_def)

lemma lane_bytes_seg: "8 * i + 8 \<le> length data \<Longrightarrow> bytes_of_lane (lane_of_bytes (seg data (8 * i) 8)) = seg data (8 * i) 8"
  by (simp add: bytes_of_lane_of_bytes)

lemma AddLanesAll_partial:
  fixes vl :: nat
  assumes "length s = 50" and "n \<noteq> MAX_LANES r" and "n \<le> 25" and "8 * n \<le> length data0" and "8 * n \<le> length data1"
  defines "t \<equiv> KeccakP1600times2_AddLanesAll vl r s data0 data1 n"
  shows "length t = 50" "instance_bytes 0 t = add_bytes (instance_bytes 0 s) (take (8 * n) data0) 0"
    "instance_bytes 1 t = add_bytes (instance_bytes 1 s) (take (8 * n) data1) 0"
proof -
  let ?P = "\<lambda>i t. length t = 50 \<and> instance_bytes 0 t = add_bytes (instance_bytes 0 s) (take (8 * i) data0) 0
      \<and> instance_bytes 1 t = add_bytes (instance_bytes 1 s) (take (8 * i) data1) 0"
  have "?P n t"
    unfolding t_def KeccakP1600times2_AddLanesAll_def Let_def if_not_P [OF assms(2)]
  proof (rule for_range_inv [where P = ?P])
    fix i t assume i: "0 \<le> i" "i < n" and P: "?P i t"
    have p: "i < 25" "8 * i + 8 \<le> length data0" "8 * i + 8 \<le> length data1" using i assms by simp_all
    let ?l0 = "lane_of_bytes (seg data0 (8 * i) 8)" and ?l1 = "lane_of_bytes (seg data1 (8 * i) 8)"
    define u where "u = t[2 * i := t ! (2 * i) XOR ?l0]"
    define v where "v = u[2 * i + 1 := u ! (2 * i + 1) XOR ?l1]"
    have t: "length t = 50" "8 * i + 8 \<le> 200" using P p by simp_all
    have a0: "adds 0 t u (seg data0 (8 * i) 8) (8 * i)"
      using adds_xor_lane [OF t(1) _ t(2), of 0 "seg data0 (8 * i) 8"] p by (simp add: xor_lane_def u_def)
    have a1: "adds 1 u v (seg data1 (8 * i) 8) (8 * i)"
      using adds_xor_lane [OF adds_length [OF a0] _ t(2), of 1 "seg data1 (8 * i) 8"] p by (simp add: xor_lane_def v_def)
    have tk: "take (8 * Suc i) d = take (8 * i) d @ seg d (8 * i) 8" for d :: bytes
      by (simp add: seg_def flip: take_add) (simp add: add.commute)
    have "add_bytes (add_bytes st (take (8 * i) d) 0) (seg d (8 * i) 8) (8 * i) = add_bytes st (take (8 * Suc i) d) 0"
      if "8 * i + 8 \<le> length d" for st d
      unfolding tk by (rule add_bytes_append) (use that in simp)
    then show "?P (Suc i) (t[2 * i := t ! (2 * i) XOR ?l0, 2 * i + 1 := t[2 * i := t ! (2 * i) XOR ?l0] ! (2 * i + 1) XOR ?l1])"
      unfolding u_def [symmetric] v_def [symmetric] using a0 a1 P p by (simp add: adds_def)
  qed (use assms(1) in simp_all)
  then show "length t = 50" "instance_bytes 0 t = add_bytes (instance_bytes 0 s) (take (8 * n) data0) 0"
    "instance_bytes 1 t = add_bytes (instance_bytes 1 s) (take (8 * n) data1) 0" by blast+
qed

subsection \<open>Absorbing\<close>

lemma x2_absorb_bytes_sim:
  assumes "permx2_ok perm permx2" and "perm_ok perm" and "x2_rel s c0 c1" and "absorbing r c0" and "absorbing r c1"
    and "length d0 = length d1" and "x2_absorb_bytes permx2 r d0 d1 s = (e0, e1, t)"
  shows "\<exists>c0' c1'. x2_rel t c0' c1' \<and> absorbing r c0' \<and> absorbing r c1' \<and> length e0 = length e1
    \<and> length e0 + x2_offset t < rate_bytes r
    \<and> fold (absorb_byte perm r) d0 c0 = fold (absorb_byte perm r) e0 c0'
    \<and> fold (absorb_byte perm r) d1 c1 = fold (absorb_byte perm r) e1 c1'"
  using assms
proof (induction permx2 r d0 d1 s arbitrary: c0 c1 e0 e1 t rule: x2_absorb_bytes.induct)
  case (1 permx2 r d0 d1 s)
  note P = "1.prems"
  show ?case
  proof (cases "rate_bytes r \<le> length d0 + x2_offset s")
    case False
    then have "e0 = d0" "e1 = d1" "t = s" using P(7) by (simp_all add: x2_absorb_bytes.simps)
    with False P show ?thesis by (intro exI [of _ c0] exI [of _ c1]) simp
  next
    case True
    define chunk where "chunk = rate_bytes r - x2_offset s"
    define st where "st = KeccakP1600times2_AddBytes (KeccakP1600times2_AddBytes (x2_s s) 0 (take chunk d0) (x2_offset s))
      1 (take chunk d1) (x2_offset s)"
    define s' where "s' = \<lparr>x2_s = permx2 st, x2_offset = 0\<rparr>"
    have off: "x2_offset s < rate_bytes r" "ks25 c0 = x2_offset s" "ks25 c1 = x2_offset s" "length (x2_s s) = 50"
        "instance_bytes 0 (x2_s s) = kst c0" "instance_bytes 1 (x2_s s) = kst c1" "length (kst c0) = 200" "length (kst c1) = 200"
      using P(3,4,5) by (auto simp: x2_rel_def absorbing_def)
    have ch: "0 < chunk" "chunk \<le> length d0" "chunk \<le> length d1" "x2_offset s + chunk = rate_bytes r"
      using off True P(6) by (simp_all add: chunk_def)
    have rec: "x2_absorb_bytes permx2 r (drop chunk d0) (drop chunk d1) s' = (e0, e1, t)"
      using P(7) True by (subst (asm) x2_absorb_bytes.simps) (simp add: Let_def chunk_def st_def s'_def)
    have le: "x2_offset s + length (take chunk d0) \<le> 200" "x2_offset s + length (take chunk d1) \<le> 200"
      using ch rate_bytes_le [of r] by simp_all
    note ab = add_both [OF off(4) le, folded st_def]
    define b0 where "b0 = \<lparr>kst = perm (add_bytes (kst c0) (take chunk d0) (ks25 c0)), ks25 = 0\<rparr>"
    define b1 where "b1 = \<lparr>kst = perm (add_bytes (kst c1) (take chunk d1) (ks25 c1)), ks25 = 0\<rparr>"
    have f0: "fold (absorb_byte perm r) (take chunk d0) c0 = b0"
      unfolding b0_def by (rule absorb_full) (use off ch in auto)
    have f1: "fold (absorb_byte perm r) (take chunk d1) c1 = b1"
      unfolding b1_def by (rule absorb_full) (use off ch in auto)
    have rel: "x2_rel s' b0 b1"
      using permx2D [OF P(1) ab(1)] ab off by (simp add: x2_rel_def s'_def b0_def b1_def)
    have abs: "absorbing r b0" "absorbing r b1" using off P(2) by (simp_all add: absorbing_def b0_def b1_def)
    have "\<exists>c0' c1'. x2_rel t c0' c1' \<and> absorbing r c0' \<and> absorbing r c1' \<and> length e0 = length e1
        \<and> length e0 + x2_offset t < rate_bytes r
        \<and> fold (absorb_byte perm r) (drop chunk d0) b0 = fold (absorb_byte perm r) e0 c0'
        \<and> fold (absorb_byte perm r) (drop chunk d1) b1 = fold (absorb_byte perm r) e1 c1'"
      using "1.IH" [OF True chunk_def refl st_def [unfolded chunk_def, folded chunk_def], folded s'_def, OF P(1,2) rel abs _ rec]
        P(6) by simp
    then show ?thesis by (simp add: fold_take_drop [of _ d0 c0 chunk] fold_take_drop [of _ d1 c1 chunk] f0 f1)
  qed
qed

theorem keccakx2_inc_absorb_sim:
  fixes vl :: nat
  assumes px: "permx2_ok perm permx2" and p: "perm_ok perm" and rel: "x2_rel s c0 c1"
    and abs: "absorbing r c0" "absorbing r c1" and len: "length in0 = length in1"
    and slow: "x2_offset s = 0 \<Longrightarrow> length in0 mod 8 = 0 \<Longrightarrow> length in0 < rate_bytes r"
  defines "t \<equiv> keccakx2_inc_absorb permx2 vl r in0 in1 s"
  shows "x2_rel t (keccak_inc_absorb perm r in0 c0) (keccak_inc_absorb perm r in1 c1)"
proof (cases "x2_offset s = 0 \<and> length in0 mod 8 = 0")
  case True
  let ?n = "length in0 div 8"
  have len8: "8 * ?n = length in0" using True by auto
  have lt: "length in0 < rate_bytes r" using slow True by simp
  then have n: "?n < MAX_LANES r" by (metis len8 MAX_LANES_rate(2) nat_mult_less_cancel_disj)
  have t: "t = x2_absorb_lanes permx2 vl r in0 in1 ?n s"
    using True by (simp add: t_def keccakx2_inc_absorb_def)
  have s: "length (x2_s s) = 50" "instance_bytes 0 (x2_s s) = kst c0" "instance_bytes 1 (x2_s s) = kst c1"
      "ks25 c0 = 0" "ks25 c1 = 0" "length (kst c0) = 200" "length (kst c1) = 200"
    using rel True abs by (simp_all add: x2_rel_def absorbing_def)
  have a: "keccak_inc_absorb perm r in0 c0 = \<lparr>kst = add_bytes (kst c0) in0 0, ks25 = length in0\<rparr>"
      "keccak_inc_absorb perm r in1 c1 = \<lparr>kst = add_bytes (kst c1) in1 0, ks25 = length in0\<rparr>"
    using lt s len by (simp_all add: keccak_inc_absorb_fold [OF p abs(1)] keccak_inc_absorb_fold [OF p abs(2)] absorb_run)
  show ?thesis
  proof (cases "?n = 0")
    case True
    then have "in0 = []" "in1 = []" using len8 len by simp_all
    then show ?thesis using rel by (simp add: t x2_absorb_lanes.simps keccak_inc_absorb_fold [OF p] abs)
  next
    case False
    have le: "?n \<noteq> MAX_LANES r" "?n \<le> 25" "8 * ?n \<le> length in0" "8 * ?n \<le> length in1"
      using n len8 len MAX_LANES_le [of r] by simp_all
    note al = AddLanesAll_partial [OF s(1) le, of vl]
    have "t = \<lparr>x2_s = KeccakP1600times2_AddLanesAll vl r (x2_s s) in0 in1 ?n, x2_offset = ?n * 8\<rparr>"
      unfolding t using False n by (subst x2_absorb_lanes.simps) (simp add: Let_def x2_absorb_lanes.simps)
    then show ?thesis
      using al s len8 len by (simp add: a x2_rel_def mult.commute)
  qed
next
  case False
  obtain e0 e1 u where x: "x2_absorb_bytes permx2 r in0 in1 s = (e0, e1, u)" by (metis prod_cases3)
  from x2_absorb_bytes_sim [OF px p rel abs len x] obtain c0' c1' where
    c: "x2_rel u c0' c1'" "absorbing r c0'" "absorbing r c1'" "length e0 = length e1" "length e0 + x2_offset u < rate_bytes r"
      "fold (absorb_byte perm r) in0 c0 = fold (absorb_byte perm r) e0 c0'"
      "fold (absorb_byte perm r) in1 c1 = fold (absorb_byte perm r) e1 c1'" by blast
  have u: "length (x2_s u) = 50" "instance_bytes 0 (x2_s u) = kst c0'" "instance_bytes 1 (x2_s u) = kst c1'"
      "ks25 c0' = x2_offset u" "ks25 c1' = x2_offset u" "length (kst c0') = 200" "length (kst c1') = 200"
    using c by (simp_all add: x2_rel_def absorbing_def)
  have a: "keccak_inc_absorb perm r in0 c0 = \<lparr>kst = add_bytes (kst c0') e0 (x2_offset u), ks25 = x2_offset u + length e0\<rparr>"
      "keccak_inc_absorb perm r in1 c1 = \<lparr>kst = add_bytes (kst c1') e1 (x2_offset u), ks25 = x2_offset u + length e0\<rparr>"
    using c u by (simp_all add: keccak_inc_absorb_fold [OF p abs(1)] keccak_inc_absorb_fold [OF p abs(2)] absorb_run add.commute)
  have le: "x2_offset u + length e0 \<le> 200" "x2_offset u + length e1 \<le> 200"
    using c(4,5) rate_bytes_le [of r] by linarith+
  show ?thesis
  proof (cases "e0 = []")
    case True
    then have "e1 = []" using c(4) by simp
    with True have "t = u" using False x by (auto simp: t_def keccakx2_inc_absorb_def Let_def)
    then show ?thesis using True \<open>e1 = []\<close> u unfolding a by (simp add: x2_rel_def)
  next
    case ne: False
    have "t = \<lparr>x2_s = KeccakP1600times2_AddBytes (KeccakP1600times2_AddBytes (x2_s u) 0 e0 (x2_offset u)) 1 e1 (x2_offset u),
        x2_offset = x2_offset u + length e0\<rparr>"
      using False x ne by (auto simp: t_def keccakx2_inc_absorb_def Let_def)
    then show ?thesis using add_both [OF u(1) le] u by (simp add: a x2_rel_def)
  qed
qed

subsection \<open>Finalising and squeezing\<close>

theorem keccakx2_inc_finalize_sim:
  assumes "x2_rel s c0 c1" and "absorbing r c0" and "absorbing r c1"
  shows "x2_rel (keccakx2_inc_finalize r s) (keccak_inc_finalize r 0x1F c0) (keccak_inc_finalize r 0x1F c1)"
proof -
  have s: "length (x2_s s) = 50" "instance_bytes 0 (x2_s s) = kst c0" "instance_bytes 1 (x2_s s) = kst c1"
      "ks25 c0 = x2_offset s" "ks25 c1 = x2_offset s" "length (kst c0) = 200" "length (kst c1) = 200" "x2_offset s < rate_bytes r"
    using assms by (simp_all add: x2_rel_def absorbing_def)
  have lt: "x2_offset s < 200" "rate_bytes r - 1 < 200" using s(8) rate_bytes_le [of r] by linarith+
  have one: "x2_offset s + length [b] \<le> 200" "rate_bytes r - 1 + length [b] \<le> 200" for b :: u8
    using lt by simp_all
  show ?thesis
  proof (cases "x2_offset s = rate_bytes r - 1")
    case True
    have pad: "(0x1F :: u8) OR 0x80 = 0x1F XOR 0x80" by simp
    note ab = add_both [OF s(1) one(1) one(1), of "0x1F OR 0x80" "0x1F OR 0x80"]
    have "add_byte (add_byte st 0x1F off) 0x80 off = add_bytes st [0x1F OR 0x80] off" if "off < length st" for st :: bytes and off
      unfolding pad using that by (simp add: add_byte_eq_add_bytes [symmetric] add_byte_def xor.assoc)
    then show ?thesis
      using True ab s lt by (simp add: x2_rel_def keccakx2_inc_finalize_def keccak_inc_finalize_def Let_def)
  next
    case False
    note ab = add_both [OF s(1) one(1) one(1), of "0x1F" "0x1F"]
    note cd = add_both [OF ab(1) one(2) one(2), of "0x80" "0x80"]
    show ?thesis
      using False ab cd s lt
      by (simp add: x2_rel_def keccakx2_inc_finalize_def keccak_inc_finalize_def Let_def add_byte_eq_add_bytes)
  qed
qed

lemma bytes_of_lanes_instance:
  assumes "n \<le> 25"
  shows "bytes_of_lanes (map (\<lambda>i. s ! (2 * i + k)) [0..<n]) = seg (instance_bytes k s) 0 (8 * n)"
  using assms
proof (induction n)
  case 0
  then show ?case by (simp add: bytes_of_lanes_def seg_def)
next
  case (Suc n)
  then have n: "n < 25" by simp
  have "seg (bytes_of_lane (s ! (2 * n + k))) 0 8 = bytes_of_lane (s ! (2 * n + k))" by (simp add: seg_def)
  then have l: "bytes_of_lane (s ! (2 * n + k)) = seg (instance_bytes k s) (8 * n) 8"
    using seg_instance_lane [OF n, of 0 8 s k] by simp
  have "seg (instance_bytes k s) 0 (8 * Suc n) = seg (instance_bytes k s) 0 (8 * n) @ seg (instance_bytes k s) (8 * n) 8"
    by (simp add: seg_def flip: take_add) (simp add: add.commute)
  then show ?case using Suc by (simp add: bytes_of_lanes_def l)
qed

text \<open>The fast path: at least one lane and less than one rate.\<close>

lemma squeeze_lanes_sim:
  assumes px: "permx2_ok perm permx2" and p: "perm_ok perm" and rel: "x2_rel s c0 c1"
    and off: "x2_offset s = 0" and n: "n mod 8 = 0" "n < rate_bytes r"
    and len: "length (kst c0) = 200" "length (kst c1) = 200"
  shows "\<exists>t. x2_squeeze_lanes permx2 vl r (n div 8) s = (fst (keccak_inc_squeeze perm r n c0), fst (keccak_inc_squeeze perm r n c1), t)"
proof (cases "n = 0")
  case True
  then show ?thesis
    using p rel off len by (simp add: x2_squeeze_lanes.simps keccak_inc_squeeze_bytes keccak_wf_def x2_rel_def)
next
  case False
  have n8: "8 * (n div 8) = n" using n(1) by auto
  have lt: "n div 8 < MAX_LANES r" by (metis n8 n(2) MAX_LANES_rate(2) nat_mult_less_cancel_disj)
  have le: "n div 8 \<le> 25" using lt MAX_LANES_le [of r] by simp
  have s: "length (x2_s s) = 50" "instance_bytes 0 (x2_s s) = kst c0" "instance_bytes 1 (x2_s s) = kst c1"
      "ks25 c0 = 0" "ks25 c1 = 0" using rel off by (simp_all add: x2_rel_def)
  have sq: "fst (keccak_inc_squeeze perm r n c) = seg (perm (kst c)) 0 n" if "ks25 c = 0" "length (kst c) = 200" for c
  proof -
    have "squeeze_bytes perm r n c = squeeze_bytes perm r n \<lparr>kst = perm (kst c), ks25 = rate_bytes r\<rparr>"
      using False that by (intro squeeze_refill) simp_all
    then show ?thesis
      using that n(2) p by (simp add: keccak_inc_squeeze_bytes [OF p] keccak_wf_def squeeze_run extract_bytes_def)
  qed
  have ex: "KeccakP1600times2_ExtractLanesAll vl r (permx2 (x2_s s)) (n div 8)
      = (seg (perm (kst c0)) 0 n, seg (perm (kst c1)) 0 n)"
    using lt bytes_of_lanes_instance [OF le, of "permx2 (x2_s s)" 0] bytes_of_lanes_instance [OF le, of "permx2 (x2_s s)" 1]
      permx2D [OF px s(1)] s n8
    by (simp add: KeccakP1600times2_ExtractLanesAll_def)
  show ?thesis
    using lt False n8
    by (subst x2_squeeze_lanes.simps) (auto simp: Let_def ex sq [OF s(4) len(1)] sq [OF s(5) len(2)] x2_squeeze_lanes.simps)
qed

end
