(* ===== verification/Cross_Csprng_X2.thy ===== *)
theory Cross_Csprng_X2
  imports Keccak_X2_Sim Cross_Merkle
begin

text \<open>
  The two-way expander and hash of the SVE2 branch of \<open>csprng_hash.h\<close>, over the two-way sponge of
  \<open>sha3.h\<close>.  The main lemma: with a faithful \<open>_f1600x2\<close>, the two results are those of the portable
  expander, as long as no length is a multiple of 8 that fills a whole rate.
\<close>

text \<open>The vector unit: lanes of a vector, and the assembly routine \<open>_f1600x2\<close>.\<close>

record sve_unit =
  sve_lanes :: nat
  f1600x2 :: "u64 list \<Rightarrow> u64 list"

definition xof_shake_x2_init :: keccakx2_state where
  "xof_shake_x2_init = keccakx2_inc_init"

definition xof_shake_x2_update :: "sve_unit \<Rightarrow> cross_params \<Rightarrow> bytes \<Rightarrow> bytes \<Rightarrow> keccakx2_state \<Rightarrow> keccakx2_state" where
  "xof_shake_x2_update V p in0 in1 s = keccakx2_inc_absorb (f1600x2 V) (sve_lanes V) (xof_rate p) in0 in1 s"

definition xof_shake_x2_final :: "cross_params \<Rightarrow> keccakx2_state \<Rightarrow> keccakx2_state" where
  "xof_shake_x2_final p s = keccakx2_inc_finalize (xof_rate p) s"

definition xof_shake_x2_extract :: "sve_unit \<Rightarrow> cross_params \<Rightarrow> nat \<Rightarrow> keccakx2_state \<Rightarrow> bytes \<times> bytes \<times> keccakx2_state" where
  "xof_shake_x2_extract V p n s = keccakx2_inc_squeeze (f1600x2 V) (sve_lanes V) (xof_rate p) n s"

text \<open>Both seeds have the length that the code passes once.\<close>

definition csprng_initialize_x2 :: "sve_unit \<Rightarrow> cross_params \<Rightarrow> bytes \<Rightarrow> bytes \<Rightarrow> u16 \<Rightarrow> u16 \<Rightarrow> keccakx2_state" where
  "csprng_initialize_x2 V p seed1 seed2 dsc1 dsc2 =
     (let s = xof_shake_x2_init;
          s = xof_shake_x2_update V p seed1 seed2 s;
          dsc_ordered1 = [ucast (dsc1 AND 0xff), ucast (drop_bit 8 dsc1 AND 0xff)];
          dsc_ordered2 = [ucast (dsc2 AND 0xff), ucast (drop_bit 8 dsc2 AND 0xff)];
          s = xof_shake_x2_update V p dsc_ordered1 dsc_ordered2 s
      in xof_shake_x2_final p s)"

definition csprng_randombytes_x2 :: "sve_unit \<Rightarrow> cross_params \<Rightarrow> nat \<Rightarrow> keccakx2_state \<Rightarrow> bytes \<times> bytes \<times> keccakx2_state" where
  "csprng_randombytes_x2 V p xlen s = xof_shake_x2_extract V p xlen s"

record par_shake_ctx =
  state1 :: keccak_ctx
  state2 :: keccakx2_state

text \<open>\<open>par_level\<close> selects the scalar or the two-way state; any other level does nothing.\<close>

definition csprng_initialize_par :: "sve_unit \<Rightarrow> cross_params \<Rightarrow> nat \<Rightarrow> par_shake_ctx \<Rightarrow> bytes \<Rightarrow> bytes \<Rightarrow> u16 \<Rightarrow> u16
    \<Rightarrow> par_shake_ctx" where
  "csprng_initialize_par V p par_level states seed1 seed2 dsc1 dsc2 =
     (if par_level = 1 then states\<lparr>state1 := csprng_initialize p seed1 dsc1\<rparr>
      else if par_level = 2 then states\<lparr>state2 := csprng_initialize_x2 V p seed1 seed2 dsc1 dsc2\<rparr>
      else states)"

text \<open>\<open>x1\<close> and \<open>x2\<close> are the two output buffers, the arguments their contents before the call.\<close>

definition csprng_randombytes_par :: "sve_unit \<Rightarrow> cross_params \<Rightarrow> nat \<Rightarrow> par_shake_ctx \<Rightarrow> bytes \<Rightarrow> bytes \<Rightarrow> nat
    \<Rightarrow> bytes \<times> bytes \<times> par_shake_ctx" where
  "csprng_randombytes_par V p par_level states x1 x2 xlen =
     (if par_level = 1
      then let (x1, s) = csprng_randombytes p xlen (state1 states) in (x1, x2, states\<lparr>state1 := s\<rparr>)
      else if par_level = 2
      then let (x1, x2, s) = csprng_randombytes_x2 V p xlen (state2 states) in (x1, x2, states\<lparr>state2 := s\<rparr>)
      else (x1, x2, states))"

text \<open>The local \<open>PAR_CSPRNG_STATE_T states\<close>, written before it is read.\<close>

definition par_states :: par_shake_ctx where
  "par_states = \<lparr>state1 = keccak_inc_reset, state2 = keccakx2_inc_init\<rparr>"

definition hash_par :: "sve_unit \<Rightarrow> cross_params \<Rightarrow> nat \<Rightarrow> bytes \<Rightarrow> bytes \<Rightarrow> bytes \<Rightarrow> bytes \<Rightarrow> u16 \<Rightarrow> u16 \<Rightarrow> bytes \<times> bytes" where
  "hash_par V p par_level digest_1 digest_2 m_1 m_2 dsc1 dsc2 =
     (let states = csprng_initialize_par V p par_level par_states m_1 m_2 dsc1 dsc2;
          (digest_1, digest_2, states) =
            csprng_randombytes_par V p par_level states digest_1 digest_2 (HASH_DIGEST_LENGTH p)
      in (digest_1, digest_2))"

subsection \<open>Equality with the portable expander\<close>

definition sve_ok :: "sve_unit \<Rightarrow> cross_params \<Rightarrow> bool" where
  "sve_ok V p \<longleftrightarrow> perm_ok (keccak_perm p) \<and> permx2_ok (keccak_perm p) (f1600x2 V) \<and> 0 < sve_lanes V"

text \<open>The lengths on which the fast paths of the two-way sponge are right.\<close>

definition x2_len :: "cross_params \<Rightarrow> nat \<Rightarrow> bool" where
  "x2_len p n \<longleftrightarrow> (n mod 8 = 0 \<longrightarrow> n < rate_bytes (xof_rate p))"

lemma sve_ok_perm [simp]: "sve_ok V p \<Longrightarrow> perm_ok (keccak_perm p)"
  by (simp add: sve_ok_def)

lemma dsc_ordered_len [simp]: "length (dsc_ordered d) = 2"
  by (simp add: dsc_ordered_def)

lemma csprng_initialize_x2_sim:
  assumes V: "sve_ok V p" and len: "length seed1 = length seed2" "x2_len p (length seed1)"
  shows "x2_rel (csprng_initialize_x2 V p seed1 seed2 dsc1 dsc2) (csprng_initialize p seed1 dsc1) (csprng_initialize p seed2 dsc2)"
proof -
  let ?r = "xof_rate p" and ?perm = "keccak_perm p"
  let ?ab = "keccak_inc_absorb ?perm ?r"
  have ok: "perm_ok ?perm" "permx2_ok ?perm (f1600x2 V)" using V by (simp_all add: sve_ok_def)
  have a: "x2_rel (keccakx2_inc_absorb (f1600x2 V) (sve_lanes V) ?r seed1 seed2 keccakx2_inc_init)
      (?ab seed1 keccak_inc_reset) (?ab seed2 keccak_inc_reset)"
    by (rule keccakx2_inc_absorb_sim [OF ok(2,1) x2_rel_init]) (use len in \<open>auto simp: x2_len_def\<close>)
  have b: "x2_rel (keccakx2_inc_absorb (f1600x2 V) (sve_lanes V) ?r (dsc_ordered dsc1) (dsc_ordered dsc2)
      (keccakx2_inc_absorb (f1600x2 V) (sve_lanes V) ?r seed1 seed2 keccakx2_inc_init))
      (?ab (dsc_ordered dsc1) (?ab seed1 keccak_inc_reset)) (?ab (dsc_ordered dsc2) (?ab seed2 keccak_inc_reset))"
    by (rule keccakx2_inc_absorb_sim [OF ok(2,1) a]) (use ok in simp_all)
  have "x2_rel (keccakx2_inc_finalize ?r (keccakx2_inc_absorb (f1600x2 V) (sve_lanes V) ?r (dsc_ordered dsc1) (dsc_ordered dsc2)
      (keccakx2_inc_absorb (f1600x2 V) (sve_lanes V) ?r seed1 seed2 keccakx2_inc_init)))
      (keccak_inc_finalize ?r 0x1F (?ab (dsc_ordered dsc1) (?ab seed1 keccak_inc_reset)))
      (keccak_inc_finalize ?r 0x1F (?ab (dsc_ordered dsc2) (?ab seed2 keccak_inc_reset)))"
    by (rule keccakx2_inc_finalize_sim [OF b]) (use ok in simp_all)
  then show ?thesis
    by (simp add: csprng_initialize_x2_def csprng_initialize_def xof_shake_x2_init_def xof_shake_x2_update_def
        xof_shake_x2_final_def xof_shake_init_def xof_shake_update_def xof_shake_final_def dsc_ordered_def Let_def)
qed

lemma csprng_initialize_absorbed: "ks25 (csprng_initialize p seed dsc) = 0"
  by (simp add: csprng_initialize_def xof_shake_final_def keccak_inc_finalize_def Let_def)

theorem csprng_x2_correct:
  assumes V: "sve_ok V p" and len: "length seed1 = length seed2" "x2_len p (length seed1)"
    and n: "n mod 8 = 0" "n < rate_bytes (xof_rate p)"
  obtains t where "csprng_randombytes_x2 V p n (csprng_initialize_x2 V p seed1 seed2 dsc1 dsc2)
    = (fst (csprng_randombytes p n (csprng_initialize p seed1 dsc1)),
       fst (csprng_randombytes p n (csprng_initialize p seed2 dsc2)), t)"
proof -
  let ?s = "csprng_initialize_x2 V p seed1 seed2 dsc1 dsc2"
  let ?c1 = "csprng_initialize p seed1 dsc1" and ?c2 = "csprng_initialize p seed2 dsc2"
  have ok: "perm_ok (keccak_perm p)" "permx2_ok (keccak_perm p) (f1600x2 V)" using V by (simp_all add: sve_ok_def)
  note rel = csprng_initialize_x2_sim [OF V len]
  have off: "x2_offset ?s = 0" using rel [of dsc1 dsc2] by (simp add: x2_rel_def csprng_initialize_absorbed)
  have l: "length (kst ?c1) = 200" "length (kst ?c2) = 200"
    using csprng_initialize_wf [OF ok(1)] by (simp_all add: keccak_wf_def)
  from squeeze_lanes_sim [OF ok(2,1) rel off n l, of "sve_lanes V"] that show ?thesis
    using off n(1) by (auto simp: csprng_randombytes_x2_def xof_shake_x2_extract_def keccakx2_inc_squeeze_def
        csprng_randombytes_def xof_shake_extract_def)
qed

text \<open>\<open>par_xof_input\<close> and \<open>par_xof_output\<close> at level 2.\<close>

lemma par_xof_2:
  assumes "sve_ok V p" and "length seed1 = length seed2" and "x2_len p (length seed1)"
    and "n mod 8 = 0" and "n < rate_bytes (xof_rate p)"
  shows "\<exists>t. csprng_randombytes_par V p 2 (csprng_initialize_par V p 2 states seed1 seed2 dsc1 dsc2) x1 x2 n
    = (fst (csprng_randombytes p n (csprng_initialize p seed1 dsc1)),
       fst (csprng_randombytes p n (csprng_initialize p seed2 dsc2)), t)"
proof -
  obtain t where "csprng_randombytes_x2 V p n (csprng_initialize_x2 V p seed1 seed2 dsc1 dsc2)
    = (fst (csprng_randombytes p n (csprng_initialize p seed1 dsc1)),
       fst (csprng_randombytes p n (csprng_initialize p seed2 dsc2)), t)"
    by (rule csprng_x2_correct [OF assms])
  then show ?thesis by (simp add: csprng_randombytes_par_def csprng_initialize_par_def)
qed

definition digest_x2 :: "cross_params \<Rightarrow> bool" where
  "digest_x2 p \<longleftrightarrow> HASH_DIGEST_LENGTH p mod 8 = 0 \<and> HASH_DIGEST_LENGTH p < rate_bytes (xof_rate p)"

theorem hash_par_2:
  assumes "sve_ok V p" and "digest_x2 p" and "length m_1 = length m_2" and "x2_len p (length m_1)"
  shows "hash_par V p 2 d1 d2 m_1 m_2 dsc1 dsc2 = (hash p m_1 dsc1, hash p m_2 dsc2)"
  using par_xof_2 [OF assms(1,3,4), of "HASH_DIGEST_LENGTH p" par_states dsc1 dsc2 d1 d2] assms(2)
  by (auto simp: hash_par_def Let_def hash_eq_csprng digest_x2_def)

theorem hash_par_1: "hash_par V p 1 d1 d2 m_1 m_2 dsc1 dsc2 = (hash p m_1 dsc1, d2)"
  by (simp add: hash_par_def csprng_initialize_par_def csprng_randombytes_par_def hash_eq_csprng Let_def split_beta)

text \<open>A faithful \<open>_f1600x2\<close> for every permutation: take the two states apart and put them together.\<close>

definition f1600x2_of :: "(bytes \<Rightarrow> bytes) \<Rightarrow> u64 list \<Rightarrow> u64 list" where
  "f1600x2_of perm s = map (\<lambda>i. lane_of_bytes (seg (perm (instance_bytes (i mod 2) s)) (8 * (i div 2)) 8)) [0..<50]"

lemma permx2_ok_f1600x2_of: "perm_ok perm \<Longrightarrow> permx2_ok perm (f1600x2_of perm)"
  unfolding permx2_ok_def
proof (intro allI impI conjI)
  fix s :: "u64 list"
  show "length (f1600x2_of perm s) = 50" by (simp add: f1600x2_of_def)
  fix k :: nat assume perm: "perm_ok perm" and k: "k < 2"
  have l: "length (perm (instance_bytes k s)) = 200" using perm by simp
  show "instance_bytes k (f1600x2_of perm s) = perm (instance_bytes k s)"
  proof (rule nth_equalityI)
    fix i assume "i < length (instance_bytes k (f1600x2_of perm s))"
    then have i: "i < 200" by simp
    then have d: "i div 8 < 25" by (intro less_mult_imp_div_less) simp
    then have lt: "2 * (i div 8) + k < 50" using k by simp
    have m: "(2 * (i div 8) + k) mod 2 = k" "(2 * (i div 8) + k) div 2 = i div 8" using k by auto
    have s8: "length (seg (perm (instance_bytes k s)) (8 * (i div 8)) 8) = 8" using d l by simp
    show "instance_bytes k (f1600x2_of perm s) ! i = perm (instance_bytes k s) ! i"
      using i lt m l d by (simp add: nth_instance_bytes f1600x2_of_def bytes_of_lane_of_bytes [OF s8] nth_seg)
  qed (use l in simp)
qed

end
