(* ===== verification/Cross_Sve_Walk.thy ===== *)
theory Cross_Sve_Walk
  imports Cross_Seedtree
begin

text \<open>
  The loop nests of the SVE2 branches of \<open>merkle.c\<close> and \<open>seedtree.c\<close>, which handle two nodes of a level
  at a time, as combinators over the loop body like the portable ones.  Each is shown to be the portable
  nest when handling a pair is handling its two nodes one after the other.
\<close>

subsection \<open>Pairs of one level\<close>

text \<open>
  \<open>for (; i >= 2; i -= 4)\<close> with the fallback that handles node \<open>i\<close> alone and takes 2 off; \<open>n\<close> is
  \<open>i + 2\<close>.  The result has the \<open>n\<close> with which the loop ended.
\<close>

function pairs_down :: "(nat \<Rightarrow> 's \<Rightarrow> bool) \<Rightarrow> (nat \<Rightarrow> 's \<Rightarrow> 's) \<Rightarrow> (nat \<Rightarrow> 's \<Rightarrow> 's) \<Rightarrow> nat \<Rightarrow> 's \<Rightarrow> nat \<times> 's" where
  "pairs_down two pair single n s =
     (if 4 \<le> n
      then if two (n - 2) s then pairs_down two pair single (n - 4) (pair (n - 2) s)
           else pairs_down two pair single (n - 2) (single (n - 2) s)
      else (n, s))"
  by pat_completeness auto
termination by (relation "measure (\<lambda>(two, pair, single, n, s). n)") auto

declare pairs_down.simps [simp del]

lemma for_down2_0 [simp]: "for_down2 0 f s = s"
  by (simp add: for_down2_def)

lemma for_down2_step: "for_down2 (2 * Suc m) f s = for_down2 (2 * m) f (f (2 * m) s)"
proof -
  have "[0..<Suc m] = 0 # map Suc [0..<m]" by (simp add: map_Suc_upt upt_conv_Cons del: upt_Suc)
  then show ?thesis by (simp add: for_down2_def comp_def del: upt_Suc)
qed

lemma pairs_down_even:
  assumes "Q m s" and "\<And>j t. j < m \<Longrightarrow> Q (Suc j) t \<Longrightarrow> Q j (single (2 * j) t)"
    and "\<And>j t. Suc j < m \<Longrightarrow> Q (Suc (Suc j)) t \<Longrightarrow> two (2 * Suc j) t
      \<Longrightarrow> pair (2 * Suc j) t = single (2 * j) (single (2 * Suc j) t)"
  shows "\<exists>e t. pairs_down two pair single (2 * m) s = (e, t) \<and> (e = 0 \<or> e = 2)
    \<and> for_down2 e single t = for_down2 (2 * m) single s"
  using assms
proof (induction m arbitrary: s rule: less_induct)
  case (less m)
  show ?case
  proof (cases "m < 2")
    case True
    then have e: "pairs_down two pair single (2 * m) s = (2 * m, s)" by (subst pairs_down.simps) simp
    show ?thesis unfolding e using True by auto
  next
    case False
    then have "m = Suc (Suc (m - 2))" by simp
    then obtain j where m: "m = Suc (Suc j)" by blast
    have ge: "4 \<le> 2 * m" "2 * m - 2 = 2 * Suc j" "2 * m - 4 = 2 * j" using m by simp_all
    have unf: "pairs_down two pair single (2 * m) s = (if two (2 * Suc j) s
        then pairs_down two pair single (2 * j) (pair (2 * Suc j) s)
        else pairs_down two pair single (2 * Suc j) (single (2 * Suc j) s))"
      by (subst pairs_down.simps) (simp only: ge if_True)
    have fd: "for_down2 (2 * m) single s = for_down2 (2 * Suc j) single (single (2 * Suc j) s)"
        "for_down2 (2 * m) single s = for_down2 (2 * j) single (single (2 * j) (single (2 * Suc j) s))"
      unfolding m by (simp_all only: for_down2_step)
    note inv = less.prems(2) and step = less.prems(3)
    have Qs: "Q (Suc (Suc j)) s" using less.prems(1) by (simp only: m)
    have Q1: "Q (Suc j) (single (2 * Suc j) s)" by (rule inv [OF _ Qs]) (simp add: m)
    have Q2: "Q j (single (2 * j) (single (2 * Suc j) s))" by (rule inv [OF _ Q1]) (simp add: m)
    show ?thesis
    proof (cases "two (2 * Suc j) s")
      case True
      have p: "pair (2 * Suc j) s = single (2 * j) (single (2 * Suc j) s)"
        by (rule step [OF _ Qs True]) (simp add: m)
      have "\<exists>e t. pairs_down two pair single (2 * j) (pair (2 * Suc j) s) = (e, t) \<and> (e = 0 \<or> e = 2)
          \<and> for_down2 e single t = for_down2 (2 * j) single (pair (2 * Suc j) s)"
        unfolding p by (rule less.IH [OF _ Q2 inv step]) (simp_all add: m)
      then show ?thesis unfolding unf if_P [OF True] fd(2) p .
    next
      case False
      have "\<exists>e t. pairs_down two pair single (2 * Suc j) (single (2 * Suc j) s) = (e, t) \<and> (e = 0 \<or> e = 2)
          \<and> for_down2 e single t = for_down2 (2 * Suc j) single (single (2 * Suc j) s)"
        by (rule less.IH [OF _ Q1 inv step]) (simp_all add: m)
      then show ?thesis unfolding unf if_not_P [OF False] fd(1) .
    qed
  qed
qed

text \<open>\<open>for (; i <= n - 2; i += 2)\<close> and the last node when \<open>n\<close> is odd.\<close>

definition pairs_up :: "nat \<Rightarrow> (nat \<Rightarrow> 's \<Rightarrow> 's) \<Rightarrow> (nat \<Rightarrow> 's \<Rightarrow> 's) \<Rightarrow> 's \<Rightarrow> 's" where
  "pairs_up n pair single s =
     (let s = for_range 0 (n div 2) (\<lambda>h. pair (2 * h)) s;
          i = 2 * (n div 2)
      in if i < n then single i s else s)"

lemma pairs_up_eq:
  assumes Q: "Q s" and inv: "\<And>i t. i < n \<Longrightarrow> Q t \<Longrightarrow> Q (single i t)"
    and pair: "\<And>i t. Suc i < n \<Longrightarrow> Q t \<Longrightarrow> pair i t = single (Suc i) (single i t)"
  shows "pairs_up n pair single s = for_range 0 n single s"
proof -
  have h: "for_range 0 h (\<lambda>h. pair (2 * h)) s = for_range 0 (2 * h) single s
      \<and> Q (for_range 0 (2 * h) single s)" if "2 * h \<le> n" for h
    using that
  proof (induction h)
    case 0
    then show ?case using Q by simp
  next
    case (Suc h)
    let ?t = "for_range 0 (2 * h) single s"
    have t: "for_range 0 h (\<lambda>h. pair (2 * h)) s = ?t" "Q ?t" using Suc by simp_all
    have lt: "Suc (2 * h) < n" using Suc.prems by simp
    have "Q (single (2 * h) ?t)" by (rule inv) (use lt t in simp_all)
    then have "Q (single (Suc (2 * h)) (single (2 * h) ?t))" by (rule inv [rotated]) (use lt in simp)
    then show ?case using pair [OF lt t(2)] t(1) by (simp add: for_range_Suc)
  qed
  have e: "2 * (n div 2) \<le> n" by simp
  show ?thesis
  proof (cases "even n")
    case True
    then show ?thesis using h [OF e] by (simp add: pairs_up_def Let_def)
  next
    case False
    then have n: "n = Suc (2 * (n div 2))" by presburger
    have "for_range 0 n single s = single (2 * (n div 2)) (for_range 0 (2 * (n div 2)) single s)"
      by (subst n) (simp add: for_range_Suc)
    then show ?thesis using h [OF e] False by (auto simp: pairs_up_def Let_def)
  qed
qed

subsection \<open>The walks\<close>

text \<open>
  From the leaves to the root (\<open>tree_root\<close>, \<open>recompute_root\<close>): \<open>two\<close> is the test on a pair, \<open>rest\<close> the test
  on what is left of a level, \<open>i == 0\<close> in one and the loop \<open>i >= 0\<close> in the other.
\<close>

definition walk_up_x2 :: "cross_params \<Rightarrow> (nat \<Rightarrow> nat \<Rightarrow> 's \<Rightarrow> bool) \<Rightarrow> (nat \<Rightarrow> bool)
    \<Rightarrow> (nat \<Rightarrow> nat \<Rightarrow> nat \<Rightarrow> nat \<Rightarrow> 's \<Rightarrow> 's) \<Rightarrow> (nat \<Rightarrow> nat \<Rightarrow> 's \<Rightarrow> 's) \<Rightarrow> 's \<Rightarrow> 's" where
  "walk_up_x2 p two rest pair single s = fst (for_range 0 (tree_log p) (\<lambda>k (s, start_node).
     let level = tree_log p - k;
         parent = (\<lambda>x. PARENT x + drop_bit 1 (off p (level - 1)));
         (n, s) = pairs_down (\<lambda>i. two (start_node + i) (start_node + (i - 2)))
           (\<lambda>i. pair (start_node + i) (parent (start_node + i)) (start_node + (i - 2)) (parent (start_node + (i - 2))))
           (\<lambda>i. single (start_node + i) (parent (start_node + i))) (npl p level) s;
         s = (if rest n then for_down2 n (\<lambda>i. single (start_node + i) (parent (start_node + i))) s else s)
     in (s, start_node - npl p (level - 1)))
     (s, TREE_LEAVES_START_INDICES p ! 0))"

text \<open>
  \<open>compute_seeds_to_publish\<close> walks each level forwards, four pairs at a time and then the rest.
\<close>

definition walk_up_forward :: "cross_params \<Rightarrow> (nat \<Rightarrow> nat \<Rightarrow> 's \<Rightarrow> 's) \<Rightarrow> 's \<Rightarrow> 's" where
  "walk_up_forward p body s = fst (for_range 0 (tree_log p) (\<lambda>k (s, start_node).
     let level = tree_log p - k;
         parent_adj = drop_bit 1 (off p (level - 1));
         num_nodes = npl p level;
         step = (\<lambda>i. body (start_node + i) (PARENT (start_node + i) + parent_adj));
         s = for_range 0 (num_nodes div 8) (\<lambda>h. for_range 0 4 (\<lambda>k. step (8 * h + 2 * k))) s;
         s = for_range (4 * (num_nodes div 8)) (num_nodes div 2) (\<lambda>h. step (2 * h)) s
     in (s, start_node - npl p (level - 1)))
     (s, TREE_LEAVES_START_INDICES p ! 0))"

definition walk_down_fathers_x2 :: "cross_params \<Rightarrow> (nat \<Rightarrow> nat \<Rightarrow> nat \<Rightarrow> nat \<Rightarrow> 's \<Rightarrow> 's)
    \<Rightarrow> (nat \<Rightarrow> nat \<Rightarrow> 's \<Rightarrow> 's) \<Rightarrow> 's \<Rightarrow> 's" where
  "walk_down_fathers_x2 p pair single s = fst (for_range 0 (tree_log p) (\<lambda>level (s, start_node).
     let left = (\<lambda>x. LEFT_CHILD x - off p level);
         s = pairs_up (npl p level - lpl p level)
           (\<lambda>i. pair (start_node + i) (left (start_node + i)) (start_node + i + 1) (left (start_node + i + 1)))
           (\<lambda>i. single (start_node + i) (left (start_node + i))) s
     in (s, start_node + npl p level))
     (s, 0))"

text \<open>The pair gets \<open>start_node\<close>, \<open>node_in_level\<close> and \<open>level\<close>, from which the code computes the rest.\<close>

definition walk_down_nodes_x2 :: "cross_params
    \<Rightarrow> (nat \<Rightarrow> nat \<Rightarrow> nat \<Rightarrow> bool \<Rightarrow> nat \<Rightarrow> nat \<Rightarrow> nat \<Rightarrow> bool \<Rightarrow> 's \<Rightarrow> 's)
    \<Rightarrow> (nat \<Rightarrow> nat \<Rightarrow> nat \<Rightarrow> bool \<Rightarrow> 's \<Rightarrow> 's) \<Rightarrow> 's \<Rightarrow> 's" where
  "walk_down_nodes_x2 p pair single s = fst (for_range 1 (tree_log p + 1) (\<lambda>level (s, start_node).
     let father = (\<lambda>x. PARENT x + drop_bit 1 (off p (level - 1)));
         left = (\<lambda>x. LEFT_CHILD x - off p level);
         expand_limit = npl p level - lpl p level;
         s = pairs_up (npl p level)
           (\<lambda>i. let curr1 = start_node + i; curr2 = start_node + i + 1
                in pair curr1 (father curr1) (left curr1) (i < expand_limit)
                     curr2 (father curr2) (left curr2) (i + 1 < expand_limit))
           (\<lambda>i. let curr = start_node + i in single curr (father curr) (left curr) (i < expand_limit)) s
     in (s, start_node + npl p level))
     (s, 1))"

subsection \<open>Equality with the portable walks\<close>

context cross_tree
begin

text \<open>One level of the walk up, with the index of the inner node.\<close>

lemma level_up:
  assumes "l < tree_log p"
  shows "for_down2 (npl p (Suc l)) (\<lambda>i. body (level_start p (Suc l) + i)
      (PARENT (level_start p (Suc l) + i) + drop_bit 1 (off p l))) t
    = for_down (inner_count l) (\<lambda>j. body (2 * (inner_before p l + j) + 1) (inner_nodes p ! (inner_before p l + j))) t"
proof -
  have "for_down2 (npl p (Suc l)) (\<lambda>i. body (level_start p (Suc l) + i)
      (PARENT (level_start p (Suc l) + i) + drop_bit 1 (off p l))) t
    = for_down (inner_count l) (\<lambda>j. body (level_start p (Suc l) + 2 * j)
        (PARENT (level_start p (Suc l) + 2 * j) + drop_bit 1 (off p l))) t"
    using wf_level(2) [OF assms] by (simp add: inner_count_def for_down2_even)
  also have "\<dots> = for_down (inner_count l)
      (\<lambda>j. body (2 * (inner_before p l + j) + 1) (inner_nodes p ! (inner_before p l + j))) t"
    by (rule for_down_cong) (simp only: child_pos [OF assms] PARENT_child [OF assms])
  finally show ?thesis .
qed

lemma walk_levels_up:
  "fst (for_range 0 (tree_log p) (\<lambda>k (s, start_node).
      (F (tree_log p - k) start_node s, start_node - npl p (tree_log p - k - 1))) (s, TREE_LEAVES_START_INDICES p ! 0))
    = for_down (tree_log p) (\<lambda>l. F (Suc l) (level_start p (Suc l))) s"
proof -
  let ?C = "\<lambda>k. level_start p (tree_log p - k)"
  have C0: "TREE_LEAVES_START_INDICES p ! 0 = ?C 0" using wf by (simp add: wf_tree_def)
  have C: "?C (Suc k) = ?C k - npl p (tree_log p - k - 1)" if "k < tree_log p" for k
    using level_start_step [of "tree_log p - k - 1"] that by (simp add: Suc_diff_Suc)
  have "fst (for_range 0 (tree_log p) (\<lambda>k (s, start_node).
      (F (tree_log p - k) start_node s, start_node - npl p (tree_log p - k - 1))) (s, ?C 0))
    = for_range 0 (tree_log p) (\<lambda>k. F (tree_log p - k) (?C k)) s"
    by (subst for_range_counter [where C = ?C and g = "\<lambda>k c. c - npl p (tree_log p - k - 1)"]) (use C in auto)
  also have "\<dots> = for_down (tree_log p) (\<lambda>l. F (Suc l) (level_start p (Suc l))) s"
    by (rule for_range_downward [where f = "\<lambda>level. F level (level_start p level)"])
  finally show ?thesis unfolding C0 .
qed

text \<open>A walk up that agrees with the portable one on every level of a state in \<open>Q\<close>.\<close>

lemma walk_up_by_level:
  assumes Q: "Q (par_T p - 1) s" and inv: "\<And>k t. k < par_T p - 1 \<Longrightarrow> Q (Suc k) t \<Longrightarrow> Q k (body (2 * k + 1) (inner_nodes p ! k) t)"
    and level: "\<And>l t. l < tree_log p \<Longrightarrow> Q (inner_before p l + inner_count l) t \<Longrightarrow> F (Suc l) (level_start p (Suc l)) t
      = for_down2 (npl p (Suc l)) (\<lambda>i. body (level_start p (Suc l) + i)
          (PARENT (level_start p (Suc l) + i) + drop_bit 1 (off p l))) t"
  shows "for_down (tree_log p) (\<lambda>l. F (Suc l) (level_start p (Suc l))) s = walk_up p body s"
proof -
  let ?G = "\<lambda>level start. for_down2 (npl p level) (\<lambda>i. body (start + i) (PARENT (start + i) + drop_bit 1 (off p (level - 1))))"
  have "(\<lambda>a b. a = b \<and> Q (inner_before p 0) a) (for_down (tree_log p) (\<lambda>l. F (Suc l) (level_start p (Suc l))) s)
      (for_down (tree_log p) (\<lambda>l. ?G (Suc l) (level_start p (Suc l))) s)"
  proof (rule for_down_rel [where R = "\<lambda>l a b. a = b \<and> Q (inner_before p l) a"])
    fix l t u assume l: "l < tree_log p" and tu': "t = u \<and> Q (inner_before p (Suc l)) t"
    then have tu: "u = t" "Q (inner_before p l + inner_count l) t" by (auto simp: inner_count_def inner_before_def)
    have "Q (inner_before p l + 0) (for_down (inner_count l) (\<lambda>j. body (2 * (inner_before p l + j) + 1) (inner_nodes p ! (inner_before p l + j))) t)"
    proof (rule for_down_inv [where P = "\<lambda>j. Q (inner_before p l + j)"])
      fix j u assume "j < inner_count l" and "Q (inner_before p l + Suc j) u"
      then show "Q (inner_before p l + j) (body (2 * (inner_before p l + j) + 1) (inner_nodes p ! (inner_before p l + j)) u)"
        using inner_index_lt [OF l, of j] by (intro inv) (simp_all add: length_inner_nodes)
    qed (use tu in simp)
    then show "F (Suc l) (level_start p (Suc l)) t = ?G (Suc l) (level_start p (Suc l)) u
        \<and> Q (inner_before p l) (F (Suc l) (level_start p (Suc l)) t)"
      using level [OF l, of t] level_up [OF l, of body t] tu by simp
  qed (use Q in \<open>simp add: inner_total\<close>)
  then have "for_down (tree_log p) (\<lambda>l. F (Suc l) (level_start p (Suc l))) s
      = for_down (tree_log p) (\<lambda>l. ?G (Suc l) (level_start p (Suc l))) s" by simp
  also have "\<dots> = walk_up p body s"
    unfolding walk_up_def Let_def by (rule walk_levels_up [symmetric, of ?G])
  finally show ?thesis .
qed

text \<open>The parents of a level lie before its nodes.\<close>

lemma parent_before:
  assumes "l < tree_log p" and "j < inner_count l"
  shows "inner_nodes p ! (inner_before p l + j) < 2 * inner_before p l + 1"
proof -
  have "level_start p l + j < level_start p (Suc l)"
    using inner_count_le [of l] assms by simp
  then show ?thesis using inner_pos [OF assms] level_start_inner [of l] assms(1) by simp
qed

theorem walk_up_x2_eq:
  assumes Q: "Q (par_T p - 1) s" and inv: "\<And>k t. k < par_T p - 1 \<Longrightarrow> Q (Suc k) t \<Longrightarrow> Q k (single (2 * k + 1) (inner_nodes p ! k) t)"
    and pair: "\<And>k t. Suc k < par_T p - 1 \<Longrightarrow> inner_nodes p ! k < 2 * k + 1 \<Longrightarrow> inner_nodes p ! Suc k < 2 * k + 1
      \<Longrightarrow> Q (Suc (Suc k)) t \<Longrightarrow> two (2 * k + 3) (2 * k + 1) t
      \<Longrightarrow> pair (2 * k + 3) (inner_nodes p ! Suc k) (2 * k + 1) (inner_nodes p ! k) t
        = single (2 * k + 1) (inner_nodes p ! k) (single (2 * k + 3) (inner_nodes p ! Suc k) t)"
    and rest: "rest 2"
  shows "walk_up_x2 p two rest pair single s = walk_up p single s"
proof -
  let ?par = "\<lambda>level x. PARENT x + drop_bit 1 (off p (level - 1))"
  let ?two = "\<lambda>st i. two (st + i) (st + (i - 2))"
  let ?pair = "\<lambda>level st i. pair (st + i) (?par level (st + i)) (st + (i - 2)) (?par level (st + (i - 2)))"
  let ?single = "\<lambda>level st i. single (st + i) (?par level (st + i))"
  let ?F = "\<lambda>level st s. case pairs_down (?two st) (?pair level st) (?single level st) (npl p level) s of (n, s) \<Rightarrow>
      (if rest n then for_down2 n (?single level st) s else s)"
  have "walk_up_x2 p two rest pair single s = for_down (tree_log p) (\<lambda>l. ?F (Suc l) (level_start p (Suc l))) s"
    unfolding walk_levels_up [of ?F, symmetric] by (simp only: walk_up_x2_def Let_def split_beta fst_conv snd_conv)
  also have "\<dots> = walk_up p single s"
  proof (rule walk_up_by_level [where Q = Q and F = ?F, OF Q])
    fix l t assume l: "l < tree_log p" and Qt: "Q (inner_before p l + inner_count l) t"
    let ?st = "level_start p (Suc l)"
    have node: "?st + 2 * j = 2 * (inner_before p l + j) + 1" "?par (Suc l) (2 * (inner_before p l + j) + 1) = inner_nodes p ! (inner_before p l + j)"
        "inner_before p l + j < par_T p - 1" if "j < inner_count l" for j
      using child_pos [OF l that] PARENT_child [OF l that] inner_index_lt [OF l that] by (simp_all add: length_inner_nodes)
    have n: "npl p (Suc l) = 2 * inner_count l" using wf_level(2) [OF l] by (simp add: inner_count_def)
    obtain e u where e: "pairs_down (?two ?st) (?pair (Suc l) ?st) (?single (Suc l) ?st) (2 * inner_count l) t = (e, u)"
        "e = 0 \<or> e = 2"
        "for_down2 e (?single (Suc l) ?st) u = for_down2 (2 * inner_count l) (?single (Suc l) ?st) t"
    proof (atomize_elim, rule pairs_down_even [where Q = "\<lambda>j. Q (inner_before p l + j)"])
      fix j t assume j: "j < inner_count l" and "Q (inner_before p l + Suc j) t"
      then have Qt: "Q (Suc (inner_before p l + j)) t" by simp
      show "Q (inner_before p l + j) (?single (Suc l) ?st (2 * j) t)" using inv [OF node(3) [OF j] Qt] by (simp only: node [OF j])
    next
      fix j t assume j: "Suc j < inner_count l" and "Q (inner_before p l + Suc (Suc j)) t"
        and two: "?two ?st (2 * Suc j) t"
      then have Qt: "Q (Suc (Suc (inner_before p l + j))) t" by simp
      have sub: "2 * Suc j - 2 = 2 * j" by simp
      have jl: "j < inner_count l" using j by simp
      let ?k = "inner_before p l + j"
      have k3: "2 * Suc ?k + 1 = 2 * ?k + 3" "inner_before p l + Suc j = Suc ?k" by simp_all
      have par3: "?par (Suc l) (2 * ?k + 3) = inner_nodes p ! Suc ?k"
        using node(2) [OF j] by (simp only: k3)
      have s: "inner_nodes p ! ?k < 2 * ?k + 1" "inner_nodes p ! Suc ?k < 2 * ?k + 1"
        using parent_before [OF l jl] parent_before [OF l j] by simp_all
      have lt: "Suc ?k < par_T p - 1" using node(3) [OF j] by simp
      have tw: "two (2 * ?k + 3) (2 * ?k + 1) t" using two by (simp only: k3 sub node [OF j] node [OF jl])
      show "?pair (Suc l) ?st (2 * Suc j) t = ?single (Suc l) ?st (2 * j) (?single (Suc l) ?st (2 * Suc j) t)"
        using pair [OF lt s Qt tw] by (simp only: k3 sub par3 node [OF j] node [OF jl])
    qed (rule Qt)
    have "?F (Suc l) ?st t = for_down2 e (?single (Suc l) ?st) u"
      unfolding n e(1) using e(2) rest by auto
    then show "?F (Suc l) ?st t = for_down2 (npl p (Suc l)) (\<lambda>i. single (?st + i) (PARENT (?st + i) + drop_bit 1 (off p l))) t"
      unfolding n e(3) by simp
  qed (rule inv)
  finally show ?thesis .
qed


text \<open>Going forwards through a level instead of backwards is the same when the nodes do not interfere.\<close>

theorem walk_up_forward_eq:
  assumes comm: "\<And>i j t. i < par_T p - 1 \<Longrightarrow> j < par_T p - 1 \<Longrightarrow> i \<noteq> j
      \<Longrightarrow> inner_nodes p ! i < 2 * j + 1 \<Longrightarrow> inner_nodes p ! j < 2 * i + 1
      \<Longrightarrow> body (2 * i + 1) (inner_nodes p ! i) (body (2 * j + 1) (inner_nodes p ! j) t)
        = body (2 * j + 1) (inner_nodes p ! j) (body (2 * i + 1) (inner_nodes p ! i) t)"
  shows "walk_up_forward p body s = walk_up p body s"
proof -
  let ?step = "\<lambda>level st i. body (st + i) (PARENT (st + i) + drop_bit 1 (off p (level - 1)))"
  let ?F = "\<lambda>level st s. for_range (4 * (npl p level div 8)) (npl p level div 2) (\<lambda>h. ?step level st (2 * h))
      (for_range 0 (npl p level div 8) (\<lambda>h. for_range 0 4 (\<lambda>k. ?step level st (8 * h + 2 * k))) s)"
  have "walk_up_forward p body s = for_down (tree_log p) (\<lambda>l. ?F (Suc l) (level_start p (Suc l))) s"
    unfolding walk_levels_up [of ?F, symmetric] by (simp only: walk_up_forward_def Let_def)
  also have "\<dots> = walk_up p body s"
  proof (rule walk_up_by_level [where Q = "\<lambda>_ _. True" and F = ?F])
    fix l t assume l: "l < tree_log p"
    let ?st = "level_start p (Suc l)" and ?n = "npl p (Suc l)"
    let ?b = "\<lambda>j. body (2 * (inner_before p l + j) + 1) (inner_nodes p ! (inner_before p l + j))"
    have nest: "for_range 0 (?n div 8) (\<lambda>h. for_range 0 4 (\<lambda>k. ?step (Suc l) ?st (8 * h + 2 * k))) t
        = for_range 0 (?n div 8 * 4) (\<lambda>i. ?step (Suc l) ?st (2 * i)) t"
      using for_range_nest [of "?n div 8" 4 "\<lambda>i. ?step (Suc l) ?st (2 * i)" t]
      by (simp add: algebra_simps)
    have le: "?n div 8 * 4 \<le> ?n div 2" by linarith
    have n: "?n div 2 = inner_count l" using wf_level(2) [OF l] by (simp add: inner_count_def)
    have "?F (Suc l) ?st t = for_range 0 (inner_count l) (\<lambda>i. ?step (Suc l) ?st (2 * i)) t"
      unfolding nest using for_range_split [OF _ le, of 0 "\<lambda>i. ?step (Suc l) ?st (2 * i)" t] n
      by (simp add: mult.commute)
    also have "\<dots> = for_range 0 (inner_count l) ?b t"
      by (rule for_range_cong) (simp only: child_pos [OF l] PARENT_child [OF l] diff_Suc_1)
    also have "\<dots> = for_down (inner_count l) ?b t"
      unfolding for_range_def for_down_def
    proof (rule arg_cong [where f = "\<lambda>g. g t"], rule fold_rev [symmetric], rule ext)
      fix i j u assume "i \<in> set [0..<inner_count l]" "j \<in> set [0..<inner_count l]"
      then have ij: "i < inner_count l" "j < inner_count l" by simp_all
      have lt: "inner_before p l + i < par_T p - 1" "inner_before p l + j < par_T p - 1"
        using inner_index_lt [OF l] ij by (simp_all add: length_inner_nodes)
      have par: "inner_nodes p ! (inner_before p l + i) < 2 * (inner_before p l + j) + 1"
          "inner_nodes p ! (inner_before p l + j) < 2 * (inner_before p l + i) + 1"
        using parent_before [OF l ij(1)] parent_before [OF l ij(2)] by simp_all
      show "(?b j \<circ> ?b i) u = (?b i \<circ> ?b j) u"
      proof (cases "i = j")
        case False
        then have ne: "inner_before p l + i \<noteq> inner_before p l + j" by simp
        show ?thesis using comm [OF lt ne par, of u] by (simp only: comp_def)
      qed simp
    qed
    also have "\<dots> = for_down2 ?n (\<lambda>i. body (?st + i) (PARENT (?st + i) + drop_bit 1 (off p l))) t"
      by (rule level_up [OF l, symmetric])
    finally show "?F (Suc l) ?st t = for_down2 ?n (\<lambda>i. body (?st + i) (PARENT (?st + i) + drop_bit 1 (off p l))) t" .
  qed simp_all
  finally show ?thesis .
qed

theorem walk_down_fathers_x2_eq:
  assumes Q: "Q s" and inv: "\<And>k t. k < par_T p - 1 \<Longrightarrow> Q t \<Longrightarrow> Q (single (inner_nodes p ! k) (2 * k + 1) t)"
    and pair: "\<And>k t. Suc k < par_T p - 1 \<Longrightarrow> inner_nodes p ! Suc k < 2 * k + 1 \<Longrightarrow> Q t
      \<Longrightarrow> pair (inner_nodes p ! k) (2 * k + 1) (inner_nodes p ! Suc k) (2 * k + 3) t
        = single (inner_nodes p ! Suc k) (2 * k + 3) (single (inner_nodes p ! k) (2 * k + 1) t)"
  shows "walk_down_fathers_x2 p pair single s = walk_down_fathers p single s"
proof -
  let ?left = "\<lambda>l x. LEFT_CHILD x - off p l"
  let ?pair = "\<lambda>l st i. pair (st + i) (?left l (st + i)) (st + i + 1) (?left l (st + i + 1))"
  let ?single = "\<lambda>l st i. single (st + i) (?left l (st + i))"
  let ?F = "\<lambda>l st. pairs_up (npl p l - lpl p l) (?pair l st) (?single l st)"
  let ?G = "\<lambda>l st. for_range 0 (npl p l - lpl p l) (?single l st)"
  have count: "fst (for_range 0 (tree_log p) (\<lambda>l (s, c). (H l c s, c + npl p l)) (s, level_start p 0))
      = for_range 0 (tree_log p) (\<lambda>l. H l (level_start p l)) s" for H
    by (subst for_range_counter [where C = "level_start p" and g = "\<lambda>l c. c + npl p l"])
      (use level_start_step in auto)
  have "walk_down_fathers_x2 p pair single s = for_range 0 (tree_log p) (\<lambda>l. ?F l (level_start p l)) s"
    unfolding count [of ?F, symmetric] by (simp only: walk_down_fathers_x2_def Let_def level_start_0)
  moreover have "(\<lambda>a b. a = b \<and> Q a) (for_range 0 (tree_log p) (\<lambda>l. ?F l (level_start p l)) s)
      (for_range 0 (tree_log p) (\<lambda>l. ?G l (level_start p l)) s)"
  proof (rule for_range_rel [where R = "\<lambda>_ a b. a = b \<and> Q a"])
    fix l t u assume "l < tree_log p" and tu: "t = u \<and> Q t"
    then have l: "l < tree_log p" and t: "u = t" "Q t" by blast+
    have node: "level_start p l + i = inner_nodes p ! (inner_before p l + i)"
        "?left l (inner_nodes p ! (inner_before p l + i)) = 2 * (inner_before p l + i) + 1"
        "inner_before p l + i < par_T p - 1" if "i < npl p l - lpl p l" for i
      using that inner_pos [OF l] LEFT_CHILD_inner [OF l] inner_index_lt [OF l, of i]
      by (simp_all add: inner_count_def length_inner_nodes)
    have Qs: "Q (?single l (level_start p l) i v)" if "i < npl p l - lpl p l" "Q v" for i v
      using inv [OF node(3) [OF that(1)] that(2)] by (simp only: node [OF that(1)])
    have "pairs_up (npl p l - lpl p l) (?pair l (level_start p l)) (?single l (level_start p l)) t
        = for_range 0 (npl p l - lpl p l) (?single l (level_start p l)) t"
    proof (rule pairs_up_eq [where Q = Q])
      fix i v assume i: "Suc i < npl p l - lpl p l" and Qv: "Q v"
      let ?k = "inner_before p l + i"
      have il: "i < npl p l - lpl p l" using i by simp
      have k3: "inner_before p l + Suc i = Suc ?k" "2 * Suc ?k + 1 = 2 * ?k + 3" by simp_all
      have n3: "level_start p l + i + 1 = inner_nodes p ! Suc ?k" "level_start p l + Suc i = inner_nodes p ! Suc ?k"
          "?left l (inner_nodes p ! Suc ?k) = 2 * ?k + 3" "Suc ?k < par_T p - 1"
        using node [OF i] by (simp_all add: k3)
      have next1: "inner_nodes p ! ?k + 1 = inner_nodes p ! Suc ?k" using n3(1) node(1) [OF il] by simp
      have par: "inner_nodes p ! Suc ?k < 2 * ?k + 1"
        using parent_before [OF l, of "Suc i"] i by (simp add: inner_count_def)
      show "?pair l (level_start p l) i v = ?single l (level_start p l) (Suc i) (?single l (level_start p l) i v)"
        using pair [OF n3(4) par Qv] next1 by (simp only: n3 node [OF il])
    qed (use t Qs in auto)
    moreover have "Q (for_range 0 (npl p l - lpl p l) (?single l (level_start p l)) t)"
      by (rule for_range_inv_const [where Q = Q]) (use t Qs in auto)
    ultimately show "?F l (level_start p l) t = ?G l (level_start p l) u \<and> Q (?F l (level_start p l) t)"
      by (simp only: t)
  qed (use Q in simp_all)
  moreover have "for_range 0 (tree_log p) (\<lambda>l. ?G l (level_start p l)) s = walk_down_fathers p single s"
    unfolding count [of ?G, symmetric] by (simp only: walk_down_fathers_def Let_def level_start_0)
  ultimately show ?thesis by simp
qed


text \<open>
  Every node below the root is handled once; where it has children, they lie in the next level and
  two neighbours have neighbouring children.
\<close>

theorem walk_down_nodes_x2_eq:
  assumes Q: "Q s" and inv: "\<And>x f c b t. 0 < x \<Longrightarrow> x < NUM_NODES p \<Longrightarrow> (b \<Longrightarrow> Suc c < NUM_NODES p)
      \<Longrightarrow> Q t \<Longrightarrow> Q (single x f c b t)"
    and pair: "\<And>x f1 c b1 f2 c2 b2 t. 0 < x \<Longrightarrow> Suc x < NUM_NODES p \<Longrightarrow> (b1 \<Longrightarrow> Suc x < c \<and> Suc c < NUM_NODES p)
      \<Longrightarrow> (b2 \<Longrightarrow> b1 \<and> c2 = c + 2 \<and> c + 3 < NUM_NODES p) \<Longrightarrow> Q t
      \<Longrightarrow> pair x f1 c b1 (Suc x) f2 c2 b2 t = single (Suc x) f2 c2 b2 (single x f1 c b1 t)"
  shows "walk_down_nodes_x2 p pair single s = walk_down_nodes p single s" and "Q (walk_down_nodes p single s)"
proof -
  let ?father = "\<lambda>l x. PARENT x + drop_bit 1 (off p (l - 1))"
  let ?left = "\<lambda>l x. LEFT_CHILD x - off p l"
  let ?lim = "\<lambda>l. npl p l - lpl p l"
  let ?pair = "\<lambda>l st i. pair (st + i) (?father l (st + i)) (?left l (st + i)) (i < ?lim l)
    (st + i + 1) (?father l (st + i + 1)) (?left l (st + i + 1)) (i + 1 < ?lim l)"
  let ?single = "\<lambda>l st i. single (st + i) (?father l (st + i)) (?left l (st + i)) (i < ?lim l)"
  let ?F = "\<lambda>l st. pairs_up (npl p l) (?pair l st) (?single l st)"
  let ?G = "\<lambda>l st. for_range 0 (npl p l) (?single l st)"
  have 1: "level_start p (Suc 0) = 1" using level_start_inner [of 0] by simp
  have count: "fst (for_range 1 (tree_log p + 1) (\<lambda>l (s, c). (H l c s, c + npl p l)) (s, level_start p 1))
      = for_range 1 (tree_log p + 1) (\<lambda>l. H l (level_start p l)) s" for H
    by (subst for_range_counter [where C = "level_start p" and g = "\<lambda>l c. c + npl p l"])
      (use level_start_step in auto)
  have 2: "walk_down_nodes_x2 p pair single s = for_range 1 (tree_log p + 1) (\<lambda>l. ?F l (level_start p l)) s"
    unfolding count [of ?F, symmetric] by (simp only: walk_down_nodes_x2_def Let_def 1 One_nat_def)
  have 3: "(\<lambda>a b. a = b \<and> Q a) (for_range 1 (tree_log p + 1) (\<lambda>l. ?F l (level_start p l)) s)
      (for_range 1 (tree_log p + 1) (\<lambda>l. ?G l (level_start p l)) s)"
  proof (rule for_range_rel [where R = "\<lambda>_ a b. a = b \<and> Q a"])
    fix l t u assume "1 \<le> l" "l < tree_log p + 1" and tu: "t = u \<and> Q t"
    then have l: "1 \<le> l" "l \<le> tree_log p" and t: "u = t" "Q t" by auto
    let ?st = "level_start p l"
    have pos: "0 < ?st" using level_start_mono [of 1 l] l 1 by simp
    have total: "?st + npl p l \<le> NUM_NODES p"
      using level_start_step [OF l(2)] level_start_mono [of "Suc l" "Suc (tree_log p)"] l wf_total(2) by simp
    have child: "?left l (?st + i) = level_start p (Suc l) + 2 * i" "level_start p (Suc l) = ?st + npl p l"
        "level_start p (Suc l) + 2 * i + 1 < NUM_NODES p" if "i < ?lim l" for i
    proof -
      have lt: "l < tree_log p" using that l inner_count_last by (cases "l = tree_log p") (auto simp: inner_count_def)
      show "?left l (?st + i) = level_start p (Suc l) + 2 * i" by (rule LEFT_CHILD_pos [OF lt])
      show "level_start p (Suc l) = ?st + npl p l" by (rule level_start_step [OF l(2)])
      have "level_start p (Suc (Suc l)) = level_start p (Suc l) + 2 * ?lim l"
        using level_start_step [of "Suc l"] wf_level(2) [OF lt] lt by simp
      moreover have "level_start p (Suc (Suc l)) \<le> NUM_NODES p"
        using level_start_mono [of "Suc (Suc l)" "Suc (tree_log p)"] lt wf_total(2) by simp
      ultimately show "level_start p (Suc l) + 2 * i + 1 < NUM_NODES p" using that by simp
    qed
    have Qs: "Q (?single l ?st i v)" if "i < npl p l" "Q v" for i v
      by (rule inv) (use that pos total child [of i] in auto)
    have "?F l ?st t = ?G l ?st t"
    proof (rule pairs_up_eq [where Q = Q])
      fix i v assume i: "Suc i < npl p l" and Qv: "Q v"
      have x: "0 < ?st + i" "Suc (?st + i) < NUM_NODES p" using i pos total by simp_all
      have b1: "Suc (?st + i) < ?left l (?st + i) \<and> Suc (?left l (?st + i)) < NUM_NODES p" if "i < ?lim l"
        using child [OF that] i by simp
      have b2: "i < ?lim l \<and> ?left l (Suc (?st + i)) = ?left l (?st + i) + 2 \<and> ?left l (?st + i) + 3 < NUM_NODES p"
        if "i + 1 < ?lim l"
        using child [of i] child [of "Suc i"] that by simp
      show "?pair l ?st i v = ?single l ?st (Suc i) (?single l ?st i v)"
        using pair [OF x b1 b2 Qv] by simp
    qed (use t Qs in auto)
    moreover have "Q (?G l ?st t)"
      by (rule for_range_inv_const [where Q = Q]) (use t Qs in auto)
    ultimately show "?F l ?st t = ?G l ?st u \<and> Q (?F l ?st t)"
      by (simp only: t)
  qed (use Q in simp_all)
  have 4: "for_range 1 (tree_log p + 1) (\<lambda>l. ?G l (level_start p l)) s = walk_down_nodes p single s"
    unfolding count [of ?G, symmetric] by (simp only: walk_down_nodes_def Let_def 1 One_nat_def)
  from 3 have 5: "for_range 1 (tree_log p + 1) (\<lambda>l. ?F l (level_start p l)) s
      = for_range 1 (tree_log p + 1) (\<lambda>l. ?G l (level_start p l)) s"
    and 6: "Q (for_range 1 (tree_log p + 1) (\<lambda>l. ?F l (level_start p l)) s)" by blast+
  show "walk_down_nodes_x2 p pair single s = walk_down_nodes p single s" unfolding 2 5 4 by (rule refl)
  show "Q (walk_down_nodes p single s)" using 6 unfolding 5 4 .
qed

end

end
