(* ===== verification/Cross_Sve_Tree.thy ===== *)
theory Cross_Sve_Tree
  imports Cross_Csprng_X2 Cross_Sve_Walk
begin

text \<open>
  The SVE2 branches of \<open>merkle.c\<close> and \<open>seedtree.c\<close>: two nodes of a level are hashed or expanded by one
  call of the two-way sponge.  Every function returns what its portable branch returns; for
  \<open>recompute_root\<close> that needs the proof to be long enough for the challenge, which it is by the
  bound on the published nodes.
\<close>

definition CSPRNG_INPUT_LENGTH :: "cross_params \<Rightarrow> nat" where
  "CSPRNG_INPUT_LENGTH p = SALT_LENGTH_BYTES p + SEED_LENGTH_BYTES p"

text \<open>The lengths that go through the two-way sponge in the trees.\<close>

definition tree_x2 :: "cross_params \<Rightarrow> bool" where
  "tree_x2 p \<longleftrightarrow> digest_x2 p \<and> x2_len p (2 * HASH_DIGEST_LENGTH p) \<and> x2_len p (CSPRNG_INPUT_LENGTH p)
     \<and> 2 * SEED_LENGTH_BYTES p mod 8 = 0 \<and> 2 * SEED_LENGTH_BYTES p < rate_bytes (xof_rate p)"

subsection \<open>The Merkle tree\<close>

definition tree_root_pair :: "sve_unit \<Rightarrow> cross_params \<Rightarrow> nat \<Rightarrow> nat \<Rightarrow> nat \<Rightarrow> nat \<Rightarrow> bytes \<Rightarrow> bytes" where
  "tree_root_pair V p current_node_1 parent_node_1 current_node_2 parent_node_2 tree =
     (let H = HASH_DIGEST_LENGTH p;
          (digest_1, digest_2) = hash_par V p 2 (blk H tree parent_node_1) (blk H tree parent_node_2)
            (seg tree (current_node_1 * H) (2 * H)) (seg tree (current_node_2 * H) (2 * H))
            HASH_DOMAIN_SEP_CONST HASH_DOMAIN_SEP_CONST
      in memcpy (memcpy tree (parent_node_1 * H) digest_1) (parent_node_2 * H) digest_2)"

definition tree_root_single :: "cross_params \<Rightarrow> nat \<Rightarrow> nat \<Rightarrow> bytes \<Rightarrow> bytes" where
  "tree_root_single p current_node parent_node tree =
     memcpy tree (parent_node * HASH_DIGEST_LENGTH p)
       (hash p (seg tree (current_node * HASH_DIGEST_LENGTH p) (2 * HASH_DIGEST_LENGTH p)) HASH_DOMAIN_SEP_CONST)"

definition tree_root_sve :: "sve_unit \<Rightarrow> cross_params \<Rightarrow> bytes \<Rightarrow> bytes list \<Rightarrow> bytes \<times> bytes" where
  "tree_root_sve V p tree leaves =
     (let tree = place_cmt_on_leaves p tree leaves;
          tree = walk_up_x2 p (\<lambda>_ _ _. True) (\<lambda>n. n = 2) (tree_root_pair V p) (tree_root_single p) tree
      in (take (HASH_DIGEST_LENGTH p) tree, tree))"

text \<open>Both children of a pair, in the order of the loop over \<open>j\<close>.\<close>

definition recompute_need :: "nat \<Rightarrow> recompute_state \<Rightarrow> bool" where
  "recompute_need node s \<longleftrightarrow> rc_flags s ! node = COMPUTED \<or> rc_flags s ! SIBLING node = COMPUTED"

definition recompute_pair :: "sve_unit \<Rightarrow> cross_params \<Rightarrow> bytes \<Rightarrow> nat \<Rightarrow> nat \<Rightarrow> nat \<Rightarrow> nat
    \<Rightarrow> recompute_state \<Rightarrow> recompute_state" where
  "recompute_pair V p mtp node1 parent1 node2 parent2 s =
     (let H = HASH_DIGEST_LENGTH p;
          (left1, s) = take_child p mtp node1 s;
          (right1, s) = take_child p mtp (SIBLING node1) s;
          (left2, s) = take_child p mtp node2 s;
          (right2, s) = take_child p mtp (SIBLING node2) s;
          (digest_1, digest_2) = hash_par V p 2 (blk H (rc_tree s) parent1) (blk H (rc_tree s) parent2)
            (left1 @ right1) (left2 @ right2) HASH_DOMAIN_SEP_CONST HASH_DOMAIN_SEP_CONST
      in s\<lparr>rc_tree := memcpy (memcpy (rc_tree s) (parent1 * H) digest_1) (parent2 * H) digest_2,
           rc_flags := (rc_flags s)[parent1 := COMPUTED, parent2 := COMPUTED]\<rparr>)"

definition recompute_single :: "cross_params \<Rightarrow> bytes \<Rightarrow> nat \<Rightarrow> nat \<Rightarrow> recompute_state \<Rightarrow> recompute_state" where
  "recompute_single p mtp current_node parent_node s =
     (if recompute_need current_node s
      then let (left, s) = take_child p mtp current_node s;
               (right, s) = take_child p mtp (SIBLING current_node) s
           in s\<lparr>rc_tree := memcpy (rc_tree s) (parent_node * HASH_DIGEST_LENGTH p)
                   (hash p (left @ right) HASH_DOMAIN_SEP_CONST),
                rc_flags := (rc_flags s)[parent_node := COMPUTED]\<rparr>
      else s)"

definition recompute_root_sve :: "sve_unit \<Rightarrow> cross_params \<Rightarrow> bytes \<Rightarrow> bytes list \<Rightarrow> bytes \<Rightarrow> u8 list \<Rightarrow> bytes \<times> bool" where
  "recompute_root_sve V p tree recomputed_leaves mtp leaves_to_reveal =
     (let tree = place_cmt_on_leaves p tree recomputed_leaves;
          flag_tree = merkle_label_leaves p (replicate (NUM_NODES p) NOT_COMPUTED) leaves_to_reveal;
          s = walk_up_x2 p (\<lambda>node1 node2 s. recompute_need node1 s \<and> recompute_need node2 s) (\<lambda>n. True)
                (recompute_pair V p mtp) (recompute_single p mtp)
                \<lparr>rc_tree = tree, rc_flags = flag_tree, rc_published = 0\<rparr>
      in (take (HASH_DIGEST_LENGTH p) (rc_tree s),
          zero_padding mtp (rc_published s * HASH_DIGEST_LENGTH p)
            (TREE_NODES_TO_STORE p * HASH_DIGEST_LENGTH p)))"

subsection \<open>The seed tree\<close>

definition compute_seeds_to_publish_sve :: "cross_params \<Rightarrow> u8 list \<Rightarrow> u8 list \<Rightarrow> u8 list" where
  "compute_seeds_to_publish_sve p flags_tree indices_to_publish =
     walk_up_forward p (\<lambda>cur par flags. flags[par :=
         (if flags ! cur = TO_PUBLISH \<and> flags ! SIBLING cur = TO_PUBLISH then 1 else 0)])
       (seed_label_leaves p flags_tree indices_to_publish)"

text \<open>The children of two fathers: \<open>par_xof_input(2, ...)\<close> and \<open>par_xof_output(2, ...)\<close>.\<close>

definition expand_pair :: "sve_unit \<Rightarrow> cross_params \<Rightarrow> bytes \<Rightarrow> nat \<Rightarrow> nat \<Rightarrow> nat \<Rightarrow> nat \<Rightarrow> bytes \<Rightarrow> bytes" where
  "expand_pair V p salt father1 left_child1 father2 left_child2 seed_tree =
     (let S = SEED_LENGTH_BYTES p;
          csprng_input1 = blk S seed_tree father1 @ salt;
          csprng_input2 = blk S seed_tree father2 @ salt;
          dsc1 = CSPRNG_DOMAIN_SEP_CONST + of_nat father1;
          dsc2 = CSPRNG_DOMAIN_SEP_CONST + of_nat father2;
          states = csprng_initialize_par V p 2 par_states csprng_input1 csprng_input2 dsc1 dsc2;
          (children1, children2, states) = csprng_randombytes_par V p 2 states
            (seg seed_tree (left_child1 * S) (2 * S)) (seg seed_tree (left_child2 * S) (2 * S)) (2 * S)
      in memcpy (memcpy seed_tree (left_child1 * S) children1) (left_child2 * S) children2)"

definition expand_single :: "cross_params \<Rightarrow> bytes \<Rightarrow> nat \<Rightarrow> nat \<Rightarrow> bytes \<Rightarrow> bytes" where
  "expand_single p salt father_node left_child_node seed_tree =
     memcpy seed_tree (left_child_node * SEED_LENGTH_BYTES p)
       (expand_node p salt (blk (SEED_LENGTH_BYTES p) seed_tree father_node) father_node)"

definition gen_seed_tree_sve :: "sve_unit \<Rightarrow> cross_params \<Rightarrow> bytes \<Rightarrow> bytes \<Rightarrow> bytes \<Rightarrow> bytes" where
  "gen_seed_tree_sve V p seed_tree root_seed salt =
     walk_down_fathers_x2 p (expand_pair V p salt) (expand_single p salt) (memcpy seed_tree 0 root_seed)"

text \<open>Loading a published seed, and the two branches of \<open>rebuild_tree\<close>.\<close>

definition load_seed :: "cross_params \<Rightarrow> u8 list \<Rightarrow> bytes \<Rightarrow> nat \<Rightarrow> nat \<Rightarrow> bytes \<times> nat \<Rightarrow> bytes \<times> nat" where
  "load_seed p flags stored_seeds node father s =
     (let (seed_tree, nodes_used) = s
      in if flags ! node = TO_PUBLISH \<and> flags ! father = NOT_TO_PUBLISH
         then (memcpy seed_tree (node * SEED_LENGTH_BYTES p) (blk (SEED_LENGTH_BYTES p) stored_seeds nodes_used), nodes_used + 1)
         else (seed_tree, nodes_used))"

definition rebuild_pair :: "sve_unit \<Rightarrow> cross_params \<Rightarrow> u8 list \<Rightarrow> bytes \<Rightarrow> bytes
    \<Rightarrow> nat \<Rightarrow> nat \<Rightarrow> nat \<Rightarrow> bool \<Rightarrow> nat \<Rightarrow> nat \<Rightarrow> nat \<Rightarrow> bool \<Rightarrow> bytes \<times> nat \<Rightarrow> bytes \<times> nat" where
  "rebuild_pair V p flags stored_seeds salt curr1 father1 left1 below1 curr2 father2 left2 below2 s =
     (let s = load_seed p flags stored_seeds curr1 father1 s;
          (seed_tree, nodes_used) = load_seed p flags stored_seeds curr2 father2 s;
          can_expand1 = (flags ! curr1 = TO_PUBLISH \<and> below1);
          can_expand2 = (flags ! curr2 = TO_PUBLISH \<and> below2);
          seed_tree =
            (if can_expand1 \<and> can_expand2
             then expand_pair V p salt curr1 left1 curr2 left2 seed_tree
             else let seed_tree = (if can_expand1 then expand_single p salt curr1 left1 seed_tree else seed_tree)
                  in if can_expand2 then expand_single p salt curr2 left2 seed_tree else seed_tree)
      in (seed_tree, nodes_used))"

definition rebuild_single :: "cross_params \<Rightarrow> u8 list \<Rightarrow> bytes \<Rightarrow> bytes
    \<Rightarrow> nat \<Rightarrow> nat \<Rightarrow> nat \<Rightarrow> bool \<Rightarrow> bytes \<times> nat \<Rightarrow> bytes \<times> nat" where
  "rebuild_single p flags stored_seeds salt cur father left below s =
     (let (seed_tree, nodes_used) = load_seed p flags stored_seeds cur father s
      in (if flags ! cur = TO_PUBLISH \<and> below then expand_single p salt cur left seed_tree else seed_tree, nodes_used))"

definition rebuild_tree_sve :: "sve_unit \<Rightarrow> cross_params \<Rightarrow> bytes \<Rightarrow> u8 list \<Rightarrow> bytes \<Rightarrow> bytes \<Rightarrow> bytes \<times> bool" where
  "rebuild_tree_sve V p seed_tree indices_to_publish stored_seeds salt =
     (let flags = compute_seeds_to_publish_sve p (replicate (NUM_NODES p) 0) indices_to_publish;
          (seed_tree, nodes_used) = walk_down_nodes_x2 p (rebuild_pair V p flags stored_seeds salt)
            (rebuild_single p flags stored_seeds salt) (seed_tree, 0)
      in (seed_tree, zero_padding stored_seeds (nodes_used * SEED_LENGTH_BYTES p)
            (TREE_NODES_TO_STORE p * SEED_LENGTH_BYTES p)))"

text \<open>\<open>seed_path\<close> has one text for both builds; it calls the SVE2 \<open>compute_seeds_to_publish\<close>.\<close>

definition seed_path_sve :: "cross_params \<Rightarrow> bytes \<Rightarrow> bytes \<Rightarrow> u8 list \<Rightarrow> bytes \<times> nat" where
  "seed_path_sve p seed_storage seed_tree indices_to_publish =
     (let flags = compute_seeds_to_publish_sve p (replicate (NUM_NODES p) NOT_TO_PUBLISH) indices_to_publish
      in walk_down_nodes p (\<lambda>current_node father_node left_child has_children (seed_storage, published).
           if flags ! current_node = TO_PUBLISH \<and> flags ! father_node = NOT_TO_PUBLISH
           then (memcpy seed_storage (published * SEED_LENGTH_BYTES p)
                   (blk (SEED_LENGTH_BYTES p) seed_tree current_node), published + 1)
           else (seed_storage, published))
         (seed_storage, 0))"

subsection \<open>Equality with the portable branches\<close>

text \<open>Writing before a run of nodes leaves it alone.\<close>

lemma seg_memcpy_before:
  fixes L :: nat
  assumes "length src \<le> L" and "a < b" and "b * L + n \<le> length xs"
  shows "seg (memcpy xs (a * L) src) (b * L) n = seg xs (b * L) n"
proof -
  have "a * L + L \<le> b * L" using assms(2) by (simp add: blk_bound)
  then show ?thesis by (intro seg_memcpy_other) (use assms in auto)
qed

lemma seg_memcpy_after:
  fixes L :: nat
  assumes "a * L + n \<le> b * L" and "b * L + length src \<le> length xs"
  shows "seg (memcpy xs (b * L) src) (a * L) n = seg xs (a * L) n"
  by (intro seg_memcpy_other) (use assms in auto)

lemma memcpy_swap:
  assumes "a + length xs \<le> b" and "b + length ys \<le> length t"
  shows "memcpy (memcpy t b ys) a xs = memcpy (memcpy t a xs) b ys"
  by (rule nth_equalityI) (use assms in \<open>auto simp: nth_memcpy\<close>)

context cross_tree
begin

theorem tree_root_sve_eq:
  assumes V: "sve_ok V p" and x2: "tree_x2 p"
    and len: "length tree = NUM_NODES p * HASH_DIGEST_LENGTH p"
    and cmts: "\<And>c. c < par_T p \<Longrightarrow> length (cmts ! c) = HASH_DIGEST_LENGTH p"
  shows "tree_root_sve V p tree cmts = tree_root p tree cmts"
proof -
  let ?H = "HASH_DIGEST_LENGTH p"
  let ?Q = "\<lambda>(k::nat) (t::bytes). length t = NUM_NODES p * ?H"
  have perm: "perm_ok (keccak_perm p)" using V by simp
  have "walk_up_x2 p (\<lambda>_ _ _. True) (\<lambda>n. n = 2) (tree_root_pair V p) (tree_root_single p) (place_cmt_on_leaves p tree cmts)
      = walk_up p (tree_root_single p) (place_cmt_on_leaves p tree cmts)"
  proof (rule walk_up_x2_eq [where Q = ?Q])
    show "?Q (par_T p - 1) (place_cmt_on_leaves p tree cmts)" using place_cmt [OF len cmts] by simp
    fix k t assume k: "k < par_T p - 1" and t: "?Q (Suc k) t"
    have "inner_nodes p ! k < NUM_NODES p" using inner_lt_nodes [of k] k by (simp add: nodes_eq length_inner_nodes)
    then show "?Q k (tree_root_single p (2 * k + 1) (inner_nodes p ! k) t)"
      unfolding tree_root_single_def by (rule length_memcpy_blk [OF t]) (simp add: perm)
  next
    fix k t assume k: "Suc k < par_T p - 1" and a: "inner_nodes p ! k < 2 * k + 1" and b: "inner_nodes p ! Suc k < 2 * k + 1"
      and t: "?Q (Suc (Suc k)) t"
    have lt: "2 * k + 4 < NUM_NODES p" using k wf_total(3) by simp
    have blk4: "(2 * k + 1) * ?H + 2 * ?H \<le> length t" "(2 * k + 3) * ?H + 2 * ?H \<le> length t"
      using blk2_bound [of "2 * k + 1" "NUM_NODES p" ?H] blk2_bound [of "2 * k + 3" "NUM_NODES p" ?H] lt t by simp_all
    let ?h = "hash p (seg t ((2 * k + 3) * ?H) (2 * ?H)) HASH_DOMAIN_SEP_CONST"
    have s: "seg (memcpy t (inner_nodes p ! Suc k * ?H) ?h) ((2 * k + 1) * ?H) (2 * ?H) = seg t ((2 * k + 1) * ?H) (2 * ?H)"
      by (rule seg_memcpy_before) (use b blk4 perm in simp_all)
    have "hash_par V p 2 d1 d2 (seg t ((2 * k + 3) * ?H) (2 * ?H)) (seg t ((2 * k + 1) * ?H) (2 * ?H)) c1 c2
        = (hash p (seg t ((2 * k + 3) * ?H) (2 * ?H)) c1, hash p (seg t ((2 * k + 1) * ?H) (2 * ?H)) c2)" for d1 d2 c1 c2
      by (rule hash_par_2) (use V x2 blk4 in \<open>simp_all add: tree_x2_def\<close>)
    then show "tree_root_pair V p (2 * k + 3) (inner_nodes p ! Suc k) (2 * k + 1) (inner_nodes p ! k) t
        = tree_root_single p (2 * k + 1) (inner_nodes p ! k) (tree_root_single p (2 * k + 3) (inner_nodes p ! Suc k) t)"
      by (simp only: tree_root_pair_def tree_root_single_def Let_def prod.case s)
  qed simp
  then show ?thesis by (simp add: tree_root_sve_def tree_root_def Let_def tree_root_single_def [abs_def])
qed

theorem compute_seeds_to_publish_sve_eq: "compute_seeds_to_publish_sve p fl idx = compute_seeds_to_publish p fl idx"
proof -
  let ?b = "\<lambda>cur par (flags :: u8 list). flags[par :=
      (if flags ! cur = TO_PUBLISH \<and> flags ! SIBLING cur = TO_PUBLISH then 1 else 0)]"
  have "walk_up_forward p ?b s = walk_up p ?b s" for s
  proof (rule walk_up_forward_eq)
    fix i j and t :: "u8 list"
    assume ij: "i < par_T p - 1" "j < par_T p - 1" "i \<noteq> j"
      and a: "inner_nodes p ! i < 2 * j + 1" "inner_nodes p ! j < 2 * i + 1"
    have ne: "inner_nodes p ! i \<noteq> inner_nodes p ! j" using ij inner_inj by (simp add: length_inner_nodes)
    have n: "inner_nodes p ! i \<noteq> 2 * j + 1" "inner_nodes p ! i \<noteq> 2 * j + 2"
        "inner_nodes p ! j \<noteq> 2 * i + 1" "inner_nodes p ! j \<noteq> 2 * i + 2"
      using a by simp_all
    have keep: "t[x := v] ! y = t ! y" if "x \<noteq> y" for x y v using that by simp
    show "?b (2 * i + 1) (inner_nodes p ! i) (?b (2 * j + 1) (inner_nodes p ! j) t)
        = ?b (2 * j + 1) (inner_nodes p ! j) (?b (2 * i + 1) (inner_nodes p ! i) t)"
      unfolding SIBLING_left keep [OF n(1)] keep [OF n(2)] keep [OF n(3)] keep [OF n(4)]
      by (rule list_update_swap [OF ne [symmetric]])
  qed
  then show ?thesis by (simp add: compute_seeds_to_publish_sve_def compute_seeds_to_publish_def)
qed

corollary seed_path_sve_eq: "seed_path_sve p st tree idx = seed_path p st tree idx"
  by (simp add: seed_path_sve_def seed_path_def compute_seeds_to_publish_sve_eq)

text \<open>Two expansions at once, when the first writes behind everything the second reads.\<close>

lemma expand_pair_eq:
  assumes V: "sve_ok V p" and x2: "tree_x2 p" and salt: "length salt = SALT_LENGTH_BYTES p"
    and len: "length t = NUM_NODES p * SEED_LENGTH_BYTES p"
    and x: "x < NUM_NODES p" "y < NUM_NODES p" "y < l" "Suc l < NUM_NODES p"
  shows "expand_pair V p salt x l y r t = expand_single p salt y r (expand_single p salt x l t)"
proof -
  let ?S = "SEED_LENGTH_BYTES p"
  have perm: "perm_ok (keccak_perm p)" using V by simp
  have e: "length (expand_node p salt s z) = 2 * ?S" for s z using perm by simp
  have y: "blk ?S (expand_single p salt x l t) y = blk ?S t y"
    unfolding expand_single_def by (rule blk_memcpy2_other [OF len x(4) x(2) _ _ e]) (use x in simp_all)
  have b: "length (blk ?S t z) = ?S" if "z < NUM_NODES p" for z by (rule length_blk [OF that len])
  have i: "length (blk ?S t x @ salt) = CSPRNG_INPUT_LENGTH p" "length (blk ?S t y @ salt) = CSPRNG_INPUT_LENGTH p"
    using b x salt by (simp_all add: CSPRNG_INPUT_LENGTH_def)
  have "\<exists>u. csprng_randombytes_par V p 2 (csprng_initialize_par V p 2 st (blk ?S t x @ salt) (blk ?S t y @ salt) d1 d2) x1 x2 (2 * ?S)
      = (fst (csprng_randombytes p (2 * ?S) (csprng_initialize p (blk ?S t x @ salt) d1)),
         fst (csprng_randombytes p (2 * ?S) (csprng_initialize p (blk ?S t y @ salt) d2)), u)" for st d1 d2 x1 x2
    by (rule par_xof_2) (use V x2 i in \<open>simp_all add: tree_x2_def\<close>)
  then have "\<exists>u. csprng_randombytes_par V p 2 (csprng_initialize_par V p 2 par_states (blk ?S t x @ salt) (blk ?S t y @ salt)
      (CSPRNG_DOMAIN_SEP_CONST + of_nat x) (CSPRNG_DOMAIN_SEP_CONST + of_nat y)) (seg t (l * ?S) (2 * ?S)) (seg t (r * ?S) (2 * ?S)) (2 * ?S)
      = (expand_node p salt (blk ?S t x) x, expand_node p salt (blk ?S t y) y, u)"
    by (simp only: expand_node_def Let_def)
  then show ?thesis
    using y by (auto simp: expand_pair_def expand_single_def Let_def)
qed

theorem gen_seed_tree_sve_eq:
  assumes V: "sve_ok V p" and x2: "tree_x2 p" and salt: "length salt = SALT_LENGTH_BYTES p"
    and len: "length tree = NUM_NODES p * SEED_LENGTH_BYTES p" "length root_seed = SEED_LENGTH_BYTES p"
  shows "gen_seed_tree_sve V p tree root_seed salt = gen_seed_tree p tree root_seed salt"
proof -
  let ?S = "SEED_LENGTH_BYTES p"
  have perm: "perm_ok (keccak_perm p)" using V by simp
  have "walk_down_fathers_x2 p (expand_pair V p salt) (expand_single p salt) (memcpy tree 0 root_seed)
      = walk_down_fathers p (expand_single p salt) (memcpy tree 0 root_seed)"
  proof (rule walk_down_fathers_x2_eq [where Q = "\<lambda>t. length t = NUM_NODES p * ?S"])
    show "length (memcpy tree 0 root_seed) = NUM_NODES p * ?S"
      using length_memcpy_blk [OF len(1) _ len(2), of 0] wf_total(3) by simp
  next
    fix k and t :: bytes assume k: "k < par_T p - 1" and t: "length t = NUM_NODES p * ?S"
    then show "length (expand_single p salt (inner_nodes p ! k) (2 * k + 1) t) = NUM_NODES p * ?S"
      unfolding expand_single_def using expand_children(1) [OF perm, of k t] by (simp add: length_inner_nodes)
  next
    fix k and t :: bytes
    assume k: "Suc k < par_T p - 1" and b: "inner_nodes p ! Suc k < 2 * k + 1" and t: "length t = NUM_NODES p * ?S"
    have lt: "inner_nodes p ! k < NUM_NODES p" "inner_nodes p ! Suc k < NUM_NODES p"
      using inner_lt_nodes k by (simp_all add: nodes_eq length_inner_nodes)
    show "expand_pair V p salt (inner_nodes p ! k) (2 * k + 1) (inner_nodes p ! Suc k) (2 * k + 3) t
        = expand_single p salt (inner_nodes p ! Suc k) (2 * k + 3) (expand_single p salt (inner_nodes p ! k) (2 * k + 1) t)"
      by (rule expand_pair_eq [OF V x2 salt t lt b]) (use k wf_total(3) in simp)
  qed
  then show ?thesis by (simp add: gen_seed_tree_sve_def gen_seed_tree_def expand_single_def [abs_def])
qed

lemma rebuild_single_eq: "rebuild_single p flags stored salt x f c b s = rebuild_step p flags stored salt x f c b s"
  by (cases s) (auto simp: rebuild_single_def rebuild_step_def load_seed_def expand_single_def Let_def)

lemma length_load_seed:
  assumes "length t = NUM_NODES p * SEED_LENGTH_BYTES p" and "x < NUM_NODES p"
  shows "length (fst (load_seed p flags stored x f (t, n))) = NUM_NODES p * SEED_LENGTH_BYTES p"
proof -
  have "length (blk (SEED_LENGTH_BYTES p) stored n) \<le> SEED_LENGTH_BYTES p" by (simp add: blk_def length_seg)
  then have "x * SEED_LENGTH_BYTES p + length (blk (SEED_LENGTH_BYTES p) stored n) \<le> length t"
    using blk_bound [OF assms(2), of "SEED_LENGTH_BYTES p"] assms(1) by simp
  then show ?thesis using assms by (simp add: load_seed_def)
qed

text \<open>A load at a node and an expansion that writes behind it commute.\<close>

lemma load_expand:
  assumes perm: "perm_ok (keccak_perm p)" and len: "length t = NUM_NODES p * SEED_LENGTH_BYTES p"
    and x: "x \<noteq> y" "x < NUM_NODES p" "y < c" "Suc c < NUM_NODES p"
  shows "load_seed p flags stored y f (expand_single p salt x c t, n)
    = (let (t, n) = load_seed p flags stored y f (t, n) in (expand_single p salt x c t, n))"
proof -
  let ?S = "SEED_LENGTH_BYTES p" and ?d = "blk (SEED_LENGTH_BYTES p) stored n"
  have d: "length ?d \<le> ?S" by (simp add: blk_def length_seg)
  have yc: "y * ?S + ?S \<le> c * ?S" using x(3) by (simp add: blk_bound)
  have c: "c * ?S + 2 * ?S \<le> length t" using blk2_bound [OF x(4)] len by simp
  have xx: "blk ?S (memcpy t (y * ?S) ?d) x = blk ?S t x"
    unfolding blk_def [of ?S _ x]
  proof (rule seg_memcpy_other)
    show "y * ?S + length ?d \<le> length t" using yc c d by linarith
    show "x * ?S + ?S \<le> length t" using blk_bound [OF x(2)] len by simp
    show "x * ?S + ?S \<le> y * ?S \<or> y * ?S + length ?d \<le> x * ?S"
      using x(1) d blk_bound [of x y ?S] blk_bound [of y x ?S] by (cases "x < y") auto
  qed
  have "memcpy (memcpy t (c * ?S) e) (y * ?S) ?d = memcpy (memcpy t (y * ?S) ?d) (c * ?S) e" if "length e = 2 * ?S" for e
    by (rule memcpy_swap) (use that yc c d in simp_all)
  then show ?thesis using perm by (simp add: load_seed_def expand_single_def xx)
qed

theorem rebuild_tree_sve_eq:
  assumes V: "sve_ok V p" and x2: "tree_x2 p" and salt: "length salt = SALT_LENGTH_BYTES p"
    and len: "length tree = NUM_NODES p * SEED_LENGTH_BYTES p"
  shows "rebuild_tree_sve V p tree idx stored salt = rebuild_tree p tree idx stored salt"
    and length_rebuild_tree: "length (fst (rebuild_tree p tree idx stored salt)) = NUM_NODES p * SEED_LENGTH_BYTES p"
proof -
  let ?S = "SEED_LENGTH_BYTES p"
  let ?Q = "\<lambda>s :: bytes \<times> nat. length (fst s) = NUM_NODES p * ?S"
  have perm: "perm_ok (keccak_perm p)" using V by simp
  define flags where "flags = compute_seeds_to_publish p (replicate (NUM_NODES p) 0) idx"
  let ?load = "load_seed p flags stored"
  have load: "?Q (?load x f s)" if "x < NUM_NODES p" "?Q s" for x f s
    using length_load_seed [of "fst s" x] that by (cases s) simp
  have e: "?Q (expand_single p salt x c t, n)" if "Suc c < NUM_NODES p" "length t = NUM_NODES p * ?S" for x c t n
    using length_memcpy_blk2 [OF that(2,1)] perm by (simp add: expand_single_def)
  have Qw: "?Q (rebuild_single p flags stored salt x f c b s)"
    if "0 < x" and x: "x < NUM_NODES p" and c: "b \<Longrightarrow> Suc c < NUM_NODES p" and s: "?Q s" for x f c b s
  proof -
    obtain t n where tn: "?load x f s = (t, n)" by fastforce
    have "length t = NUM_NODES p * ?S" using load [OF x s, of f] by (simp add: tn)
    then show "?Q (rebuild_single p flags stored salt x f c b s)"
      using e c by (simp add: rebuild_single_def tn)
  qed
  have pw: "rebuild_pair V p flags stored salt x f1 c b1 (Suc x) f2 c2 b2 s
        = rebuild_single p flags stored salt (Suc x) f2 c2 b2 (rebuild_single p flags stored salt x f1 c b1 s)"
    if "0 < x" and x: "Suc x < NUM_NODES p" and b1: "b1 \<Longrightarrow> Suc x < c \<and> Suc c < NUM_NODES p"
      and "b2 \<Longrightarrow> b1 \<and> c2 = c + 2 \<and> c + 3 < NUM_NODES p" and s: "?Q s" for x f1 c b1 f2 c2 b2 s
  proof -
    have xl: "x < NUM_NODES p" using x by simp
    obtain t n where tn: "?load x f1 s = (t, n)" by fastforce
    have t: "length t = NUM_NODES p * ?S" using load [OF xl s, of f1] by (simp add: tn)
    obtain t' n' where tn': "?load (Suc x) f2 (t, n) = (t', n')" by fastforce
    have t': "length t' = NUM_NODES p * ?S" using load [OF x, of "(t, n)" f2] t by (simp add: tn')
    have le: "?load (Suc x) f2 (expand_single p salt x c t, n) = (expand_single p salt x c t', n')" if b1
      using load_expand [OF perm t _ xl, of "Suc x" c flags stored f2 salt n] b1 [OF that] tn' by simp
    have pe: "expand_pair V p salt x c (Suc x) c2 t' = expand_single p salt (Suc x) c2 (expand_single p salt x c t')" if b1
      by (rule expand_pair_eq [OF V x2 salt t' xl x]) (use b1 [OF that] in simp_all)
    show "rebuild_pair V p flags stored salt x f1 c b1 (Suc x) f2 c2 b2 s
        = rebuild_single p flags stored salt (Suc x) f2 c2 b2 (rebuild_single p flags stored salt x f1 c b1 s)"
      by (cases b1) (simp_all add: rebuild_pair_def rebuild_single_def tn tn' le pe Let_def)
  qed
  have start: "?Q (tree, 0)" using len by simp
  have w: "walk_down_nodes_x2 p (rebuild_pair V p flags stored salt) (rebuild_single p flags stored salt) (tree, 0)
      = walk_down_nodes p (rebuild_single p flags stored salt) (tree, 0)"
      "?Q (walk_down_nodes p (rebuild_single p flags stored salt) (tree, 0))"
    by (rule walk_down_nodes_x2_eq [where Q = ?Q and s = "(tree, 0)" and single = "rebuild_single p flags stored salt"
        and pair = "rebuild_pair V p flags stored salt", OF start Qw pw]; assumption)+
  have eq: "walk_down_nodes p (rebuild_single p flags stored salt) s = walk_down_nodes p (rebuild_step p flags stored salt) s" for s
    by (rule arg_cong [where f = "\<lambda>b. walk_down_nodes p b s"], intro ext, rule rebuild_single_eq)
  show "rebuild_tree_sve V p tree idx stored salt = rebuild_tree p tree idx stored salt"
    using w(1) eq by (simp add: rebuild_tree_sve_def rebuild_tree_def Let_def compute_seeds_to_publish_sve_eq flags_def)
  show "length (fst (rebuild_tree p tree idx stored salt)) = NUM_NODES p * ?S"
    using w(2) unfolding eq unfolding flags_def by (simp add: rebuild_tree_def Let_def case_prod_unfold)
qed

text \<open>
  What the recomputation of the root keeps at inner node \<open>i\<close>: the flags, the digests used so far and
  the size of the tree.
\<close>

definition rc_inv :: "(nat \<Rightarrow> bool) \<Rightarrow> nat \<Rightarrow> recompute_state \<Rightarrow> bool" where
  "rc_inv m i s \<longleftrightarrow> flags_at m i (rc_flags s) \<and> rc_published s = length (picked m i)
     \<and> length (rc_tree s) = NUM_NODES p * HASH_DIGEST_LENGTH p"

lemma take_child_frame:
  assumes "length (rc_tree s) = NUM_NODES p * HASH_DIGEST_LENGTH p" and "x < NUM_NODES p" and "y < NUM_NODES p"
    and "x \<noteq> y" and "length h = HASH_DIGEST_LENGTH p"
  shows "take_child p mtp x (s\<lparr>rc_tree := memcpy (rc_tree s) (y * HASH_DIGEST_LENGTH p) h, rc_flags := (rc_flags s)[y := v]\<rparr>)
    = (let (d, s) = take_child p mtp x s
       in (d, s\<lparr>rc_tree := memcpy (rc_tree s) (y * HASH_DIGEST_LENGTH p) h, rc_flags := (rc_flags s)[y := v]\<rparr>))"
  using blk_memcpy_other [OF assms(1,3,2) _ assms(5)] assms(4) by (simp add: take_child_def)

text \<open>The two children of an inner node that needs to be computed.\<close>

lemma take_children:
  fixes m mtp
  assumes i: "i < length (inner_nodes p)" and inv: "rc_inv m (Suc i) s"
    and need: "m (2 * i + 1) \<or> m (2 * i + 2)"
    and bound: "length (picked m 0) \<le> TREE_NODES_TO_STORE p"
    and mtp: "length mtp = TREE_NODES_TO_STORE p * HASH_DIGEST_LENGTH p"
  obtains a b s1 where "take_child p mtp (2 * i + 1) s = (a, s1)"
    "take_child p mtp (2 * i + 2) s1 = (b, s\<lparr>rc_published := length (picked m i)\<rparr>)"
    "length a = HASH_DIGEST_LENGTH p" "length b = HASH_DIGEST_LENGTH p"
proof -
  let ?H = "HASH_DIGEST_LENGTH p"
  define l r where "l = 2 * i + 1" and "r = 2 * i + 2"
  have lr: "l < NUM_NODES p" "r < NUM_NODES p" using child_lt_nodes [OF i] by (simp_all add: l_def r_def nodes_eq)
  have s: "flags_at m (Suc i) (rc_flags s)" "rc_published s = length (picked m (Suc i))" "length (rc_tree s) = NUM_NODES p * ?H"
    using inv by (simp_all add: rc_inv_def)
  have fc: "rc_flags s ! l = (if m l then 1 else 0)" "rc_flags s ! r = (if m r then 1 else 0)"
    using flags_at_child [OF s(1) i] by (simp_all add: l_def r_def)
  have pick: "pick m i = (if \<not> m l \<and> m r then [l] else if m l \<and> \<not> m r then [r] else [])"
    by (simp add: pick_def l_def r_def)
  have next1: "length (blk ?H mtp (length (picked m (Suc i)))) = ?H" if "pick m i \<noteq> []"
  proof (rule length_blk [OF _ mtp])
    have "length (picked m (Suc i)) < length (picked m i)" using that by (simp add: picked_step [OF i])
    moreover have "length (picked m i) \<le> length (picked m 0)"
      using picked_prefix [of 0 i m] i by auto
    ultimately show "length (picked m (Suc i)) < TREE_NODES_TO_STORE p" using bound by simp
  qed
  have tree: "length (blk ?H (rc_tree s) l) = ?H" "length (blk ?H (rc_tree s) r) = ?H"
    using length_blk [OF lr(1) s(3)] length_blk [OF lr(2) s(3)] by simp_all
  have "\<exists>a b s1. take_child p mtp l s = (a, s1) \<and> take_child p mtp r s1 = (b, s\<lparr>rc_published := length (picked m i)\<rparr>)
      \<and> length a = ?H \<and> length b = ?H"
    using need unfolding l_def [symmetric] r_def [symmetric]
    by (cases "m l"; cases "m r") (simp_all add: take_child_def fc COMPUTED_def s(2) picked_step [OF i] pick tree next1)
  with that show ?thesis unfolding l_def [symmetric] r_def [symmetric] by blast
qed

lemma recompute_need_child:
  assumes "i < length (inner_nodes p)" and "flags_at m (Suc i) (rc_flags s)"
  shows "recompute_need (2 * i + 1) s \<longleftrightarrow> m (2 * i + 1) \<or> m (2 * i + 2)"
  using flags_at_child [OF assms(2,1)] by (simp add: recompute_need_def COMPUTED_def)

lemma rc_inv_single:
  fixes m mtp
  assumes i: "i < length (inner_nodes p)" and inv: "rc_inv m (Suc i) s" and perm: "perm_ok (keccak_perm p)"
    and mx: "m (inner_nodes p ! i) \<longleftrightarrow> m (2 * i + 1) \<or> m (2 * i + 2)"
    and bound: "length (picked m 0) \<le> TREE_NODES_TO_STORE p"
    and mtp: "length mtp = TREE_NODES_TO_STORE p * HASH_DIGEST_LENGTH p"
  shows "rc_inv m i (recompute_single p mtp (2 * i + 1) (inner_nodes p ! i) s)"
    and "recompute_single p mtp (2 * i + 1) (inner_nodes p ! i) s = recompute_step p mtp (2 * i + 1) (inner_nodes p ! i) s"
proof -
  have s: "flags_at m (Suc i) (rc_flags s)" "rc_published s = length (picked m (Suc i))"
      "length (rc_tree s) = NUM_NODES p * HASH_DIGEST_LENGTH p"
    using inv by (simp_all add: rc_inv_def)
  note need = recompute_need_child [OF i s(1)]
  have fc: "rc_flags s ! (2 * i + 1) = (if m (2 * i + 1) then 1 else 0)" "rc_flags s ! (2 * i + 2) = (if m (2 * i + 2) then 1 else 0)"
    using flags_at_child [OF s(1) i] by simp_all
  show "recompute_single p mtp (2 * i + 1) (inner_nodes p ! i) s = recompute_step p mtp (2 * i + 1) (inner_nodes p ! i) s"
    using fc by (simp add: recompute_single_def recompute_step_def recompute_need_def COMPUTED_def NOT_COMPUTED_def)
  show "rc_inv m i (recompute_single p mtp (2 * i + 1) (inner_nodes p ! i) s)"
  proof (cases "m (2 * i + 1) \<or> m (2 * i + 2)")
    case False
    then have "pick m i = []" by (simp add: pick_def)
    moreover have "flags_at m i (rc_flags s)" by (rule flags_at_keep [OF s(1) i]) (use False mx in simp)
    ultimately show ?thesis using False need s by (simp add: recompute_single_def rc_inv_def picked_step [OF i])
  next
    case True
    obtain a b s1 where t: "take_child p mtp (2 * i + 1) s = (a, s1)"
        "take_child p mtp (2 * i + 2) s1 = (b, s\<lparr>rc_published := length (picked m i)\<rparr>)"
      by (rule take_children [OF i inv True bound mtp])
    have fl: "flags_at m i ((rc_flags s)[inner_nodes p ! i := 1])"
      by (rule flags_at_update [OF s(1) i mx]) (use True in simp)
    have "inner_nodes p ! i < NUM_NODES p" using inner_lt_nodes [OF i] by (simp add: nodes_eq)
    then have "length (memcpy (rc_tree s) (inner_nodes p ! i * HASH_DIGEST_LENGTH p) (hash p (a @ b) HASH_DOMAIN_SEP_CONST))
        = NUM_NODES p * HASH_DIGEST_LENGTH p"
      by (rule length_memcpy_blk [OF s(3)]) (simp add: perm)
    then show ?thesis
      using True need t fl by (simp add: recompute_single_def rc_inv_def COMPUTED_def)
  qed
qed

lemma recompute_pair_eq:
  fixes m mtp
  assumes V: "sve_ok V p" and x2: "tree_x2 p"
    and k: "Suc k < length (inner_nodes p)" and inv: "rc_inv m (Suc (Suc k)) s"
    and ab: "inner_nodes p ! k < 2 * k + 1" "inner_nodes p ! Suc k < 2 * k + 1"
    and mx: "m (inner_nodes p ! Suc k) \<longleftrightarrow> m (2 * k + 3) \<or> m (2 * k + 4)"
    and need: "m (2 * k + 3) \<or> m (2 * k + 4)" "m (2 * k + 1) \<or> m (2 * k + 2)"
    and bound: "length (picked m 0) \<le> TREE_NODES_TO_STORE p"
    and mtp: "length mtp = TREE_NODES_TO_STORE p * HASH_DIGEST_LENGTH p"
  shows "recompute_pair V p mtp (2 * k + 3) (inner_nodes p ! Suc k) (2 * k + 1) (inner_nodes p ! k) s
    = recompute_single p mtp (2 * k + 1) (inner_nodes p ! k)
        (recompute_single p mtp (2 * k + 3) (inner_nodes p ! Suc k) s)"
proof -
  let ?H = "HASH_DIGEST_LENGTH p" and ?y = "inner_nodes p ! Suc k"
  have perm: "perm_ok (keccak_perm p)" using V by simp
  have sib: "SIBLING (2 * k + 3) = 2 * k + 4" "SIBLING (2 * k + 1) = 2 * k + 2" by (simp_all add: SIBLING_def)
  have k': "k < length (inner_nodes p)" using k by simp
  have two: "2 * Suc k + 1 = 2 * k + 3" "2 * Suc k + 2 = 2 * k + 4" by simp_all
  have s: "flags_at m (Suc (Suc k)) (rc_flags s)" "length (rc_tree s) = NUM_NODES p * ?H"
    using inv by (simp_all add: rc_inv_def)
  obtain a b s1 where t1: "take_child p mtp (2 * k + 3) s = (a, s1)"
      "take_child p mtp (2 * k + 4) s1 = (b, s\<lparr>rc_published := length (picked m (Suc k))\<rparr>)" "length a = ?H" "length b = ?H"
    using take_children [OF k inv _ bound mtp, unfolded two] need(1) by metis
  let ?s2 = "s\<lparr>rc_published := length (picked m (Suc k))\<rparr>"
  let ?h = "hash p (a @ b) HASH_DOMAIN_SEP_CONST"
  let ?upd = "\<lambda>s. s\<lparr>rc_tree := memcpy (rc_tree s) (?y * ?H) ?h, rc_flags := (rc_flags s)[?y := COMPUTED]\<rparr>"
  have st1: "recompute_single p mtp (2 * k + 3) ?y s = ?upd ?s2"
    using recompute_need_child [OF k s(1), unfolded two] need(1) t1 by (simp add: recompute_single_def sib)
  have inv2: "rc_inv m (Suc k) (?upd ?s2)"
    using rc_inv_single(1) [OF k inv perm _ bound mtp, unfolded two, OF mx] by (simp only: st1)
  have nodes4: "2 * k + 1 < NUM_NODES p" "2 * k + 2 < NUM_NODES p" "?y < NUM_NODES p" "2 * k + 1 \<noteq> ?y" "2 * k + 2 \<noteq> ?y"
    using child_lt_nodes [OF k'] inner_lt_nodes [OF k] ab by (simp_all add: nodes_eq)
  have lh: "length ?h = ?H" using perm by simp
  have len2: "length (rc_tree ?s2) = NUM_NODES p * ?H" using s(2) by simp
  obtain c s3 where c: "take_child p mtp (2 * k + 1) ?s2 = (c, s3)" by fastforce
  obtain d s4 where d: "take_child p mtp (2 * k + 2) s3 = (d, s4)" by fastforce
  have fr3: "take_child p mtp (2 * k + 1) (?upd ?s2) = (c, ?upd s3)"
    using take_child_frame [OF len2 nodes4(1,3,4) lh, of mtp COMPUTED] by (simp only: c Let_def prod.case)
  have len3: "length (rc_tree s3) = NUM_NODES p * ?H" "rc_tree s4 = rc_tree s3" "rc_tree s3 = rc_tree s"
      "rc_flags s4 = rc_flags s3"
    using c d s(2) by (auto simp: take_child_def split: if_splits)
  have fr4: "take_child p mtp (2 * k + 2) (?upd s3) = (d, ?upd s4)"
    using take_child_frame [OF len3(1) nodes4(2,3,5) lh, of mtp COMPUTED] by (simp only: d Let_def prod.case)
  obtain a' b' s' where t2: "take_child p mtp (2 * k + 1) (?upd ?s2) = (a', s')"
      "take_child p mtp (2 * k + 2) s' = (b', (?upd ?s2)\<lparr>rc_published := length (picked m k)\<rparr>)" "length a' = ?H" "length b' = ?H"
    by (rule take_children [OF k' inv2 need(2) bound mtp])
  have "s' = ?upd s3" "a' = c" using t2(1) by (simp_all only: fr3 prod.inject)
  moreover have "b' = d" using t2(2) by (simp only: \<open>s' = ?upd s3\<close> fr4 prod.inject)
  ultimately have lens: "length c = ?H" "length d = ?H" using t2(3,4) by simp_all
  have fl: "flags_at m (Suc k) (rc_flags (?upd ?s2))" using inv2 by (simp add: rc_inv_def)
  have st2: "recompute_single p mtp (2 * k + 1) (inner_nodes p ! k) (?upd ?s2)
      = (?upd s4)\<lparr>rc_tree := memcpy (rc_tree (?upd s4)) (inner_nodes p ! k * ?H) (hash p (c @ d) HASH_DOMAIN_SEP_CONST),
          rc_flags := (rc_flags (?upd s4))[inner_nodes p ! k := COMPUTED]\<rparr>"
  proof -
    have "recompute_need (2 * k + 1) (?upd ?s2)" using recompute_need_child [OF k' fl] need(2) by blast
    then show ?thesis by (simp only: recompute_single_def if_True sib fr3 fr4 Let_def prod.case)
  qed
  have hp: "hash_par V p 2 d1 d2 (a @ b) (c @ d) HASH_DOMAIN_SEP_CONST HASH_DOMAIN_SEP_CONST
      = (?h, hash p (c @ d) HASH_DOMAIN_SEP_CONST)" for d1 d2
    by (rule hash_par_2) (use V x2 lens t1(3,4) in \<open>simp_all add: tree_x2_def mult_2\<close>)
  have "recompute_pair V p mtp (2 * k + 3) ?y (2 * k + 1) (inner_nodes p ! k) s
      = s4\<lparr>rc_tree := memcpy (memcpy (rc_tree s4) (?y * ?H) ?h) (inner_nodes p ! k * ?H) (hash p (c @ d) HASH_DOMAIN_SEP_CONST),
          rc_flags := (rc_flags s4)[?y := COMPUTED, inner_nodes p ! k := COMPUTED]\<rparr>"
    by (simp only: recompute_pair_def Let_def sib t1(1,2) c d prod.case hp)
  then show ?thesis unfolding st1 st2 by simp
qed

theorem recompute_root_sve_eq:
  fixes chall
  defines "m \<equiv> marked (inner_nodes p) (leaf_nodes p) (\<lambda>c. chall ! c = CHALLENGE_PROOF_VALUE)"
  assumes V: "sve_ok V p" and x2: "tree_x2 p"
    and len: "length tree = NUM_NODES p * HASH_DIGEST_LENGTH p"
    and cmts: "\<And>c. c < par_T p \<Longrightarrow> length (cmts ! c) = HASH_DIGEST_LENGTH p"
    and bound: "length (picked m 0) \<le> TREE_NODES_TO_STORE p"
    and mtp: "length mtp = TREE_NODES_TO_STORE p * HASH_DIGEST_LENGTH p"
  shows "recompute_root_sve V p tree cmts mtp chall = recompute_root p tree cmts mtp chall"
proof -
  let ?s = "\<lparr>rc_tree = place_cmt_on_leaves p tree cmts,
      rc_flags = merkle_label_leaves p (replicate (NUM_NODES p) NOT_COMPUTED) chall, rc_published = 0\<rparr>"
  have perm: "perm_ok (keccak_perm p)" using V by simp
  have mx: "m (inner_nodes p ! i) \<longleftrightarrow> m (2 * i + 1) \<or> m (2 * i + 2)" if "i < length (inner_nodes p)" for i
    using that by (simp add: m_def marked_inner)
  have start: "rc_inv m (par_T p - 1) ?s"
    unfolding length_inner_nodes [symmetric] rc_inv_def m_def
    using label_leaves [of chall] place_cmt [OF len cmts] by simp
  have I: "k < par_T p - 1 \<Longrightarrow> k < length (inner_nodes p)" for k by (simp add: length_inner_nodes)
  have "walk_up_x2 p (\<lambda>node1 node2 s. recompute_need node1 s \<and> recompute_need node2 s) (\<lambda>n. True)
      (recompute_pair V p mtp) (recompute_single p mtp) ?s = walk_up p (recompute_single p mtp) ?s"
  proof (rule walk_up_x2_eq [where Q = "rc_inv m", OF start])
    fix k s assume k: "k < par_T p - 1" and s: "rc_inv m (Suc k) s"
    show "rc_inv m k (recompute_single p mtp (2 * k + 1) (inner_nodes p ! k) s)"
      by (rule rc_inv_single(1) [OF I [OF k] s perm mx [OF I [OF k]] bound mtp])
  next
    fix k s assume k: "Suc k < par_T p - 1" and ab: "inner_nodes p ! k < 2 * k + 1" "inner_nodes p ! Suc k < 2 * k + 1"
      and s: "rc_inv m (Suc (Suc k)) s" and two: "recompute_need (2 * k + 3) s \<and> recompute_need (2 * k + 1) s"
    have k4: "2 * Suc k + 1 = 2 * k + 3" "2 * Suc k + 2 = 2 * k + 4" by simp_all
    have fl: "flags_at m (Suc (Suc k)) (rc_flags s)" using s by (simp add: rc_inv_def)
    have k': "k < length (inner_nodes p)" using k by (simp add: length_inner_nodes)
    have v: "visited (Suc (Suc k)) (2 * k + 1)" "visited (Suc (Suc k)) (2 * k + 2)"
      using visited_child [OF k', of "2 * k + 1"] visited_child [OF k', of "2 * k + 2"] ab(2)
      by (simp_all add: visited_step [OF I [OF k]])
    have n1: "m (2 * k + 3) \<or> m (2 * k + 4)"
      using recompute_need_child [OF I [OF k] fl, unfolded k4] two by blast
    have n2: "m (2 * k + 1) \<or> m (2 * k + 2)"
      using two fl v child_lt_nodes [OF k'] by (auto simp: recompute_need_def flags_at_def COMPUTED_def split: if_splits)
    show "recompute_pair V p mtp (2 * k + 3) (inner_nodes p ! Suc k) (2 * k + 1) (inner_nodes p ! k) s
        = recompute_single p mtp (2 * k + 1) (inner_nodes p ! k)
            (recompute_single p mtp (2 * k + 3) (inner_nodes p ! Suc k) s)"
      by (rule recompute_pair_eq [OF V x2 I [OF k] s ab mx [OF I [OF k], unfolded k4] n1 n2 bound mtp])
  qed simp
  also have "\<dots> = walk_up p (recompute_step p mtp) ?s"
  proof -
    have "(\<lambda>a b. a = b \<and> rc_inv m 0 a)
      (for_down (par_T p - 1) (\<lambda>k. recompute_single p mtp (2 * k + 1) (inner_nodes p ! k)) ?s)
      (for_down (par_T p - 1) (\<lambda>k. recompute_step p mtp (2 * k + 1) (inner_nodes p ! k)) ?s)"
    proof (rule for_down_rel [where R = "\<lambda>k a b. a = b \<and> rc_inv m k a"])
      fix k a b assume k: "k < par_T p - 1" and "a = b \<and> rc_inv m (Suc k) a"
      then have b: "b = a" and a: "rc_inv m (Suc k) a" by auto
      show "recompute_single p mtp (2 * k + 1) (inner_nodes p ! k) a = recompute_step p mtp (2 * k + 1) (inner_nodes p ! k) b
          \<and> rc_inv m k (recompute_single p mtp (2 * k + 1) (inner_nodes p ! k) a)"
        unfolding b using rc_inv_single [OF I [OF k] a perm mx [OF I [OF k]] bound mtp] by blast
    qed (use start in simp)
    then show ?thesis unfolding walk_up_eq by blast
  qed
  finally show ?thesis by (simp only: recompute_root_sve_def recompute_root_def Let_def)
qed

end

end
