(* ===== verification/Cross_Sve_Arith.thy ===== *)
theory Cross_Sve_Arith
  imports Sve Cross_Fp
begin

text \<open>
  The \<open>OQS_ENABLE_SVE2\<close> branches of \<open>restr_arith.h\<close> and \<open>fp_arith.h\<close>: matrix products that keep a
  vector of columns in wide accumulators and reduce late.  For the vectors and matrices of the scheme they
  compute, at every vector length, what the portable branches compute: the same field elements, and
  exponents with the same residue in the same range.
\<close>

subsection \<open>\<open>restr_arith.h\<close>\<close>

definition sv_fzred_single :: "u16 list \<Rightarrow> u16 list" where
  "sv_fzred_single x = (let low = svand_n x 0x7f; high = svlsr_n x 7 in svadd low high)"

definition sv_fzred_double :: "u16 list \<Rightarrow> u16 list" where
  "sv_fzred_double x = (let x = sv_fzred_single x in sv_fzred_single x)"

text \<open>\<open>res\<close> is the memory of the result, of \<open>N\<close> elements.\<close>

definition fz_inf_w_by_fz_matrix_sve :: "nat \<Rightarrow> cross_params \<Rightarrow> u8 list \<Rightarrow> u8 list \<Rightarrow> u8 list \<Rightarrow> u8 list" where
  "fz_inf_w_by_fz_matrix_sve vl p res e W_mat =
     (let num_cols = par_N p - par_M p;
          res = for_step vl num_cols (\<lambda>j res.
            let pg = svwhilelt vl j num_cols;
                acc = svdup vl 0;
                acc = for_range 0 (par_M p) (\<lambda>i acc.
                  let scalar_e = svdup vl (ucast (e ! i));
                      v_w = svld1 pg W_mat (i * num_cols + j);
                      acc = svmla acc v_w scalar_e
                  in if i mod 4 = 3 then sv_fzred_single acc else acc) acc;
                acc = sv_fzred_double acc
            in svst1 pg res j acc) res
      in memcpy res num_cols (take (par_M p) e))"

subsection \<open>\<open>fp_arith.h\<close>\<close>

definition TABLE_RESTR_TO_VAL :: "u32 list" where
  "TABLE_RESTR_TO_VAL = [
    1, 16, 256, 24, 384, 36, 67, 54, 355, 81, 278, 376, 417, 55, 371, 337,
    302, 251, 453, 122, 425, 183, 383, 20, 320, 30, 480, 45, 211, 322, 62, 483,
    93, 470, 394, 196, 82, 294, 123, 441, 439, 407, 404, 356, 97, 25, 400, 292,
    91, 438, 391, 148, 332, 222, 498, 333, 238, 245, 357, 113, 281, 424, 167, 127,
    505, 445, 503, 413, 500, 365, 241, 293, 107, 185, 415, 23, 368, 289, 43, 179,
    319, 14, 224, 21, 336, 286, 504, 429, 247, 389, 116, 329, 174, 239, 261, 104,
    137, 156, 460, 234, 181, 351, 17, 272, 280, 408, 420, 103, 121, 409, 436, 359,
    145, 284, 472, 426, 199, 130, 44, 195, 66, 38, 99, 57, 403, 340, 350,
    1, 16, 256, 24, 384, 36, 67, 54, 355, 81, 278, 376, 417, 55, 371, 337,
    302, 251, 453, 122, 425, 183, 383, 20, 320, 30, 480, 45, 211, 322, 62, 483,
    93, 470, 394, 196, 82, 294, 123, 441, 439, 407, 404, 356, 97, 25, 400, 292,
    91, 438, 391, 148, 332, 222, 498, 333, 238, 245, 357, 113, 281, 424, 167, 127,
    505, 445, 503, 413, 500, 365, 241, 293, 107, 185, 415, 23, 368, 289, 43, 179,
    319, 14, 224, 21, 336, 286, 504, 429, 247, 389, 116, 329, 174, 239, 261, 104,
    137, 156, 460, 234, 181, 351, 17, 272, 280, 408, 420, 103, 121, 409, 436, 359,
    145, 284, 472, 426, 199, 130, 44, 195, 66, 38, 99, 57, 403, 340, 350]"

text \<open>\<open>res_ptr\<close> is \<open>res + off\<close>.\<close>

definition sv_barrett_store :: "svbool \<Rightarrow> u16 list \<Rightarrow> nat \<Rightarrow> u32 list \<Rightarrow> u16 list" where
  "sv_barrett_store pg res off acc =
     (let low = svand_n acc 0x1FF;
          high = svlsr_n acc 9;
          acc = svmla_n low high 3;
          low = svand_n acc 0x1FF;
          high = svlsr_n acc 9;
          acc = svmla_n low high 3;
          q = svmul_n acc 16481;
          q = svlsr_n q 23;
          res_32 = svmls_n acc q 509
      in svst1 pg res off res_32)"

definition restr_vec_by_fp_matrix_sve :: "nat \<Rightarrow> cross_params \<Rightarrow> u16 list \<Rightarrow> u8 list \<Rightarrow> u16 list \<Rightarrow> u16 list" where
  "restr_vec_by_fp_matrix_sve vl p res e V_tr =
     (let restr_e = map (\<lambda>i. TABLE_RESTR_TO_VAL ! unat (e ! i)) [0..<par_N p];
          num_cols = par_N p - par_K p
      in for_step vl num_cols (\<lambda>j res.
           let pg = svwhilelt vl j num_cols;
               acc = svld1 pg restr_e (par_K p + j);
               acc = for_range 0 (par_K p) (\<lambda>i acc.
                 let s = svdup vl (restr_e ! i);
                     v = svld1 pg V_tr (i * num_cols + j)
                 in svmla acc v s) acc
           in sv_barrett_store pg res j acc) res)"

definition fp_vec_by_fp_matrix_sve :: "nat \<Rightarrow> cross_params \<Rightarrow> u16 list \<Rightarrow> u16 list \<Rightarrow> u16 list \<Rightarrow> u16 list" where
  "fp_vec_by_fp_matrix_sve vl p res u V_tr =
     (let num_cols = par_N p - par_K p
      in for_step vl num_cols (\<lambda>j res.
           let pg = svwhilelt vl j num_cols;
               acc = svld1 pg u (par_K p + j);
               acc = for_range 0 (par_K p) (\<lambda>i acc.
                 let s = svdup vl (ucast (u ! i));
                     v = svld1 pg V_tr (i * num_cols + j)
                 in svmla acc v s) acc
           in sv_barrett_store pg res j acc) res)"

subsection \<open>One lane of the exponent product\<close>

definition fzred16 :: "u16 \<Rightarrow> u16" where
  "fzred16 x = (x AND 0x7f) + drop_bit 7 x"

lemma unat_fzred16: "unat (fzred16 x) = unat x mod 128 + unat x div 128"
proof -
  have "unat x div 128 < 512" by (rule less_mult_imp_div_less) simp
  moreover have "unat x mod 128 < 128" by simp
  ultimately have "unat x mod 128 + unat x div 128 < 65536" by linarith
  then show ?thesis unfolding fzred16_def by (subst unat_add16) (simp_all add: unat_simps)
qed

lemma fzred16_mod: "unat (fzred16 x) mod 127 = unat x mod 127"
  unfolding unat_fzred16 by (rule mod_127_fold)

lemma sv_fzred_single_eq: "sv_fzred_single x = map fzred16 x"
  by (rule nth_equalityI) (simp_all add: sv_fzred_single_def Let_def fzred16_def)

definition fz_lane :: "nat \<Rightarrow> u16 \<Rightarrow> u16 \<Rightarrow> u16 \<Rightarrow> u16" where
  "fz_lane i w e a = (let a = a + w * e in if i mod 4 = 3 then fzred16 a else a)"

text \<open>Between two reductions the accumulator stays below \<open>628 + 4 * 126 * 126\<close>.\<close>

lemma fz_lane_step:
  assumes "unat a \<le> 628 + (i mod 4) * 15876" and "unat w \<le> 126" and "unat e \<le> 126"
  shows "unat (fz_lane i w e a) \<le> 628 + (Suc i mod 4) * 15876"
    and "unat (fz_lane i w e a) mod 127 = (unat a + unat w * unat e) mod 127"
proof -
  have we: "unat w * unat e \<le> 126 * 126" using assms(2,3) by (rule mult_le_mono)
  have i: "i mod 4 \<le> 3" by (simp add: less_Suc_eq_le [symmetric])
  then have b: "unat a + unat w * unat e \<le> 628 + 63504" using assms(1) we by linarith
  have m: "unat (w * e) = unat w * unat e" using we by (subst unat_mult16) simp_all
  have s: "unat (a + w * e) = unat a + unat w * unat e" using b by (subst unat_add16) (simp_all add: m)
  show "unat (fz_lane i w e a) mod 127 = (unat a + unat w * unat e) mod 127"
    by (simp add: fz_lane_def Let_def fzred16_mod s)
  show "unat (fz_lane i w e a) \<le> 628 + (Suc i mod 4) * 15876"
  proof (cases "i mod 4 = 3")
    case True
    have "unat (a + w * e) div 128 \<le> 64132 div 128" using b by (intro div_le_mono) (simp add: s)
    moreover have "unat (a + w * e) mod 128 \<le> 127" by (simp add: less_Suc_eq_le [symmetric])
    ultimately have "unat (fzred16 (a + w * e)) \<le> 628" unfolding unat_fzred16 by simp
    with True show ?thesis by (simp add: fz_lane_def)
  next
    case False
    then have "Suc i mod 4 = Suc (i mod 4)" using i by (simp add: mod_Suc)
    with False show ?thesis using assms(1) we by (simp add: fz_lane_def s)
  qed
qed

lemma fz_lane_loop:
  assumes "\<And>i. i < m \<Longrightarrow> unat (w i) \<le> 126" and "\<And>i. i < m \<Longrightarrow> unat (e i) \<le> 126"
  shows "unat (for_range 0 m (\<lambda>i. fz_lane i (w i) (e i)) 0) \<le> 628 + (m mod 4) * 15876
    \<and> unat (for_range 0 m (\<lambda>i. fz_lane i (w i) (e i)) 0) mod 127 = (\<Sum>i<m. unat (e i) * unat (w i)) mod 127"
  using assms
proof (induction m)
  case 0
  then show ?case by simp
next
  case (Suc m)
  let ?r = "for_range 0 m (\<lambda>i. fz_lane i (w i) (e i)) 0"
  have IH: "unat ?r \<le> 628 + (m mod 4) * 15876" "unat ?r mod 127 = (\<Sum>i<m. unat (e i) * unat (w i)) mod 127"
    using Suc by simp_all
  have we: "unat (w m) \<le> 126" "unat (e m) \<le> 126" using Suc.prems by simp_all
  note step = fz_lane_step [OF IH(1) we]
  have "(unat ?r + unat (w m) * unat (e m)) mod 127
      = ((\<Sum>i<m. unat (e i) * unat (w i)) + unat (w m) * unat (e m)) mod 127"
    by (rule mod_add_cong [OF IH(2) refl])
  then show ?case using step by (simp add: for_range_Suc mult.commute)
qed

text \<open>The final double reduction, when at most one product was added after the last reduction.\<close>

lemma fzred16_twice:
  assumes "unat x \<le> 16504"
  shows "unat (fzred16 (fzred16 x)) \<le> 127" and "unat (fzred16 (fzred16 x)) mod 127 = unat x mod 127"
proof -
  have "unat x mod 128 + unat x div 128 \<le> 254"
  proof (cases "unat x div 128 = 128")
    case True
    then have "unat x mod 128 \<le> 120" using assms div_mult_mod_eq [of "unat x" 128] by linarith
    with True show ?thesis by simp
  next
    case False
    moreover have "unat x div 128 \<le> 16504 div 128" using assms by (rule div_le_mono)
    ultimately have "unat x div 128 \<le> 127" by simp
    moreover have "unat x mod 128 \<le> 127" by (simp add: less_Suc_eq_le [symmetric])
    ultimately show ?thesis by linarith
  qed
  then have "unat (fzred16 x) \<le> 254" by (simp add: unat_fzred16)
  then show "unat (fzred16 (fzred16 x)) \<le> 127" unfolding unat_fzred16 [of "fzred16 x"] by (rule fold_127_le)
  show "unat (fzred16 (fzred16 x)) mod 127 = unat x mod 127" by (simp add: fzred16_mod)
qed

subsection \<open>The exponent product\<close>

lemma fz_sve_acc:
  fixes vl p e W_mat j
  defines "n \<equiv> par_N p - par_M p"
  defines "acc \<equiv> for_range 0 (par_M p) (\<lambda>i acc.
      let scalar_e = svdup vl (ucast (e ! i));
          v_w = svld1 (svwhilelt vl j n) W_mat (i * n + j);
          acc = svmla acc v_w scalar_e
      in if i mod 4 = 3 then sv_fzred_single acc else acc) (svdup vl 0)"
  shows "length acc = vl"
    and "k < vl \<Longrightarrow> j + k < n \<Longrightarrow> acc ! k = for_range 0 (par_M p)
      (\<lambda>i. fz_lane i (ucast (W_mat ! (i * n + (j + k)))) (ucast (e ! i))) 0"
proof -
  show "length acc = vl"
    unfolding acc_def by (rule length_for_range_lanes) (simp_all add: sv_fzred_single_eq Let_def)
  assume k: "k < vl" "j + k < n"
  have "acc ! k = for_range 0 (par_M p)
      (\<lambda>i. fz_lane i (ucast (W_mat ! (i * n + (j + k)))) (ucast (e ! i))) (svdup vl 0 ! k)"
    unfolding acc_def
    by (rule for_range_lanes [where P = "\<lambda>k. j + k < n"
          and g = "\<lambda>k i. fz_lane i (ucast (W_mat ! (i * n + (j + k)))) (ucast (e ! i))"])
      (use k in \<open>simp_all add: sv_fzred_single_eq Let_def fz_lane_def add.assoc\<close>)
  with k show "acc ! k = for_range 0 (par_M p)
      (\<lambda>i. fz_lane i (ucast (W_mat ! (i * n + (j + k)))) (ucast (e ! i))) 0" by simp
qed

theorem fz_inf_w_by_fz_matrix_sve_correct:
  assumes vl: "0 < vl" and res: "length res = par_N p" and e: "length e = par_M p" "fz_canon e"
    and W: "fz_mat_ok p W_mat" and MN: "par_M p \<le> par_N p" and M4: "par_M p mod 4 \<le> 1"
  defines "r \<equiv> fz_inf_w_by_fz_matrix_sve vl p res e W_mat"
  shows "length r = par_N p" and "fz_ok r"
    and "i < par_N p \<Longrightarrow> unat (r ! i) mod Z = unat (fz_inf_w_by_fz_matrix p e W_mat ! i) mod Z"
proof -
  let ?n = "par_N p - par_M p"
  define col where "col j = (ucast (fzred16 (fzred16 (for_range 0 (par_M p)
      (\<lambda>i. fz_lane i (ucast (W_mat ! (i * ?n + j))) (ucast (e ! i))) 0))) :: u8)" for j
  have r: "r = map col [0..<?n] @ e"
  proof -
    have "r = memcpy (map col [0..<?n] @ drop ?n res) ?n e"
      unfolding r_def fz_inf_w_by_fz_matrix_sve_def Let_def
      by (subst for_step_store [where col = col])
        (use vl res e fz_sve_acc [where vl = vl and p = p and W_mat = W_mat and e = e] in
          \<open>simp_all add: sv_fzred_double_def sv_fzred_single_eq Let_def col_def\<close>)
    then show ?thesis using res e MN by (simp add: memcpy_def)
  qed
  have we: "unat (ucast (W_mat ! (i * ?n + j)) :: u16) \<le> 126" "unat (ucast (e ! i) :: u16) \<le> 126"
    if "i < par_M p" "j < ?n" for i j
  proof -
    have "i * ?n + j < length W_mat" using W mat_index [OF that] by (simp add: fz_mat_ok_def)
    then show "unat (ucast (W_mat ! (i * ?n + j)) :: u16) \<le> 126"
      using W fz_canonD [of W_mat "i * ?n + j"] by (simp add: fz_mat_ok_def)
    show "unat (ucast (e ! i) :: u16) \<le> 126" using fz_canonD [OF e(2), of i] e(1) that by simp
  qed
  have col: "unat (col j) \<le> 127" "unat (col j) mod 127 = fz_dot p e W_mat j mod 127" if j: "j < ?n" for j
  proof -
    let ?a = "for_range 0 (par_M p) (\<lambda>i. fz_lane i (ucast (W_mat ! (i * ?n + j))) (ucast (e ! i))) 0"
    note loop = fz_lane_loop [of "par_M p" "\<lambda>i. ucast (W_mat ! (i * ?n + j))" "\<lambda>i. ucast (e ! i)"]
    have a: "unat ?a \<le> 628 + (par_M p mod 4) * 15876" "unat ?a mod 127 = fz_dot p e W_mat j mod 127"
      using loop we j by (simp_all add: fz_dot_def)
    have "(par_M p mod 4) * 15876 \<le> 1 * 15876" using M4 by (rule mult_le_mono1)
    then have "unat ?a \<le> 16504" using a(1) by linarith
    from fzred16_twice [OF this]
    have t: "unat (fzred16 (fzred16 ?a)) \<le> 127" "unat (fzred16 (fzred16 ?a)) mod 127 = unat ?a mod 127" .
    then have "unat (col j) = unat (fzred16 (fzred16 ?a))" unfolding col_def by (subst unat_ucast_small) simp_all
    then show "unat (col j) \<le> 127" "unat (col j) mod 127 = fz_dot p e W_mat j mod 127" using t a(2) by simp_all
  qed
  show len: "length r = par_N p" using MN e(1) by (simp add: r)
  show "fz_ok r" using col(1) fz_canon_ok [OF e(2)] by (auto simp: r fz_ok_def Z_def)
  show "unat (r ! i) mod Z = unat (fz_inf_w_by_fz_matrix p e W_mat ! i) mod Z" if i: "i < par_N p"
  proof (cases "i < ?n")
    case True
    then show ?thesis
      using col(2) [OF True] fz_inf_w_nth(2) [OF e(1) fz_canon_ok [OF e(2)] W True] by (simp add: r nth_append Z_def)
  next
    case False
    then obtain k where k: "i = ?n + k" "k < par_M p" using i MN by (metis le_add_diff_inverse less_diff_conv2 linorder_not_less
        add.commute add_diff_cancel_left' diff_diff_cancel le_add1 nat_le_iff_add)
    then show ?thesis using fz_inf_w_tail [OF e(1) k(2) MN] by (simp add: r nth_append)
  qed
qed

text \<open>After the double-zero normalisation, and as powers of the generator, the two branches agree.\<close>

lemma dz_norm_cong: "unat x \<le> 127 \<Longrightarrow> unat y \<le> 127 \<Longrightarrow> unat x mod Z = unat y mod Z \<Longrightarrow> dz_norm x = dz_norm y"
  by (simp add: word_eq_unat unat_dz_norm)

lemma fz_sve_agree:
  assumes "0 < vl" and "length res = par_N p" and "length e = par_M p" and "fz_canon e"
    and "fz_mat_ok p W_mat" and "par_M p \<le> par_N p" and "par_M p mod 4 \<le> 1"
  shows "fz_dz_norm_n p (fz_inf_w_by_fz_matrix_sve vl p res e W_mat) = fz_dz_norm_n p (fz_inf_w_by_fz_matrix p e W_mat)"
    and "convert_restr_vec_to_fp p (fz_inf_w_by_fz_matrix_sve vl p res e W_mat)
      = convert_restr_vec_to_fp p (fz_inf_w_by_fz_matrix p e W_mat)"
proof -
  note s = fz_inf_w_by_fz_matrix_sve_correct [OF assms]
  note l = length_fz_inf_w [OF assms(3,6), of W_mat] and ok = fz_ok_fz_inf_w [OF assms(3) fz_canon_ok [OF assms(4)] assms(5)]
  show "fz_dz_norm_n p (fz_inf_w_by_fz_matrix_sve vl p res e W_mat) = fz_dz_norm_n p (fz_inf_w_by_fz_matrix p e W_mat)"
    unfolding fz_dz_norm_n_eq [OF s(1)] fz_dz_norm_n_eq [OF l]
    by (rule nth_equalityI) (use s l ok in \<open>auto intro!: dz_norm_cong fz_okD\<close>)
  show "convert_restr_vec_to_fp p (fz_inf_w_by_fz_matrix_sve vl p res e W_mat)
      = convert_restr_vec_to_fp p (fz_inf_w_by_fz_matrix p e W_mat)"
    by (rule fp_list_eqI) (use s l ok in \<open>auto simp: convert_restr_nth gpow_def intro!: generator_cong\<close>)
qed

subsection \<open>The field products\<close>

text \<open>One lane of the reduction: two Mersenne folds and a Barrett step, exact below \<open>2^30\<close>.\<close>

definition mersenne32 :: "u32 \<Rightarrow> u32" where
  "mersenne32 x = (x AND 0x1FF) + drop_bit 9 x * 3"

definition barrett32 :: "u32 \<Rightarrow> u32" where
  "barrett32 x = x - drop_bit 23 (x * 16481) * 509"

lemma unat_mersenne32: "unat (mersenne32 x) = unat x mod 512 + 3 * (unat x div 512)"
proof -
  have d: "unat x div 512 < 8388608" by (rule less_mult_imp_div_less) simp
  have m: "unat (drop_bit 9 x * 3) = 3 * (unat x div 512)"
    using d by (subst unat_mult32) (simp_all add: unat_drop_bit mult.commute)
  have "unat x mod 512 < 512" by simp
  with d have "unat x mod 512 + 3 * (unat x div 512) < 4294967296" by linarith
  then show ?thesis unfolding mersenne32_def by (subst unat_add32) (simp_all add: m unat_and_1ff)
qed

lemma barrett_quotient:
  assumes "(x :: nat) \<le> 37665"
  shows "x * 16481 div 8388608 = x div 509"
proof -
  define q r where "q = x div 509" and "r = x mod 509"
  have x: "x = 509 * q + r" and r: "r < 509" by (simp_all add: q_def r_def)
  have "q < 74" unfolding q_def by (rule less_mult_imp_div_less) (use assms in simp)
  with r have "221 * q + r * 16481 < 8388608" by linarith
  moreover have "x * 16481 = (221 * q + r * 16481) + q * 8388608" unfolding x by (simp add: algebra_simps)
  ultimately have "x * 16481 div 8388608 = q"
    by (simp only: div_mult_self1 [of "8388608 :: nat"] div_less add_0_right add_0 zero_neq_numeral not_False_eq_True)
  then show ?thesis by (simp add: q_def)
qed

lemma unat_barrett32:
  assumes "unat x \<le> 37665"
  shows "unat (barrett32 x) = unat x mod 509"
proof -
  have "unat (x * 16481) = unat x * 16481" using assms by (subst unat_mult32) simp_all
  then have d: "unat (drop_bit 23 (x * 16481)) = unat x div 509"
    using barrett_quotient [OF assms] by (simp add: unat_drop_bit)
  have le: "unat x div 509 * 509 \<le> unat x" by simp
  then have "unat (drop_bit 23 (x * 16481) * 509) = unat x div 509 * 509"
    using assms by (subst unat_mult32) (simp_all add: d)
  then show ?thesis using le unfolding barrett32_def by (subst unat_diff) (simp_all add: minus_div_mult_eq_mod)
qed

lemma reduce_lane:
  assumes "unat x < 1073741824"
  shows "unat (ucast (barrett32 (mersenne32 (mersenne32 x))) :: u16) = unat x mod P"
proof -
  have b1: "unat (mersenne32 x) < 6291968"
  proof -
    have "unat x div 512 < 2097152" by (rule less_mult_imp_div_less) (use assms in simp)
    moreover have "unat x mod 512 < 512" by simp
    ultimately show ?thesis unfolding unat_mersenne32 by linarith
  qed
  have b2: "unat (mersenne32 (mersenne32 x)) \<le> 37665"
  proof -
    have "unat (mersenne32 x) div 512 < 12289" by (rule less_mult_imp_div_less) (use b1 in simp)
    moreover have "unat (mersenne32 x) mod 512 < 512" by simp
    ultimately show ?thesis unfolding unat_mersenne32 [of "mersenne32 x"] by linarith
  qed
  have "unat (barrett32 (mersenne32 (mersenne32 x))) = unat x mod 509"
    unfolding unat_barrett32 [OF b2] by (simp add: unat_mersenne32 mod_509_fold)
  moreover have "unat x mod 509 < 65536" using mod_less_divisor [of 509 "unat x"] by linarith
  ultimately show ?thesis by (subst unat_ucast_small) (simp_all add: P_def)
qed

lemma sv_barrett_store_eq:
  "sv_barrett_store pg res off acc = svst1 pg res off (map (\<lambda>x. barrett32 (mersenne32 (mersenne32 x))) acc)"
proof -
  have m: "svmla_n (svand_n v 0x1FF) (svlsr_n v 9) 3 = map mersenne32 v" for v :: "u32 list"
    by (rule nth_equalityI) (simp_all add: mersenne32_def)
  have b: "svmls_n v (svlsr_n (svmul_n v 16481) 23) 509 = map barrett32 v" for v :: "u32 list"
    by (rule nth_equalityI) (simp_all add: barrett32_def)
  show ?thesis by (simp add: sv_barrett_store_def Let_def m b comp_def)
qed

text \<open>One column: the wide sum, and the column of the portable branch.\<close>

lemma unat_wide_sum:
  assumes "\<And>i. i < m \<Longrightarrow> unat (v i) \<le> 508" and "\<And>i. i < m \<Longrightarrow> unat (s i) \<le> 508" and "unat a \<le> 508" and "m \<le> 4000"
  shows "unat (for_range 0 m (\<lambda>i acc. acc + v i * s i) (a :: u32)) = unat a + (\<Sum>i<m. unat (s i) * unat (v i))
    \<and> unat a + (\<Sum>i<m. unat (s i) * unat (v i)) \<le> 508 + m * 258064"
  using assms
proof (induction m)
  case 0
  then show ?case by simp
next
  case (Suc m)
  let ?r = "for_range 0 m (\<lambda>i acc. acc + v i * s i) a"
  have IH: "unat ?r = unat a + (\<Sum>i<m. unat (s i) * unat (v i))" "unat ?r \<le> 508 + m * 258064"
    using Suc by simp_all
  have p: "unat (v m) * unat (s m) \<le> 508 * 508" by (intro mult_le_mono Suc.prems) simp_all
  have m: "unat (v m * s m) = unat (v m) * unat (s m)" using p by (subst unat_mult32) simp_all
  have lt: "unat ?r + unat (v m) * unat (s m) < 4294967296" using IH(2) p Suc.prems(4) by linarith
  have "unat (?r + v m * s m) = unat ?r + unat (v m) * unat (s m)"
    using lt by (subst unat_add32) (simp_all add: m)
  then show ?case using IH p by (simp add: for_range_Suc mult.commute)
qed

text \<open>The common form of the two products over a vector of lanes.\<close>

lemma fp_sve_product:
  fixes x :: "nat \<Rightarrow> u32" and load :: "nat \<Rightarrow> u32 list" and V_tr :: "u16 list"
  assumes vl: "0 < vl" and res: "length res = n"
    and load: "\<And>j. length (load j) = vl" "\<And>j k. k < vl \<Longrightarrow> j + k < n \<Longrightarrow> load j ! k = x (m + j + k)"
    and x: "\<And>i. i < m + n \<Longrightarrow> unat (x i) \<le> 508"
    and V: "\<And>i. i < m * n \<Longrightarrow> unat (V_tr ! i) \<le> 508" and m: "m \<le> 4000"
  defines "r \<equiv> for_step vl n (\<lambda>j res.
      let pg = svwhilelt vl j n;
          acc = load j;
          acc = for_range 0 m (\<lambda>i acc. let s = svdup vl (x i); v = svld1 pg V_tr (i * n + j) in svmla acc v s) acc
      in sv_barrett_store pg res j acc) (res :: u16 list)"
  shows "length r = n"
    and "j < n \<Longrightarrow> unat (r ! j) = (unat (x (m + j)) + (\<Sum>i<m. unat (x i) * unat (V_tr ! (i * n + j)))) mod P"
proof -
  define acc where "acc j = for_range 0 m (\<lambda>i acc. svmla acc (svld1 (svwhilelt vl j n) V_tr (i * n + j)) (svdup vl (x i))) (load j)" for j
  define lane where "lane j = for_range 0 m (\<lambda>i a. a + ucast (V_tr ! (i * n + j)) * x i) (x (m + j))" for j
  define col where "col j = (ucast (barrett32 (mersenne32 (mersenne32 (lane j)))) :: u16)" for j
  have len: "length (acc j) = vl" for j
    unfolding acc_def by (rule length_for_range_lanes) (simp_all add: load)
  have acc_nth: "acc j ! k = lane (j + k)" if "k < vl" "j + k < n" for j k
  proof -
    have "acc j ! k = for_range 0 m (\<lambda>i a. a + ucast (V_tr ! (i * n + (j + k))) * x i) (load j ! k)"
      unfolding acc_def
      by (rule for_range_lanes [where P = "\<lambda>k. j + k < n" and g = "\<lambda>k i a. a + ucast (V_tr ! (i * n + (j + k))) * x i"])
        (use that load in \<open>simp_all add: add.assoc\<close>)
    with that load show ?thesis by (simp add: lane_def add.assoc)
  qed
  have r: "r = map col [0..<n]"
    unfolding r_def Let_def sv_barrett_store_eq acc_def [symmetric]
    by (subst for_step_store [where col = col]) (use vl res len acc_nth in \<open>simp_all add: col_def\<close>)
  then show "length r = n" by simp
  show "unat (r ! j) = (unat (x (m + j)) + (\<Sum>i<m. unat (x i) * unat (V_tr ! (i * n + j)))) mod P" if j: "j < n"
  proof -
    have "unat (ucast (V_tr ! (i * n + j)) :: u32) \<le> 508" if "i < m" for i
      using V [OF mat_index [OF that j]] by simp
    from unat_wide_sum [of m "\<lambda>i. ucast (V_tr ! (i * n + j))" x "x (m + j)", OF this x x m] j
    have s: "unat (lane j) = unat (x (m + j)) + (\<Sum>i<m. unat (x i) * unat (V_tr ! (i * n + j)))"
      "unat (lane j) \<le> 508 + m * 258064" by (simp_all add: lane_def)
    have "m * 258064 \<le> 4000 * 258064" using m by (rule mult_le_mono1)
    then have "unat (lane j) < 1073741824" using s(2) by linarith
    from reduce_lane [OF this] show ?thesis using j by (simp add: r col_def s(1))
  qed
qed

lemma fp_mat_okD: "fp_mat_ok p V_tr \<Longrightarrow> i < par_K p * (par_N p - par_K p) \<Longrightarrow> unat (V_tr ! i) \<le> 508"
  using fp_canonD [of V_tr i] by (simp add: fp_mat_ok_def P_def)

theorem fp_vec_by_fp_matrix_sve_correct:
  assumes "0 < vl" and "length res = par_N p - par_K p" and u: "length u = par_N p" "fp_canon u" and V: "fp_mat_ok p V_tr"
    and K: "0 < par_K p" "par_K p \<le> par_N p" "par_K p \<le> 4000"
  shows "fp_vec_by_fp_matrix_sve vl p res u V_tr = fp_vec_by_fp_matrix p u V_tr"
proof -
  let ?n = "par_N p - par_K p" and ?x = "\<lambda>i. ucast (u ! i) :: u32"
  have x: "unat (?x i) \<le> 508" if "i < par_K p + ?n" for i
    using fp_canonD [OF u(2), of i] that u(1) K(2) by (simp add: P_def)
  have ld: "svld1 (svwhilelt vl j ?n) u (par_K p + j) ! k = ?x (par_K p + j + k)" if "k < vl" "j + k < ?n" for j k
    using that by simp
  note pr = fp_sve_product [where x = ?x and m = "par_K p" and load = "\<lambda>j. svld1 (svwhilelt vl j ?n) u (par_K p + j)",
      OF assms(1,2) _ ld x fp_mat_okD [OF V] K(3), simplified]
  show ?thesis
    unfolding fp_vec_by_fp_matrix_sve_def Let_def
    by (rule fp_list_eqI)
      (use pr [unfolded Let_def] K u in \<open>simp_all add: fp_vec_by_fp_matrix_nth fp_dot_def\<close>)
qed

text \<open>The table holds the powers of the generator.\<close>

lemma TABLE_length: "length TABLE_RESTR_TO_VAL = 254"
  by (simp add: TABLE_RESTR_TO_VAL_def)

lemma TABLE_successive: "successively (\<lambda>a b. unat b = 16 * unat a mod 509) TABLE_RESTR_TO_VAL"
  unfolding TABLE_RESTR_TO_VAL_def by simp

lemma TABLE_RESTR_TO_VAL_nth:
  assumes "i < 254"
  shows "unat (TABLE_RESTR_TO_VAL ! i) = RESTR_G_GEN ^ i mod P"
  using assms
proof (induction i)
  case 0
  then show ?case by (simp add: TABLE_RESTR_TO_VAL_def P_def)
next
  case (Suc i)
  have "unat (TABLE_RESTR_TO_VAL ! Suc i) = 16 * unat (TABLE_RESTR_TO_VAL ! i) mod 509"
    using TABLE_successive Suc.prems unfolding successively_conv_nth TABLE_length by blast
  then show ?case using Suc by (simp add: RESTR_G_GEN_def P_def mod_mult_right_eq)
qed

theorem restr_vec_by_fp_matrix_sve_correct:
  assumes "0 < vl" and "length res = par_N p - par_K p" and e: "length e = par_N p" "fz_ok e" and V: "fp_mat_ok p V_tr"
    and K: "0 < par_K p" "par_K p \<le> par_N p" "par_K p \<le> 4000"
  shows "restr_vec_by_fp_matrix_sve vl p res e V_tr = restr_vec_by_fp_matrix p e V_tr"
proof -
  let ?n = "par_N p - par_K p" and ?t = "map (\<lambda>i. TABLE_RESTR_TO_VAL ! unat (e ! i)) [0..<par_N p]"
  let ?x = "\<lambda>i. ?t ! i"
  have tab: "unat (?x i) = gpow (e ! i)" if "i < par_N p" for i
    using fz_okD [OF e(2), of i] that e(1) by (simp add: TABLE_RESTR_TO_VAL_nth gpow_def)
  have x: "unat (?x i) \<le> 508" if "i < par_K p + ?n" for i
    using tab [of i] that gpow_lt [of "e ! i"] K(2) by (simp add: P_def)
  have ld: "svld1 (svwhilelt vl j ?n) ?t (par_K p + j) ! k = ?x (par_K p + j + k)" if "k < vl" "j + k < ?n" for j k
    using that by simp
  note pr = fp_sve_product [where x = ?x and m = "par_K p" and load = "\<lambda>j. svld1 (svwhilelt vl j ?n) ?t (par_K p + j)",
      OF assms(1,2) _ ld x fp_mat_okD [OF V] K(3)]
  have s: "(\<Sum>i<par_K p. unat (?x i) * w i) = (\<Sum>i<par_K p. gpow (e ! i) * w i)" for w
    by (rule sum.cong) (use tab K(2) in simp_all)
  have len: "length (restr_vec_by_fp_matrix_sve vl p res e V_tr) = ?n"
    unfolding restr_vec_by_fp_matrix_sve_def Let_def by (rule pr(1) [unfolded Let_def]) simp
  have nth: "unat (restr_vec_by_fp_matrix_sve vl p res e V_tr ! j)
      = (unat (?x (par_K p + j)) + (\<Sum>i<par_K p. unat (?x i) * unat (V_tr ! (i * ?n + j)))) mod P" if j: "j < ?n" for j
    unfolding restr_vec_by_fp_matrix_sve_def Let_def by (rule pr(2) [unfolded Let_def]) (use j in simp_all)
  show ?thesis
    by (rule fp_list_eqI)
      (use nth e K tab s in \<open>simp_all add: len restr_vec_by_fp_matrix_nth fp_dot_def del: nth_map nth_map_upt\<close>)
qed

end
