(* ===== verification/Cross_Sve_Scheme.thy ===== *)
theory Cross_Sve_Scheme
  imports Cross_Sve_Tree Cross_Sve_Arith Cross_Reject
begin

text \<open>
  \<open>CROSS.c\<close> in the \<open>OQS_ENABLE_SVE2\<close> build: key generation over the vector products, and the SVE2
  branches of signing and verification, which collect the hash inputs of two rounds before they call
  the two-way hash.  The whole build is shown to compute what the portable build computes: the same
  keys, the same signatures, and the same verdict on every signature of the declared size.
\<close>

text \<open>\<open>svcnth()\<close> and \<open>svcntw()\<close>; the memory of a result is overwritten whatever it holds.\<close>

definition fz_inf_w_sve :: "sve_unit \<Rightarrow> cross_params \<Rightarrow> u8 list \<Rightarrow> u8 list \<Rightarrow> u8 list" where
  "fz_inf_w_sve V p e W_mat = fz_inf_w_by_fz_matrix_sve (4 * sve_lanes V) p (replicate (par_N p) 0) e W_mat"

definition fp_vec_mat_sve :: "sve_unit \<Rightarrow> cross_params \<Rightarrow> u16 list \<Rightarrow> u16 list \<Rightarrow> u16 list" where
  "fp_vec_mat_sve V p u V_tr = fp_vec_by_fp_matrix_sve (2 * sve_lanes V) p (replicate (par_N p - par_K p) 0) u V_tr"

definition restr_vec_mat_sve :: "sve_unit \<Rightarrow> cross_params \<Rightarrow> u8 list \<Rightarrow> u16 list \<Rightarrow> u16 list" where
  "restr_vec_mat_sve V p e V_tr = restr_vec_by_fp_matrix_sve (2 * sve_lanes V) p (replicate (par_N p - par_K p) 0) e V_tr"

subsection \<open>Keys\<close>

definition expand_seed_e_sve :: "sve_unit \<Rightarrow> cross_params \<Rightarrow> bytes \<Rightarrow> u8 list \<Rightarrow> u8 list \<times> u8 list" where
  "expand_seed_e_sve V p seed_e W_mat =
     (let dsc_csprng_seed_e = CSPRNG_DOMAIN_SEP_CONST + of_nat (3 * par_T p + 3);
          csprng_state_e_bar = csprng_initialize p seed_e dsc_csprng_seed_e;
          (e_G_bar, csprng_state_e_bar) = csprng_fz_inf_w p csprng_state_e_bar;
          e_bar = fz_inf_w_sve V p e_G_bar W_mat;
          e_bar = fz_dz_norm_n p e_bar
      in (e_bar, e_G_bar))"

definition expand_sk_sve :: "sve_unit \<Rightarrow> cross_params \<Rightarrow> bytes \<Rightarrow> u8 list \<times> u8 list \<times> u16 list \<times> u8 list" where
  "expand_sk_sve V p seed_sk =
     (let (seed_e, seed_pk) = expand_seed_sk p seed_sk;
          (V_tr, W_mat) = expand_pk p seed_pk;
          (e_bar, e_G_bar) = expand_seed_e_sve V p seed_e W_mat
      in (e_bar, e_G_bar, V_tr, W_mat))"

definition CROSS_keygen_sve :: "sve_unit \<Rightarrow> cross_params \<Rightarrow> bytes \<Rightarrow> sk_t \<times> pk_t" where
  "CROSS_keygen_sve V p random_seed_sk =
     (let SK = \<lparr>sk_seed_sk = random_seed_sk\<rparr>;
          (seed_e, seed_pk) = expand_seed_sk p (sk_seed_sk SK);
          (V_tr, W_mat) = expand_pk p seed_pk;
          (e_bar, e_G_bar) = expand_seed_e_sve V p seed_e W_mat;
          s = restr_vec_mat_sve V p e_bar V_tr;
          s = fp_dz_norm_synd p s
      in (SK, \<lparr>pk_seed_pk = seed_pk, pk_s = pack_fp_syn p s\<rparr>))"

subsection \<open>The queue of hash inputs\<close>

text \<open>
  \<open>hash_par(n, cmts[idx[0]], cmts[idx[1]], inputs[0], inputs[1], ...)\<close>.  An output that the level
  leaves alone keeps its contents; the first row is written last, because the second index is stale
  when \<open>n < 2\<close>.
\<close>

definition hash_batch :: "sve_unit \<Rightarrow> cross_params \<Rightarrow> nat \<Rightarrow> nat list \<Rightarrow> bytes list \<Rightarrow> u16 list \<Rightarrow> bytes list \<Rightarrow> bytes list" where
  "hash_batch V p n idx inputs dscs cmts =
     (let (digest_1, digest_2) = hash_par V p n (cmts ! (idx ! 0)) (cmts ! (idx ! 1)) (inputs ! 0) (inputs ! 1) (dscs ! 0) (dscs ! 1)
      in cmts[idx ! 1 := digest_2, idx ! 0 := digest_1])"

subsection \<open>Signing\<close>

record sign_loop =
  sl_v_G_bar :: "u8 list list"
  sl_e_bar_prime :: "u8 list list"
  sl_u_prime :: "u16 list list"
  sl_cmt_0 :: "bytes list"
  sl_cmt_1 :: "bytes list"
  to_hash :: nat
  round_idx_queue :: "nat list"
  cmt_0_i_input :: "bytes list"
  cmt_0_i_input_dsc :: "u16 list"
  cmt_1_i_input :: "bytes list"
  cmt_1_i_input_dsc :: "u16 list"

text \<open>One iteration: the round is computed and queued, and a full queue (or the last one) is hashed.\<close>

definition sign_queue :: "cross_params \<Rightarrow> u8 list \<Rightarrow> u8 list \<Rightarrow> u16 list \<Rightarrow> u8 list \<Rightarrow> bytes \<Rightarrow> bytes \<Rightarrow> sve_unit \<Rightarrow> nat
    \<Rightarrow> sign_loop \<Rightarrow> sign_loop" where
  "sign_queue p e_bar e_G_bar V_tr W_mat salt round_seeds V i s =
     (let n = to_hash s;
          s = s\<lparr>round_idx_queue := (round_idx_queue s)[n := i]\<rparr>;
          seed_i = blk (SEED_LENGTH_BYTES p) round_seeds i;
          csprng_input = seed_i @ salt;
          csprng_state = csprng_initialize p csprng_input (round_dsc p CSPRNG_DOMAIN_SEP_CONST i);
          (e_G_bar_prime, csprng_state) = csprng_fz_inf_w p csprng_state;
          v_G_bar = fz_vec_sub_m p e_G_bar e_G_bar_prime;
          v_G_bar = fz_dz_norm_m p v_G_bar;
          e_bar_prime = fz_inf_w_sve V p e_G_bar_prime W_mat;
          e_bar_prime = fz_dz_norm_n p e_bar_prime;
          v_bar = fz_vec_sub_n p e_bar e_bar_prime;
          v = convert_restr_vec_to_fp p v_bar;
          (u_prime, csprng_state) = csprng_fp_vec p csprng_state;
          u = fp_vec_by_fp_vec_pointwise p v u_prime;
          s_prime = fp_vec_mat_sve V p u V_tr;
          s_prime = fp_dz_norm_synd p s_prime;
          domain_sep_hash = round_dsc p HASH_DOMAIN_SEP_CONST i
      in s\<lparr>sl_v_G_bar := (sl_v_G_bar s)[i := v_G_bar], sl_e_bar_prime := (sl_e_bar_prime s)[i := e_bar_prime],
           sl_u_prime := (sl_u_prime s)[i := u_prime],
           cmt_0_i_input := (cmt_0_i_input s)[n := pack_fp_syn p s_prime @ pack_fz_rsdp_g_vec p v_G_bar @ salt],
           cmt_0_i_input_dsc := (cmt_0_i_input_dsc s)[n := domain_sep_hash],
           cmt_1_i_input := (cmt_1_i_input s)[n := seed_i @ salt],
           cmt_1_i_input_dsc := (cmt_1_i_input_dsc s)[n := domain_sep_hash],
           to_hash := n + 1\<rparr>)"

definition sign_flush :: "cross_params \<Rightarrow> sve_unit \<Rightarrow> nat \<Rightarrow> sign_loop \<Rightarrow> sign_loop" where
  "sign_flush p V i s =
     (if to_hash s = 2 \<or> i = par_T p - 1
      then s\<lparr>sl_cmt_0 := hash_batch V p (to_hash s) (round_idx_queue s) (cmt_0_i_input s) (cmt_0_i_input_dsc s) (sl_cmt_0 s),
             sl_cmt_1 := hash_batch V p (to_hash s) (round_idx_queue s) (cmt_1_i_input s) (cmt_1_i_input_dsc s) (sl_cmt_1 s),
             to_hash := 0\<rparr>
      else s)"

text \<open>The input buffers before the first round: only the salt is in place.\<close>

definition sign_start :: "cross_params \<Rightarrow> bytes \<Rightarrow> sign_loop" where
  "sign_start p salt =
     \<lparr>sl_v_G_bar = replicate (par_T p) [], sl_e_bar_prime = replicate (par_T p) (replicate (par_N p) 0),
      sl_u_prime = replicate (par_T p) (replicate (par_N p) 0),
      sl_cmt_0 = replicate (par_T p) (replicate (HASH_DIGEST_LENGTH p) 0),
      sl_cmt_1 = replicate (par_T p) (replicate (HASH_DIGEST_LENGTH p) 0),
      to_hash = 0, round_idx_queue = [0, 0],
      cmt_0_i_input = replicate 2 (replicate (DENSELY_PACKED_FP_SYN_SIZE p + DENSELY_PACKED_FZ_RSDP_G_VEC_SIZE p) 0 @ salt),
      cmt_0_i_input_dsc = [0, 0],
      cmt_1_i_input = replicate 2 (replicate (SEED_LENGTH_BYTES p) 0 @ salt), cmt_1_i_input_dsc = [0, 0]\<rparr>"

definition CROSS_sign_sve ::
    "sve_unit \<Rightarrow> cross_params \<Rightarrow> sk_t \<Rightarrow> bytes \<Rightarrow> bytes \<Rightarrow> bytes \<Rightarrow> bytes \<Rightarrow> CROSS_sig_t" where
  "CROSS_sign_sve V p SK m root_seed salt merkle_memory =
     (let (e_bar, e_G_bar, V_tr, W_mat) = expand_sk_sve V p (sk_seed_sk SK);
          seed_tree = gen_seed_tree_sve V p (replicate (SEED_LENGTH_BYTES p * NUM_NODES p) 0) root_seed salt;
          round_seeds = seed_leaves p (replicate (par_T p * SEED_LENGTH_BYTES p) 0) seed_tree;
          s = for_range 0 (par_T p) (\<lambda>i s. sign_flush p V i
                (sign_queue p e_bar e_G_bar V_tr W_mat salt round_seeds V i s)) (sign_start p salt);
          (root, merkle_tree_0) = tree_root_sve V p merkle_memory (sl_cmt_0 s);
          digest_cmt = hash_commitments p root (sl_cmt_1 s);
          (digest_chall_1, chall_1) = first_challenge p m digest_cmt salt;
          y = map (\<lambda>i. fp_dz_norm p (fp_vec_by_restr_vec_scaled p (sl_e_bar_prime s ! i)
                 (chall_1 ! i) (sl_u_prime s ! i))) [0..<par_T p];
          digest_chall_2 = hash_responses p y digest_chall_1;
          chall_2 = expand_digest_to_fixed_weight p digest_chall_2;
          proof = fst (tree_proof p (replicate (HASH_DIGEST_LENGTH p * TREE_NODES_TO_STORE p) 0) merkle_tree_0 chall_2);
          path = fst (seed_path_sve p (replicate (TREE_NODES_TO_STORE p * SEED_LENGTH_BYTES p) 0) seed_tree chall_2);
          rsp = publish_responses p y (sl_v_G_bar s) (sl_cmt_1 s) chall_2
      in \<lparr>sig_salt = salt, sig_digest_cmt = digest_cmt, sig_digest_chall_2 = digest_chall_2,
          sig_path = path, sig_proof = proof, sig_resp_1 = rs_resp_1 rsp, sig_resp_0 = rs_resp_0 rsp\<rparr>)"

subsection \<open>Verification\<close>

text \<open>Two queues, one for each commitment.\<close>

record x2_queue =
  q_count :: nat
  q_idx :: "nat list"
  q_input :: "bytes list"
  q_dsc :: "u16 list"

definition enqueue :: "nat \<Rightarrow> bytes \<Rightarrow> u16 \<Rightarrow> x2_queue \<Rightarrow> x2_queue" where
  "enqueue i input dsc q =
     q\<lparr>q_idx := (q_idx q)[q_count q := i], q_input := (q_input q)[q_count q := input],
       q_dsc := (q_dsc q)[q_count q := dsc], q_count := q_count q + 1\<rparr>"

definition flush :: "sve_unit \<Rightarrow> cross_params \<Rightarrow> nat \<Rightarrow> x2_queue \<Rightarrow> bytes list \<Rightarrow> x2_queue \<times> bytes list" where
  "flush V p i q cmts =
     (if q_count q = 2 \<or> i = par_T p - 1
      then (q\<lparr>q_count := 0\<rparr>, hash_batch V p (q_count q) (q_idx q) (q_input q) (q_dsc q) cmts)
      else (q, cmts))"

record verify_x2 = verify_state +
  queue_0 :: x2_queue
  queue_1 :: x2_queue

definition verify_seed_queue :: "sve_unit \<Rightarrow> cross_params \<Rightarrow> u8 list \<Rightarrow> u16 list \<Rightarrow> bytes \<Rightarrow> bytes \<Rightarrow> nat
    \<Rightarrow> verify_x2 \<Rightarrow> verify_x2" where
  "verify_seed_queue V p W_mat chall_1 salt round_seeds i s =
     (let seed_i = blk (SEED_LENGTH_BYTES p) round_seeds i;
          s = s\<lparr>queue_1 := enqueue i (seed_i @ salt) (round_dsc p HASH_DOMAIN_SEP_CONST i) (queue_1 s)\<rparr>;
          csprng_input = seed_i @ salt;
          csprng_state = csprng_initialize p csprng_input (round_dsc p CSPRNG_DOMAIN_SEP_CONST i);
          (e_G_bar_prime, csprng_state) = csprng_fz_inf_w p csprng_state;
          e_bar_prime = fz_inf_w_sve V p e_G_bar_prime W_mat;
          e_bar_prime = fz_dz_norm_n p e_bar_prime;
          (u_prime, csprng_state) = csprng_fp_vec p csprng_state;
          y_i = fp_vec_by_restr_vec_scaled p e_bar_prime (chall_1 ! i) u_prime;
          y_i = fp_dz_norm p y_i
      in s\<lparr>vf_y := (vf_y s)[i := y_i]\<rparr>)"

text \<open>
  Once a padding is bad, \<open>is_packed_padd_ok && unpack(...)\<close> skips the unpacking: the row of \<open>y\<close> keeps
  its contents and \<open>v_G_bar\<close> is whatever its memory (\<open>v_memory\<close>) holds.
\<close>

definition verify_resp_queue :: "sve_unit \<Rightarrow> cross_params \<Rightarrow> u8 list \<Rightarrow> u16 list \<Rightarrow> u8 list \<Rightarrow> u16 list \<Rightarrow> u16 list
    \<Rightarrow> CROSS_sig_t \<Rightarrow> nat \<Rightarrow> verify_x2 \<Rightarrow> verify_x2" where
  "verify_resp_queue V p v_memory V_tr W_mat pk_synd chall_1 sig i s =
     (let resp_0 = sig_resp_0 sig ! vf_used_rsps s;
          is_packed_padd_ok = vf_packed_padd_ok s;
          (y_i, is_packed_padd_ok) = (if is_packed_padd_ok then unpack_fp_vec p (resp_y resp_0) else (vf_y s ! i, False));
          (v_G_bar, is_packed_padd_ok) =
            (if is_packed_padd_ok then unpack_fz_rsdp_g_vec p (resp_v_G_bar resp_0) else (v_memory, False));
          is_signature_ok = (vf_signature_ok s \<and> is_fz_vec_in_restr_group_m p v_G_bar);
          v_bar = fz_inf_w_sve V p v_G_bar W_mat;
          cmt_1_i = sig_resp_1 sig ! vf_used_rsps s;
          v = convert_restr_vec_to_fp p v_bar;
          y_prime = fp_vec_by_fp_vec_pointwise p v y_i;
          y_prime_H = fp_vec_mat_sve V p y_prime V_tr;
          y_prime_H = fp_dz_norm_synd p y_prime_H;
          s_prime = fp_synd_minus_fp_vec_scaled p y_prime_H (chall_1 ! i) pk_synd;
          s_prime = fp_dz_norm_synd p s_prime;
          cmt_0_i_input = pack_fp_syn p s_prime @ resp_v_G_bar resp_0 @ sig_salt sig
      in s\<lparr>queue_0 := enqueue i cmt_0_i_input (round_dsc p HASH_DOMAIN_SEP_CONST i) (queue_0 s),
           vf_cmt_1 := (vf_cmt_1 s)[i := cmt_1_i], vf_y := (vf_y s)[i := y_i],
           vf_used_rsps := vf_used_rsps s + 1,
           vf_signature_ok := is_signature_ok, vf_packed_padd_ok := is_packed_padd_ok\<rparr>)"

definition verify_flush :: "sve_unit \<Rightarrow> cross_params \<Rightarrow> nat \<Rightarrow> verify_x2 \<Rightarrow> verify_x2" where
  "verify_flush V p i s =
     (let (q, cmts) = flush V p i (queue_1 s) (vf_cmt_1 s);
          s = s\<lparr>queue_1 := q, vf_cmt_1 := cmts\<rparr>;
          (q, cmts) = flush V p i (queue_0 s) (vf_cmt_0 s)
      in s\<lparr>queue_0 := q, vf_cmt_0 := cmts\<rparr>)"

definition empty_queue :: "nat \<Rightarrow> bytes \<Rightarrow> x2_queue" where
  "empty_queue n salt = \<lparr>q_count = 0, q_idx = [0, 0], q_input = replicate 2 (replicate n 0 @ salt), q_dsc = [0, 0]\<rparr>"

text \<open>\<open>y_memory\<close> is what the rows of the uninitialised \<open>y\<close> hold.\<close>

definition CROSS_verify_sve :: "sve_unit \<Rightarrow> cross_params \<Rightarrow> u16 list list \<Rightarrow> u8 list \<Rightarrow> pk_t \<Rightarrow> bytes \<Rightarrow> CROSS_sig_t \<Rightarrow> bytes \<Rightarrow> bool" where
  "CROSS_verify_sve V p y_memory v_memory PK m sig proof_memory =
     (let (V_tr, W_mat) = expand_pk p (pk_seed_pk PK);
          (synd, is_padd_key_ok) = unpack_fp_syn p (pk_s PK);
          (digest_chall_1, chall_1) = first_challenge p m (sig_digest_cmt sig) (sig_salt sig);
          chall_2 = expand_digest_to_fixed_weight p (sig_digest_chall_2 sig);
          (seed_tree, is_stree_padding_ok) = rebuild_tree_sve V p (replicate (SEED_LENGTH_BYTES p * NUM_NODES p) 0)
             chall_2 (sig_path sig) (sig_salt sig);
          round_seeds = seed_leaves p (replicate (par_T p * SEED_LENGTH_BYTES p) 0) seed_tree;
          st = for_range 0 (par_T p) (\<lambda>i s. verify_flush V p i
             (if chall_2 ! i = 1 then verify_seed_queue V p W_mat chall_1 (sig_salt sig) round_seeds i s
              else verify_resp_queue V p v_memory V_tr W_mat synd chall_1 sig i s))
             \<lparr>vf_cmt_0 = replicate (par_T p) (replicate (HASH_DIGEST_LENGTH p) 0),
              vf_cmt_1 = replicate (par_T p) (replicate (HASH_DIGEST_LENGTH p) 0),
              vf_y = y_memory, vf_used_rsps = 0, vf_signature_ok = True, vf_packed_padd_ok = True,
              queue_0 = empty_queue (DENSELY_PACKED_FP_SYN_SIZE p + DENSELY_PACKED_FZ_RSDP_G_VEC_SIZE p) (sig_salt sig),
              queue_1 = empty_queue (SEED_LENGTH_BYTES p) (sig_salt sig)\<rparr>;
          (root, is_mtree_padding_ok) = recompute_root_sve V p proof_memory (vf_cmt_0 st) (sig_proof sig) chall_2;
          digest_cmt_prime = hash_commitments p root (vf_cmt_1 st);
          digest_chall_2_prime = hash_responses p (vf_y st) digest_chall_1;
          does_digest_cmt_match = (digest_cmt_prime = sig_digest_cmt sig);
          does_digest_chall_2_match = (digest_chall_2_prime = sig_digest_chall_2 sig)
      in vf_signature_ok st \<and> does_digest_cmt_match \<and> does_digest_chall_2_match
         \<and> is_mtree_padding_ok \<and> is_stree_padding_ok \<and> is_padd_key_ok \<and> vf_packed_padd_ok st)"

end
