(* ===== verification/Cross_Sve_Correct.thy ===== *)
theory Cross_Sve_Correct
  imports Cross_Sve_Scheme
begin

text \<open>
  The SVE2 build computes what the portable build computes.  The queue of hash inputs is related to the
  array of commitments by \<open>settle\<close>, which hashes what is still queued.
\<close>

text \<open>The sizes on which the two-way hash is used by the scheme, and the shape of the vector products.\<close>

definition sve_sizes :: "cross_params \<Rightarrow> bool" where
  "sve_sizes p \<longleftrightarrow> tree_x2 p
     \<and> x2_len p (DENSELY_PACKED_FP_SYN_SIZE p + (DENSELY_PACKED_FZ_RSDP_G_VEC_SIZE p + SALT_LENGTH_BYTES p))
     \<and> par_M p mod 4 \<le> 1 \<and> par_K p \<le> 4000"

lemma sve_sizes_balanced:
  assumes "p \<in> balanced_params perm"
  shows "sve_sizes p"
  using assms
  by (cases rule: balanced_cases)
    (simp_all add: sve_sizes_def tree_x2_def digest_x2_def x2_len_def CSPRNG_INPUT_LENGTH_def HASH_DIGEST_LENGTH_def
      SEED_LENGTH_BYTES_def SALT_LENGTH_BYTES_def
      densely_packed_size_def ROUND_UP_def rsdpg_128_balanced_def rsdpg_192_balanced_def rsdpg_256_balanced_def)

subsection \<open>The arithmetic\<close>

lemma fz_inf_w_sve_agree:
  assumes "sve_ok V p" and "sve_sizes p" and "sizes_ok p" and "length e = par_M p" and "fz_canon e" and "fz_mat_ok p W_mat"
  shows "fz_dz_norm_n p (fz_inf_w_sve V p e W_mat) = fz_dz_norm_n p (fz_inf_w_by_fz_matrix p e W_mat)"
    and "convert_restr_vec_to_fp p (fz_inf_w_sve V p e W_mat) = convert_restr_vec_to_fp p (fz_inf_w_by_fz_matrix p e W_mat)"
  unfolding fz_inf_w_sve_def
  by (rule fz_sve_agree; use assms in \<open>simp add: sve_ok_def sve_sizes_def sizes_ok_def\<close>)+

lemma fp_vec_mat_sve_eq:
  assumes "sve_ok V p" and "sve_sizes p" and "sizes_ok p" and "length u = par_N p" and "fp_canon u" and "fp_mat_ok p V_tr"
  shows "fp_vec_mat_sve V p u V_tr = fp_vec_by_fp_matrix p u V_tr"
  unfolding fp_vec_mat_sve_def
  by (rule fp_vec_by_fp_matrix_sve_correct) (use assms in \<open>simp_all add: sve_ok_def sve_sizes_def sizes_ok_def\<close>)

lemma restr_vec_mat_sve_eq:
  assumes "sve_ok V p" and "sve_sizes p" and "sizes_ok p" and "length e = par_N p" and "fz_ok e" and "fp_mat_ok p V_tr"
  shows "restr_vec_mat_sve V p e V_tr = restr_vec_by_fp_matrix p e V_tr"
  unfolding restr_vec_mat_sve_def
  by (rule restr_vec_by_fp_matrix_sve_correct) (use assms in \<open>simp_all add: sve_ok_def sve_sizes_def sizes_ok_def\<close>)

lemma fp_pointwise_canon: "fp_canon (fp_vec_by_fp_vec_pointwise p a b)"
  by (rule fp_canon_nthI) (simp add: fp_pointwise_nth P_def)

subsection \<open>Keys\<close>

lemma expand_seed_e_sve_eq:
  assumes "sve_ok V p" and "sve_sizes p" and "sizes_ok p" and "fz_mat_ok p W_mat"
  shows "expand_seed_e_sve V p seed_e W_mat = expand_seed_e p seed_e W_mat"
  by (simp add: expand_seed_e_sve_def expand_seed_e_def Let_def case_prod_unfold csprng_results
      fz_inf_w_sve_agree(1) [OF assms(1-3) _ _ assms(4)])

lemma expand_sk_sve_eq:
  assumes "sve_ok V p" and "sve_sizes p" and "sizes_ok p"
  shows "expand_sk_sve V p seed_sk = expand_sk p seed_sk"
  by (simp add: expand_sk_sve_def expand_sk_def Let_def case_prod_unfold expand_seed_e_sve_eq [OF assms] expand_pk_ok)

theorem CROSS_keygen_sve_eq:
  assumes "sve_ok V p" and "sve_sizes p" and "sizes_ok p"
  shows "CROSS_keygen_sve V p seed_sk = CROSS_keygen p seed_sk"
proof -
  have "restr_vec_mat_sve V p (fst (expand_seed_e p s (snd (expand_pk p q)))) (fst (expand_pk p q))
      = restr_vec_by_fp_matrix p (fst (expand_seed_e p s (snd (expand_pk p q)))) (fst (expand_pk p q))" for s q
    by (rule restr_vec_mat_sve_eq [OF assms])
      (simp_all add: expand_seed_e_ok(3) secret_of_ok [OF assms(3) expand_seed_e_ok(1,2) expand_pk_ok(1)] fz_canon_ok expand_pk_ok)
  then show ?thesis
    by (simp add: CROSS_keygen_sve_def CROSS_keygen_def Let_def case_prod_unfold expand_seed_e_sve_eq [OF assms] expand_pk_ok)
qed

subsection \<open>The queue\<close>

definition settle :: "cross_params \<Rightarrow> nat \<Rightarrow> nat list \<Rightarrow> bytes list \<Rightarrow> u16 list \<Rightarrow> bytes list \<Rightarrow> bytes list" where
  "settle p n idx inputs dscs cmts = for_range 0 n (\<lambda>k c. c[idx ! k := hash p (inputs ! k) (dscs ! k)]) cmts"

lemma settle_0 [simp]: "settle p 0 idx inputs dscs cmts = cmts"
  by (simp add: settle_def)

lemma settle_Suc: "settle p (Suc n) idx inputs dscs cmts
    = (settle p n idx inputs dscs cmts)[idx ! n := hash p (inputs ! n) (dscs ! n)]"
  by (simp add: settle_def for_range_Suc)

lemma length_settle [simp]: "length (settle p n idx inputs dscs cmts) = length cmts"
  by (induction n) (simp_all add: settle_Suc)

lemma settle_enqueue:
  assumes "n < length idx" and "n < length inputs" and "n < length dscs"
  shows "settle p (Suc n) (idx[n := i]) (inputs[n := m]) (dscs[n := d]) cmts
    = (settle p n idx inputs dscs cmts)[i := hash p m d]"
proof -
  have "settle p k (idx[n := i]) (inputs[n := m]) (dscs[n := d]) cmts = settle p k idx inputs dscs cmts" if "k \<le> n" for k
    using that by (induction k) (simp_all add: settle_Suc)
  then show ?thesis using assms by (simp add: settle_Suc)
qed

lemma hash_batch_settle:
  assumes V: "sve_ok V p" and x2: "digest_x2 p" and n: "n \<le> 2"
    and len: "\<And>k. k < n \<Longrightarrow> length (inputs ! k) = L" "x2_len p L"
    and idx: "n = 2 \<Longrightarrow> idx ! 0 \<noteq> idx ! 1"
  shows "hash_batch V p n idx inputs dscs cmts = settle p n idx inputs dscs cmts"
proof -
  consider "n = 0" | "n = 1" | "n = 2" using n by linarith
  then show ?thesis
  proof cases
    case 1
    then show ?thesis
      by (simp add: hash_batch_def hash_par_def csprng_initialize_par_def csprng_randombytes_par_def Let_def)
  next
    case 2
    then show ?thesis using hash_par_1 [of V p] by (simp add: hash_batch_def settle_Suc)
  next
    case 3
    have "hash_par V p 2 d1 d2 (inputs ! 0) (inputs ! 1) c1 c2 = (hash p (inputs ! 0) c1, hash p (inputs ! 1) c2)" for d1 d2 c1 c2
      by (rule hash_par_2 [OF V x2]) (use len 3 in simp_all)
    then show ?thesis
      using 3 idx by (simp add: hash_batch_def settle_Suc numeral_2_eq_2 list_update_swap)
  qed
qed

text \<open>What a queue may hold before round \<open>i\<close>: at most one entry, of an earlier round and the right length.\<close>

definition queue_ok :: "nat \<Rightarrow> nat \<Rightarrow> nat \<Rightarrow> nat list \<Rightarrow> bytes list \<Rightarrow> u16 list \<Rightarrow> bool" where
  "queue_ok i L n idx inputs dscs \<longleftrightarrow> n \<le> 2 \<and> length idx = 2 \<and> length inputs = 2 \<and> length dscs = 2
     \<and> (\<forall>k<n. idx ! k < i \<and> length (inputs ! k) = L) \<and> (n = 2 \<longrightarrow> idx ! 0 \<noteq> idx ! 1)"

lemma queue_ok_enqueue:
  assumes "queue_ok i L n idx inputs dscs" and "n < 2" and "length m = L"
  shows "queue_ok (Suc i) L (Suc n) (idx[n := i]) (inputs[n := m]) (dscs[n := d])"
proof -
  from assms(2) consider "n = 0" | "n = 1" by linarith
  then show ?thesis
    using assms by cases (auto simp: queue_ok_def less_Suc_eq)
qed

lemma queue_ok_mono: "queue_ok i L n idx inputs dscs \<Longrightarrow> i \<le> j \<Longrightarrow> queue_ok j L n idx inputs dscs"
  by (auto simp: queue_ok_def)

lemma hash_batch_queue:
  assumes "sve_ok V p" and "digest_x2 p" and "x2_len p L" and "queue_ok i L n idx inputs dscs"
  shows "hash_batch V p n idx inputs dscs cmts = settle p n idx inputs dscs cmts"
  by (rule hash_batch_settle [OF assms(1,2) _ _ assms(3)]) (use assms(4) in \<open>auto simp: queue_ok_def\<close>)

lemma queue_ok_empty: "queue_ok i L 0 idx inputs dscs \<longleftrightarrow> length idx = 2 \<and> length inputs = 2 \<and> length dscs = 2"
  by (auto simp: queue_ok_def)

subsection \<open>Signing\<close>

text \<open>The length of the inputs to the first commitment.\<close>

definition cmt_0_len :: "cross_params \<Rightarrow> nat" where
  "cmt_0_len p = DENSELY_PACKED_FP_SYN_SIZE p + (DENSELY_PACKED_FZ_RSDP_G_VEC_SIZE p + SALT_LENGTH_BYTES p)"

lemma sve_sizesD:
  assumes "sve_sizes p"
  shows "tree_x2 p" and "digest_x2 p" and "x2_len p (cmt_0_len p)" and "x2_len p (CSPRNG_INPUT_LENGTH p)"
  using assms by (simp_all add: sve_sizes_def tree_x2_def cmt_0_len_def)

lemma sign_queue_eq:
  fixes p e_G V_tr W_mat salt round_seeds i
  assumes V: "sve_ok V p" and sz: "sve_sizes p" "sizes_ok p" and e_G: "length e_G = par_M p" "fz_canon e_G"
    and W: "fz_mat_ok p W_mat" and F: "fp_mat_ok p V_tr"
    and salt: "length salt = SALT_LENGTH_BYTES p" and sd: "length (blk (SEED_LENGTH_BYTES p) round_seeds i) = SEED_LENGTH_BYTES p"
  defines "r \<equiv> CROSS_sign_round p (secret_of p e_G W_mat) e_G V_tr W_mat salt round_seeds i"
  obtains m_a m_b d where
    "sign_queue p (secret_of p e_G W_mat) e_G V_tr W_mat salt round_seeds V i s
      = s\<lparr>sl_v_G_bar := (sl_v_G_bar s)[i := rd_v_G_bar r], sl_e_bar_prime := (sl_e_bar_prime s)[i := rd_e_bar_prime r],
          sl_u_prime := (sl_u_prime s)[i := rd_u_prime r], to_hash := to_hash s + 1,
          round_idx_queue := (round_idx_queue s)[to_hash s := i],
          cmt_0_i_input := (cmt_0_i_input s)[to_hash s := m_a], cmt_0_i_input_dsc := (cmt_0_i_input_dsc s)[to_hash s := d],
          cmt_1_i_input := (cmt_1_i_input s)[to_hash s := m_b], cmt_1_i_input_dsc := (cmt_1_i_input_dsc s)[to_hash s := d]\<rparr>"
    "hash p m_a d = rd_cmt_0 r" "hash p m_b d = rd_cmt_1 r" "length m_a = cmt_0_len p" "length m_b = CSPRNG_INPUT_LENGTH p"
proof -
  note agree = fz_inf_w_sve_agree(1) [OF V sz _ _ W]
  note mat = fp_vec_mat_sve_eq [OF V sz _ _ F]
  note d = round_draw_ok [of p salt "blk (SEED_LENGTH_BYTES p) round_seeds i" i]
  note f = sign_round_fields [where p = p and e_G = e_G and V_tr = V_tr and W_mat = W_mat and salt = salt
      and round_seeds = round_seeds and i = i, folded r_def]
  let ?u = "fp_vec_by_fp_vec_pointwise p (convert_restr_vec_to_fp p
      (fz_vec_sub_n p (secret_of p e_G W_mat) (rd_e_bar_prime r))) (rd_u_prime r)"
  let ?ina = "pack_fp_syn p (fp_vec_by_fp_matrix p ?u V_tr) @ pack_fz_rsdp_g_vec p (rd_v_G_bar r) @ salt"
  let ?inb = "blk (SEED_LENGTH_BYTES p) round_seeds i @ salt" and ?d = "round_dsc p HASH_DOMAIN_SEP_CONST i"
  have m: "fp_vec_mat_sve V p ?u V_tr = fp_vec_by_fp_matrix p ?u V_tr"
    by (rule mat) (simp_all add: fp_pointwise_canon)
  have a: "fz_dz_norm_n p (fz_inf_w_sve V p (fst (round_draw p salt (blk (SEED_LENGTH_BYTES p) round_seeds i) i)) W_mat)
      = rd_e_bar_prime r"
    by (simp add: agree [OF d(1,2)] f(1) secret_of_def)
  have "sign_queue p (secret_of p e_G W_mat) e_G V_tr W_mat salt round_seeds V i s
      = s\<lparr>sl_v_G_bar := (sl_v_G_bar s)[i := rd_v_G_bar r], sl_e_bar_prime := (sl_e_bar_prime s)[i := rd_e_bar_prime r],
          sl_u_prime := (sl_u_prime s)[i := rd_u_prime r], to_hash := to_hash s + 1,
          round_idx_queue := (round_idx_queue s)[to_hash s := i],
          cmt_0_i_input := (cmt_0_i_input s)[to_hash s := ?ina], cmt_0_i_input_dsc := (cmt_0_i_input_dsc s)[to_hash s := ?d],
          cmt_1_i_input := (cmt_1_i_input s)[to_hash s := ?inb], cmt_1_i_input_dsc := (cmt_1_i_input_dsc s)[to_hash s := ?d]\<rparr>"
    using a m unfolding f(2) f(3) by (simp add: sign_queue_def Let_def case_prod_unfold round_draw_def)
  moreover have "length (rd_v_G_bar r) = par_M p" using fz_vec_sub_m_ok(1) [OF e_G d(1,2)] f(3) by simp
  ultimately show ?thesis
    using that [where m_a = ?ina and m_b = ?inb and d = ?d] f(4,5) salt sd sz(2)
    by (simp add: cmt_0_len_def CSPRNG_INPUT_LENGTH_def sizes_ok_def)
qed

text \<open>The arrays of the loop before round \<open>i\<close>, with the queue settled.\<close>

definition sign_loop_ok :: "cross_params \<Rightarrow> (nat \<Rightarrow> sign_round) \<Rightarrow> nat \<Rightarrow> sign_loop \<Rightarrow> bool" where
  "sign_loop_ok p r i s \<longleftrightarrow>
     length (sl_v_G_bar s) = par_T p \<and> length (sl_e_bar_prime s) = par_T p \<and> length (sl_u_prime s) = par_T p
     \<and> length (sl_cmt_0 s) = par_T p \<and> length (sl_cmt_1 s) = par_T p
     \<and> (\<forall>j<i. sl_v_G_bar s ! j = rd_v_G_bar (r j) \<and> sl_e_bar_prime s ! j = rd_e_bar_prime (r j)
          \<and> sl_u_prime s ! j = rd_u_prime (r j)
          \<and> settle p (to_hash s) (round_idx_queue s) (cmt_0_i_input s) (cmt_0_i_input_dsc s) (sl_cmt_0 s) ! j = rd_cmt_0 (r j)
          \<and> settle p (to_hash s) (round_idx_queue s) (cmt_1_i_input s) (cmt_1_i_input_dsc s) (sl_cmt_1 s) ! j = rd_cmt_1 (r j))
     \<and> queue_ok i (cmt_0_len p) (to_hash s) (round_idx_queue s) (cmt_0_i_input s) (cmt_0_i_input_dsc s)
     \<and> queue_ok i (CSPRNG_INPUT_LENGTH p) (to_hash s) (round_idx_queue s) (cmt_1_i_input s) (cmt_1_i_input_dsc s)"

lemma sign_flush_ok:
  assumes V: "sve_ok V p" and sz: "sve_sizes p" and s: "sign_loop_ok p r (Suc i) s" and i: "i < par_T p"
  shows "sign_loop_ok p r (Suc i) (sign_flush p V i s)" and "to_hash (sign_flush p V i s) < 2"
    and "Suc i = par_T p \<Longrightarrow> to_hash (sign_flush p V i s) = 0"
proof -
  note z = sve_sizesD [OF sz]
  have q: "queue_ok (Suc i) (cmt_0_len p) (to_hash s) (round_idx_queue s) (cmt_0_i_input s) (cmt_0_i_input_dsc s)"
      "queue_ok (Suc i) (CSPRNG_INPUT_LENGTH p) (to_hash s) (round_idx_queue s) (cmt_1_i_input s) (cmt_1_i_input_dsc s)"
    using s by (simp_all add: sign_loop_ok_def)
  note b = hash_batch_queue [OF V z(2,3) q(1)] hash_batch_queue [OF V z(2,4) q(2)]
  have l: "length (round_idx_queue s) = 2" "length (cmt_0_i_input s) = 2" "length (cmt_0_i_input_dsc s) = 2"
      "length (cmt_1_i_input s) = 2" "length (cmt_1_i_input_dsc s) = 2" "to_hash s \<le> 2"
    using q by (simp_all add: queue_ok_def)
  show "sign_loop_ok p r (Suc i) (sign_flush p V i s)"
    using s l by (simp add: sign_flush_def b sign_loop_ok_def queue_ok_empty)
  show "to_hash (sign_flush p V i s) < 2" "Suc i = par_T p \<Longrightarrow> to_hash (sign_flush p V i s) = 0"
    using l i by (auto simp: sign_flush_def)
qed

lemma sign_loop_eq:
  fixes p e_G V_tr W_mat salt round_seeds
  assumes V: "sve_ok V p" and sz: "sve_sizes p" "sizes_ok p" and e_G: "length e_G = par_M p" "fz_canon e_G"
    and W: "fz_mat_ok p W_mat" and F: "fp_mat_ok p V_tr"
    and salt: "length salt = SALT_LENGTH_BYTES p"
    and sd: "\<And>i. i < par_T p \<Longrightarrow> length (blk (SEED_LENGTH_BYTES p) round_seeds i) = SEED_LENGTH_BYTES p"
  defines "r \<equiv> CROSS_sign_round p (secret_of p e_G W_mat) e_G V_tr W_mat salt round_seeds"
  defines "st \<equiv> for_range 0 (par_T p) (\<lambda>i s. sign_flush p V i
      (sign_queue p (secret_of p e_G W_mat) e_G V_tr W_mat salt round_seeds V i s)) (sign_start p salt)"
  shows "sl_v_G_bar st = map (rd_v_G_bar \<circ> r) [0..<par_T p]" and "sl_e_bar_prime st = map (rd_e_bar_prime \<circ> r) [0..<par_T p]"
    and "sl_u_prime st = map (rd_u_prime \<circ> r) [0..<par_T p]"
    and "sl_cmt_0 st = map (rd_cmt_0 \<circ> r) [0..<par_T p]" and "sl_cmt_1 st = map (rd_cmt_1 \<circ> r) [0..<par_T p]"
proof -
  let ?P = "\<lambda>i s. sign_loop_ok p r i s \<and> to_hash s < 2 \<and> (i = par_T p \<longrightarrow> to_hash s = 0)"
  have "?P (par_T p) st"
    unfolding st_def
  proof (rule for_range_inv [where P = ?P])
    show "?P 0 (sign_start p salt)" by (simp add: sign_loop_ok_def sign_start_def queue_ok_empty)
    fix i s assume i: "i < par_T p" and P: "?P i s"
    then have s: "sign_loop_ok p r i s" and n: "to_hash s < 2" by blast+
    obtain m_a m_b d where q:
      "sign_queue p (secret_of p e_G W_mat) e_G V_tr W_mat salt round_seeds V i s
        = s\<lparr>sl_v_G_bar := (sl_v_G_bar s)[i := rd_v_G_bar (r i)], sl_e_bar_prime := (sl_e_bar_prime s)[i := rd_e_bar_prime (r i)],
          sl_u_prime := (sl_u_prime s)[i := rd_u_prime (r i)], to_hash := to_hash s + 1,
          round_idx_queue := (round_idx_queue s)[to_hash s := i],
          cmt_0_i_input := (cmt_0_i_input s)[to_hash s := m_a], cmt_0_i_input_dsc := (cmt_0_i_input_dsc s)[to_hash s := d],
          cmt_1_i_input := (cmt_1_i_input s)[to_hash s := m_b], cmt_1_i_input_dsc := (cmt_1_i_input_dsc s)[to_hash s := d]\<rparr>"
      "hash p m_a d = rd_cmt_0 (r i)" "hash p m_b d = rd_cmt_1 (r i)"
      "length m_a = cmt_0_len p" "length m_b = CSPRNG_INPUT_LENGTH p"
      unfolding r_def by (rule sign_queue_eq [OF V sz e_G W F salt sd [OF i]])
    have ok: "queue_ok i (cmt_0_len p) (to_hash s) (round_idx_queue s) (cmt_0_i_input s) (cmt_0_i_input_dsc s)"
        "queue_ok i (CSPRNG_INPUT_LENGTH p) (to_hash s) (round_idx_queue s) (cmt_1_i_input s) (cmt_1_i_input_dsc s)"
      using s by (simp_all add: sign_loop_ok_def)
    have l: "length (round_idx_queue s) = 2" "length (cmt_0_i_input s) = 2" "length (cmt_0_i_input_dsc s) = 2"
        "length (cmt_1_i_input s) = 2" "length (cmt_1_i_input_dsc s) = 2"
      using ok by (simp_all add: queue_ok_def)
    have "sign_loop_ok p r (Suc i) (sign_queue p (secret_of p e_G W_mat) e_G V_tr W_mat salt round_seeds V i s)"
      using s i n queue_ok_enqueue [OF ok(1) n q(4), of d] queue_ok_enqueue [OF ok(2) n q(5), of d]
      by (simp add: q(1-3) sign_loop_ok_def settle_enqueue l nth_list_update less_Suc_eq)
    from sign_flush_ok [OF V sz(1) this i]
    show "?P (Suc i) (sign_flush p V i (sign_queue p (secret_of p e_G W_mat) e_G V_tr W_mat salt round_seeds V i s))"
      by blast
  qed simp
  then show "sl_v_G_bar st = map (rd_v_G_bar \<circ> r) [0..<par_T p]" "sl_e_bar_prime st = map (rd_e_bar_prime \<circ> r) [0..<par_T p]"
    "sl_u_prime st = map (rd_u_prime \<circ> r) [0..<par_T p]"
    "sl_cmt_0 st = map (rd_cmt_0 \<circ> r) [0..<par_T p]" "sl_cmt_1 st = map (rd_cmt_1 \<circ> r) [0..<par_T p]"
    by (auto simp: sign_loop_ok_def intro!: nth_equalityI)
qed

context cross_scheme
begin

theorem CROSS_sign_sve_eq:
  assumes V: "sve_ok V p" and sz: "sve_sizes p"
    and root_seed: "length root_seed = SEED_LENGTH_BYTES p" and salt: "length salt = SALT_LENGTH_BYTES p"
    and mem: "length merkle_memory = NUM_NODES p * HASH_DIGEST_LENGTH p"
  shows "CROSS_sign_sve V p SK m root_seed salt merkle_memory = CROSS_sign p SK m root_seed salt merkle_memory"
proof -
  let ?S = "SEED_LENGTH_BYTES p" and ?T = "par_T p"
  have perm: "perm_ok (keccak_perm p)" using V by simp
  define se spk where "se = fst (expand_seed_sk p (sk_seed_sk SK))" and "spk = snd (expand_seed_sk p (sk_seed_sk SK))"
  define V_tr W_mat where "V_tr = fst (expand_pk p spk)" and "W_mat = snd (expand_pk p spk)"
  define e_G where "e_G = snd (expand_seed_e p se W_mat)"
  have e_G: "length e_G = par_M p" "fz_canon e_G" by (simp_all add: e_G_def expand_seed_e_ok)
  have W: "fz_mat_ok p W_mat" and F: "fp_mat_ok p V_tr" by (simp_all add: W_mat_def V_tr_def expand_pk_ok)
  have SK: "expand_sk p (sk_seed_sk SK) = (secret_of p e_G W_mat, e_G, V_tr, W_mat)"
    by (simp add: expand_sk_def Let_def case_prod_unfold se_def spk_def V_tr_def W_mat_def e_G_def expand_seed_e_ok(3))
  define tree where "tree = gen_seed_tree p (replicate (?S * NUM_NODES p) 0) root_seed salt"
  have tree: "gen_seed_tree_sve V p (replicate (?S * NUM_NODES p) 0) root_seed salt = tree"
    unfolding tree_def by (rule gen_seed_tree_sve_eq [OF V sve_sizesD(1) [OF sz] salt _ root_seed]) (simp add: mult.commute)
  have "is_seed_tree tree root_seed salt"
    unfolding tree_def by (rule gen_seed_tree_correct [OF perm _ root_seed]) (simp add: mult.commute)
  then have lt: "length tree = NUM_NODES p * ?S" by (simp add: is_seed_tree_def)
  define round_seeds where "round_seeds = seed_leaves p (replicate (?T * ?S) 0) tree"
  have sd: "length (blk ?S round_seeds i) = ?S" if "i < ?T" for i
    using seed_leaves_correct [of "replicate (?T * ?S) 0" tree, OF _ lt] that
    by (intro length_blk [OF that]) (simp add: round_seeds_def)
  define r where "r = CROSS_sign_round p (secret_of p e_G W_mat) e_G V_tr W_mat salt round_seeds"
  define st where "st = for_range 0 ?T (\<lambda>i s. sign_flush p V i
      (sign_queue p (secret_of p e_G W_mat) e_G V_tr W_mat salt round_seeds V i s)) (sign_start p salt)"
  note loop = sign_loop_eq [OF V sz params_simps(4) e_G W F salt sd, folded r_def, folded st_def]
  define cmt_0 where "cmt_0 = map (rd_cmt_0 \<circ> r) [0..<?T]"
  have lc: "length (cmt_0 ! i) = HASH_DIGEST_LENGTH p" if "i < ?T" for i
    using that perm by (simp add: cmt_0_def r_def CROSS_sign_round_def Let_def case_prod_unfold)
  note root = tree_root_sve_eq [OF V sve_sizesD(1) [OF sz] mem lc]
  have y: "map (\<lambda>i. fp_vec_by_restr_vec_scaled p (sl_e_bar_prime st ! i) (c ! i) (sl_u_prime st ! i)) [0..<?T]
      = map (\<lambda>i. fp_vec_by_restr_vec_scaled p (rd_e_bar_prime (map r [0..<?T] ! i)) (c ! i) (rd_u_prime (map r [0..<?T] ! i))) [0..<?T]" for c
    by (rule map_cong) (simp_all add: loop)
  show ?thesis
    unfolding CROSS_sign_sve_def CROSS_sign_def expand_sk_sve_eq [OF V sz params_simps(4)] SK Let_def prod.case tree
      tree_def [symmetric] round_seeds_def [symmetric] r_def [symmetric] st_def [symmetric] map_map fp_dz_norm_id y
      seed_path_sve_eq
    by (simp add: loop cmt_0_def [symmetric] root)
qed

end

subsection \<open>Verification\<close>

lemma settle_update:
  assumes "\<And>k. k < n \<Longrightarrow> idx ! k \<noteq> i"
  shows "settle p n idx inputs dscs (cmts[i := x]) = (settle p n idx inputs dscs cmts)[i := x]"
  using assms by (induction n) (simp_all add: settle_Suc list_update_swap)

abbreviation settle_q :: "cross_params \<Rightarrow> x2_queue \<Rightarrow> bytes list \<Rightarrow> bytes list" where
  "settle_q p q \<equiv> settle p (q_count q) (q_idx q) (q_input q) (q_dsc q)"

definition queue_wf :: "nat \<Rightarrow> nat \<Rightarrow> x2_queue \<Rightarrow> bool" where
  "queue_wf i L q \<longleftrightarrow> queue_ok i L (q_count q) (q_idx q) (q_input q) (q_dsc q)"

lemma enqueue_wf: "queue_wf i L q \<Longrightarrow> q_count q < 2 \<Longrightarrow> length m = L \<Longrightarrow> queue_wf (Suc i) L (enqueue i m d q)"
  unfolding queue_wf_def enqueue_def by (simp add: queue_ok_enqueue)

lemma settle_enqueue_q:
  assumes "queue_wf i L q" and "q_count q < 2"
  shows "settle_q p (enqueue i m d q) cmts = (settle_q p q cmts)[i := hash p m d]"
  using assms by (simp add: enqueue_def settle_enqueue queue_wf_def queue_ok_def)

lemma settle_q_update:
  assumes "queue_wf i L q"
  shows "settle_q p q (cmts[i := x]) = (settle_q p q cmts)[i := x]"
  by (rule settle_update) (use assms in \<open>auto simp: queue_wf_def queue_ok_def\<close>)

lemma queue_wf_mono: "queue_wf i L q \<Longrightarrow> queue_wf (Suc i) L q"
  unfolding queue_wf_def by (erule queue_ok_mono) simp

lemma flush_eq:
  assumes V: "sve_ok V p" and x2: "digest_x2 p" "x2_len p L" and q: "queue_wf (Suc i) L q" and i: "i < par_T p"
  obtains q' cmts' where "flush V p i q cmts = (q', cmts')" "settle_q p q' cmts' = settle_q p q cmts"
    "queue_wf (Suc i) L q'" "q_count q' < 2" "Suc i = par_T p \<longrightarrow> q_count q' = 0" "length cmts' = length cmts"
proof (cases "q_count q = 2 \<or> i = par_T p - 1")
  case True
  note b = hash_batch_queue [OF V x2 q [unfolded queue_wf_def]]
  show ?thesis
    by (rule that [where q' = "q\<lparr>q_count := 0\<rparr>" and cmts' = "settle_q p q cmts"])
      (use True q in \<open>simp_all add: flush_def b queue_wf_def queue_ok_def\<close>)
next
  case False
  then have "q_count q < 2" using q by (auto simp: queue_wf_def queue_ok_def)
  show ?thesis
    by (rule that [where q' = q and cmts' = cmts]) (use False q i \<open>q_count q < 2\<close> in \<open>auto simp: flush_def\<close>)
qed

text \<open>
  The relation between the two verifiers before round \<open>i\<close>.  As long as no test has failed the settled
  arrays agree; after a failure only the failed flags matter.
\<close>

definition verify_rel :: "cross_params \<Rightarrow> u8 list \<Rightarrow> nat \<Rightarrow> verify_x2 \<Rightarrow> verify_state \<Rightarrow> bool" where
  "verify_rel p chall_2 i s t \<longleftrightarrow>
     vf_used_rsps s = zeros chall_2 i \<and> vf_used_rsps t = zeros chall_2 i
     \<and> vf_packed_padd_ok s = vf_packed_padd_ok t \<and> (vf_packed_padd_ok t \<longrightarrow> vf_signature_ok s = vf_signature_ok t)
     \<and> queue_wf i (cmt_0_len p) (queue_0 s) \<and> queue_wf i (CSPRNG_INPUT_LENGTH p) (queue_1 s)
     \<and> length (vf_cmt_0 t) = par_T p \<and> length (vf_y s) = par_T p \<and> length (vf_y t) = par_T p
     \<and> (vf_packed_padd_ok t \<and> vf_signature_ok t \<longrightarrow>
          settle_q p (queue_0 s) (vf_cmt_0 s) = vf_cmt_0 t \<and> settle_q p (queue_1 s) (vf_cmt_1 s) = vf_cmt_1 t
          \<and> (\<forall>j<i. vf_y s ! j = vf_y t ! j))"

lemma verify_flush_rel:
  assumes V: "sve_ok V p" and sz: "sve_sizes p" and rel: "verify_rel p chall_2 (Suc i) s t" and i: "i < par_T p"
  shows "verify_rel p chall_2 (Suc i) (verify_flush V p i s) t"
    and "q_count (queue_0 (verify_flush V p i s)) < 2" "q_count (queue_1 (verify_flush V p i s)) < 2"
    and "Suc i = par_T p \<Longrightarrow> q_count (queue_0 (verify_flush V p i s)) = 0 \<and> q_count (queue_1 (verify_flush V p i s)) = 0"
proof -
  note z = sve_sizesD [OF sz]
  have q: "queue_wf (Suc i) (cmt_0_len p) (queue_0 s)" "queue_wf (Suc i) (CSPRNG_INPUT_LENGTH p) (queue_1 s)"
    using rel by (simp_all add: verify_rel_def)
  obtain q1 c1 where f1: "flush V p i (queue_1 s) (vf_cmt_1 s) = (q1, c1)"
      "settle_q p q1 c1 = settle_q p (queue_1 s) (vf_cmt_1 s)"
      "queue_wf (Suc i) (CSPRNG_INPUT_LENGTH p) q1" "q_count q1 < 2" "Suc i = par_T p \<longrightarrow> q_count q1 = 0"
      "length c1 = length (vf_cmt_1 s)"
    by (rule flush_eq [OF V z(2,4) q(2) i, where cmts = "vf_cmt_1 s"])
  obtain q0 c0 where f0: "flush V p i (queue_0 s) (vf_cmt_0 s) = (q0, c0)"
      "settle_q p q0 c0 = settle_q p (queue_0 s) (vf_cmt_0 s)"
      "queue_wf (Suc i) (cmt_0_len p) q0" "q_count q0 < 2" "Suc i = par_T p \<longrightarrow> q_count q0 = 0"
      "length c0 = length (vf_cmt_0 s)"
    by (rule flush_eq [OF V z(2,3) q(1) i, where cmts = "vf_cmt_0 s"])
  have v: "verify_flush V p i s = s\<lparr>queue_1 := q1, vf_cmt_1 := c1, queue_0 := q0, vf_cmt_0 := c0\<rparr>"
    by (simp add: verify_flush_def f1(1) f0(1) Let_def)
  show "verify_rel p chall_2 (Suc i) (verify_flush V p i s) t"
    using rel f0(2,3) f1(2,3) by (simp add: v verify_rel_def)
  show "q_count (queue_0 (verify_flush V p i s)) < 2" "q_count (queue_1 (verify_flush V p i s)) < 2"
    "Suc i = par_T p \<Longrightarrow> q_count (queue_0 (verify_flush V p i s)) = 0 \<and> q_count (queue_1 (verify_flush V p i s)) = 0"
    using f0 f1 by (simp_all add: v)
qed

lemma verify_seed_rel:
  assumes V: "sve_ok V p" and sz: "sve_sizes p" "sizes_ok p" and W: "fz_mat_ok p W_mat"
    and salt: "length salt = SALT_LENGTH_BYTES p" and sd: "length (blk (SEED_LENGTH_BYTES p) rs i) = SEED_LENGTH_BYTES p"
    and i: "i < par_T p" "chall_2 ! i = 1" and rel: "verify_rel p chall_2 i s t" and q: "q_count (queue_1 s) < 2"
  shows "verify_rel p chall_2 (Suc i) (verify_seed_queue V p W_mat chall_1 salt rs i s) (verify_seed_round p W_mat chall_1 salt rs i t)"
proof -
  let ?sd = "blk (SEED_LENGTH_BYTES p) rs i"
  note d = round_draw_ok [of p salt ?sd i]
  have a: "fz_dz_norm_n p (fz_inf_w_sve V p (fst (round_draw p salt ?sd i)) W_mat) = secret_of p (fst (round_draw p salt ?sd i)) W_mat"
    by (simp add: fz_inf_w_sve_agree(1) [OF V sz d(1,2) W] secret_of_def)
  have e: "verify_seed_queue V p W_mat chall_1 salt rs i s
      = s\<lparr>queue_1 := enqueue i (?sd @ salt) (round_dsc p HASH_DOMAIN_SEP_CONST i) (queue_1 s),
          vf_y := (vf_y s)[i := response p W_mat salt ?sd (chall_1 ! i) i]\<rparr>"
    using a by (simp add: verify_seed_queue_def response_def round_draw_def Let_def case_prod_unfold)
  have r: "queue_wf i (cmt_0_len p) (queue_0 s)" "queue_wf i (CSPRNG_INPUT_LENGTH p) (queue_1 s)"
    using rel by (simp_all add: verify_rel_def)
  have l: "length (?sd @ salt) = CSPRNG_INPUT_LENGTH p" using salt sd by (simp add: CSPRNG_INPUT_LENGTH_def)
  show ?thesis
    using rel i by (simp add: e verify_seed_round_eq verify_rel_def queue_wf_mono [OF r(1)] enqueue_wf [OF r(2) q l]
        settle_enqueue_q [OF r(2) q] nth_list_update)
qed

lemma verify_resp_rel:
  assumes V: "sve_ok V p" and sz: "sve_sizes p" "sizes_ok p" and W: "fz_mat_ok p W_mat" and F: "fp_mat_ok p V_tr"
    and salt: "length (sig_salt sig) = SALT_LENGTH_BYTES p"
    and resp: "length (resp_v_G_bar (sig_resp_0 sig ! zeros chall_2 i)) = DENSELY_PACKED_FZ_RSDP_G_VEC_SIZE p"
    and i: "i < par_T p" "chall_2 ! i = 0" and rel: "verify_rel p chall_2 i s t" and q: "q_count (queue_0 s) < 2"
  shows "verify_rel p chall_2 (Suc i) (verify_resp_queue V p v_memory V_tr W_mat synd chall_1 sig i s)
    (verify_resp_round p V_tr W_mat synd chall_1 sig i t)"
proof -
  have used: "vf_used_rsps s = zeros chall_2 i" "vf_used_rsps t = zeros chall_2 i" "vf_packed_padd_ok s = vf_packed_padd_ok t"
    using rel by (simp_all add: verify_rel_def)
  have r: "queue_wf i (cmt_0_len p) (queue_0 s)" "queue_wf i (CSPRNG_INPUT_LENGTH p) (queue_1 s)"
    using rel by (simp_all add: verify_rel_def)
  let ?resp = "sig_resp_0 sig ! zeros chall_2 i" and ?dsc = "round_dsc p HASH_DOMAIN_SEP_CONST i"
  define y_i y_ok where "y_i = fst (unpack_fp_vec p (resp_y ?resp))" and "y_ok = snd (unpack_fp_vec p (resp_y ?resp))"
  define v_G v_ok where "v_G = fst (unpack_fz_rsdp_g_vec p (resp_v_G_bar ?resp))"
    and "v_ok = snd (unpack_fz_rsdp_g_vec p (resp_v_G_bar ?resp))"
  have un: "unpack_fp_vec p (resp_y ?resp) = (y_i, y_ok)" "unpack_fz_rsdp_g_vec p (resp_v_G_bar ?resp) = (v_G, v_ok)"
    by (simp_all add: y_i_def y_ok_def v_G_def v_ok_def)
  define m where "m = (\<lambda>v y. pack_fp_syn p (fp_synd_minus_fp_vec_scaled p (fp_vec_by_fp_matrix p
      (fp_vec_by_fp_vec_pointwise p v y) V_tr) (chall_1 ! i) synd) @ resp_v_G_bar ?resp @ sig_salt sig)"
  have mat: "fp_vec_mat_sve V p (fp_vec_by_fp_vec_pointwise p v y) V_tr = fp_vec_by_fp_matrix p (fp_vec_by_fp_vec_pointwise p v y) V_tr"
    for v y
    by (rule fp_vec_mat_sve_eq [OF V sz _ _ F]) (simp_all add: fp_pointwise_canon)
  have lm: "length (m v y) = cmt_0_len p" for v y using resp salt by (simp add: m_def cmt_0_len_def)
  have t: "verify_resp_round p V_tr W_mat synd chall_1 sig i t
    = t\<lparr>vf_cmt_0 := (vf_cmt_0 t)[i := hash p (m (convert_restr_vec_to_fp p (fz_inf_w_by_fz_matrix p v_G W_mat)) y_i) ?dsc],
        vf_cmt_1 := (vf_cmt_1 t)[i := sig_resp_1 sig ! zeros chall_2 i], vf_y := (vf_y t)[i := y_i],
        vf_used_rsps := zeros chall_2 i + 1, vf_signature_ok := vf_signature_ok t \<and> is_fz_vec_in_restr_group_m p v_G,
        vf_packed_padd_ok := vf_packed_padd_ok t \<and> y_ok \<and> v_ok\<rparr>"
    by (simp add: verify_resp_round_def used un Let_def m_def conj_assoc)
  define Y G where "Y = (if vf_packed_padd_ok t then y_i else vf_y s ! i)"
    and "G = (if vf_packed_padd_ok t \<and> y_ok then v_G else v_memory)"
  have u: "verify_resp_queue V p v_memory V_tr W_mat synd chall_1 sig i s
    = s\<lparr>queue_0 := enqueue i (m (convert_restr_vec_to_fp p (fz_inf_w_sve V p G W_mat)) Y) ?dsc (queue_0 s),
        vf_cmt_1 := (vf_cmt_1 s)[i := sig_resp_1 sig ! zeros chall_2 i], vf_y := (vf_y s)[i := Y],
        vf_used_rsps := zeros chall_2 i + 1, vf_signature_ok := vf_signature_ok s \<and> is_fz_vec_in_restr_group_m p G,
        vf_packed_padd_ok := vf_packed_padd_ok t \<and> y_ok \<and> v_ok\<rparr>"
    by (cases "vf_packed_padd_ok t"; cases y_ok)
      (simp_all add: verify_resp_queue_def used un Let_def m_def mat Y_def G_def)
  have YG: "vf_packed_padd_ok t \<and> y_ok \<Longrightarrow> Y = y_i \<and> G = v_G" by (simp add: Y_def G_def)
  have lv: "length v_G = par_M p" by (simp add: v_G_def unpack_fz_rsdp_g_vec_def generic_unpack_7_bit_eq)
  have agree: "convert_restr_vec_to_fp p (fz_inf_w_sve V p v_G W_mat) = convert_restr_vec_to_fp p (fz_inf_w_by_fz_matrix p v_G W_mat)"
    if "is_fz_vec_in_restr_group_m p v_G"
    using that by (intro fz_inf_w_sve_agree(2) [OF V sz lv _ W]) (simp add: is_fz_vec_in_restr_group_m_iff lv)
  show ?thesis
    using rel i YG agree
    by (simp add: u t verify_rel_def queue_wf_mono [OF r(2)] enqueue_wf [OF r(1) q lm] settle_enqueue_q [OF r(1) q]
        settle_q_update [OF r(2)] nth_list_update)
qed

context cross_scheme
begin

theorem CROSS_verify_sve_eq:
  assumes V: "sve_ok V p" and sz: "sve_sizes p" and sig: "sig_wf p sig"
    and mem: "length proof_memory = NUM_NODES p * HASH_DIGEST_LENGTH p" and y_mem: "length y_memory = par_T p"
  shows "CROSS_verify_sve V p y_memory v_memory PK m sig proof_memory = CROSS_verify p PK m sig proof_memory"
proof -
  let ?S = "SEED_LENGTH_BYTES p" and ?H = "HASH_DIGEST_LENGTH p" and ?T = "par_T p"
  note x2 = sve_sizesD [OF sz]
  have salt: "length (sig_salt sig) = SALT_LENGTH_BYTES p" using sig by (simp add: sig_wf_def)
  define c where "c = expand_digest_to_fixed_weight p (sig_digest_chall_2 sig)"
  define V_tr W_mat where "V_tr = fst (expand_pk p (pk_seed_pk PK))" and "W_mat = snd (expand_pk p (pk_seed_pk PK))"
  have W: "fz_mat_ok p W_mat" and F: "fp_mat_ok p V_tr" by (simp_all add: W_mat_def V_tr_def expand_pk_ok)
  define synd where "synd = fst (unpack_fp_syn p (pk_s PK))"
  define chall_1 where "chall_1 = snd (first_challenge p m (sig_digest_cmt sig) (sig_salt sig))"
  define rebuilt where "rebuilt = rebuild_tree p (replicate (?S * NUM_NODES p) 0) c (sig_path sig) (sig_salt sig)"
  have reb: "rebuild_tree_sve V p (replicate (?S * NUM_NODES p) 0) c (sig_path sig) (sig_salt sig) = rebuilt"
    unfolding rebuilt_def by (rule rebuild_tree_sve_eq [OF V x2(1) salt]) (simp add: mult.commute)
  define rs where "rs = seed_leaves p (replicate (?T * ?S) 0) (fst rebuilt)"
  have c01: "c ! i = 0 \<or> c ! i = 1" if "i < ?T" for i
    using expand_digest_01 [OF params_simps(3) that] by (simp add: c_def)
  note fit = published_fit [of "sig_digest_chall_2 sig", folded c_def]
  have "length (fst rebuilt) = NUM_NODES p * ?S"
    unfolding rebuilt_def by (rule length_rebuild_tree [OF V x2(1) salt]) (simp add: mult.commute)
  then have sd: "length (blk ?S rs i) = ?S" if "i < ?T" for i
    using seed_leaves_correct [of "replicate (?T * ?S) 0" "fst rebuilt"] that
    by (intro length_blk [OF that]) (simp add: rs_def)
  define s0 :: verify_x2 where "s0 = \<lparr>vf_cmt_0 = replicate ?T (replicate ?H 0), vf_cmt_1 = replicate ?T (replicate ?H 0),
      vf_y = y_memory, vf_used_rsps = 0, vf_signature_ok = True, vf_packed_padd_ok = True,
      queue_0 = empty_queue (DENSELY_PACKED_FP_SYN_SIZE p + DENSELY_PACKED_FZ_RSDP_G_VEC_SIZE p) (sig_salt sig),
      queue_1 = empty_queue ?S (sig_salt sig)\<rparr>"
  define t0 :: verify_state where "t0 = \<lparr>vf_cmt_0 = replicate ?T (replicate ?H 0), vf_cmt_1 = replicate ?T (replicate ?H 0),
      vf_y = replicate ?T [], vf_used_rsps = 0, vf_signature_ok = True, vf_packed_padd_ok = True\<rparr>"
  define s where "s = for_range 0 ?T (\<lambda>i s. verify_flush V p i
      (if c ! i = 1 then verify_seed_queue V p W_mat chall_1 (sig_salt sig) rs i s
       else verify_resp_queue V p v_memory V_tr W_mat synd chall_1 sig i s)) s0"
  define t where "t = for_range 0 ?T (\<lambda>i. if c ! i = 1 then verify_seed_round p W_mat chall_1 (sig_salt sig) rs i
      else verify_resp_round p V_tr W_mat synd chall_1 sig i) t0"
  let ?R = "\<lambda>i s t. verify_rel p c i s t \<and> q_count (queue_0 s) < 2 \<and> q_count (queue_1 s) < 2
      \<and> (i = ?T \<longrightarrow> q_count (queue_0 s) = 0 \<and> q_count (queue_1 s) = 0)"
  have "?R ?T s t"
    unfolding s_def t_def
  proof (rule for_range_rel [where R = ?R])
    show "?R 0 s0 t0"
      using y_mem by (simp add: s0_def t0_def verify_rel_def queue_wf_def queue_ok_empty empty_queue_def)
    fix i s t assume i: "i < ?T" and R: "?R i s t"
    let ?s = "if c ! i = 1 then verify_seed_queue V p W_mat chall_1 (sig_salt sig) rs i s
       else verify_resp_queue V p v_memory V_tr W_mat synd chall_1 sig i s"
    have "verify_rel p c (Suc i) ?s ((if c ! i = 1 then verify_seed_round p W_mat chall_1 (sig_salt sig) rs i
      else verify_resp_round p V_tr W_mat synd chall_1 sig i) t)"
    proof (cases "c ! i = 1")
      case True
      then show ?thesis using verify_seed_rel [OF V sz params_simps(4) W salt sd [OF i] i True] R by simp
    next
      case False
      then have 0: "c ! i = 0" using c01 [OF i] by simp
      have "zeros c i < ?T - par_W p" using zeros_lt [OF 0 i] fit(3) by simp
      then have "resp_0_wf p (sig_resp_0 sig ! zeros c i)" using sig by (simp add: sig_wf_def)
      then have l: "length (resp_v_G_bar (sig_resp_0 sig ! zeros c i)) = DENSELY_PACKED_FZ_RSDP_G_VEC_SIZE p"
        by (simp add: resp_0_wf_def)
      show ?thesis using verify_resp_rel [OF V sz params_simps(4) W F salt l i 0] R False by simp
    qed
    from verify_flush_rel [OF V sz this i] i
    show "?R (Suc i) (verify_flush V p i ?s) ((if c ! i = 1 then verify_seed_round p W_mat chall_1 (sig_salt sig) rs i
      else verify_resp_round p V_tr W_mat synd chall_1 sig i) t)" by blast
  qed simp
  then have rel: "verify_rel p c ?T s t" and q: "q_count (queue_0 s) = 0" "q_count (queue_1 s) = 0" by blast+
  have sve: "CROSS_verify_sve V p y_memory v_memory PK m sig proof_memory \<longleftrightarrow>
      vf_signature_ok s \<and> hash_commitments p (fst (recompute_root_sve V p proof_memory (vf_cmt_0 s) (sig_proof sig) c)) (vf_cmt_1 s)
        = sig_digest_cmt sig
      \<and> hash_responses p (vf_y s) (fst (first_challenge p m (sig_digest_cmt sig) (sig_salt sig))) = sig_digest_chall_2 sig
      \<and> snd (recompute_root_sve V p proof_memory (vf_cmt_0 s) (sig_proof sig) c)
      \<and> snd rebuilt \<and> snd (unpack_fp_syn p (pk_s PK)) \<and> vf_packed_padd_ok s"
    unfolding CROSS_verify_sve_def Let_def case_prod_unfold c_def [symmetric] V_tr_def [symmetric] W_mat_def [symmetric]
      synd_def [symmetric] chall_1_def [symmetric] reb rs_def [symmetric] s0_def [symmetric] s_def [symmetric] by (rule refl)
  have port: "CROSS_verify p PK m sig proof_memory \<longleftrightarrow>
      vf_signature_ok t \<and> hash_commitments p (fst (recompute_root p proof_memory (vf_cmt_0 t) (sig_proof sig) c)) (vf_cmt_1 t)
        = sig_digest_cmt sig
      \<and> hash_responses p (vf_y t) (fst (first_challenge p m (sig_digest_cmt sig) (sig_salt sig))) = sig_digest_chall_2 sig
      \<and> snd (recompute_root p proof_memory (vf_cmt_0 t) (sig_proof sig) c)
      \<and> snd rebuilt \<and> snd (unpack_fp_syn p (pk_s PK)) \<and> vf_packed_padd_ok t"
    unfolding CROSS_verify_def Let_def case_prod_unfold c_def [symmetric] V_tr_def [symmetric] W_mat_def [symmetric]
      synd_def [symmetric] chall_1_def [symmetric] rebuilt_def [symmetric] rs_def [symmetric] t0_def [symmetric] t_def [symmetric]
    by (rule refl)
  show ?thesis
  proof (cases "vf_packed_padd_ok t \<and> vf_signature_ok t")
    case False
    then show ?thesis using rel by (auto simp: sve port verify_rel_def)
  next
    case True
    have eq: "vf_cmt_0 s = vf_cmt_0 t" "vf_cmt_1 s = vf_cmt_1 t" "vf_signature_ok s" "vf_packed_padd_ok s"
      using rel True q by (simp_all add: verify_rel_def)
    have y: "vf_y s = vf_y t" using rel True by (auto simp: verify_rel_def intro: nth_equalityI)
    have perm: "perm_ok (keccak_perm p)" using V by simp
    have "\<forall>i<?T. length (vf_cmt_0 t ! i) = ?H"
    proof -
      let ?P = "\<lambda>t. length (vf_cmt_0 t) = ?T \<and> (\<forall>i<?T. length (vf_cmt_0 (t :: verify_state) ! i) = ?H)"
      have "?P t"
        unfolding t_def
        by (rule for_range_inv_const [where Q = ?P])
          (auto simp: t0_def verify_seed_round_eq verify_resp_round_def Let_def case_prod_unfold nth_list_update perm)
      then show ?thesis by simp
    qed
    then have "recompute_root_sve V p proof_memory (vf_cmt_0 t) (sig_proof sig) c
        = recompute_root p proof_memory (vf_cmt_0 t) (sig_proof sig) c"
      using sig by (intro recompute_root_sve_eq [OF V x2(1) mem _ fit(1)]) (simp_all add: sig_wf_def mult.commute)
    then show ?thesis using True by (simp add: sve port eq y)
  qed
qed

end

end
