(* ===== verification/Bike_Poly.thy ===== *)
theory Bike_Poly
  imports Words
begin

text \<open>
  Polynomials over the field of two elements, for BIKE: a polynomial is the natural number whose bits are its
  coefficients, addition is \<open>XOR\<close> and multiplication is \<open>clmul\<close>, the product without carries.  An
  array of 64-bit words holds the polynomial \<open>qval\<close>, least significant word first.
\<close>

named_theorems xor_ac \<open>rearranging sums\<close>

lemmas [xor_ac] = xor.assoc xor.commute xor.left_commute

lemma xor_cancel [simp]: "a XOR (a XOR b) = (b :: nat)"
  by (simp flip: xor.assoc)

lemma xor_eq_0 [simp]: "a XOR b = 0 \<longleftrightarrow> a = (b :: nat)"
  by (metis xor.right_neutral xor_cancel xor_self_eq)

lemma xor_lt: "a < 2 ^ n \<Longrightarrow> b < 2 ^ n \<Longrightarrow> a XOR b < (2 ^ n :: nat)"
  by (metis take_bit_nat_eq_self_iff take_bit_xor)

lemma push_bit_lt: "a < 2 ^ n \<Longrightarrow> push_bit m a < (2 ^ (m + n) :: nat)"
  by (simp add: push_bit_eq_mult power_add mult.commute)

subsection \<open>Multiplication\<close>

function clmul :: "nat \<Rightarrow> nat \<Rightarrow> nat" where
  "clmul a b = (if a = 0 then 0 else (if odd a then b else 0) XOR push_bit 1 (clmul (a div 2) b))"
  by pat_completeness auto
termination by (relation "measure fst") auto

declare clmul.simps [simp del]

lemma clmul_0 [simp]: "clmul 0 b = 0"
  by (simp add: clmul.simps)

lemma clmul_rec: "clmul a b = (if odd a then b else 0) XOR push_bit 1 (clmul (a div 2) b)"
  by (cases "a = 0") (simp_all add: clmul.simps [of a])

lemma clmul_0_right [simp]: "clmul a 0 = 0"
proof (induction a rule: less_induct)
  case (less a)
  then show ?case by (cases "a = 0") (simp_all add: clmul.simps [of a])
qed

lemma clmul_1 [simp]: "clmul 1 b = b" "clmul (Suc 0) b = b"
  by (simp_all add: clmul.simps [of "Suc 0"])

lemma div2_xor: "(a XOR b) div 2 = (a div 2) XOR (b div (2 :: nat))"
  using drop_bit_xor [of 1 a b] by (simp add: drop_bit_eq_div)

lemma odd_xor: "odd (a XOR b) \<longleftrightarrow> odd a \<noteq> odd (b :: nat)"
  by (simp add: even_xor_iff)

lemma clmul_xor_left: "clmul (a XOR a') b = clmul a b XOR clmul a' b"
proof (induction "a + a'" arbitrary: a a' rule: less_induct)
  case less
  show ?case
  proof (cases "a = 0 \<and> a' = 0")
    case False
    then have "a div 2 + a' div 2 < a + a'" by auto
    note ih = less(1) [OF this]
    show ?thesis
      unfolding clmul_rec [of "a XOR a'"] clmul_rec [of a] clmul_rec [of a'] div2_xor ih push_bit_xor odd_xor
      by (auto simp: xor_ac)
  qed simp
qed

lemma clmul_xor_right: "clmul a (b XOR b') = clmul a b XOR clmul a b'"
proof (induction a rule: less_induct)
  case (less a)
  show ?case
  proof (cases "a = 0")
    case False
    then have "clmul (a div 2) (b XOR b') = clmul (a div 2) b XOR clmul (a div 2) b'" by (intro less) simp
    then show ?thesis unfolding clmul_rec [of a] by (auto simp: xor_ac)
  qed simp
qed

lemma clmul_push_left: "clmul (push_bit n a) b = push_bit n (clmul a b)"
proof (induction n)
  case (Suc n)
  have "clmul (push_bit (Suc n) a) b = push_bit 1 (clmul (push_bit n a) b)"
    by (subst clmul_rec) (simp add: push_bit_eq_mult)
  with Suc show ?case by simp
qed simp

lemma clmul_push_right: "clmul a (push_bit n b) = push_bit n (clmul a b)"
proof (induction a rule: less_induct)
  case (less a)
  show ?case
  proof (cases "a = 0")
    case False
    then have "clmul (a div 2) (push_bit n b) = push_bit n (clmul (a div 2) b)" by (intro less) simp
    then show ?thesis unfolding clmul_rec [of a] by (simp add: push_bit_push_bit add.commute)
  qed simp
qed

lemma odd_parts: "(if odd a then 1 else 0) XOR push_bit 1 (a div 2) = (a :: nat)"
  by (cases "odd a") (auto simp: push_bit_eq_mult Suc_0_xor_eq elim!: oddE)

lemma pow2_mono: "x < 2 ^ m \<Longrightarrow> m \<le> n \<Longrightarrow> x < (2 ^ n :: nat)"
  by (erule less_le_trans) (simp add: power_increasing)

lemma clmul_1_right [simp]: "clmul a 1 = a" "clmul a (Suc 0) = a"
proof -
  show "clmul a 1 = a"
  proof (induction a rule: less_induct)
    case (less a)
    show ?case
    proof (cases "a = 0")
      case False
      then have "clmul (a div 2) 1 = a div 2" by (intro less) simp
      then show ?thesis by (subst clmul_rec) (simp only: odd_parts)
    qed simp
  qed
  then show "clmul a (Suc 0) = a" by simp
qed

lemma clmul_commute: "clmul a b = clmul b a"
proof (induction a rule: less_induct)
  case (less a)
  show ?case
  proof (cases "a = 0")
    case False
    have a: "a = (if odd a then 1 else 0) XOR push_bit 1 (a div 2)" by (simp only: odd_parts)
    have "clmul (a div 2) b = clmul b (a div 2)" by (rule less) (use False in simp)
    then have "clmul b ((if odd a then 1 else 0) XOR push_bit 1 (a div 2)) = (if odd a then b else 0) XOR push_bit 1 (clmul (a div 2) b)"
      unfolding clmul_xor_right clmul_push_right by simp
    with a show ?thesis by (metis clmul_rec)
  qed simp
qed

lemma clmul_assoc: "clmul (clmul a b) c = clmul a (clmul b c)"
proof (induction a rule: less_induct)
  case (less a)
  show ?case
  proof (cases "a = 0")
    case False
    then have "clmul (clmul (a div 2) b) c = clmul (a div 2) (clmul b c)" by (intro less) simp
    then show ?thesis
      unfolding clmul_rec [of a] clmul_xor_left clmul_push_left by simp
  qed simp
qed

lemma clmul_left_commute: "clmul a (clmul b c) = clmul b (clmul a c)"
  by (metis clmul_assoc clmul_commute)

lemmas clmul_ac = clmul_assoc clmul_commute clmul_left_commute

lemma clmul_lt: "a < 2 ^ m \<Longrightarrow> b < 2 ^ n \<Longrightarrow> clmul a b < 2 ^ (m + n)"
proof (induction m arbitrary: a)
  case (Suc m)
  have "clmul (a div 2) b < 2 ^ (m + n)" using Suc by simp
  then have "push_bit 1 (clmul (a div 2) b) < 2 ^ (Suc m + n)" by (simp add: push_bit_eq_mult)
  moreover have "(if odd a then b else 0) < 2 ^ (Suc m + n)"
    using pow2_mono [OF Suc.prems(2), of "Suc m + n"] by (cases "odd a") simp_all
  ultimately show ?case by (subst clmul_rec) (rule xor_lt)
qed simp

text \<open>A square keeps the coefficients, spread by a factor of two: the mixed products cancel.\<close>

lemma clmul_self_xor: "clmul (a XOR b) (a XOR b) = clmul a a XOR clmul b b"
  by (simp add: clmul_xor_left clmul_xor_right clmul_commute [of b a] xor_ac)

subsection \<open>Splitting a word\<close>

text \<open>A 64-bit word shifted by less than its width falls into a low and a high word.\<close>

lemma unat_xor: "unat (a XOR b :: 'a::len word) = unat a XOR unat b"
  by (rule bit_eqI) (auto simp: bit_simps bit_unsigned_iff dest: bit_imp_le_length)

lemma split_shift:
  assumes "0 < i" and "i \<le> 64"
  shows "unat (push_bit i w :: u64) XOR push_bit 64 (unat (drop_bit (64 - i) w)) = push_bit i (unat w)"
proof (rule bit_eqI)
  fix k
  show "bit (unat (push_bit i w :: u64) XOR push_bit 64 (unat (drop_bit (64 - i) w))) k = bit (push_bit i (unat w)) k"
  proof (cases "k < 64")
    case False
    then have "64 - i + (k - 64) = k - i" using assms by simp
    with False show ?thesis using assms by (simp add: bit_simps bit_unsigned_iff)
  qed (use assms in \<open>auto simp: bit_simps bit_unsigned_iff\<close>)
qed

subsection \<open>Arrays of words\<close>

fun qval :: "u64 list \<Rightarrow> nat" where
  "qval [] = 0"
| "qval (x # xs) = unat x XOR push_bit 64 (qval xs)"

lemma qval_append: "qval (xs @ ys) = qval xs XOR push_bit (64 * length xs) (qval ys)"
  by (induction xs) (simp_all add: push_bit_push_bit add.commute xor.assoc)

lemma qval_lt: "qval xs < 2 ^ (64 * length xs)"
proof (induction xs)
  case (Cons x xs)
  have "unat x < 2 ^ 64" by simp
  then have "unat x < (2 ^ (64 + 64 * length xs) :: nat)" by (rule pow2_mono) simp
  moreover have "push_bit 64 (qval xs) < 2 ^ (64 + 64 * length xs)" by (rule push_bit_lt [OF Cons])
  ultimately show ?case by (simp add: xor_lt)
qed simp

lemma qval_replicate_0 [simp]: "qval (replicate n 0) = 0"
  by (induction n) simp_all

lemma qval_xor: "length xs = length ys \<Longrightarrow> qval (map2 (XOR) xs ys) = qval xs XOR qval ys"
  by (induction xs ys rule: list_induct2) (simp_all add: unat_xor xor_ac)

lemma qval_split: "n \<le> length xs \<Longrightarrow> qval xs = qval (take n xs) XOR push_bit (64 * n) (qval (drop n xs))"
  using qval_append [of "take n xs" "drop n xs"] by simp

lemma bit_qval: "bit (qval xs) k \<longleftrightarrow> k div 64 < length xs \<and> bit (xs ! (k div 64)) (k mod 64)"
proof (induction xs arbitrary: k)
  case (Cons x xs)
  show ?case
  proof (cases "k < 64")
    case True
    then show ?thesis by (simp add: bit_simps bit_unsigned_iff)
  next
    case False
    then have "k div 64 = Suc ((k - 64) div 64)" "k mod 64 = (k - 64) mod 64" by (simp_all add: le_div_geq le_mod_geq)
    then show ?thesis using False Cons [of "k - 64"] by (auto simp: bit_simps bit_unsigned_iff dest: bit_imp_le_length)
  qed
qed simp

lemma qval_eqI: "length xs = length ys \<Longrightarrow> qval xs = qval ys \<Longrightarrow> xs = ys"
proof (rule nth_equalityI)
  fix i assume l: "length xs = length ys" "qval xs = qval ys" "i < length xs"
  show "xs ! i = ys ! i"
  proof (rule bit_eqI)
    fix n assume "possible_bit TYPE(u64) n"
    then have "n < 64" by simp
    then have "(64 * i + n) div 64 = i" "(64 * i + n) mod 64 = n" by simp_all
    then show "bit (xs ! i) n = bit (ys ! i) n" using bit_qval [of xs "64 * i + n"] bit_qval [of ys "64 * i + n"] l by simp
  qed
qed

subsection \<open>Arrays of bytes\<close>

text \<open>The same polynomial over the bytes of an array, as \<open>raw\<close> of the structures reads it.\<close>

fun bval :: "bytes \<Rightarrow> nat" where
  "bval [] = 0"
| "bval (x # xs) = unat x XOR push_bit 8 (bval xs)"

lemma bit_bval: "bit (bval xs) k \<longleftrightarrow> k div 8 < length xs \<and> bit (xs ! (k div 8)) (k mod 8)"
proof (induction xs arbitrary: k)
  case (Cons x xs)
  show ?case
  proof (cases "k < 8")
    case True
    then show ?thesis by (simp add: bit_simps bit_unsigned_iff)
  next
    case False
    then have "k div 8 = Suc ((k - 8) div 8)" "k mod 8 = (k - 8) mod 8" by (simp_all add: le_div_geq le_mod_geq)
    then show ?thesis using False Cons [of "k - 8"] by (auto simp: bit_simps bit_unsigned_iff dest: bit_imp_le_length)
  qed
qed simp

lemma bval_append: "bval (xs @ ys) = bval xs XOR push_bit (8 * length xs) (bval ys)"
  by (induction xs) (simp_all add: push_bit_push_bit add.commute xor.assoc)

lemma bval_lt: "bval xs < 2 ^ (8 * length xs)"
proof (induction xs)
  case (Cons x xs)
  have "unat x < 2 ^ 8" by simp
  then have "unat x < (2 ^ (8 + 8 * length xs) :: nat)" by (rule pow2_mono) simp
  moreover have "push_bit 8 (bval xs) < 2 ^ (8 + 8 * length xs)" by (rule push_bit_lt [OF Cons])
  ultimately show ?case by (simp add: xor_lt)
qed simp

lemma bval_eqI: "length xs = length ys \<Longrightarrow> bval xs = bval ys \<Longrightarrow> xs = ys"
proof (rule nth_equalityI)
  fix i assume l: "length xs = length ys" "bval xs = bval ys" "i < length xs"
  show "xs ! i = ys ! i"
  proof (rule bit_eqI)
    fix n assume "possible_bit TYPE(u8) n"
    then have "n < 8" by simp
    then have "(8 * i + n) div 8 = i" "(8 * i + n) mod 8 = n" by simp_all
    then show "bit (xs ! i) n = bit (ys ! i) n" using bit_bval [of xs "8 * i + n"] bit_bval [of ys "8 * i + n"] l by simp
  qed
qed

lemma bval_replicate_0 [simp]: "bval (replicate n 0) = 0"
  by (induction n) simp_all

lemma bval_take: "bval (take n xs) = take_bit (8 * n) (bval xs)"
proof (rule bit_eqI)
  fix k show "bit (bval (take n xs)) k = bit (take_bit (8 * n) (bval xs)) k"
    by (auto simp: bit_bval bit_take_bit_iff less_mult_imp_div_less div_less_iff_less_mult)
qed

lemma length_bytes_of_lanes [simp]: "length (bytes_of_lanes ws) = 8 * length ws"
  by (induction ws) (simp_all add: bytes_of_lanes_def)

lemma bval_bytes_of_lane: "bval (bytes_of_lane w) = unat w"
proof (rule bit_eqI)
  fix k show "bit (bval (bytes_of_lane w)) k = bit (unat w) k"
    by (cases "k < 64") (auto simp: bit_bval bit_bytes_of_lane bit_unsigned_iff less_mult_imp_div_less dest: bit_imp_le_length)
qed

lemma bval_bytes_of_lanes [simp]: "bval (bytes_of_lanes ws) = qval ws"
  by (induction ws) (simp_all add: bytes_of_lanes_def bval_append bval_bytes_of_lane)

text \<open>The words over an array of bytes, as the casts to \<open>uint64_t *\<close> read it.\<close>

definition lanes_over :: "bytes \<Rightarrow> u64 list" where
  "lanes_over bs = map (\<lambda>i. lane_of_bytes (seg bs (8 * i) 8)) [0..<length bs div 8]"

lemma length_lanes_over [simp]: "length (lanes_over bs) = length bs div 8"
  by (simp add: lanes_over_def)

lemma qval_lanes_over:
  assumes "length bs mod 8 = 0"
  shows "qval (lanes_over bs) = bval bs"
proof (rule bit_eqI)
  fix k :: nat
  let ?q = "k div 64"
  have l: "length bs = 8 * (length bs div 8)" using assms by presburger
  have m: "k mod 64 = 8 * (k div 8 mod 8) + k mod 8" using mod_mult2_eq [of k 8 8] by simp
  have "?q = k div 8 div 8" by (simp flip: div_mult2_eq)
  then have k8: "k div 8 = 8 * ?q + k mod 64 div 8" using div_mult_mod_eq [of "k div 8" 8] by (simp add: m)
  have k8m: "k mod 8 = k mod 64 mod 8" by (simp add: m)
  have lt: "k mod 64 div 8 < 8" "k mod 64 < 64" by simp_all
  show "bit (qval (lanes_over bs)) k = bit (bval bs) k"
  proof (cases "?q < length bs div 8")
    case True
    have "8 * ?q + 8 \<le> length bs" using True l by linarith
    then have "bit (lane_of_bytes (seg bs (8 * ?q) 8)) (k mod 64) = bit (bs ! (8 * ?q + k mod 64 div 8)) (k mod 64 mod 8)"
      and "8 * ?q + k mod 64 div 8 < length bs"
      using lt by (simp_all add: bit_lane_of_bytes nth_seg)
    then show ?thesis using True unfolding bit_qval bit_bval k8 k8m by (simp add: lanes_over_def)
  next
    case False
    then have "\<not> 8 * ?q + k mod 64 div 8 < length bs" using l by linarith
    then show ?thesis using False unfolding bit_qval bit_bval k8 by simp
  qed
qed

lemma lanes_over_bytes [simp]: "lanes_over (bytes_of_lanes ws) = ws"
  by (rule qval_eqI) (simp_all add: qval_lanes_over)

end
