(* ===== verification/Bike_Defs.thy ===== *)
theory Bike_Defs
  imports Bike_Poly Sve
begin

text \<open>
  BIKE: the parameters of \<open>bike_defs.h\<close>, the constant-time helpers of \<open>utilities.h\<close> and the SVE2 intrinsics on 64-bit
  lanes that BIKE uses beyond those of \<open>Sve\<close>.  A \<open>pad_r_t\<close> is the array of its \<open>R_PADDED_QWORDS\<close> words,
  which is how the arithmetic reads it.
\<close>

subsection \<open>Parameters\<close>

record bike_params =
  R_BITS :: nat
  par_D :: nat
  par_T_bike :: nat
  THRESHOLD_COEFF0 :: u64
  THRESHOLD_COEFF1 :: u64
  THRESHOLD_MUL_CONST :: u64
  THRESHOLD_SHR_CONST :: nat
  THRESHOLD_MIN :: u32
  BLOCK_BITS :: nat

definition bike_l1 :: bike_params where
  "bike_l1 = \<lparr>R_BITS = 12323, par_D = 71, par_T_bike = 134, THRESHOLD_COEFF0 = 1353000000, THRESHOLD_COEFF1 = 697220,
     THRESHOLD_MUL_CONST = 12379400392853802749, THRESHOLD_SHR_CONST = 26, THRESHOLD_MIN = 36, BLOCK_BITS = 16384\<rparr>"

definition bike_l3 :: bike_params where
  "bike_l3 = \<lparr>R_BITS = 24659, par_D = 103, par_T_bike = 199, THRESHOLD_COEFF0 = 1525880000, THRESHOLD_COEFF1 = 526500,
     THRESHOLD_MUL_CONST = 12379400392853802749, THRESHOLD_SHR_CONST = 26, THRESHOLD_MIN = 52, BLOCK_BITS = 32768\<rparr>"

definition bike_l5 :: bike_params where
  "bike_l5 = \<lparr>R_BITS = 40973, par_D = 137, par_T_bike = 264, THRESHOLD_COEFF0 = 1787850000, THRESHOLD_COEFF1 = 402312,
     THRESHOLD_MUL_CONST = 12379400392853802749, THRESHOLD_SHR_CONST = 26, THRESHOLD_MIN = 69, BLOCK_BITS = 65536\<rparr>"

definition bike_levels :: "bike_params list" where
  "bike_levels = [bike_l1, bike_l3, bike_l5]"

definition DIVIDE_AND_CEIL :: "nat \<Rightarrow> nat \<Rightarrow> nat" where
  "DIVIDE_AND_CEIL x divider = (x + divider - 1) div divider"

definition N_BITS :: "bike_params \<Rightarrow> nat" where
  "N_BITS q = R_BITS q * 2"

definition R_BYTES :: "bike_params \<Rightarrow> nat" where
  "R_BYTES q = DIVIDE_AND_CEIL (R_BITS q) 8"

definition R_QWORDS :: "bike_params \<Rightarrow> nat" where
  "R_QWORDS q = DIVIDE_AND_CEIL (R_BITS q) 64"

definition R_BLOCKS :: "bike_params \<Rightarrow> nat" where
  "R_BLOCKS q = DIVIDE_AND_CEIL (R_BITS q) (BLOCK_BITS q)"

definition R_PADDED :: "bike_params \<Rightarrow> nat" where
  "R_PADDED q = R_BLOCKS q * BLOCK_BITS q"

definition R_PADDED_QWORDS :: "bike_params \<Rightarrow> nat" where
  "R_PADDED_QWORDS q = R_PADDED q div 64"

definition LAST_R_QWORD_LEAD :: "bike_params \<Rightarrow> nat" where
  "LAST_R_QWORD_LEAD q = R_BITS q mod 64"

definition LAST_R_QWORD_TRAIL :: "bike_params \<Rightarrow> nat" where
  "LAST_R_QWORD_TRAIL q = 64 - LAST_R_QWORD_LEAD q"

definition LAST_R_QWORD_MASK :: "bike_params \<Rightarrow> u64" where
  "LAST_R_QWORD_MASK q = push_bit (LAST_R_QWORD_LEAD q) 1 - 1"

definition LAST_R_BYTE_LEAD :: "bike_params \<Rightarrow> nat" where
  "LAST_R_BYTE_LEAD q = R_BITS q mod 8"

definition LAST_R_BYTE_MASK :: "bike_params \<Rightarrow> u8" where
  "LAST_R_BYTE_MASK q = push_bit (LAST_R_BYTE_LEAD q) 1 - 1"

definition LOG2_MSB :: "nat \<Rightarrow> nat" where
  "LOG2_MSB v = (if v = 0 then 0 else if v < 2 then 1 else if v < 4 then 2 else if v < 8 then 3 else if v < 16 then 4
     else if v < 32 then 5 else if v < 64 then 6 else if v < 128 then 7 else if v < 256 then 8 else 9)"

definition SLICES :: "bike_params \<Rightarrow> nat" where
  "SLICES q = LOG2_MSB (par_D q) + 1"

text \<open>What the proofs use of the sizes; it holds of the three levels.\<close>

definition bike_ok :: "bike_params \<Rightarrow> bool" where
  "bike_ok q \<longleftrightarrow> R_BITS q mod 64 \<noteq> 0 \<and> R_BITS q mod 8 \<noteq> 0 \<and> 0 < R_QWORDS q \<and> R_QWORDS q < R_PADDED_QWORDS q"

lemmas bike_sizes = bike_l1_def bike_l3_def bike_l5_def DIVIDE_AND_CEIL_def R_BYTES_def R_QWORDS_def R_BLOCKS_def R_PADDED_def
  R_PADDED_QWORDS_def LAST_R_QWORD_LEAD_def LAST_R_QWORD_TRAIL_def LAST_R_BYTE_LEAD_def N_BITS_def

lemma bike_level_cases:
  assumes "q \<in> set bike_levels"
  obtains "q = bike_l1" | "q = bike_l3" | "q = bike_l5"
  using assms by (auto simp: bike_levels_def)

lemma bike_ok_levels: "q \<in> set bike_levels \<Longrightarrow> bike_ok q"
  by (elim bike_level_cases) (simp_all add: bike_ok_def bike_sizes)

text \<open>The words of a reduced element: \<open>R_QWORDS - 1\<close> full ones and a part of the last.\<close>

lemma R_QWORDS_split:
  assumes "bike_ok q"
  shows "R_BITS q = 64 * (R_QWORDS q - 1) + LAST_R_QWORD_LEAD q" and "0 < LAST_R_QWORD_LEAD q"
    and "LAST_R_QWORD_LEAD q < 64"
proof -
  have m: "R_BITS q mod 64 \<noteq> 0" using assms by (simp add: bike_ok_def)
  have "R_BITS q + 63 = (R_BITS q mod 64 - 1) + 64 * (R_BITS q div 64 + 1)" using m by presburger
  then have "R_QWORDS q = ((R_BITS q mod 64 - 1) + 64 * (R_BITS q div 64 + 1)) div 64"
    by (simp add: R_QWORDS_def DIVIDE_AND_CEIL_def)
  also have "\<dots> = R_BITS q div 64 + 1" using mod_less_divisor [of 64 "R_BITS q"] by (simp add: div_mult_self1)
  finally have "R_QWORDS q = R_BITS q div 64 + 1" .
  then show "R_BITS q = 64 * (R_QWORDS q - 1) + LAST_R_QWORD_LEAD q" by (simp add: LAST_R_QWORD_LEAD_def)
  show "0 < LAST_R_QWORD_LEAD q" "LAST_R_QWORD_LEAD q < 64" using m by (simp_all add: LAST_R_QWORD_LEAD_def)
qed

subsection \<open>Constant-time helpers\<close>

text \<open>\<open>secure_cmp\<close>: 1 when the first \<open>size\<close> bytes agree.\<close>

definition secure_cmp :: "bytes \<Rightarrow> bytes \<Rightarrow> nat \<Rightarrow> u32" where
  "secure_cmp a b n = (let res = for_range 0 n (\<lambda>i res. res OR (a ! i XOR b ! i)) (0 :: u8) in if 0 = res then 1 else 0)"

definition secure_cmp32 :: "u32 \<Rightarrow> u32 \<Rightarrow> u32" where
  "secure_cmp32 v1 v2 = (if v1 = v2 then 1 else 0)"

text \<open>\<open>cset HI\<close> after comparing \<open>v2\<close> with \<open>v1\<close>, less 1.\<close>

definition secure_l32_mask :: "u32 \<Rightarrow> u32 \<Rightarrow> u32" where
  "secure_l32_mask v1 v2 = (let res = (if v1 < v2 then 1 else 0) in res - 1)"

definition secure_cmpeq64_mask :: "u64 \<Rightarrow> u64 \<Rightarrow> u64" where
  "secure_cmpeq64_mask v1 v2 = - (1 - drop_bit 63 ((v1 - v2) OR (v2 - v1)))"

lemma word_xor_eq_0: "a XOR b = 0 \<longleftrightarrow> a = (b :: 'a::len word)"
  by (metis xor.assoc xor.left_neutral xor.right_neutral xor_self_eq)

lemma unat_lt_63: "\<not> bit (w :: u64) 63 \<Longrightarrow> unat w < 2 ^ 63"
proof -
  assume "\<not> bit w 63"
  then have "w = take_bit 63 w" by (intro bit_word_eqI) (auto simp: bit_simps less_Suc_eq numeral_eq_Suc)
  then have "unat w = take_bit 63 (unat w)" by (metis unsigned_take_bit_eq)
  then show ?thesis by (metis take_bit_nat_less_exp)
qed

lemma drop_bit_63: "bit (w :: u64) 63 \<Longrightarrow> drop_bit 63 w = 1"
  by (rule bit_word_eqI) (auto simp: bit_simps dest: bit_imp_le_length)

lemma secure_cmp_eq: "secure_cmp a b n = (if \<forall>i<n. a ! i = b ! i then 1 else 0)"
proof -
  have "for_range 0 n (\<lambda>i res. res OR (a ! i XOR b ! i)) (0 :: u8) = 0 \<longleftrightarrow> (\<forall>i<n. a ! i = b ! i)"
    by (induction n) (auto simp: for_range_Suc less_Suc_eq or_eq_0_iff word_xor_eq_0)
  then show ?thesis by (auto simp: secure_cmp_def Let_def)
qed

lemma secure_l32_mask_eq: "secure_l32_mask v1 v2 = (if v1 < v2 then 0 else - 1)"
  by (simp add: secure_l32_mask_def)

lemma secure_cmpeq64_mask_eq: "secure_cmpeq64_mask v1 v2 = (if v1 = v2 then - 1 else 0)"
proof (cases "v1 = v2")
  case False
  let ?d = "v1 - v2"
  have d: "v2 - v1 = - ?d" "?d \<noteq> 0" using False by simp_all
  have "bit ?d 63 \<or> bit (- ?d) 63"
  proof (rule ccontr)
    assume "\<not> ?thesis"
    then have "unat ?d < 2 ^ 63" "unat (- ?d) < 2 ^ 63" using unat_lt_63 by blast+
    moreover have "unat (- ?d) = 2 ^ 64 - unat ?d" 
      using d(2) unat_sub_if' [of 0 ?d] by (simp add: unat_gt_0 del: unat_eq_zero)
    ultimately show False by simp
  qed
  then have "bit (v1 - v2) 63 \<or> bit (v2 - v1) 63" by (simp only: d(1))
  then have "bit ((v1 - v2) OR (v2 - v1)) 63" by (simp add: bit_simps)
  then have "drop_bit 63 ((v1 - v2) OR (v2 - v1)) = 1"
    by (rule drop_bit_63)
  then show ?thesis using False by (simp add: secure_cmpeq64_mask_def)
qed (simp add: secure_cmpeq64_mask_def)

subsection \<open>Intrinsics on 64-bit lanes\<close>

text \<open>\<open>svpmullb_pair\<close>, \<open>svpmullt_pair\<close>: the 128-bit products of the even, of the odd lanes.\<close>

definition pmull64 :: "u64 \<Rightarrow> u64 \<Rightarrow> u64 \<times> u64" where
  "pmull64 a b = (let c = clmul (unat a) (unat b) in (of_nat c, of_nat (c div 2 ^ 64)))"

definition svpmullb_pair :: "u64 list \<Rightarrow> u64 list \<Rightarrow> u64 list" where
  "svpmullb_pair a b = map (\<lambda>k. let (lo, hi) = pmull64 (a ! (2 * (k div 2))) (b ! (2 * (k div 2)))
     in if even k then lo else hi) [0..<length a]"

definition svpmullt_pair :: "u64 list \<Rightarrow> u64 list \<Rightarrow> u64 list" where
  "svpmullt_pair a b = map (\<lambda>k. let (lo, hi) = pmull64 (a ! (2 * (k div 2) + 1)) (b ! (2 * (k div 2) + 1))
     in if even k then lo else hi) [0..<length a]"

definition svrev :: "u64 list \<Rightarrow> u64 list" where
  "svrev a = rev a"

definition svsel :: "svbool \<Rightarrow> u64 list \<Rightarrow> u64 list \<Rightarrow> u64 list" where
  "svsel pg a b = map (\<lambda>k. if pg ! k then a ! k else b ! k) [0..<length pg]"

text \<open>The \<open>_z\<close> form clears the inactive lanes.\<close>

definition sveor_z :: "svbool \<Rightarrow> u64 list \<Rightarrow> u64 list \<Rightarrow> u64 list" where
  "sveor_z pg a b = map (\<lambda>k. if pg ! k then a ! k XOR b ! k else 0) [0..<length pg]"

lemma pmull64_correct:
  "pmull64 a b = (lo, hi) \<Longrightarrow> unat lo XOR push_bit 64 (unat hi) = clmul (unat a) (unat b)"
proof -
  assume p: "pmull64 a b = (lo, hi)"
  define c where "c = clmul (unat a) (unat b)"
  have "c < 2 ^ (64 + 64)" unfolding c_def by (rule clmul_lt) simp_all
  then have "c div 2 ^ 64 < 2 ^ 64" by simp
  then have "unat lo = take_bit 64 c" "unat hi = drop_bit 64 c"
    using p by (auto simp: pmull64_def Let_def c_def [symmetric] unat_of_nat take_bit_eq_mod drop_bit_eq_div)
  then show "unat lo XOR push_bit 64 (unat hi) = clmul (unat a) (unat b)"
    unfolding c_def [symmetric]
    by (intro bit_eqI) (auto simp: bit_simps not_less)
qed

end
