(* ===== verification/Bike_Gf2x.thy ===== *)
theory Bike_Gf2x
  imports Bike_Defs "HOL-Library.Monad_Syntax"
begin

text \<open>
  Multiplication of polynomials in BIKE: \<open>gf2x_mul_base_portable.c\<close>, \<open>gf2x_mul.c\<close>, \<open>gf2x_mul_portable.c\<close> and \<open>gf2x_mod_add\<close> of
  \<open>gf2x.h\<close>, in the portable and in the SVE2 build.  The main theorem: on the lengths of the three levels
  \<open>karatzuba\<close> returns, and the array it leaves is the product without carries.  The SVE2 build stops the
  recursion at two words only, so it does not return on an operand of three words, say; and its base
  multiplication is right for vectors of two lanes only.
\<close>

text \<open>The build, with the number of 64-bit lanes (\<open>svcntd()\<close>) of the SVE2 machine.\<close>

datatype bike_build = Portable | Sve2 nat

subsection \<open>Addition\<close>

definition gf2x_mod_add :: "bike_build \<Rightarrow> bike_params \<Rightarrow> u64 list \<Rightarrow> u64 list \<Rightarrow> u64 list \<Rightarrow> u64 list" where
  "gf2x_mod_add B q c a b = (case B of
     Portable \<Rightarrow> for_range 0 (R_PADDED_QWORDS q) (\<lambda>i c. c[i := a ! i XOR b ! i]) c
   | Sve2 vl \<Rightarrow> for_step vl (R_PADDED_QWORDS q) (\<lambda>i c.
        let pg = svwhilelt vl i (R_PADDED_QWORDS q);
            va = svld1 pg a i;
            vb = svld1 pg b i;
            vc = sveor_z pg va vb
        in svst1 pg c i vc) c)"

subsection \<open>The base multiplication\<close>

definition LSB3 :: "u64 \<Rightarrow> u64" where
  "LSB3 x = x AND 7"

definition mul_table :: "u64 \<Rightarrow> u64 list" where
  "mul_table b0m =
     (let u1 = b0m; u2 = push_bit 1 u1; u3 = u2 XOR b0m; u4 = push_bit 1 u2; u5 = u4 XOR b0m;
          u6 = push_bit 1 u3; u7 = u6 XOR b0m
      in [0, u1, u2, u3, u4, u5, u6, u7])"

text \<open>\<open>g ^= u[j] & secure_cmpeq64_mask(x, j)\<close> over the table.\<close>

definition select_entry :: "u64 list \<Rightarrow> u64 \<Rightarrow> u64" where
  "select_entry u x = for_range 0 8 (\<lambda>j g. g XOR (u ! j AND secure_cmpeq64_mask x (of_nat j))) 0"

definition mul_first :: "u64 list \<Rightarrow> u64 \<Rightarrow> u64 \<times> u64" where
  "mul_first u a0 = for_range 0 8 (\<lambda>i (l, h).
     let l = l XOR (u ! i AND secure_cmpeq64_mask (LSB3 a0) (of_nat i));
         l = l XOR (push_bit 3 (u ! i) AND secure_cmpeq64_mask (LSB3 (drop_bit 3 a0)) (of_nat i));
         h = h XOR (drop_bit 61 (u ! i) AND secure_cmpeq64_mask (LSB3 (drop_bit 3 a0)) (of_nat i))
     in (l, h)) (0, 0)"

text \<open>One iteration of the window loop, for \<open>i = 6, 12, ..., 60\<close>.\<close>

definition mul_window :: "u64 list \<Rightarrow> u64 \<Rightarrow> nat \<Rightarrow> u64 \<times> u64 \<Rightarrow> u64 \<times> u64" where
  "mul_window u a0 i = (\<lambda>(l, h).
     let i2 = i + 3;
         g1 = select_entry u (LSB3 (drop_bit i a0));
         g2 = select_entry u (LSB3 (drop_bit i2 a0))
     in (l XOR (push_bit i g1 XOR push_bit i2 g2), h XOR (drop_bit (64 - i) g1 XOR drop_bit (64 - i2) g2)))"

definition mul_top_bit :: "u64 \<Rightarrow> u64 \<Rightarrow> nat \<Rightarrow> u64 \<times> u64 \<Rightarrow> u64 \<times> u64" where
  "mul_top_bit a0 b0 i = (\<lambda>(l, h).
     let mask = - (drop_bit i b0 AND 1)
     in (l XOR (push_bit i a0 AND mask), h XOR (drop_bit (64 - i) a0 AND mask)))"

definition gf2x_mul_base_port :: "u64 list \<Rightarrow> u64 list \<Rightarrow> u64 list \<Rightarrow> u64 list" where
  "gf2x_mul_base_port c a b =
     (let a0 = a ! 0;
          b0 = b ! 0;
          b0m = b0 AND mask 61;
          u = mul_table b0m;
          s = mul_first u a0;
          s = for_range 1 11 (\<lambda>k. mul_window u a0 (6 * k)) s;
          (l, h) = for_range 61 64 (mul_top_bit a0 b0) s
      in c[0 := l, 1 := h])"

definition gf2x_mul_base_sve :: "nat \<Rightarrow> u64 list \<Rightarrow> u64 list \<Rightarrow> u64 list \<Rightarrow> u64 list" where
  "gf2x_mul_base_sve vl c a b =
     (let pg = svwhilelt vl 0 2;
          va = svld1 pg a 0;
          vb = svld1 pg b 0;
          res0 = svpmullb_pair va vb;
          res2 = svpmullt_pair va vb;
          va_rev = svrev (svsel pg va (svdup vl 0));
          vb_rev = svrev (svsel pg vb (svdup vl 0));
          a_xor = sveor_z pg va va_rev;
          b_xor = sveor_z pg vb vb_rev;
          res1 = svpmullb_pair a_xor b_xor;
          mid = sveor_z pg res1 (sveor_z pg res0 res2);
          r0 = svst1 pg [0, 0] 0 res0 :: u64 list;
          r1 = svst1 pg [0, 0] 0 mid :: u64 list;
          r2 = svst1 pg [0, 0] 0 res2 :: u64 list
      in c[0 := r0 ! 0, 1 := r0 ! 1 XOR r1 ! 0, 2 := r2 ! 0 XOR r1 ! 1, 3 := r2 ! 1])"

subsection \<open>Karatsuba's recursion\<close>

definition karatzuba_add1_port :: "u64 list \<Rightarrow> u64 list \<Rightarrow> u64 list \<Rightarrow> u64 list \<Rightarrow> nat \<Rightarrow> u64 list \<times> u64 list" where
  "karatzuba_add1_port alah blbh a b qwords_len =
     for_range 0 qwords_len (\<lambda>i (alah, blbh).
       let va0 = a ! i; va1 = a ! (i + qwords_len); vb0 = b ! i; vb1 = b ! (i + qwords_len)
       in (alah[i := va0 XOR va1], blbh[i := vb0 XOR vb1])) (alah, blbh)"

definition karatzuba_add2_port :: "u64 list \<Rightarrow> u64 list \<Rightarrow> u64 list \<Rightarrow> nat \<Rightarrow> u64 list" where
  "karatzuba_add2_port z x y qwords_len = for_range 0 qwords_len (\<lambda>i z. z[i := x ! i XOR y ! i]) z"

definition karatzuba_add3_port :: "u64 list \<Rightarrow> u64 list \<Rightarrow> nat \<Rightarrow> u64 list" where
  "karatzuba_add3_port c mid qwords_len =
     for_range 0 qwords_len (\<lambda>i c.
       let vr0 = c ! i; vr1 = c ! (qwords_len + i); vr2 = c ! (2 * qwords_len + i); vr3 = c ! (3 * qwords_len + i);
           vt = mid ! i;
           c = c[qwords_len + i := vt XOR vr0 XOR vr1]
       in c[2 * qwords_len + i := vt XOR vr2 XOR vr3]) c"

text \<open>The test that ends the recursion, and the multiplication it calls.\<close>

definition mul_base_now :: "bike_build \<Rightarrow> nat \<Rightarrow> bool" where
  "mul_base_now B qwords_len = (case B of Portable \<Rightarrow> qwords_len \<le> 1 | Sve2 vl \<Rightarrow> qwords_len = 2)"

definition mul_base :: "bike_build \<Rightarrow> u64 list \<Rightarrow> u64 list \<Rightarrow> u64 list \<Rightarrow> u64 list" where
  "mul_base B = (case B of Portable \<Rightarrow> gf2x_mul_base_port | Sve2 vl \<Rightarrow> gf2x_mul_base_sve vl)"

text \<open>
  \<open>c\<close> is the array of \<open>2 * qwords_len_pad\<close> words that the call may write; the parts of \<open>sec_buf\<close> are written before
  they are read.  \<open>None\<close>: the recursion does not end.
\<close>

partial_function (option) karatzuba :: "bike_build \<Rightarrow> u64 list \<Rightarrow> u64 list \<Rightarrow> u64 list \<Rightarrow> nat \<Rightarrow> nat \<Rightarrow> u64 list option" where
  "karatzuba B c a b qwords_len qwords_len_pad =
     (if mul_base_now B qwords_len then Some (mul_base B c a b)
      else let half_qw_len = qwords_len_pad div 2 in
        do { c0 \<leftarrow> karatzuba B (take (2 * half_qw_len) c) (take half_qw_len a) (take half_qw_len b) half_qw_len half_qw_len;
             let c = memcpy c 0 c0;
             if half_qw_len < qwords_len
             then do {
               c2 \<leftarrow> karatzuba B (seg c (2 * half_qw_len) (2 * half_qw_len)) (drop half_qw_len a) (drop half_qw_len b)
                       (qwords_len - half_qw_len) half_qw_len;
               let c = memcpy c (2 * half_qw_len) c2;
               let (alah, blbh) = karatzuba_add1_port (replicate half_qw_len 0) (replicate half_qw_len 0) a b half_qw_len;
               let tmp = karatzuba_add2_port (replicate half_qw_len 0) (drop half_qw_len c) (drop (2 * half_qw_len) c) half_qw_len;
               c1 \<leftarrow> karatzuba B (seg c half_qw_len (2 * half_qw_len)) alah blbh half_qw_len half_qw_len;
               let c = memcpy c half_qw_len c1;
               Some (karatzuba_add3_port c tmp half_qw_len) }
             else Some c })"

end
