(* ===== verification/Bike_Gf2x_Correct.thy ===== *)
theory Bike_Gf2x_Correct
  imports Bike_Gf2x
begin

text \<open>
  Correctness of the multiplication of BIKE: the window algorithm, the base case of the SVE2 build, and
  \<open>karatzuba\<close>, each against the product without carries.
\<close>

subsection \<open>The window algorithm\<close>

lemma neg1_and [simp]: "x AND - 1 = (x :: u64)"
  by simp

lemma word_eq_of_nat: "k < 2 ^ 64 \<Longrightarrow> (x :: u64) = of_nat k \<longleftrightarrow> unat x = k"
  by (auto simp: unat_of_nat_small)

lemma select_upto:
  assumes "n \<le> 8"
  shows "for_range 0 n (\<lambda>j g. g XOR (f j AND secure_cmpeq64_mask x (of_nat j))) 0 = (if unat x < n then f (unat x) else 0)"
  using assms
proof (induction n)
  case (Suc n)
  then have "x = of_nat n \<longleftrightarrow> unat x = n" by (intro word_eq_of_nat) simp
  with Suc show ?case by (auto simp: for_range_Suc secure_cmpeq64_mask_eq less_Suc_eq)
qed simp

lemma select_entry_eq: "unat x < 8 \<Longrightarrow> select_entry u x = u ! unat x"
  unfolding select_entry_def by (simp add: select_upto)

lemma unat_LSB3: "unat (LSB3 x) = unat x mod 8"
proof -
  have 7: "(7 :: u64) = mask 3" by (simp add: mask_eq_exp_minus_1)
  show ?thesis unfolding LSB3_def 7 unat_and_mask by simp
qed

lemma LSB3_lt [simp]: "unat (LSB3 x) < 8"
  by (simp add: unat_LSB3)

lemma mul_first_eq:
  "mul_first u a0 = (u ! unat (LSB3 a0) XOR push_bit 3 (u ! unat (LSB3 (drop_bit 3 a0))),
     drop_bit 61 (u ! unat (LSB3 (drop_bit 3 a0))))"
proof -
  let ?x = "unat (LSB3 a0)" and ?y = "unat (LSB3 (drop_bit 3 a0))"
  have "for_range 0 n (\<lambda>i (l, h).
     let l = l XOR (u ! i AND secure_cmpeq64_mask (LSB3 a0) (of_nat i));
         l = l XOR (push_bit 3 (u ! i) AND secure_cmpeq64_mask (LSB3 (drop_bit 3 a0)) (of_nat i));
         h = h XOR (drop_bit 61 (u ! i) AND secure_cmpeq64_mask (LSB3 (drop_bit 3 a0)) (of_nat i))
     in (l, h)) (0, 0)
    = ((if ?x < n then u ! ?x else 0) XOR (if ?y < n then push_bit 3 (u ! ?y) else 0), if ?y < n then drop_bit 61 (u ! ?y) else 0)"
    if "n \<le> 8" for n
    using that
  proof (induction n)
    case (Suc n)
    then have "LSB3 a0 = of_nat n \<longleftrightarrow> ?x = n" "LSB3 (drop_bit 3 a0) = of_nat n \<longleftrightarrow> ?y = n"
      by (intro word_eq_of_nat; simp)+
    with Suc show ?case by (auto simp: for_range_Suc secure_cmpeq64_mask_eq less_Suc_eq xor_ac)
  qed simp
  from this [of 8] show ?thesis unfolding mul_first_def by simp
qed

lemma clmul_small:
  "clmul 2 b = push_bit 1 b" "clmul 3 b = push_bit 1 b XOR b" "clmul 4 b = push_bit 1 (push_bit 1 b)"
  "clmul 5 b = push_bit 1 (push_bit 1 b) XOR b" "clmul 6 b = push_bit 1 (push_bit 1 b XOR b)"
  "clmul 7 b = push_bit 1 (push_bit 1 b XOR b) XOR b"
  by (simp_all add: clmul_rec [of "numeral _"] xor_ac)

lemma unat_push_1: "unat w < 2 ^ 63 \<Longrightarrow> unat (push_bit 1 w :: u64) = push_bit 1 (unat w)"
  by (subst unat_push_bit) (simp add: push_bit_eq_mult)

lemma less_8_cases:
  assumes "k < (8 :: nat)"
  obtains "k = 0" | "k = 1" | "k = 2" | "k = 3" | "k = 4" | "k = 5" | "k = 6" | "k = 7"
  using assms by linarith

lemma length_mul_table: "length (mul_table b) = 8"
  by (simp add: mul_table_def Let_def)

lemma mul_table_nth:
  assumes b: "unat b < 2 ^ 61" and k: "k < 8"
  shows "unat (mul_table b ! k) = clmul k (unat b)"
proof -
  let ?b = "unat b"
  have p: "push_bit 1 ?b < 2 ^ 62" using push_bit_lt [OF b, of 1] by simp
  have "push_bit 1 ?b XOR ?b < 2 ^ 62" by (rule xor_lt [OF p pow2_mono [OF b]]) simp
  note lt = p this
  have lt63: "push_bit 1 ?b < 2 ^ 63" "push_bit 1 ?b XOR ?b < 2 ^ 63"
    by (rule pow2_mono [OF lt(1)], simp, rule pow2_mono [OF lt(2)], simp)
  have 2: "unat (push_bit 1 b) = push_bit 1 ?b" by (rule unat_push_1) (use b in simp)
  have 4: "unat (push_bit 1 (push_bit 1 b)) = push_bit 1 (push_bit 1 ?b)"
    using lt63(1) by (subst unat_push_1) (simp_all only: 2)
  have 6: "unat (push_bit 1 (push_bit 1 b XOR b)) = push_bit 1 (push_bit 1 ?b XOR ?b)"
    using lt63(2) by (subst unat_push_1) (simp_all only: 2 unat_xor)
  have m: "map unat (mul_table b) = map (\<lambda>k. clmul k ?b) [0, 1, 2, 3, 4, 5, 6, 7]"
    unfolding mul_table_def Let_def list.map unat_xor 2 4 6 by (simp only: unat_0 clmul_0 clmul_1 clmul_small)
  have "unat (mul_table b ! k) = map unat (mul_table b) ! k"
    using k length_mul_table by (subst nth_map) (simp_all only:)
  also have "\<dots> = clmul ([0, 1, 2, 3, 4, 5, 6, 7] ! k) ?b" unfolding m using k by (subst nth_map) simp_all
  also have "[0, 1, 2, 3, 4, 5, 6, 7] ! k = k" using k by (cases rule: less_8_cases) simp_all
  finally show ?thesis .
qed

text \<open>The value of the pair of result words.\<close>

definition pair_val :: "u64 \<times> u64 \<Rightarrow> nat" where
  "pair_val p = unat (fst p) XOR push_bit 64 (unat (snd p))"

lemma pair_val_xor: "pair_val (l XOR l', h XOR h') = pair_val (l, h) XOR pair_val (l', h')"
  by (simp add: pair_val_def unat_xor xor_ac)

lemma take_bit_extend: "take_bit (n + m) a = take_bit n a XOR push_bit n (take_bit m (drop_bit n (a :: nat)))"
  by (rule bit_eqI) (auto simp: bit_simps)

lemma clmul_extend:
  "clmul (take_bit (n + m) a) b = clmul (take_bit n a) b XOR push_bit n (clmul (take_bit m (drop_bit n a)) b)"
  by (simp only: take_bit_extend clmul_xor_left clmul_push_left)

lemma LSB3_window: "unat (LSB3 (drop_bit i x)) = take_bit 3 (drop_bit i (unat x))"
  unfolding unat_LSB3 unat_drop_bit by (simp add: take_bit_eq_mod drop_bit_eq_div)

lemma mul_table_window:
  assumes "unat b < 2 ^ 61"
  shows "unat (mul_table b ! unat (LSB3 (drop_bit i x))) = clmul (take_bit 3 (drop_bit i (unat x))) (unat b)"
  using mul_table_nth [OF assms LSB3_lt [of "drop_bit i x"]] unfolding LSB3_window .

lemma mul_first_val:
  assumes b: "unat b < 2 ^ 61"
  shows "pair_val (mul_first (mul_table b) a) = clmul (take_bit 6 (unat a)) (unat b)"
proof -
  let ?g = "mul_table b ! unat (LSB3 (drop_bit 3 a))"
  have "pair_val (mul_first (mul_table b) a)
      = unat (mul_table b ! unat (LSB3 (drop_bit 0 a))) XOR (unat (push_bit 3 ?g) XOR push_bit 64 (unat (drop_bit (64 - 3) ?g)))"
    by (simp add: mul_first_eq pair_val_def unat_xor xor_ac)
  also have "\<dots> = clmul (take_bit 3 (unat a)) (unat b) XOR push_bit 3 (clmul (take_bit 3 (drop_bit 3 (unat a))) (unat b))"
    by (subst split_shift) (simp_all only: mul_table_window [OF b], simp_all)
  also have "\<dots> = clmul (take_bit (3 + 3) (unat a)) (unat b)" by (simp only: clmul_extend)
  finally show ?thesis by simp
qed

lemma mul_window_val:
  assumes b: "unat b < 2 ^ 61" and i: "0 < i" "i + 3 \<le> 64"
    and v: "pair_val s = clmul (take_bit i (unat a)) (unat b)"
  shows "pair_val (mul_window (mul_table b) a i s) = clmul (take_bit (i + 6) (unat a)) (unat b)"
proof -
  let ?g = "\<lambda>i. mul_table b ! unat (LSB3 (drop_bit i a))"
  obtain l h where s: "s = (l, h)" by (cases s)
  have w: "pair_val (push_bit j (?g j), drop_bit (64 - j) (?g j)) = push_bit j (clmul (take_bit 3 (drop_bit j (unat a))) (unat b))"
    if "0 < j" "j \<le> 64" for j
    unfolding pair_val_def fst_conv snd_conv split_shift [OF that] mul_table_window [OF b] by (rule refl)
  have "pair_val (mul_window (mul_table b) a i s)
      = pair_val s XOR (pair_val (push_bit i (?g i), drop_bit (64 - i) (?g i))
          XOR pair_val (push_bit (i + 3) (?g (i + 3)), drop_bit (64 - (i + 3)) (?g (i + 3))))"
    by (simp only: s mul_window_def prod.case Let_def select_entry_eq LSB3_lt pair_val_xor)
  also have "\<dots> = clmul (take_bit (i + 3) (unat a)) (unat b)
      XOR push_bit (i + 3) (clmul (take_bit 3 (drop_bit (i + 3) (unat a))) (unat b))"
    using i by (subst w, simp, simp, subst w, simp, simp) (simp only: v clmul_extend [of i 3] xor.assoc)
  also have "\<dots> = clmul (take_bit (i + 3 + 3) (unat a)) (unat b)" by (simp only: clmul_extend)
  finally show ?thesis by (simp add: add.assoc)
qed

lemma mul_top_bit_val:
  assumes i: "0 < i" "i < 64" and v: "pair_val s = clmul (unat a) (take_bit i (unat b))"
  shows "pair_val (mul_top_bit a b i s) = clmul (unat a) (take_bit (Suc i) (unat b))"
proof -
  obtain l h where s: "s = (l, h)" by (cases s)
  have m: "- (drop_bit i b AND 1) = (if bit b i then - 1 else 0 :: u64)"
    by (simp add: bit_iff_odd_drop_bit one_and_eq and_one_eq odd_iff_mod_2_eq_one)
  have "pair_val (mul_top_bit a b i s)
      = pair_val s XOR (if bit b i then pair_val (push_bit i a, drop_bit (64 - i) a) else 0)"
    by (simp add: s mul_top_bit_def m pair_val_xor pair_val_def unat_xor xor_ac)
  also have "\<dots> = clmul (unat a) (take_bit i (unat b)) XOR (if bit b i then push_bit i (unat a) else 0)"
  proof -
    have "pair_val (push_bit i a, drop_bit (64 - i) a) = push_bit i (unat a)"
      using i by (simp only: pair_val_def fst_conv snd_conv split_shift less_imp_le)
    then show ?thesis by (simp only: v)
  qed
  also have "(if bit b i then push_bit i (unat a) else 0) = clmul (unat a) (push_bit i (take_bit 1 (drop_bit i (unat b))))"
  proof -
    have "odd (drop_bit i (unat b)) \<longleftrightarrow> bit b i" using i by (simp add: bit_unsigned_iff flip: bit_iff_odd_drop_bit)
    then have t: "take_bit 1 (drop_bit i (unat b)) = (if bit b i then 1 else 0)"
      by (cases "bit b i") (simp_all add: take_bit_eq_mod odd_iff_mod_2_eq_one)
    show ?thesis unfolding clmul_push_right t by simp
  qed
  also have "clmul (unat a) (take_bit i (unat b)) XOR \<dots> = clmul (unat a) (take_bit (i + 1) (unat b))"
    by (simp only: take_bit_extend clmul_xor_right)
  finally show ?thesis by simp
qed

text \<open>The base multiplication, on the first word of each factor.\<close>

theorem gf2x_mul_base_port_correct:
  assumes "2 \<le> length c"
  shows "qval (take 2 (gf2x_mul_base_port c a b)) = clmul (unat (a ! 0)) (unat (b ! 0))"
    and "drop 2 (gf2x_mul_base_port c a b) = drop 2 c" and "length (gf2x_mul_base_port c a b) = length c"
proof -
  let ?a = "a ! 0" and ?b = "b ! 0"
  define bm u where "bm = ?b AND mask 61" and "u = mul_table bm"
  have bm: "unat bm = take_bit 61 (unat ?b)" by (simp add: bm_def unat_and_mask take_bit_eq_mod)
  have lt: "unat bm < 2 ^ 61" unfolding bm by (rule take_bit_nat_less_exp)
  have "pair_val (for_range 1 11 (\<lambda>k. mul_window u ?a (6 * k)) (mul_first u ?a)) = clmul (take_bit (6 * 11) (unat ?a)) (unat bm)"
  proof (rule for_range_inv [where P = "\<lambda>k s. pair_val s = clmul (take_bit (6 * k) (unat ?a)) (unat bm)"])
    show "pair_val (mul_first u ?a) = clmul (take_bit (6 * 1) (unat ?a)) (unat bm)"
      unfolding u_def by (simp add: mul_first_val [OF lt])
  next
    fix k s assume k: "1 \<le> k" "k < (11 :: nat)" and s: "pair_val s = clmul (take_bit (6 * k) (unat ?a)) (unat bm)"
    have "pair_val (mul_window u ?a (6 * k) s) = clmul (take_bit (6 * k + 6) (unat ?a)) (unat bm)"
      unfolding u_def by (rule mul_window_val [OF lt _ _ s]) (use k in simp_all)
    then show "pair_val (mul_window u ?a (6 * k) s) = clmul (take_bit (6 * Suc k) (unat ?a)) (unat bm)" by (simp add: add.commute)
  qed simp
  moreover have "take_bit (6 * 11) (unat ?a) = unat ?a"
    by (rule take_bit_nat_eq_self) (rule pow2_mono [of _ 64], simp_all)
  ultimately have first: "pair_val (for_range 1 11 (\<lambda>k. mul_window u ?a (6 * k)) (mul_first u ?a)) = clmul (unat ?a) (take_bit 61 (unat ?b))"
    by (simp add: bm)
  define s where "s = for_range 61 64 (mul_top_bit ?a ?b) (for_range 1 11 (\<lambda>k. mul_window u ?a (6 * k)) (mul_first u ?a))"
  have "pair_val s = clmul (unat ?a) (take_bit 64 (unat ?b))"
    unfolding s_def
  proof (rule for_range_inv [where P = "\<lambda>i s. pair_val s = clmul (unat ?a) (take_bit i (unat ?b))"])
    show "pair_val (for_range 1 11 (\<lambda>k. mul_window u ?a (6 * k)) (mul_first u ?a)) = clmul (unat ?a) (take_bit 61 (unat ?b))"
      by (rule first)
  qed (simp_all add: mul_top_bit_val)
  moreover have "take_bit 64 (unat ?b) = unat ?b" by (rule take_bit_nat_eq_self) simp
  ultimately have val: "pair_val s = clmul (unat ?a) (unat ?b)" by simp
  have r: "gf2x_mul_base_port c a b = c[0 := fst s, 1 := snd s]"
    unfolding gf2x_mul_base_port_def Let_def s_def u_def bm_def by (simp add: case_prod_unfold)
  obtain c0 c1 cs where c: "c = c0 # c1 # cs" using assms by (cases c; cases "tl c") auto
  show "qval (take 2 (gf2x_mul_base_port c a b)) = clmul (unat ?a) (unat ?b)"
    using val unfolding r unfolding c by (simp add: pair_val_def)
  show "drop 2 (gf2x_mul_base_port c a b) = drop 2 c" "length (gf2x_mul_base_port c a b) = length c"
    unfolding r unfolding c by simp_all
qed

subsection \<open>The base case of the SVE2 build\<close>

lemma upt_2: "[0..<2] = [0, 1]" "[0..<Suc (Suc 0)] = [0, 1]"
  by (simp_all add: upt_rec)

lemma two_lanes:
  "svwhilelt 2 0 2 = [True, True]" "svld1 [True, True] m 0 = [m ! 0, m ! 1 :: u64]" "svrev [x, y] = [y, x]"
  "svpmullb_pair [x, y] [x', y'] = [fst (pmull64 x x'), snd (pmull64 x x')]"
  "svpmullt_pair [x, y] [x', y'] = [fst (pmull64 y y'), snd (pmull64 y y')]"
  "svsel [True, True] [x, y] z = [x, y]" "sveor_z [True, True] [x, y] [x', y'] = [x XOR x', y XOR y']"
  "svst1 [True, True] [0, 0] 0 [x, y] = [x, y :: u64]"
  by (simp_all add: svwhilelt_def svld1_def svrev_def svpmullb_pair_def svpmullt_pair_def svsel_def sveor_z_def svst1_def
      upt_2 for_range_def case_prod_unfold Let_def)

text \<open>On two lanes it is Karatsuba's formula for two words.\<close>

theorem gf2x_mul_base_sve_correct:
  assumes "4 \<le> length c"
  shows "qval (take 4 (gf2x_mul_base_sve 2 c a b)) = clmul (qval [a ! 0, a ! 1]) (qval [b ! 0, b ! 1])"
    and "drop 4 (gf2x_mul_base_sve 2 c a b) = drop 4 c" and "length (gf2x_mul_base_sve 2 c a b) = length c"
proof -
  obtain l0 h0 where p0: "pmull64 (a ! 0) (b ! 0) = (l0, h0)" by fastforce
  obtain l2 h2 where p2: "pmull64 (a ! 1) (b ! 1) = (l2, h2)" by fastforce
  obtain l1 h1 where p1: "pmull64 (a ! 0 XOR a ! 1) (b ! 0 XOR b ! 1) = (l1, h1)" by fastforce
  have r: "gf2x_mul_base_sve 2 c a b = c[0 := l0, 1 := h0 XOR (l1 XOR (l0 XOR l2)), 2 := l2 XOR (h1 XOR (h0 XOR h2)), 3 := h2]"
    unfolding gf2x_mul_base_sve_def Let_def two_lanes p0 p1 p2 fst_conv snd_conv xor.commute [of "a ! 1"] xor.commute [of "b ! 1"]
    by (simp add: xor_ac)
  obtain c0 c1 c2 c3 cs where c: "c = c0 # c1 # c2 # c3 # cs"
    using assms by (cases c; cases "tl c"; cases "tl (tl c)"; cases "tl (tl (tl c))") auto
  note v = pmull64_correct [OF p0] pmull64_correct [OF p1] pmull64_correct [OF p2]
  show "qval (take 4 (gf2x_mul_base_sve 2 c a b)) = clmul (qval [a ! 0, a ! 1]) (qval [b ! 0, b ! 1])"
  proof -
    let ?A0 = "unat (a ! 0)" and ?A1 = "unat (a ! 1)" and ?B0 = "unat (b ! 0)" and ?B1 = "unat (b ! 1)"
    have "clmul (qval [a ! 0, a ! 1]) (qval [b ! 0, b ! 1])
        = clmul ?A0 ?B0 XOR push_bit 64 (clmul (?A0 XOR ?A1) (?B0 XOR ?B1) XOR (clmul ?A0 ?B0 XOR clmul ?A1 ?B1)) XOR push_bit 128 (clmul ?A1 ?B1)"
      by (simp add: clmul_xor_left clmul_xor_right clmul_push_left clmul_push_right push_bit_push_bit xor_ac)
    also have "\<dots> = qval [l0, h0 XOR (l1 XOR (l0 XOR l2)), l2 XOR (h1 XOR (h0 XOR h2)), h2]"
      unfolding v [unfolded unat_xor, symmetric] by (simp add: unat_xor push_bit_push_bit xor_ac)
    also have "\<dots> = qval (take 4 (gf2x_mul_base_sve 2 c a b))" unfolding r unfolding c by simp
    finally show ?thesis by simp
  qed
  show "drop 4 (gf2x_mul_base_sve 2 c a b) = drop 4 c" "length (gf2x_mul_base_sve 2 c a b) = length c"
    unfolding r unfolding c by simp_all
qed

text \<open>On longer vectors the reversal brings zeros into the first two lanes, and the mixed products are lost.\<close>

theorem gf2x_mul_base_sve_wide:
  assumes "4 \<le> vl" and "4 \<le> length c"
  shows "qval (take 4 (gf2x_mul_base_sve vl c a b))
    = clmul (unat (a ! 0)) (unat (b ! 0)) XOR push_bit 64 (clmul (unat (a ! 1)) (unat (b ! 1)))
      XOR push_bit 128 (clmul (unat (a ! 1)) (unat (b ! 1)))"
proof -
  obtain l0 h0 where p0: "pmull64 (a ! 0) (b ! 0) = (l0, h0)" by fastforce
  obtain l2 h2 where p2: "pmull64 (a ! 1) (b ! 1) = (l2, h2)" by fastforce
  let ?pg = "svwhilelt vl 0 2"
  have pg: "k < vl \<Longrightarrow> ?pg ! k \<longleftrightarrow> k < 2" for k by simp
  have st: "svst1 ?pg [0, 0] 0 v = [v ! 0, v ! 1 :: u64]" for v :: "u64 list"
    by (rule nth_equalityI) (use assms(1) in \<open>auto simp: nth_svst1 less_Suc_eq numeral_2_eq_2\<close>)
  define va where "va m = (svld1 ?pg m 0 :: u64 list)" for m :: "u64 list"
  have va: "va m ! 0 = m ! 0" "va m ! 1 = m ! 1" "length (va m) = vl" for m using assms(1) by (simp_all add: va_def)
  have rv: "svrev (svsel ?pg (va m) (svdup vl 0)) ! 0 = 0" "svrev (svsel ?pg (va m) (svdup vl 0)) ! 1 = 0" for m
    using assms(1) by (auto simp: svrev_def svsel_def rev_nth)
  define xo where "xo m = sveor_z ?pg (va m) (svrev (svsel ?pg (va m) (svdup vl 0)))" for m
  have xo: "xo m ! 0 = m ! 0" "length (xo m) = vl" for m
    using assms(1) rv [of m] va [of m] by (simp_all add: xo_def sveor_z_def)
  have bot: "svpmullb_pair x y ! 0 = fst (pmull64 (x ! 0) (y ! 0))" "svpmullb_pair x y ! 1 = snd (pmull64 (x ! 0) (y ! 0))"
    "svpmullt_pair x y ! 0 = fst (pmull64 (x ! 1) (y ! 1))" "svpmullt_pair x y ! 1 = snd (pmull64 (x ! 1) (y ! 1))"
    if "length x = vl" for x y
    using that assms(1) by (simp_all add: svpmullb_pair_def svpmullt_pair_def case_prod_unfold Let_def)
  have z: "sveor_z ?pg x y ! 0 = x ! 0 XOR y ! 0" "sveor_z ?pg x y ! 1 = x ! 1 XOR y ! 1" for x y
    using assms(1) by (simp_all add: sveor_z_def)
  have r: "gf2x_mul_base_sve vl c a b = c[0 := l0, 1 := h0 XOR l2, 2 := l2 XOR h2, 3 := h2]"
    unfolding gf2x_mul_base_sve_def Let_def st va_def [symmetric] xo_def [symmetric] z
    by (simp add: bot va xo p0 p2 flip: One_nat_def)
  obtain c0 c1 c2 c3 cs where c: "c = c0 # c1 # c2 # c3 # cs"
    using assms(2) by (cases c; cases "tl c"; cases "tl (tl c)"; cases "tl (tl (tl c))") auto
  show ?thesis
    unfolding pmull64_correct [OF p0, symmetric] pmull64_correct [OF p2, symmetric] r unfolding c
    by (simp add: unat_xor push_bit_push_bit xor_ac)
qed

subsection \<open>Karatsuba's recursion\<close>

lemma add1_correct:
  assumes "length a = 2 * n" and "length b = 2 * n"
  shows "karatzuba_add1_port (replicate n 0) (replicate n 0) a b n
    = (map2 (XOR) (take n a) (drop n a), map2 (XOR) (take n b) (drop n b))"
proof -
  have "karatzuba_add1_port x y a b m = (for_range 0 m (\<lambda>i x. x[i := a ! i XOR a ! (i + n)]) x,
      for_range 0 m (\<lambda>i y. y[i := b ! i XOR b ! (i + n)]) y)" if "m = n" for x y m
    unfolding karatzuba_add1_port_def that by (rule for_range_inv [where P = "\<lambda>m s. s = (for_range 0 m (\<lambda>i x. x[i := a ! i XOR a ! (i + n)]) x,
      for_range 0 m (\<lambda>i y. y[i := b ! i XOR b ! (i + n)]) y)"]) (simp_all add: for_range_Suc Let_def)
  moreover have "for_range 0 n (\<lambda>i x. x[i := a ! i XOR a ! (i + n)]) (replicate n 0) = map2 (XOR) (take n a) (drop n a)"
    if "length a = 2 * n" for a :: "u64 list"
    using for_range_update [of n "replicate n 0" "\<lambda>i _. a ! i XOR a ! (i + n)"] that
    by (auto intro!: nth_equalityI simp: add.commute)
  ultimately show ?thesis using assms by simp
qed

lemma add2_correct:
  assumes "n \<le> length x" and "n \<le> length y"
  shows "karatzuba_add2_port (replicate n 0) x y n = map2 (XOR) (take n x) (take n y)"
  unfolding karatzuba_add2_port_def
  using for_range_update [of n "replicate n 0" "\<lambda>i _. x ! i XOR y ! i"] assms
  by (auto intro!: nth_equalityI)

lemma add3_correct:
  assumes "length A = n" and "length B = n" and "length C = n" and "length D = n" and "length M = n"
  shows "karatzuba_add3_port (A @ B @ C @ D) M n
    = A @ map2 (XOR) M (map2 (XOR) A B) @ map2 (XOR) M (map2 (XOR) C D) @ D"
proof -
  let ?c = "A @ B @ C @ D"
  let ?P = "\<lambda>k c. length c = 4 * n \<and> (\<forall>j<4 * n. c ! j =
      (if n \<le> j \<and> j < n + k then M ! (j - n) XOR (A ! (j - n) XOR B ! (j - n))
       else if 2 * n \<le> j \<and> j < 2 * n + k then M ! (j - 2 * n) XOR (C ! (j - 2 * n) XOR D ! (j - 2 * n)) else ?c ! j))"
  have P: "?P n (karatzuba_add3_port ?c M n)"
    unfolding karatzuba_add3_port_def Let_def
  proof (rule for_range_inv [where P = ?P])
    fix i c assume i: "i < n" and c: "?P i c"
    then have "c ! i = A ! i" "c ! (n + i) = B ! i" "c ! (2 * n + i) = C ! i" "c ! (3 * n + i) = D ! i"
      using assms by (auto simp: nth_append)
    with i c show "?P (Suc i) (c[n + i := M ! i XOR c ! i XOR c ! (n + i), 2 * n + i := M ! i XOR c ! (2 * n + i) XOR c ! (3 * n + i)])"
      by (auto simp: nth_list_update less_Suc_eq xor.assoc)
  qed (use assms in \<open>auto simp: nth_append\<close>)
  show ?thesis
    by (rule nth_equalityI) (use P assms in \<open>auto simp: nth_append not_less mult_2\<close>)
qed

text \<open>The words from \<open>n\<close> on are zero.\<close>

definition zero_from :: "nat \<Rightarrow> u64 list \<Rightarrow> bool" where
  "zero_from n xs \<longleftrightarrow> set (drop n xs) \<subseteq> {0}"

lemma qval_zero: "set xs \<subseteq> {0} \<Longrightarrow> qval xs = 0"
  by (induction xs) auto

lemma zero_from_mono: "zero_from n xs \<Longrightarrow> n \<le> m \<Longrightarrow> zero_from m xs"
  using set_drop_subset_set_drop [of n m xs] by (auto simp: zero_from_def)

lemma qval_zero_from: "zero_from n xs \<Longrightarrow> qval (drop n xs) = 0"
  by (simp add: zero_from_def qval_zero)

lemma qval_take_zero: "zero_from n xs \<Longrightarrow> n \<le> length xs \<Longrightarrow> qval (take n xs) = qval xs"
  by (simp add: qval_split [of n xs] qval_zero_from)

lemma zero_from_drop: "zero_from (n + m) xs \<Longrightarrow> zero_from n (drop m xs)"
  by (simp add: zero_from_def add.commute)

lemma zero_from_full: "length xs \<le> n \<Longrightarrow> zero_from n xs"
  by (simp add: zero_from_def)

text \<open>The lengths on which the recursion ends in a base case.\<close>

definition kz_len :: "bike_build \<Rightarrow> nat \<Rightarrow> nat \<Rightarrow> bool" where
  "kz_len B n k = (case B of Portable \<Rightarrow> True | Sve2 vl \<Rightarrow> vl = 2 \<and> (n = 2 \<and> 1 \<le> k \<or> n mod 4 \<noteq> 3 \<and> 2 \<le> k))"

lemma mul_base_correct:
  assumes n: "mul_base_now B n" "0 < n" "n \<le> length a" and ok: "kz_len B n k"
    and len: "length a = 2 ^ k" "length b = 2 ^ k" "length c = 2 * 2 ^ k"
    and z: "zero_from n a" "zero_from n b" "zero_from (2 * n) c"
  shows "length (mul_base B c a b) = length c" and "qval (mul_base B c a b) = clmul (qval a) (qval b)"
proof -
  have "length (mul_base B c a b) = length c \<and> qval (take (2 * n) (mul_base B c a b)) = clmul (qval (take n a)) (qval (take n b))
    \<and> drop (2 * n) (mul_base B c a b) = drop (2 * n) c"
  proof (cases B)
    case Portable
    then have "n = 1" using n by (simp add: mul_base_now_def)
    moreover have "take 1 a = [a ! 0]" "take 1 b = [b ! 0]" using len by (simp_all add: take_Suc_conv_app_nth)
    moreover have "2 \<le> length c" using len by simp
    ultimately show ?thesis using gf2x_mul_base_port_correct [of c a b] Portable by (simp add: mul_base_def)
  next
    case (Sve2 vl)
    then have n2: "n = 2" "vl = 2" and k: "1 \<le> k" using n(1) ok by (auto simp: mul_base_now_def kz_len_def)
    have "2 \<le> (2 :: nat) ^ k" using k power_increasing [of 1 k "2 :: nat"] by simp
    then have "take 2 a = [a ! 0, a ! 1]" "take 2 b = [b ! 0, b ! 1]" "4 \<le> length c"
      using len by (auto simp: numeral_2_eq_2 take_Suc_conv_app_nth)
    then show ?thesis using gf2x_mul_base_sve_correct [of c a b] Sve2 n2 by (simp add: mul_base_def)
  qed
  moreover have "zero_from (2 * n) (mul_base B c a b)" using calculation z(3) by (simp add: zero_from_def)
  ultimately show "length (mul_base B c a b) = length c" "qval (mul_base B c a b) = clmul (qval a) (qval b)"
    using qval_take_zero [of "2 * n" "mul_base B c a b"] qval_take_zero [OF z(1)] qval_take_zero [OF z(2)] n len by simp_all
qed

text \<open>Putting the three products together.\<close>

lemma karatzuba_combine:
  fixes A0 A1 B0 B1 :: nat
  assumes P0: "A XOR push_bit h B = clmul A0 B0" and P2: "C XOR push_bit h D = clmul A1 B1"
    and P1: "E XOR push_bit h F = clmul (A0 XOR A1) (B0 XOR B1)"
  shows "A XOR push_bit h (B XOR C XOR (A XOR E)) XOR push_bit (2 * h) (B XOR C XOR (F XOR D)) XOR push_bit (3 * h) D
    = clmul (A0 XOR push_bit h A1) (B0 XOR push_bit h B1)"
proof -
  have "clmul (A0 XOR push_bit h A1) (B0 XOR push_bit h B1)
      = clmul A0 B0 XOR push_bit h (clmul (A0 XOR A1) (B0 XOR B1) XOR (clmul A0 B0 XOR clmul A1 B1)) XOR push_bit (2 * h) (clmul A1 B1)"
    by (simp add: clmul_xor_left clmul_xor_right clmul_push_left clmul_push_right push_bit_push_bit mult_2 xor_ac)
  then show ?thesis
    unfolding P0 [symmetric] P1 [symmetric] P2 [symmetric]
    by (simp add: push_bit_push_bit mult_2 numeral_3_eq_3 xor_ac add.assoc)
qed

lemma kz_len_half:
  assumes "kz_len B n (Suc k)" and "\<not> mul_base_now B n" and "0 < n" and "n \<le> 2 ^ Suc k"
  shows "kz_len B (2 ^ k) k" and "2 ^ k < n \<Longrightarrow> kz_len B (n - 2 ^ k) k"
proof -
  have "kz_len B (2 ^ k) k \<and> (2 ^ k < n \<longrightarrow> kz_len B (n - 2 ^ k) k)"
  proof (cases B)
    case Portable
    then show ?thesis by (simp add: kz_len_def)
  next
    case (Sve2 vl)
    then have n: "n \<noteq> 2" "n mod 4 \<noteq> 3" "1 \<le> k" "vl = 2" using assms(1,2) by (auto simp: kz_len_def mul_base_now_def)
    show ?thesis
    proof (cases "k = 1")
      case True
      then have "2 < n \<Longrightarrow> n = 4" using n(2) assms(4) by simp presburger
      then show ?thesis using n True Sve2 by (auto simp: kz_len_def)
    next
      case False
      then obtain j where k: "k = j + 2" using n(3) by (metis Suc_1 add.commute le_Suc_ex le_antisym not_less_eq_eq)
      have "(n - 2 ^ k) mod 4 = n mod 4" if "2 ^ k < n"
      proof -
        have "n = (n - 2 ^ k) + 4 * 2 ^ j" using that by (simp add: k)
        then show "(n - 2 ^ k) mod 4 = n mod 4" by (metis mod_mult_self2)
      qed
      moreover have "(2 :: nat) ^ k mod 4 = 0" by (simp add: k)
      ultimately show ?thesis using n Sve2 k by (auto simp: kz_len_def)
    qed
  qed
  then show "kz_len B (2 ^ k) k" "2 ^ k < n \<Longrightarrow> kz_len B (n - 2 ^ k) k" by simp_all
qed

text \<open>One level of the recursion.\<close>

lemma karatzuba_base: "mul_base_now B n \<Longrightarrow> karatzuba B c a b n pad = Some (mul_base B c a b)"
  by (subst karatzuba.simps) simp

lemma karatzuba_low:
  assumes "\<not> mul_base_now B n" and "\<not> h < n" and "karatzuba B (take (2 * h) c) (take h a) (take h b) h h = Some c0"
  shows "karatzuba B c a b n (2 * h) = Some (memcpy c 0 c0)"
  by (subst karatzuba.simps) (simp add: assms)

lemma karatzuba_high:
  assumes "\<not> mul_base_now B n" and "h < n"
    and "karatzuba B (take (2 * h) c) (take h a) (take h b) h h = Some c0"
    and "karatzuba B (seg (memcpy c 0 c0) (2 * h) (2 * h)) (drop h a) (drop h b) (n - h) h = Some c2"
    and "memcpy (memcpy c 0 c0) (2 * h) c2 = d"
    and "karatzuba_add1_port (replicate h 0) (replicate h 0) a b h = (u, v)"
    and "karatzuba_add2_port (replicate h 0) (drop h d) (drop (2 * h) d) h = m"
    and "karatzuba B (seg d h (2 * h)) u v h h = Some c1"
  shows "karatzuba B c a b n (2 * h) = Some (karatzuba_add3_port (memcpy d h c1) m h)"
  by (subst karatzuba.simps) (simp add: assms)

theorem karatzuba_correct:
  assumes "length a = 2 ^ k" and "length b = 2 ^ k" and "length c = 2 * 2 ^ k" and "0 < n" and "n \<le> 2 ^ k"
    and "kz_len B n k" and "zero_from n a" and "zero_from n b" and "zero_from (2 * n) c"
  shows "\<exists>c'. karatzuba B c a b n (2 ^ k) = Some c' \<and> length c' = 2 * 2 ^ k \<and> qval c' = clmul (qval a) (qval b)"
  using assms
proof (induction k arbitrary: a b c n)
  case 0
  then have "mul_base_now B n" by (auto simp: kz_len_def mul_base_now_def split: bike_build.splits)
  note base = mul_base_correct [OF this 0(4) _ 0(6) _ _ _ 0(7,8,9)]
  show ?case using base 0(1-5) by (simp only: karatzuba_base [OF \<open>mul_base_now B n\<close>]) simp
next
  case (Suc k)
  let ?h = "2 ^ k :: nat" and ?H = "64 * 2 ^ k :: nat"
  show ?case
  proof (cases "mul_base_now B n")
    case True
    show ?thesis
      using mul_base_correct [OF True Suc.prems(4) _ Suc.prems(6) _ _ _ Suc.prems(7,8,9)] Suc.prems(1-5)
      by (simp only: karatzuba_base [OF True]) simp
  next
    case False
    note kz = kz_len_half [OF Suc.prems(6) False Suc.prems(4,5)]
    note la = Suc.prems(1) and lb = Suc.prems(2) and lc = Suc.prems(3)
    have qa: "qval a = qval (take ?h a) XOR push_bit ?H (qval (drop ?h a))" and qb: "qval b = qval (take ?h b) XOR push_bit ?H (qval (drop ?h b))"
      using qval_split [of ?h a] qval_split [of ?h b] la lb by simp_all
    obtain c0 where c0: "karatzuba B (take (2 * ?h) c) (take ?h a) (take ?h b) ?h ?h = Some c0" "length c0 = 2 * ?h"
      "qval c0 = clmul (qval (take ?h a)) (qval (take ?h b))"
    proof -
      have "\<exists>c'. karatzuba B (take (2 * ?h) c) (take ?h a) (take ?h b) ?h ?h = Some c' \<and> length c' = 2 * ?h
          \<and> qval c' = clmul (qval (take ?h a)) (qval (take ?h b))"
        by (rule Suc.IH [OF _ _ _ _ _ kz(1)]) (use la lb lc in \<open>simp_all add: zero_from_full\<close>)
      then show ?thesis using that by blast
    qed
    have m0: "memcpy c 0 c0 = c0 @ drop (2 * ?h) c" using c0(2) by (simp add: memcpy_def)
    show ?thesis
    proof (cases "?h < n")
      case False
      have "karatzuba B c a b n (2 ^ Suc k) = Some (memcpy c 0 c0)"
        unfolding power_Suc by (rule karatzuba_low [OF \<open>\<not> mul_base_now B n\<close> False c0(1)])
      moreover have "qval (drop ?h a) = 0" "qval (drop (2 * ?h) c) = 0"
        using False by (simp_all add: qval_zero_from [OF zero_from_mono [OF Suc.prems(7)]] qval_zero_from [OF zero_from_mono [OF Suc.prems(9)]])
      moreover have "qval (drop ?h b) = 0" 
        using False by (simp add: qval_zero_from [OF zero_from_mono [OF Suc.prems(8)]])
      ultimately show ?thesis using c0 m0 lc by (simp add: qval_append qa qb)
    next
      case True
      define u v where "u = map2 (XOR) (take ?h a) (drop ?h a)" and "v = map2 (XOR) (take ?h b) (drop ?h b)"
      have uv: "length u = ?h" "length v = ?h" "qval u = qval (take ?h a) XOR qval (drop ?h a)" "qval v = qval (take ?h b) XOR qval (drop ?h b)"
        using la lb by (simp_all add: u_def v_def qval_xor)
      have sc: "seg (c0 @ drop (2 * ?h) c) (2 * ?h) (2 * ?h) = drop (2 * ?h) c" using c0(2) lc by (simp add: seg_def)
      obtain c2 where c2: "karatzuba B (drop (2 * ?h) c) (drop ?h a) (drop ?h b) (n - ?h) ?h = Some c2" "length c2 = 2 * ?h"
        "qval c2 = clmul (qval (drop ?h a)) (qval (drop ?h b))"
      proof -
        have "zero_from (n - ?h) (drop ?h a)" "zero_from (n - ?h) (drop ?h b)" "zero_from (2 * (n - ?h)) (drop (2 * ?h) c)"
          using True Suc.prems(7,8,9) by (auto intro!: zero_from_drop simp flip: distrib_left)
        then have "\<exists>c'. karatzuba B (drop (2 * ?h) c) (drop ?h a) (drop ?h b) (n - ?h) ?h = Some c' \<and> length c' = 2 * ?h
            \<and> qval c' = clmul (qval (drop ?h a)) (qval (drop ?h b))"
          by - (rule Suc.IH [OF _ _ _ _ _ kz(2) [OF True]], use la lb lc True Suc.prems(5) in simp_all)
        then show ?thesis using that by blast
      qed
      define A Bl C D where "A = take ?h c0" and "Bl = drop ?h c0" and "C = take ?h c2" and "D = drop ?h c2"
      have parts: "length A = ?h" "length Bl = ?h" "length C = ?h" "length D = ?h" "c0 = A @ Bl" "c2 = C @ D"
        using c0(2) c2(2) by (simp_all add: A_def Bl_def C_def D_def)
      have m2: "memcpy (c0 @ drop (2 * ?h) c) (2 * ?h) c2 = A @ Bl @ C @ D"
        using c0(2) c2(2) lc parts(5,6) by (simp add: memcpy_def)
      obtain c1 where c1: "karatzuba B (Bl @ C) u v ?h ?h = Some c1" "length c1 = 2 * ?h" "qval c1 = clmul (qval u) (qval v)"
      proof -
        have "\<exists>c'. karatzuba B (Bl @ C) u v ?h ?h = Some c' \<and> length c' = 2 * ?h \<and> qval c' = clmul (qval u) (qval v)"
          by (rule Suc.IH [OF _ _ _ _ _ kz(1)]) (use uv parts in \<open>simp_all add: zero_from_full\<close>)
        then show ?thesis using that by blast
      qed
      define E F where "E = take ?h c1" and "F = drop ?h c1"
      have ef: "length E = ?h" "length F = ?h" "c1 = E @ F" using c1(2) by (simp_all add: E_def F_def)
      define M where "M = map2 (XOR) Bl C"
      have M: "length M = ?h" "qval M = qval Bl XOR qval C" using parts by (simp_all add: M_def qval_xor)
      have a1: "karatzuba_add1_port (replicate ?h 0) (replicate ?h 0) a b ?h = (u, v)"
        unfolding u_def v_def by (rule add1_correct) (use la lb in simp_all)
      have a2: "karatzuba_add2_port (replicate ?h 0) (drop ?h (A @ Bl @ C @ D)) (drop (2 * ?h) (A @ Bl @ C @ D)) ?h = M"
        unfolding M_def using add2_correct [of ?h "Bl @ C @ D" "C @ D"] parts by simp
      have s1: "seg (A @ Bl @ C @ D) ?h (2 * ?h) = Bl @ C" using parts by (simp add: seg_def)
      have m1: "memcpy (A @ Bl @ C @ D) ?h c1 = A @ E @ F @ D" using parts ef by (simp add: memcpy_def)
      let ?r = "A @ map2 (XOR) M (map2 (XOR) A E) @ map2 (XOR) M (map2 (XOR) F D) @ D"
      have res: "karatzuba B c a b n (2 ^ Suc k) = Some ?r"
        using karatzuba_high [OF \<open>\<not> mul_base_now B n\<close> True c0(1), unfolded m0 sc, OF c2(1) m2 a1 a2, unfolded s1, OF c1(1)]
          add3_correct [OF parts(1) ef(1,2) parts(4) M(1)]
        by (simp only: m1 power_Suc)
      have "qval ?r = qval A XOR push_bit ?H (qval Bl XOR qval C XOR (qval A XOR qval E))
          XOR push_bit (2 * ?H) (qval Bl XOR qval C XOR (qval F XOR qval D)) XOR push_bit (3 * ?H) (qval D)"
        using parts ef M by (simp add: qval_append qval_xor push_bit_push_bit xor.assoc mult.commute)
      also have "\<dots> = clmul (qval (take ?h a) XOR push_bit ?H (qval (drop ?h a))) (qval (take ?h b) XOR push_bit ?H (qval (drop ?h b)))"
        by (rule karatzuba_combine) (use c0(3) c1(3) c2(3) parts ef uv in \<open>simp_all add: qval_append\<close>)
      finally show ?thesis using res parts ef M by (simp add: qa qb)
    qed
  qed
qed

subsection \<open>The recursion that does not end\<close>

lemma karatzuba_0: "karatzuba (Sve2 vl) c a b 0 0 = None"
proof (rule ccontr)
  assume "karatzuba (Sve2 vl) c a b 0 0 \<noteq> None"
  then obtain y where "karatzuba (Sve2 vl) c a b 0 0 = Some y" by blast
  then have "\<not> (Sve2 vl = Sve2 vl \<and> (0 :: nat) = 0 \<and> (0 :: nat) = 0)"
  proof (rule karatzuba.raw_induct [where P = "\<lambda>B c a b n pad y. \<not> (B = Sve2 vl \<and> n = 0 \<and> pad = 0)", rotated], goal_cases)
    case (1 f B c a b n pad y)
    show ?case
    proof
      assume z: "B = Sve2 vl \<and> n = 0 \<and> pad = 0"
      have "f (Sve2 vl) [] [] [] 0 0 = None"
        using 1(1) [of "Sve2 vl" "[]" "[]" "[]" 0 0] by (cases "f (Sve2 vl) [] [] [] 0 0") auto
      then show False using 1(2) z by (simp add: mul_base_now_def)
    qed
  qed
  then show False by simp
qed

lemma karatzuba_1: "karatzuba (Sve2 vl) c a b 1 1 = None"
  by (subst karatzuba.simps) (simp add: mul_base_now_def karatzuba_0)

lemma karatzuba_1_2: "karatzuba (Sve2 vl) c a b 1 2 = None"
  using karatzuba_1 by (subst karatzuba.simps) (simp add: mul_base_now_def)

text \<open>Three words: the high half is one word, which the test \<open>qwords_len == 2\<close> misses.\<close>

theorem karatzuba_sve_diverges: "karatzuba (Sve2 vl) c a b 3 4 = None"
  using karatzuba_1_2 by (subst karatzuba.simps) (simp add: mul_base_now_def karatzuba_base)

end
