(* ===== verification/Bike_Ring.thy ===== *)
theory Bike_Ring
  imports Bike_Poly
begin

text \<open>
  The ring of BIKE: polynomials over the field of two elements modulo \<open>x^r - 1\<close>.  \<open>pmod\<close> is the remainder,
  \<open>pmul\<close> and \<open>ppow\<close> are product and power of remainders.  Squaring permutes the coefficients when \<open>r\<close> is odd, so
  that a power of exponent \<open>2^k\<close> is one permutation; if \<open>2^(r-1)\<close> is 1 modulo \<open>r\<close>, then the power of exponent
  \<open>2^(r-1) - 2\<close> is the inverse of every element that has one.
\<close>

subsection \<open>Remainders\<close>

function pmod :: "nat \<Rightarrow> nat \<Rightarrow> nat" where
  "pmod r x = (if r = 0 \<or> x = 0 then 0 else take_bit r x XOR pmod r (drop_bit r x))"
  by pat_completeness auto
termination by (relation "measure snd") (auto simp: drop_bit_eq_div intro!: div_less_dividend one_less_power)

declare pmod.simps [simp del]

lemma pmod_0 [simp]: "pmod r 0 = 0"
  by (simp add: pmod.simps)

lemma pmod_rec: "0 < r \<Longrightarrow> pmod r x = take_bit r x XOR pmod r (drop_bit r x)"
  by (cases "x = 0") (simp_all add: pmod.simps [of r x])

lemma drop_less: "0 < r \<Longrightarrow> x \<noteq> 0 \<Longrightarrow> drop_bit r x < (x :: nat)"
  by (simp only: drop_bit_eq_div) (rule div_less_dividend, auto intro: one_less_power simp del: One_nat_def)

lemma pmod_id: "x < 2 ^ r \<Longrightarrow> pmod r x = x"
  by (cases "r = 0") (simp_all add: pmod_rec [of r x] drop_bit_eq_div flip: take_bit_nat_eq_self_iff)

lemma pmod_lt [simp]: "pmod r x < 2 ^ r"
proof (induction x rule: less_induct)
  case (less x)
  show ?case
  proof (cases "r = 0 \<or> x = 0")
    case False
    then have "pmod r (drop_bit r x) < 2 ^ r" by (intro less drop_less) auto
    then show ?thesis using False by (simp add: pmod_rec [of r x] xor_lt)
  qed (auto simp: pmod.simps)
qed

lemma pmod_xor: "pmod r (x XOR y) = pmod r x XOR pmod r y"
proof (cases "r = 0")
  case False
  then show ?thesis
  proof (induction "x + y" arbitrary: x y rule: less_induct)
    case less
    show ?case
    proof (cases "x = 0 \<and> y = 0")
      case False
      then have "drop_bit r x + drop_bit r y < x + y"
        using drop_less [of r x] drop_less [of r y] \<open>r \<noteq> 0\<close> by (cases "x = 0"; cases "y = 0") (auto intro: add_strict_mono)
      from less(1) [OF this less(2)] show ?thesis using less(2)
        by (simp only: pmod_rec [of r "x XOR y"] pmod_rec [of r x] pmod_rec [of r y] take_bit_xor drop_bit_xor neq0_conv xor_ac)
    qed simp
  qed
qed (simp add: pmod.simps)

lemma pmod_push: "0 < r \<Longrightarrow> pmod r (push_bit r x) = pmod r x"
  by (subst pmod_rec) (simp_all add: take_bit_eq_mod drop_bit_eq_div push_bit_eq_mult)

lemma pmod_split: "take_bit r x XOR push_bit r (drop_bit r x) = (x :: nat)"
  by (rule bit_eqI) (auto simp: bit_simps not_less)

lemma pmod_two: "0 < r \<Longrightarrow> x < 2 ^ (2 * r) \<Longrightarrow> pmod r x = take_bit r x XOR drop_bit r x"
  by (simp add: pmod_rec [of r x] pmod_id drop_bit_eq_div less_mult_imp_div_less mult_2 power_add)

lemma pmod_clmul_left: "pmod r (clmul (pmod r a) b) = pmod r (clmul a b)"
proof (cases "r = 0")
  case False
  show ?thesis
  proof (induction a rule: less_induct)
    case (less a)
    show ?case
    proof (cases "a = 0")
      case a: False
      have ih: "pmod r (clmul (pmod r (drop_bit r a)) b) = pmod r (clmul (drop_bit r a) b)"
        using a False by (intro less drop_less) simp_all
      have "pmod r (clmul (take_bit r a XOR push_bit r (drop_bit r a)) b)
        = pmod r (clmul (take_bit r a) b) XOR pmod r (clmul (drop_bit r a) b)"
        using False by (simp only: clmul_xor_left clmul_push_left pmod_xor pmod_push neq0_conv)
      then have "pmod r (clmul a b) = pmod r (clmul (take_bit r a) b) XOR pmod r (clmul (drop_bit r a) b)"
        by (simp only: pmod_split)
      moreover have "pmod r (clmul (pmod r a) b) = pmod r (clmul (take_bit r a) b) XOR pmod r (clmul (pmod r (drop_bit r a)) b)"
        using False by (simp only: pmod_rec [of r a] clmul_xor_left pmod_xor neq0_conv)
      ultimately show ?thesis using ih by simp
    qed simp
  qed
qed (simp add: pmod.simps)

lemma pmod_clmul_right: "pmod r (clmul a (pmod r b)) = pmod r (clmul a b)"
  by (metis clmul_commute pmod_clmul_left)

subsection \<open>Products and powers\<close>

definition pmul :: "nat \<Rightarrow> nat \<Rightarrow> nat \<Rightarrow> nat" where
  "pmul r a b = pmod r (clmul a b)"

lemma pmul_lt [simp]: "pmul r a b < 2 ^ r"
  by (simp add: pmul_def)

lemma pmul_commute: "pmul r a b = pmul r b a"
  by (simp add: pmul_def clmul_commute)

lemma pmul_assoc: "pmul r (pmul r a b) c = pmul r a (pmul r b c)"
  by (simp add: pmul_def pmod_clmul_left pmod_clmul_right clmul_assoc)

lemma pmul_left_commute: "pmul r a (pmul r b c) = pmul r b (pmul r a c)"
  by (metis pmul_assoc pmul_commute)

lemmas pmul_ac = pmul_assoc pmul_commute pmul_left_commute

lemma pmul_1 [simp]: "a < 2 ^ r \<Longrightarrow> pmul r 1 a = a" "a < 2 ^ r \<Longrightarrow> pmul r a 1 = a"
    "a < 2 ^ r \<Longrightarrow> pmul r (Suc 0) a = a" "a < 2 ^ r \<Longrightarrow> pmul r a (Suc 0) = a"
  by (simp_all add: pmul_def pmod_id)

lemma pmul_0 [simp]: "pmul r 0 a = 0" "pmul r a 0 = 0"
  by (simp_all add: pmul_def)

lemma pmul_xor_left: "pmul r (a XOR b) c = pmul r a c XOR pmul r b c"
  by (simp add: pmul_def clmul_xor_left pmod_xor)

lemma pmul_xor_right: "pmul r a (b XOR c) = pmul r a b XOR pmul r a c"
  by (simp add: pmul_def clmul_xor_right pmod_xor)

primrec ppow :: "nat \<Rightarrow> nat \<Rightarrow> nat \<Rightarrow> nat" where
  "ppow r a 0 = pmod r 1"
| "ppow r a (Suc n) = pmul r a (ppow r a n)"

lemma ppow_lt [simp]: "ppow r a n < 2 ^ r"
  by (cases n) simp_all

lemma ppow_1: "a < 2 ^ r \<Longrightarrow> ppow r a (Suc 0) = a"
  by (simp add: pmul_def pmod_clmul_right pmod_id)

lemma pmul_mod1 [simp]: "pmul r (pmod r (Suc 0)) a = pmod r a" "pmul r a (pmod r (Suc 0)) = pmod r a"
  by (simp_all add: pmul_def pmod_clmul_left pmod_clmul_right)

lemma ppow_add: "ppow r a (m + n) = pmul r (ppow r a m) (ppow r a n)"
  by (induction m) (simp_all add: pmod_id pmul_assoc)

lemma ppow_mult: "ppow r (ppow r a m) n = ppow r a (m * n)"
  by (induction n) (simp_all add: ppow_add)

lemma ppow_twice: "ppow r a (2 * n) = pmul r (ppow r a n) (ppow r a n)"
  by (simp add: mult_2 ppow_add)

subsection \<open>Squaring permutes the coefficients\<close>

definition pperm :: "nat \<Rightarrow> nat \<Rightarrow> nat \<Rightarrow> nat" where
  "pperm r l a = horner_sum of_bool 2 (map (\<lambda>i. bit a (l * i mod r)) [0..<r])"

lemma bit_pperm: "bit (pperm r l a) i \<longleftrightarrow> i < r \<and> bit a (l * i mod r)"
  by (auto simp: pperm_def bit_horner_sum_bit_iff)

lemma pperm_mod: "pperm r (l mod r) a = pperm r l a"
  by (rule bit_eqI) (simp add: bit_pperm mod_mult_left_eq)

lemma pperm_pperm: "pperm r l (pperm r m a) = pperm r (l * m) a"
proof (cases "r = 0")
  case False
  then show ?thesis
    by (intro bit_eqI) (auto simp: bit_pperm mod_mult_right_eq mult.assoc mult.left_commute [of l m])
qed (simp add: pperm_def)

lemma bit_lt_nat: "(a :: nat) < 2 ^ r \<Longrightarrow> bit a i \<Longrightarrow> i < r"
  by (metis bit_take_bit_iff take_bit_nat_eq_self_iff)

lemma pperm_1: "a < 2 ^ r \<Longrightarrow> pperm r 1 a = a"
  by (rule bit_eqI) (auto simp: bit_pperm dest: bit_lt_nat)

lemma bit_clmul_self: "bit (clmul a a) n \<longleftrightarrow> even n \<and> bit a (n div 2)"
proof (induction a arbitrary: n rule: less_induct)
  case (less a)
  show ?case
  proof (cases "a = 0")
    case False
    define o' where "o' = (if odd a then 1 else 0 :: nat)"
    have "clmul a a = clmul (o' XOR push_bit 1 (a div 2)) (o' XOR push_bit 1 (a div 2))"
      unfolding o'_def by (simp only: odd_parts)
    also have "\<dots> = o' XOR push_bit 2 (clmul (a div 2) (a div 2))"
      unfolding clmul_self_xor clmul_push_left clmul_push_right push_bit_push_bit by (simp add: o'_def push_bit_eq_mult)
    finally have e: "clmul a a = o' XOR push_bit 2 (clmul (a div 2) (a div 2))" .
    have ih: "bit (clmul (a div 2) (a div 2)) m \<longleftrightarrow> even m \<and> bit (a div 2) (m div 2)" for m
      using False by (intro less) simp
    have o': "bit o' m \<longleftrightarrow> m = 0 \<and> odd a" for m by (auto simp: o'_def bit_1_iff simp del: One_nat_def)
    show ?thesis
    proof (cases "n < 2")
      case True
      then have "n = 0 \<or> n = 1" by auto
      then show ?thesis by (auto simp: e bit_simps o' bit_0)
    next
      case n: False
      then have "n div 2 = Suc ((n - 2) div 2)" "even (n - 2) = even n" by presburger+
      then show ?thesis using n by (simp add: e bit_simps o' ih bit_Suc)
    qed
  qed simp
qed

lemma square_perm:
  assumes "odd r" and "a < 2 ^ r"
  shows "pmul r a a = pperm r ((r + 1) div 2) a"
proof (rule bit_eqI)
  fix i
  have r: "0 < r" using assms(1) by (cases r) auto
  obtain h where h: "r = 2 * h + 1" using assms(1) by (elim oddE)
  have "clmul a a < 2 ^ (2 * r)" using clmul_lt [OF assms(2) assms(2)] by (simp add: mult_2)
  then have e: "pmul r a a = take_bit r (clmul a a) XOR drop_bit r (clmul a a)" by (simp add: pmul_def pmod_two r)
  show "bit (pmul r a a) i = bit (pperm r ((r + 1) div 2) a) i"
  proof (cases "i < r")
    case False
    then show ?thesis using bit_lt_nat [OF pmul_lt] by (auto simp: bit_pperm)
  next
    case i: True
    have m: "(r + 1) div 2 * i mod r = (if even i then i div 2 else (i + r) div 2)"
    proof (cases "even i")
      case True
      then obtain k where k: "i = 2 * k" by (elim evenE)
      have "(h + 1) * (2 * k) = k + k * r" by (simp add: h algebra_simps)
      moreover have "(r + 1) div 2 = h + 1" by (simp add: h)
      ultimately have "(r + 1) div 2 * i = k + k * r" by (simp only: k)
      then show ?thesis using i k by simp
    next
      case False
      then obtain k where k: "i = 2 * k + 1" by (elim oddE)
      have "(h + 1) * (2 * k + 1) = (k + h + 1) + k * r" by (simp add: h algebra_simps)
      moreover have "(r + 1) div 2 = h + 1" by (simp add: h)
      ultimately have "(r + 1) div 2 * i = (k + h + 1) + k * r" by (simp only: k)
      moreover have "(i + r) div 2 = k + h + 1" by (simp add: k h)
      moreover have "k + h + 1 < r" using i k h by simp
      ultimately show ?thesis using False by simp
    qed
    have "bit (pmul r a a) i \<longleftrightarrow> (even i \<and> bit a (i div 2)) \<noteq> (even (r + i) \<and> bit a ((r + i) div 2))"
      using i by (simp add: e bit_simps bit_clmul_self)
    also have "\<dots> \<longleftrightarrow> bit a (if even i then i div 2 else (i + r) div 2)" using assms(1) by (auto simp: add.commute)
    also have "\<dots> \<longleftrightarrow> bit (pperm r ((r + 1) div 2) a) i" using i by (simp only: bit_pperm m) simp
    finally show ?thesis .
  qed
qed

lemma ppow_pow2:
  assumes "odd r" and "a < 2 ^ r"
  shows "ppow r a (2 ^ k) = pperm r (((r + 1) div 2) ^ k) a"
proof (induction k)
  case 0
  then show ?case using assms by (simp add: pperm_1 [simplified] ppow_1 del: ppow.simps)
next
  case (Suc k)
  let ?p = "ppow r a (2 ^ k)"
  have "ppow r a (2 ^ Suc k) = pmul r ?p ?p" by (simp only: power_Suc ppow_twice)
  also have "\<dots> = pperm r ((r + 1) div 2) ?p" by (rule square_perm [OF assms(1) ppow_lt])
  finally show ?case by (simp only: Suc pperm_pperm power_Suc)
qed

text \<open>The parameter of a permutation is the inverse of \<open>2^k\<close>.\<close>

lemma half_pow_mod:
  assumes "odd (r :: nat)" and "l * 2 ^ k mod r = 1 mod r"
  shows "((r + 1) div 2) ^ k mod r = l mod r"
proof -
  let ?h = "(r + 1) div 2"
  have "?h * 2 = r + 1" using assms(1) by presburger
  then have "(?h * 2) ^ k mod r = 1 mod r" by (metis mod_add_self1 one_power2 power_mod power_one)
  then have "(?h ^ k * 2 ^ k) mod r = 1 mod r" by (simp only: power_mult_distrib)
  then have "l * (?h ^ k * 2 ^ k) mod r = l mod r" by (metis mod_mult_right_eq mult.right_neutral)
  moreover have "l * (?h ^ k * 2 ^ k) mod r = ?h ^ k * (l * 2 ^ k) mod r" by (simp only: mult.left_commute)
  moreover have "?h ^ k * (l * 2 ^ k) mod r = ?h ^ k mod r" by (metis assms(2) mod_mult_right_eq mult.right_neutral)
  ultimately show ?thesis by simp
qed

lemma ppow_pow2_perm:
  assumes "odd r" and "a < 2 ^ r" and "l * 2 ^ k mod r = 1 mod r"
  shows "ppow r a (2 ^ k) = pperm r l a"
  using half_pow_mod [OF assms(1,3)] pperm_mod [of r "((r + 1) div 2) ^ k" a] pperm_mod [of r l a]
  by (simp add: ppow_pow2 [OF assms(1,2)])

subsection \<open>Inverses\<close>

lemma ppow_inverse:
  assumes r: "odd r" "2 ^ (r - 1) mod r = 1 mod r" "1 < r" and a: "a < 2 ^ r" and inv: "pmul r a b = 1"
  shows "pmul r a (ppow r a (2 ^ (r - 1) - 2)) = 1"
proof -
  let ?p = "ppow r a (2 ^ (r - 1) - 2)"
  have n: "2 ^ (r - 1) = Suc (Suc (2 ^ (r - 1) - 2))"
  proof -
    have "2 ^ 1 \<le> (2 :: nat) ^ (r - 1)" using r(3) by (intro power_increasing) simp_all
    then show ?thesis by simp
  qed
  have "ppow r a (2 ^ (r - 1)) = pperm r 1 a" using r a by (intro ppow_pow2_perm) simp_all
  then have "ppow r a (Suc (Suc (2 ^ (r - 1) - 2))) = a" using a by (simp only: n [symmetric] pperm_1)
  then have "pmul r b (pmul r a (pmul r a ?p)) = pmul r b a" by simp
  then have "pmul r (pmul r a b) (pmul r a ?p) = pmul r a b" by (simp only: pmul_ac)
  then show ?thesis using inv by simp
qed

end
