(* ===== verification/Bike_Mod.thy ===== *)
theory Bike_Mod
  imports Bike_Gf2x_Correct Bike_Ring
begin

text \<open>
  Arithmetic modulo \<open>x^r - 1\<close>: the reduction of \<open>gf2x_mul_portable.c\<close>, the square of \<open>gf2x_mul_base_portable.c\<close>, the
  product of \<open>gf2x_mul.c\<close>, and the sum of \<open>gf2x.h\<close>.  \<open>pad_ok\<close> is the invariant of a \<open>pad_r_t\<close>: its length, and zeros from
  bit \<open>R_BITS\<close> on.  Each operation keeps it, and is the operation of the ring on the values.
\<close>

definition pad_ok :: "bike_params \<Rightarrow> u64 list \<Rightarrow> bool" where
  "pad_ok q a \<longleftrightarrow> length a = R_PADDED_QWORDS q \<and> qval a < 2 ^ R_BITS q"

text \<open>The builds in which the multiplication is right: the portable one, and SVE2 with vectors of 128 bits.\<close>

definition build_ok :: "bike_build \<Rightarrow> bool" where
  "build_ok B = (case B of Portable \<Rightarrow> True | Sve2 vl \<Rightarrow> vl = 2)"

subsection \<open>The operations\<close>

definition gf2x_red_port :: "bike_params \<Rightarrow> u64 list \<Rightarrow> u64 list \<Rightarrow> u64 list" where
  "gf2x_red_port q c a =
     (let c = for_range 0 (R_QWORDS q) (\<lambda>i c.
            let vt0 = a ! i;
                vt1 = a ! (i + R_QWORDS q);
                vt2 = a ! (i + R_QWORDS q - 1);
                vt1 = push_bit (LAST_R_QWORD_TRAIL q) vt1;
                vt2 = drop_bit (LAST_R_QWORD_LEAD q) vt2;
                vt0 = vt0 XOR (vt1 OR vt2)
            in c[i := vt0]) c;
          c = c[R_QWORDS q - 1 := c ! (R_QWORDS q - 1) AND LAST_R_QWORD_MASK q]
      in memcpy c (R_QWORDS q) (replicate (R_PADDED_QWORDS q - R_QWORDS q) 0))"

definition gf2x_sqr_port :: "bike_build \<Rightarrow> bike_params \<Rightarrow> u64 list \<Rightarrow> u64 list \<Rightarrow> u64 list" where
  "gf2x_sqr_port B q c a = (case B of
     Portable \<Rightarrow> for_range 0 (R_QWORDS q) (\<lambda>i c.
        memcpy c (2 * i) (gf2x_mul_base_port (seg c (2 * i) 2) (drop i a) (drop i a))) c
   | Sve2 vl \<Rightarrow> for_step 2 (R_QWORDS q) (\<lambda>i c.
        memcpy c (4 * (i div 2)) (gf2x_mul_base_sve vl (seg c (4 * (i div 2)) 4) (drop i a) (drop i a))) c)"

text \<open>\<open>None\<close>: Karatsuba's recursion does not end.\<close>

definition gf2x_mod_mul_with_ctx :: "bike_build \<Rightarrow> bike_params \<Rightarrow> u64 list \<Rightarrow> u64 list \<Rightarrow> u64 list \<Rightarrow> u64 list option" where
  "gf2x_mod_mul_with_ctx B q c a b =
     do { t \<leftarrow> karatzuba B (replicate (2 * R_PADDED_QWORDS q) 0) a b (R_QWORDS q) (R_PADDED_QWORDS q);
          Some (gf2x_red_port q c t) }"

definition gf2x_mod_mul :: "bike_build \<Rightarrow> bike_params \<Rightarrow> u64 list \<Rightarrow> u64 list \<Rightarrow> u64 list \<Rightarrow> u64 list option" where
  "gf2x_mod_mul B q c a b = gf2x_mod_mul_with_ctx B q c a b"

text \<open>\<open>a = a^2\<close>, with the buffer for the double length.\<close>

definition gf2x_mod_sqr_in_place :: "bike_build \<Rightarrow> bike_params \<Rightarrow> u64 list \<times> u64 list \<Rightarrow> u64 list \<times> u64 list" where
  "gf2x_mod_sqr_in_place B q = (\<lambda>(a, secure_buffer).
     let secure_buffer = gf2x_sqr_port B q secure_buffer a
     in (gf2x_red_port q a secure_buffer, secure_buffer))"

subsection \<open>Levels\<close>

lemma pad_okD: "pad_ok q a \<Longrightarrow> length a = R_PADDED_QWORDS q" "pad_ok q a \<Longrightarrow> qval a < 2 ^ R_BITS q"
  by (simp_all add: pad_ok_def)

lemma bike_sizes_pos:
  assumes "q \<in> set bike_levels"
  shows "0 < R_BITS q" and "odd (R_BITS q)" and "1 < R_BITS q" and "0 < R_QWORDS q" and "R_QWORDS q < R_PADDED_QWORDS q"
    and "R_BITS q \<le> 64 * R_QWORDS q" and "64 * R_QWORDS q < 2 * R_BITS q" and "2 * R_QWORDS q \<le> R_PADDED_QWORDS q + R_QWORDS q"
  using assms by (elim bike_level_cases; simp add: bike_sizes)+

lemma bike_kz:
  assumes "q \<in> set bike_levels" and "build_ok B"
  obtains k where "R_PADDED_QWORDS q = 2 ^ k" and "kz_len B (R_QWORDS q) k"
proof -
  let ?k = "if R_BITS q = 12323 then 8 else if R_BITS q = 24659 then 9 else 10 :: nat"
  have "R_PADDED_QWORDS q = 2 ^ ?k" using assms(1) by (elim bike_level_cases) (simp_all add: bike_sizes)
  moreover have "kz_len B (R_QWORDS q) ?k"
    using assms by (cases B; elim bike_level_cases) (simp_all add: bike_sizes kz_len_def build_ok_def)
  ultimately show ?thesis by (rule that)
qed

lemma qval_drop: "qval (drop n xs) = drop_bit (64 * n) (qval xs)"
  by (rule bit_eqI) (auto simp: bit_qval bit_drop_bit_eq add.commute)

lemma qval_take: "qval (take n xs) = take_bit (64 * n) (qval xs)"
  by (rule bit_eqI) (auto simp: bit_qval bit_take_bit_iff less_mult_imp_div_less div_less_iff_less_mult)

lemma qval_0_set: "qval xs = 0 \<Longrightarrow> set xs \<subseteq> {0}"
proof -
  assume "qval xs = 0"
  then have "xs = replicate (length xs) 0" by (intro qval_eqI) simp_all
  moreover have "set (replicate (length xs) (0 :: u64)) \<subseteq> {0}" by auto
  ultimately show ?thesis by metis
qed

lemma qval_lt_zero_from: "qval a < 2 ^ (64 * n) \<Longrightarrow> zero_from n a"
  unfolding zero_from_def by (rule qval_0_set) (simp add: qval_drop drop_bit_eq_div)

lemma pad_ok_zero_from:
  assumes "pad_ok q a" and "q \<in> set bike_levels"
  shows "zero_from (R_QWORDS q) a"
  by (rule qval_lt_zero_from) (rule pow2_mono [OF pad_okD(2) [OF assms(1)] bike_sizes_pos(6) [OF assms(2)]])

lemma pad_okI:
  assumes "length a = R_PADDED_QWORDS q" and "qval a < 2 ^ R_BITS q"
  shows "pad_ok q a"
  using assms by (simp add: pad_ok_def)

subsection \<open>Reduction\<close>

lemma red_loop:
  assumes "R_QWORDS q \<le> length c"
  shows "for_range 0 (R_QWORDS q) (\<lambda>i c. c[i := f i]) c = map f [0..<R_QWORDS q] @ drop (R_QWORDS q) c"
  using for_range_update [OF assms, where f = "\<lambda>i _. f i"] by simp

lemma gf2x_red_port_correct:
  assumes q: "q \<in> set bike_levels" and c: "length c = R_PADDED_QWORDS q" and a: "2 * R_QWORDS q \<le> length a"
  shows "length (gf2x_red_port q c a) = R_PADDED_QWORDS q"
    and "qval (gf2x_red_port q c a) = take_bit (R_BITS q) (qval a) XOR take_bit (R_BITS q) (drop_bit (R_BITS q) (qval a))"
proof -
  let ?n = "R_QWORDS q" and ?r = "R_BITS q" and ?L = "LAST_R_QWORD_LEAD q"
  note sz = bike_sizes_pos [OF q]
  note sp = R_QWORDS_split [OF bike_ok_levels [OF q]]
  define f where "f = (\<lambda>i. a ! i XOR (push_bit (LAST_R_QWORD_TRAIL q) (a ! (i + ?n)) OR drop_bit ?L (a ! (i + ?n - 1))))"
  define w where "w = (map f [0..<?n])[?n - 1 := f (?n - 1) AND LAST_R_QWORD_MASK q]"
  have lw: "length w = ?n" by (simp add: w_def)
  have e: "gf2x_red_port q c a = w @ replicate (R_PADDED_QWORDS q - ?n) 0"
    using sz c by (simp add: gf2x_red_port_def Let_def red_loop f_def w_def memcpy_def list_update_append nth_append)
  show "length (gf2x_red_port q c a) = R_PADDED_QWORDS q" using sz by (simp add: e lw)
  have f: "bit (f i) n \<longleftrightarrow> bit (qval a) (64 * i + n) \<noteq> bit (qval a) (64 * i + n + ?r)" if i: "i < ?n" and n: "n < 64" for i n
  proof -
    have 1: "bit (qval a) (64 * i + n) \<longleftrightarrow> bit (a ! i) n" using i n a by (simp add: bit_qval)
    have e2: "64 * i + n + ?r = 64 * (i + ?n - 1) + (n + ?L)" using i sp(1) sz(4) by (simp add: algebra_simps)
    have 2: "bit (qval a) (64 * i + n + ?r) \<longleftrightarrow> (if n + ?L < 64 then bit (a ! (i + ?n - 1)) (n + ?L) else bit (a ! (i + ?n)) (n + ?L - 64))"
    proof (cases "n + ?L < 64")
      case True
      moreover have "i + ?n - 1 < length a" using i a by linarith
      ultimately show ?thesis unfolding e2 bit_qval by simp
    next
      case False
      then have e3: "64 * (i + ?n - 1) + (n + ?L) = 64 * (i + ?n) + (n + ?L - 64)" using i by simp
      have "n + ?L - 64 < 64" using n sp(3) by simp
      then have "(64 * (i + ?n) + (n + ?L - 64)) div 64 = i + ?n" "(64 * (i + ?n) + (n + ?L - 64)) mod 64 = n + ?L - 64"
        by (simp, simp only: mod_mult_self4 mod_less)
      moreover have "i + ?n < length a" using i a by linarith
      ultimately show ?thesis using False by (simp only: e2 e3 bit_qval) simp
    qed
    have t: "LAST_R_QWORD_TRAIL q = 64 - ?L" by (simp add: LAST_R_QWORD_TRAIL_def)
    have 3: "bit (f i) n \<longleftrightarrow> bit (a ! i) n \<noteq> (bit (a ! (i + ?n)) (n + ?L - 64) \<and> 64 - ?L \<le> n \<or> n + ?L < 64 \<and> bit (a ! (i + ?n - 1)) (n + ?L))"
      using n sp(2,3) unfolding f_def t
      by (auto simp: bit_simps add.commute dest: bit_imp_le_length)
    show ?thesis unfolding 1 2 3 by auto
  qed
  show "qval (gf2x_red_port q c a) = take_bit ?r (qval a) XOR take_bit ?r (drop_bit ?r (qval a))"
  proof (rule bit_eqI)
    fix k
    show "bit (qval (gf2x_red_port q c a)) k = bit (take_bit ?r (qval a) XOR take_bit ?r (drop_bit ?r (qval a))) k"
    proof (cases "k div 64 < ?n")
      case True
      have k: "64 * (k div 64) + k mod 64 = k" by simp
      have w: "w ! (k div 64) = (if k div 64 = ?n - 1 then f (?n - 1) AND LAST_R_QWORD_MASK q else f (k div 64))"
        using True by (simp add: w_def)
      have fk: "bit (f (k div 64)) (k mod 64) \<longleftrightarrow> bit (qval a) k \<noteq> bit (qval a) (k + ?r)"
        using f [OF True, of "k mod 64"] by simp
      have m: "bit (LAST_R_QWORD_MASK q) j \<longleftrightarrow> j < ?L" if "j < 64" for j
        using that sp(3) by (simp add: LAST_R_QWORD_MASK_def bit_mask_iff flip: mask_eq_exp_minus_1)
      have lt: "k < ?r \<longleftrightarrow> (k div 64 = ?n - 1 \<longrightarrow> k mod 64 < ?L)"
        using True sp(1,3) k by (cases "k div 64 = ?n - 1") auto
      have "bit (qval (gf2x_red_port q c a)) k \<longleftrightarrow> bit (w ! (k div 64)) (k mod 64)"
        using True by (simp add: e bit_qval lw nth_append)
      also have "\<dots> \<longleftrightarrow> k < ?r \<and> bit (f (k div 64)) (k mod 64)"
        unfolding w lt by (auto simp: bit_and_iff m)
      finally show ?thesis by (auto simp: fk bit_simps add.commute)
    next
      case False
      then have "\<not> k < ?r" using sz(6) by (simp add: not_less less_eq_div_iff_mult_less_eq mult.commute) 
      then show ?thesis using False by (simp add: e bit_qval lw nth_append bit_take_bit_iff bit_xor_iff)
    qed
  qed
qed

lemma gf2x_red_port_pmod:
  assumes q: "q \<in> set bike_levels" and c: "length c = R_PADDED_QWORDS q" and a: "2 * R_QWORDS q \<le> length a"
    and v: "take_bit (128 * R_QWORDS q) (qval a) = x" and x: "x < 2 ^ (2 * R_BITS q)"
  shows "pad_ok q (gf2x_red_port q c a)" and "qval (gf2x_red_port q c a) = pmod (R_BITS q) x"
proof -
  let ?r = "R_BITS q"
  note sz = bike_sizes_pos [OF q]
  have b: "bit x k \<longleftrightarrow> k < 128 * R_QWORDS q \<and> bit (qval a) k" for k
    unfolding v [symmetric] by (simp add: bit_take_bit_iff)
  have "take_bit ?r (qval a) XOR take_bit ?r (drop_bit ?r (qval a)) = take_bit ?r x XOR drop_bit ?r x"
  proof (rule bit_eqI)
    fix k
    have "bit x (k + ?r) \<Longrightarrow> k < ?r" using bit_lt_nat [OF x, of "k + ?r"] by simp
    then show "bit (take_bit ?r (qval a) XOR take_bit ?r (drop_bit ?r (qval a))) k = bit (take_bit ?r x XOR drop_bit ?r x) k"
      using sz(6) by (auto simp: bit_simps b add.commute)
  qed
  then show e: "qval (gf2x_red_port q c a) = pmod ?r x"
    using gf2x_red_port_correct [OF q c a] by (simp add: pmod_two [OF sz(1) x])
  show "pad_ok q (gf2x_red_port q c a)"
    using gf2x_red_port_correct(1) [OF q c a] by (intro pad_okI) (simp_all add: e)
qed

subsection \<open>Squares\<close>

text \<open>A loop that squares blocks of \<open>w\<close> words.\<close>

lemma sqr_blocks:
  assumes f: "\<And>i c. i < n \<Longrightarrow> length c = 2 * w \<Longrightarrow>
      length (f i c) = 2 * w \<and> qval (f i c) = clmul (qval (seg a (w * i) w)) (qval (seg a (w * i) w))"
    and a: "w * n \<le> length a" and c: "2 * w * n \<le> length c"
  shows "length (for_range 0 n (\<lambda>i c. memcpy c (2 * w * i) (f i (seg c (2 * w * i) (2 * w)))) c) = length c \<and>
    qval (take (2 * w * n) (for_range 0 n (\<lambda>i c. memcpy c (2 * w * i) (f i (seg c (2 * w * i) (2 * w)))) c))
      = clmul (qval (take (w * n) a)) (qval (take (w * n) a))"
  using assms
proof (induction n)
  case (Suc n)
  let ?c = "for_range 0 n (\<lambda>i c. memcpy c (2 * w * i) (f i (seg c (2 * w * i) (2 * w)))) c"
  let ?s = "f n (seg ?c (2 * w * n) (2 * w))" and ?B = "qval (seg a (w * n) w)" and ?A = "qval (take (w * n) a)"
  have IH: "length ?c = length c" "qval (take (2 * w * n) ?c) = clmul ?A ?A"
    using Suc by (auto simp: algebra_simps)
  have le: "2 * w * n + 2 * w \<le> length ?c" "w * n + w \<le> length a" using Suc.prems IH(1) by (simp_all add: algebra_simps)
  have s: "length ?s = 2 * w" "qval ?s = clmul ?B ?B" using Suc.prems(1) [of n "seg ?c (2 * w * n) (2 * w)"] le(1) by simp_all
  have t: "take (2 * w * Suc n) (memcpy ?c (2 * w * n) ?s) = take (2 * w * n) ?c @ ?s"
    using le s(1) by (simp add: memcpy_def algebra_simps)
  have ta: "take (w * Suc n) a = take (w * n) a @ seg a (w * n) w" using take_add [of "w * n" w a] by (simp add: seg_def add.commute)
  have la: "length (take (w * n) a) = w * n" "length (take (2 * w * n) ?c) = 2 * w * n" using le by simp_all
  have "qval (take (w * Suc n) a) = ?A XOR push_bit (64 * (w * n)) ?B" unfolding ta qval_append la ..
  then have "clmul (qval (take (w * Suc n) a)) (qval (take (w * Suc n) a)) = clmul ?A ?A XOR push_bit (64 * (2 * w * n)) (clmul ?B ?B)"
    by (simp add: clmul_self_xor clmul_push_left clmul_push_right push_bit_push_bit algebra_simps)
  also have "\<dots> = qval (take (2 * w * Suc n) (memcpy ?c (2 * w * n) ?s))" unfolding t qval_append la s IH ..
  finally show ?case using le s(1) IH(1) by (simp add: for_range_Suc)
qed simp

lemma gf2x_sqr_port_correct:
  assumes q: "q \<in> set bike_levels" and B: "build_ok B" and a: "pad_ok q a" and c: "length c = 2 * R_PADDED_QWORDS q"
  shows "length (gf2x_sqr_port B q c a) = 2 * R_PADDED_QWORDS q"
    and "take_bit (128 * R_QWORDS q) (qval (gf2x_sqr_port B q c a)) = clmul (qval a) (qval a)"
proof -
  let ?n = "R_QWORDS q" and ?s = "gf2x_sqr_port B q c a"
  note sz = bike_sizes_pos [OF q]
  note la = pad_okD(1) [OF a]
  have z: "qval (take m a) = qval a" if "?n \<le> m" for m
  proof (cases "m \<le> length a")
    case True
    with that show ?thesis by (intro qval_take_zero zero_from_mono [OF pad_ok_zero_from [OF a q]])
  qed simp
  have lt: "clmul (qval a) (qval a) < 2 ^ (128 * ?n)"
    using clmul_lt [OF pad_okD(2) [OF a] pad_okD(2) [OF a]] sz(6) by (elim pow2_mono) simp
  have "length ?s = length c \<and> (\<exists>m\<ge>?n. m \<le> R_PADDED_QWORDS q \<and> qval (take (2 * m) ?s) = clmul (qval a) (qval a))"
  proof (cases B)
    case Portable
    let ?f = "\<lambda>i d. gf2x_mul_base_port d (drop i a) (drop i a)"
    have f: "length (?f i d) = 2 * 1 \<and> qval (?f i d) = clmul (qval (seg a (1 * i) 1)) (qval (seg a (1 * i) 1))"
      if "i < ?n" "length d = 2 * 1" for i d
    proof -
      have "seg a i 1 = [a ! i]" using that sz(5) la by (simp add: seg_def take_Suc_conv_app_nth)
      then show ?thesis using that gf2x_mul_base_port_correct [of d "drop i a" "drop i a"] sz(5) la by simp
    qed
    have e: "?s = for_range 0 ?n (\<lambda>i c. memcpy c (2 * 1 * i) (?f i (seg c (2 * 1 * i) (2 * 1)))) c"
      using Portable by (simp add: gf2x_sqr_port_def)
    have "length ?s = length c \<and> qval (take (2 * 1 * ?n) ?s) = clmul (qval (take (1 * ?n) a)) (qval (take (1 * ?n) a))"
      unfolding e by (rule sqr_blocks [OF f]) (use sz la c in auto)
    then show ?thesis using z [OF order_refl] sz(5) by (intro conjI exI [of _ ?n]) simp_all
  next
    case (Sve2 vl)
    then have vl: "vl = 2" using B by (simp add: build_ok_def)
    let ?m = "(?n + 2 - 1) div 2" and ?f = "\<lambda>i d. gf2x_mul_base_sve 2 d (drop (i * 2) a) (drop (i * 2) a)"
    have m: "?n \<le> 2 * ?m" "2 * ?m \<le> R_PADDED_QWORDS q" using sz(4,5) by linarith+
    have f: "length (?f i d) = 2 * 2 \<and> qval (?f i d) = clmul (qval (seg a (2 * i) 2)) (qval (seg a (2 * i) 2))"
      if "i < ?m" "length d = 2 * 2" for i d
    proof -
      have "2 * i + 1 < length a" using that m la by linarith
      then have "seg a (2 * i) 2 = [a ! (2 * i), a ! (2 * i + 1)]"
        by (simp add: seg_def numeral_2_eq_2 take_Suc_conv_app_nth)
      then show ?thesis using that gf2x_mul_base_sve_correct [of d "drop (i * 2) a" "drop (i * 2) a"] \<open>2 * i + 1 < length a\<close>
        by (simp add: mult.commute)
    qed
    have e: "?s = for_range 0 ?m (\<lambda>i c. memcpy c (2 * 2 * i) (?f i (seg c (2 * 2 * i) (2 * 2)))) c"
      using Sve2 vl by (simp add: gf2x_sqr_port_def for_step_def)
    have "length ?s = length c \<and> qval (take (2 * 2 * ?m) ?s) = clmul (qval (take (2 * ?m) a)) (qval (take (2 * ?m) a))"
      unfolding e by (rule sqr_blocks [OF f]) (use m la c in auto)
    then show ?thesis using z [OF m(1)] m by (intro conjI exI [of _ "2 * ?m"]) simp_all
  qed
  then obtain m where m: "?n \<le> m" "qval (take (2 * m) ?s) = clmul (qval a) (qval a)" and l: "length ?s = length c" by blast
  show "length ?s = 2 * R_PADDED_QWORDS q" using l c by simp
  have "take_bit (128 * ?n) (qval ?s) = take_bit (128 * ?n) (take_bit (128 * m) (qval ?s))" using m(1) by (simp add: min_absorb1)
  also have "take_bit (128 * m) (qval ?s) = clmul (qval a) (qval a)" using m(2) by (simp add: qval_take)
  finally show "take_bit (128 * ?n) (qval ?s) = clmul (qval a) (qval a)" using lt by (simp add: take_bit_nat_eq_self_iff)
qed

lemma gf2x_mod_sqr_in_place_correct:
  assumes q: "q \<in> set bike_levels" and B: "build_ok B" and a: "pad_ok q a" and buf: "length buf = 2 * R_PADDED_QWORDS q"
  obtains a' buf' where "gf2x_mod_sqr_in_place B q (a, buf) = (a', buf')" and "pad_ok q a'"
    and "length buf' = 2 * R_PADDED_QWORDS q" and "qval a' = pmul (R_BITS q) (qval a) (qval a)"
proof -
  let ?s = "gf2x_sqr_port B q buf a"
  note s = gf2x_sqr_port_correct [OF q B a buf]
  have "clmul (qval a) (qval a) < 2 ^ (2 * R_BITS q)"
    using clmul_lt [OF pad_okD(2) [OF a] pad_okD(2) [OF a]] by (simp add: mult_2)
  moreover have "2 * R_QWORDS q \<le> length ?s" using s(1) bike_sizes_pos(5) [OF q] by simp
  ultimately have "pad_ok q (gf2x_red_port q a ?s)" "qval (gf2x_red_port q a ?s) = pmul (R_BITS q) (qval a) (qval a)"
    using gf2x_red_port_pmod [OF q pad_okD(1) [OF a] _ s(2)] by (simp_all add: pmul_def)
  then show ?thesis using s(1) by (intro that) (simp_all add: gf2x_mod_sqr_in_place_def Let_def)
qed

subsection \<open>Products and sums\<close>

lemma gf2x_mod_mul_with_ctx_correct:
  assumes q: "q \<in> set bike_levels" and B: "build_ok B" and a: "pad_ok q a" and b: "pad_ok q b" and c: "length c = R_PADDED_QWORDS q"
  obtains c' where "gf2x_mod_mul_with_ctx B q c a b = Some c'" and "pad_ok q c'" and "qval c' = pmul (R_BITS q) (qval a) (qval b)"
proof -
  obtain k where k: "R_PADDED_QWORDS q = 2 ^ k" "kz_len B (R_QWORDS q) k" using bike_kz [OF q B] .
  note sz = bike_sizes_pos [OF q]
  let ?z = "replicate (2 * R_PADDED_QWORDS q) 0 :: u64 list"
  have "zero_from (2 * R_QWORDS q) ?z" by (rule qval_lt_zero_from) simp
  then obtain t where t: "karatzuba B ?z a b (R_QWORDS q) (R_PADDED_QWORDS q) = Some t" "length t = 2 * R_PADDED_QWORDS q"
      "qval t = clmul (qval a) (qval b)"
    using karatzuba_correct [of a k b ?z "R_QWORDS q" B] k sz pad_okD(1) [OF a] pad_okD(1) [OF b]
      pad_ok_zero_from [OF a q] pad_ok_zero_from [OF b q] by auto
  have lt: "clmul (qval a) (qval b) < 2 ^ (2 * R_BITS q)"
    using clmul_lt [OF pad_okD(2) [OF a] pad_okD(2) [OF b]] by (simp add: mult_2)
  then have "qval t < 2 ^ (128 * R_QWORDS q)" using sz(6) unfolding t(3) by (elim pow2_mono) simp
  then have "take_bit (128 * R_QWORDS q) (qval t) = clmul (qval a) (qval b)" by (simp add: take_bit_nat_eq_self_iff flip: t(3))
  then have "pad_ok q (gf2x_red_port q c t)" "qval (gf2x_red_port q c t) = pmul (R_BITS q) (qval a) (qval b)"
    using gf2x_red_port_pmod [OF q c _ _ lt, of t] t(2) sz(5) by (simp_all add: pmul_def)
  then show ?thesis by (intro that [of "gf2x_red_port q c t"]) (simp_all add: gf2x_mod_mul_with_ctx_def t(1))
qed

lemma gf2x_mod_mul_correct:
  assumes "q \<in> set bike_levels" and "build_ok B" and "pad_ok q a" and "pad_ok q b" and "length c = R_PADDED_QWORDS q"
  obtains c' where "gf2x_mod_mul B q c a b = Some c'" and "pad_ok q c'" and "qval c' = pmul (R_BITS q) (qval a) (qval b)"
  using gf2x_mod_mul_with_ctx_correct [OF assms] by (metis gf2x_mod_mul_def)

text \<open>The sum is right for every vector length.\<close>

lemma gf2x_mod_add_eq:
  assumes "case B of Portable \<Rightarrow> True | Sve2 vl \<Rightarrow> 0 < vl" and "length c = R_PADDED_QWORDS q"
    and "length a = R_PADDED_QWORDS q" and "length b = R_PADDED_QWORDS q"
  shows "gf2x_mod_add B q c a b = map2 (XOR) a b"
proof -
  let ?n = "R_PADDED_QWORDS q"
  have "gf2x_mod_add B q c a b = map (\<lambda>i. a ! i XOR b ! i) [0..<?n] @ drop ?n c"
  proof (cases B)
    case Portable
    then show ?thesis
      using for_range_update [of ?n c "\<lambda>i _. a ! i XOR b ! i"] assms by (simp add: gf2x_mod_add_def)
  next
    case (Sve2 vl)
    then show ?thesis
      unfolding gf2x_mod_add_def Let_def bike_build.case
      by (simp only: bike_build.case) (rule for_step_store, use assms in \<open>auto simp: sveor_z_def\<close>)
  qed
  also have "\<dots> = map2 (XOR) a b" using assms by (intro nth_equalityI) simp_all
  finally show ?thesis .
qed

lemma gf2x_mod_add_correct:
  assumes "build_ok B" and "pad_ok q a" and "pad_ok q b" and "length c = R_PADDED_QWORDS q"
  shows "pad_ok q (gf2x_mod_add B q c a b)" and "qval (gf2x_mod_add B q c a b) = qval a XOR qval b"
proof -
  have "gf2x_mod_add B q c a b = map2 (XOR) a b"
    using assms by (intro gf2x_mod_add_eq) (auto simp: build_ok_def pad_ok_def split: bike_build.splits)
  then show "qval (gf2x_mod_add B q c a b) = qval a XOR qval b" "pad_ok q (gf2x_mod_add B q c a b)"
    using assms by (auto simp: pad_ok_def qval_xor intro: xor_lt)
qed

end
