(* ===== verification/Bike_Inv.thy ===== *)
theory Bike_Inv
  imports Bike_Mod
begin

text \<open>
  Inversion: \<open>gf2x_ksqr_portable.c\<close> and \<open>gf2x_inv.c\<close>.  The tables of exponents and permutations are checked
  against what they stand for, and the loop computes the power of exponent \<open>2^(r-1) - 2\<close>.
\<close>

subsection \<open>The field \<open>val\<close> of a padded element\<close>

definition pad_val :: "bike_params \<Rightarrow> u64 list \<Rightarrow> bytes" where
  "pad_val q a = take (R_BYTES q) (bytes_of_lanes a)"

definition set_pad_val :: "u64 list \<Rightarrow> bytes \<Rightarrow> u64 list" where
  "set_pad_val c v = lanes_over (memcpy (bytes_of_lanes c) 0 v)"

definition pad_zero :: "bike_params \<Rightarrow> u64 list" where
  "pad_zero q = replicate (R_PADDED_QWORDS q) 0"

subsection \<open>The operations\<close>

definition k_sqr_bit :: "bike_params \<Rightarrow> bytes \<Rightarrow> nat \<Rightarrow> nat \<Rightarrow> nat \<Rightarrow> bytes \<times> nat \<Rightarrow> bytes \<times> nat" where
  "k_sqr_bit q a l_param i j = (\<lambda>(c, idx).
     let pos = l_param * idx mod R_BITS q;
         pos_byte = pos div 8;
         pos_bit = pos mod 8;
         bit = drop_bit pos_bit (a ! pos_byte) AND 1
     in (c[i := c ! i OR push_bit j bit], idx + 1))"

definition k_sqr_port :: "bike_params \<Rightarrow> u64 list \<Rightarrow> u64 list \<Rightarrow> nat \<Rightarrow> u64 list" where
  "k_sqr_port q c a l_param =
     (let raw = replicate (R_BYTES q) 0;
          (raw, idx) = for_range 0 (R_BYTES q) (\<lambda>i. for_range 0 8 (k_sqr_bit q (pad_val q a) l_param i)) (raw, 0);
          raw = raw[R_BYTES q - 1 := raw ! (R_BYTES q - 1) AND LAST_R_BYTE_MASK q]
      in set_pad_val c raw)"

definition repeated_squaring :: "bike_build \<Rightarrow> bike_params \<Rightarrow> u64 list \<Rightarrow> u64 list \<Rightarrow> nat \<Rightarrow> u64 list \<Rightarrow> u64 list \<times> u64 list" where
  "repeated_squaring B q c a num_sqrs sec_buf =
     for_range 0 num_sqrs (\<lambda>_. gf2x_mod_sqr_in_place B q) (set_pad_val c (pad_val q a), sec_buf)"

definition K_SQR_THR :: nat where
  "K_SQR_THR = 64"

definition MAX_I :: "bike_params \<Rightarrow> nat" where
  "MAX_I q = (if R_BITS q = 12323 then 14 else if R_BITS q = 24659 then 15 else 16)"

definition EXP0_K_VALS :: "bike_params \<Rightarrow> nat list" where
  "EXP0_K_VALS q =
     (if R_BITS q = 12323 then [1, 2, 4, 8, 16, 32, 64, 128, 256, 512, 1024, 2048, 4096, 8192]
      else if R_BITS q = 24659 then [1, 2, 4, 8, 16, 32, 64, 128, 256, 512, 1024, 2048, 4096, 8192, 16384]
      else [1, 2, 4, 8, 16, 32, 64, 128, 256, 512, 1024, 2048, 4096, 8192, 16384, 32768])"

definition EXP0_L_VALS :: "bike_params \<Rightarrow> nat list" where
  "EXP0_L_VALS q =
     (if R_BITS q = 12323 then [6162, 3081, 3851, 5632, 22, 484, 119, 1838, 1742, 3106, 10650, 1608, 10157, 8816]
      else if R_BITS q = 24659 then
        [12330, 6165, 7706, 3564, 2711, 1139, 15053, 1258, 4388, 20524, 9538, 6393, 10486, 1715, 6804]
      else [20487, 30730, 28169, 9443, 13001, 12376, 8302, 6618, 38760, 21582, 1660, 10409, 14669, 30338, 17745, 7520])"

definition EXP1_K_VALS :: "bike_params \<Rightarrow> nat list" where
  "EXP1_K_VALS q =
     (if R_BITS q = 12323 then [0, 0, 0, 0, 0, 1, 0, 0, 0, 0, 0, 0, 33, 4129]
      else if R_BITS q = 24659 then [0, 0, 0, 0, 1, 0, 17, 0, 0, 0, 0, 0, 0, 81, 8273]
      else [0, 1, 0, 3, 0, 0, 0, 0, 0, 0, 0, 0, 0, 11, 0, 8203])"

definition EXP1_L_VALS :: "bike_params \<Rightarrow> nat list" where
  "EXP1_L_VALS q =
     (if R_BITS q = 12323 then [0, 0, 0, 0, 0, 6162, 0, 0, 0, 0, 0, 0, 242, 5717]
      else if R_BITS q = 24659 then [0, 0, 0, 0, 12330, 0, 13685, 0, 0, 0, 0, 0, 0, 23678, 19056]
      else [0, 20487, 0, 15365, 0, 0, 0, 0, 0, 0, 0, 0, 0, 6302, 0, 10058])"

text \<open>One of the two exponentiations of an iteration: \<open>g = f^(2^k)\<close>.\<close>

definition inv_exp :: "bike_build \<Rightarrow> bike_params \<Rightarrow> u64 list \<Rightarrow> u64 list \<Rightarrow> nat \<Rightarrow> nat \<Rightarrow> u64 list \<Rightarrow> u64 list \<times> u64 list" where
  "inv_exp B q g f k l sec_buf =
     (if k \<le> K_SQR_THR then repeated_squaring B q g f k sec_buf else (k_sqr_port q g f l, sec_buf))"

record inv_state =
  inv_f :: "u64 list"
  inv_g :: "u64 list"
  inv_t :: "u64 list"
  inv_buf :: "u64 list"

definition inv_step :: "bike_build \<Rightarrow> bike_params \<Rightarrow> nat \<Rightarrow> inv_state \<Rightarrow> inv_state option" where
  "inv_step B q i s =
     (let (g, buf) = inv_exp B q (inv_g s) (inv_f s) (EXP0_K_VALS q ! (i - 1)) (EXP0_L_VALS q ! (i - 1)) (inv_buf s)
      in do { f \<leftarrow> gf2x_mod_mul_with_ctx B q (inv_f s) g (inv_f s);
              if EXP1_K_VALS q ! i \<noteq> 0
              then (let (g, buf) = inv_exp B q g f (EXP1_K_VALS q ! i) (EXP1_L_VALS q ! i) buf
                    in do { t \<leftarrow> gf2x_mod_mul_with_ctx B q (inv_t s) g (inv_t s);
                            Some \<lparr>inv_f = f, inv_g = g, inv_t = t, inv_buf = buf\<rparr> })
              else Some \<lparr>inv_f = f, inv_g = g, inv_t = inv_t s, inv_buf = buf\<rparr> })"

definition gf2x_mod_inv :: "bike_build \<Rightarrow> bike_params \<Rightarrow> u64 list \<Rightarrow> u64 list \<Rightarrow> u64 list option" where
  "gf2x_mod_inv B q c a =
     (let s = \<lparr>inv_f = set_pad_val (pad_zero q) (pad_val q a), inv_g = pad_zero q,
               inv_t = set_pad_val (pad_zero q) (pad_val q a), inv_buf = replicate (2 * R_PADDED_QWORDS q) 0\<rparr>
      in do { s \<leftarrow> for_range 1 (MAX_I q) (\<lambda>i s. Option.bind s (inv_step B q i)) (Some s);
              let (t, buf) = gf2x_mod_sqr_in_place B q (inv_t s, inv_buf s)
              in Some (set_pad_val c (pad_val q t)) })"

subsection \<open>Copies of \<open>val\<close>\<close>

lemma R_BYTES_facts:
  assumes "q \<in> set bike_levels"
  shows "0 < R_BYTES q" and "R_BYTES q \<le> 8 * R_PADDED_QWORDS q" and "R_BITS q \<le> 8 * R_BYTES q"
    and "R_BITS q = 8 * (R_BYTES q - 1) + LAST_R_BYTE_LEAD q" and "0 < LAST_R_BYTE_LEAD q" and "LAST_R_BYTE_LEAD q < 8"
    and "8 * R_BYTES q \<le> 64 * R_QWORDS q"
  using assms by (elim bike_level_cases; simp add: bike_sizes)+

lemma bval_pad_val: "pad_ok q a \<Longrightarrow> q \<in> set bike_levels \<Longrightarrow> bval (pad_val q a) = qval a"
  using pow2_mono [OF pad_okD(2) R_BYTES_facts(3)] by (simp add: pad_val_def bval_take take_bit_nat_eq_self_iff)

lemma length_pad_val [simp]: "pad_ok q a \<Longrightarrow> q \<in> set bike_levels \<Longrightarrow> length (pad_val q a) = R_BYTES q"
  using R_BYTES_facts(2) by (simp add: pad_val_def pad_okD)

lemma set_pad_val_correct:
  assumes q: "q \<in> set bike_levels" and c: "pad_ok q c" and v: "length v = R_BYTES q" "bval v < 2 ^ R_BITS q"
  shows "pad_ok q (set_pad_val c v)" and "qval (set_pad_val c v) = bval v"
proof -
  let ?b = "bytes_of_lanes c" and ?n = "R_BYTES q"
  have l: "length ?b = 8 * R_PADDED_QWORDS q" using pad_okD(1) [OF c] by simp
  have "qval c < 2 ^ (8 * ?n)" using pow2_mono [OF pad_okD(2) [OF c] R_BYTES_facts(3) [OF q]] .
  have z: "bval (drop ?n ?b) = 0"
  proof (rule bit_eqI)
    fix k
    have "bit (bval (drop ?n ?b)) k \<Longrightarrow> bit (bval ?b) (8 * ?n + k)"
      using R_BYTES_facts(2) [OF q] l by (simp only: bit_bval) auto
    then show "bit (bval (drop ?n ?b)) k = bit (0 :: nat) k"
      using bit_lt_nat [OF \<open>qval c < 2 ^ (8 * ?n)\<close>, of "8 * ?n + k"] by auto
  qed
  have "bval (memcpy ?b 0 v) = bval v" by (simp add: memcpy_def bval_append v z)
  moreover have "length (memcpy ?b 0 v) = 8 * R_PADDED_QWORDS q" using R_BYTES_facts(2) [OF q] l v by (simp add: memcpy_def)
  ultimately show "qval (set_pad_val c v) = bval v" "pad_ok q (set_pad_val c v)"
    using v by (simp_all add: set_pad_val_def qval_lanes_over pad_ok_def)
qed

lemma pad_zero_ok [simp]: "pad_ok q (pad_zero q)" "qval (pad_zero q) = 0"
  by (simp_all add: pad_ok_def pad_zero_def)

lemma copy_val:
  assumes "q \<in> set bike_levels" and "pad_ok q c" and "pad_ok q a"
  shows "set_pad_val c (pad_val q a) = a"
proof -
  note v = set_pad_val_correct [OF assms(1,2), of "pad_val q a"]
  have "qval (set_pad_val c (pad_val q a)) = qval a" "pad_ok q (set_pad_val c (pad_val q a))"
    using v assms by (simp_all add: bval_pad_val pad_okD)
  then show ?thesis using assms by (intro qval_eqI) (simp_all add: pad_ok_def)
qed

subsection \<open>The permutation\<close>

lemma bit_and_1_word: "bit (drop_bit m w AND 1 :: u8) n \<longleftrightarrow> n = 0 \<and> bit w m"
  by (auto simp: bit_simps)

lemma bit_shifted_bit: "n < 8 \<Longrightarrow> bit (push_bit j (drop_bit m w AND 1 :: u8)) n \<longleftrightarrow> n = j \<and> bit w m"
  by (simp only: bit_push_bit_iff bit_and_1_word) auto

text \<open>The state of the loops when bit \<open>n\<close> is next.\<close>

definition sqr_upto :: "bike_params \<Rightarrow> bytes \<Rightarrow> nat \<Rightarrow> nat \<Rightarrow> bytes \<times> nat \<Rightarrow> bool" where
  "sqr_upto q v l n s \<longleftrightarrow> snd s = n \<and> length (fst s) = R_BYTES q
     \<and> (\<forall>k. bit (bval (fst s)) k \<longleftrightarrow> k < n \<and> bit (bval v) (l * k mod R_BITS q))"

lemma k_sqr_bit_step:
  assumes q: "q \<in> set bike_levels" and v: "length v = R_BYTES q" and i: "i < R_BYTES q" "j < 8"
    and s: "sqr_upto q v l (8 * i + j) s"
  shows "sqr_upto q v l (8 * i + Suc j) (k_sqr_bit q v l i j s)"
proof -
  let ?p = "l * (8 * i + j) mod R_BITS q"
  let ?b = "drop_bit (?p mod 8) (v ! (?p div 8)) AND 1"
  obtain c where c: "s = (c, 8 * i + j)" "length c = R_BYTES q"
    "\<And>k. bit (bval c) k \<longleftrightarrow> k < 8 * i + j \<and> bit (bval v) (l * k mod R_BITS q)"
    using s by (cases s) (auto simp: sqr_upto_def)
  let ?c = "c[i := c ! i OR push_bit j ?b]"
  have "?p < R_BITS q" using bike_sizes_pos(1) [OF q] by simp
  then have "?p div 8 < length v" using R_BYTES_facts(3) [OF q] v by linarith
  then have p: "bit (bval v) ?p \<longleftrightarrow> bit (v ! (?p div 8)) (?p mod 8)" by (simp add: bit_bval)
  have b: "bit (push_bit j ?b) n \<longleftrightarrow> n = j \<and> bit (bval v) ?p" if "n < 8" for n
    by (simp only: bit_shifted_bit [OF that] p)
  have "bit (bval ?c) k \<longleftrightarrow> k < 8 * i + Suc j \<and> bit (bval v) (l * k mod R_BITS q)" for k
  proof (cases "k = 8 * i + j")
    case True
    then have kd: "k div 8 = i" "k mod 8 = j" using i(2) by simp_all
    moreover have "\<not> bit (c ! i) j" using c(3) [of k] True kd i(1) c(2) by (simp add: bit_bval)
    ultimately have "bit (bval ?c) k \<longleftrightarrow> bit (bval v) ?p"
      using i c(2) by (simp only: bit_bval [of ?c] kd length_list_update nth_list_update_eq bit_or_iff b) simp
    then show ?thesis using True by simp
  next
    case False
    then have "k div 8 = i \<Longrightarrow> k mod 8 \<noteq> j" using div_mult_mod_eq [of k 8] by auto
    then have "bit (bval ?c) k \<longleftrightarrow> bit (bval c) k"
      using i c(2) b [of "k mod 8"] unfolding bit_bval by (cases "k div 8 = i") (simp_all add: bit_or_iff del: push_bit_and)
    then show ?thesis using False c(3) [of k] by auto
  qed
  then show ?thesis using c(1,2) by (simp add: k_sqr_bit_def Let_def sqr_upto_def)
qed

lemma k_sqr_byte:
  assumes "q \<in> set bike_levels" and "length v = R_BYTES q" and "i < R_BYTES q" and "sqr_upto q v l (8 * i) s"
  shows "sqr_upto q v l (8 * Suc i) (for_range 0 8 (k_sqr_bit q v l i) s)"
proof -
  have "sqr_upto q v l (8 * i + 8) (for_range 0 8 (k_sqr_bit q v l i) s)"
  proof (rule for_range_inv [where P = "\<lambda>j. sqr_upto q v l (8 * i + j)"])
    show "sqr_upto q v l (8 * i + 0) s" using assms(4) by simp
  qed (simp, rule k_sqr_bit_step [OF assms(1-3)])
  then show ?thesis by (simp add: add.commute)
qed

lemma k_sqr_port_correct:
  assumes q: "q \<in> set bike_levels" and c: "pad_ok q c" and a: "pad_ok q a"
  shows "pad_ok q (k_sqr_port q c a l)" and "qval (k_sqr_port q c a l) = pperm (R_BITS q) l (qval a)"
proof -
  let ?v = "pad_val q a" and ?n = "R_BYTES q" and ?r = "R_BITS q"
  have v: "length ?v = ?n" "bval ?v = qval a" using a q by (simp_all add: bval_pad_val)
  note bf = R_BYTES_facts [OF q]
  have "sqr_upto q ?v l (8 * 0) (replicate ?n 0, 0)" by (simp add: sqr_upto_def)
  then have "sqr_upto q ?v l (8 * ?n) (for_range 0 ?n (\<lambda>i. for_range 0 8 (k_sqr_bit q ?v l i)) (replicate ?n 0, 0))"
    by - (rule for_range_inv [where P = "\<lambda>i. sqr_upto q ?v l (8 * i)"], simp, assumption, rule k_sqr_byte [OF q v(1)])
  then obtain d where d: "for_range 0 ?n (\<lambda>i. for_range 0 8 (k_sqr_bit q ?v l i)) (replicate ?n 0, 0) = (d, 8 * ?n)"
    "length d = ?n" "\<And>k. bit (bval d) k \<longleftrightarrow> k < 8 * ?n \<and> bit (qval a) (l * k mod ?r)"
    by (cases "for_range 0 ?n (\<lambda>i. for_range 0 8 (k_sqr_bit q ?v l i)) (replicate ?n 0, 0)") (auto simp: sqr_upto_def v(2))
  let ?d = "d[?n - 1 := d ! (?n - 1) AND LAST_R_BYTE_MASK q]"
  have m: "bit (LAST_R_BYTE_MASK q) j \<longleftrightarrow> j < LAST_R_BYTE_LEAD q" if "j < 8" for j
    using that bf(6) by (simp add: LAST_R_BYTE_MASK_def bit_mask_iff flip: mask_eq_exp_minus_1)
  have b: "bit (bval ?d) k \<longleftrightarrow> k < ?r \<and> bit (qval a) (l * k mod ?r)" for k
  proof -
    have "bit (bval ?d) k \<longleftrightarrow> bit (bval d) k \<and> (k div 8 = ?n - 1 \<longrightarrow> k mod 8 < LAST_R_BYTE_LEAD q)"
      using d(2) bf(1) by (auto simp: bit_bval bit_and_iff m nth_list_update)
    also have "\<dots> \<longleftrightarrow> k < ?r \<and> bit (qval a) (l * k mod ?r)"
    proof -
      have "k < 8 * ?n \<and> (k div 8 = ?n - 1 \<longrightarrow> k mod 8 < LAST_R_BYTE_LEAD q) \<longleftrightarrow> k < ?r"
        using bf(1,4,6) div_mult_mod_eq [of k 8] by (cases "k div 8 = ?n - 1") auto
      then show ?thesis by (auto simp: d(3))
    qed
    finally show ?thesis .
  qed
  have e: "bval ?d = pperm ?r l (qval a)" by (rule bit_eqI) (simp only: b bit_pperm)
  have lt: "bval ?d < 2 ^ ?r"
  proof -
    have "take_bit ?r (bval ?d) = bval ?d" by (rule bit_eqI) (simp only: bit_take_bit_iff b, blast)
    then show ?thesis by (simp only: take_bit_nat_eq_self_iff)
  qed
  have "k_sqr_port q c a l = set_pad_val c ?d" by (simp add: k_sqr_port_def Let_def d(1))
  then show "pad_ok q (k_sqr_port q c a l)" "qval (k_sqr_port q c a l) = pperm ?r l (qval a)"
    using set_pad_val_correct [OF q c _ lt] d(2) e by simp_all
qed

subsection \<open>Repeated squaring\<close>

lemma repeated_squaring_correct:
  assumes q: "q \<in> set bike_levels" and B: "build_ok B" and c: "pad_ok q c" and a: "pad_ok q a"
    and buf: "length buf = 2 * R_PADDED_QWORDS q"
  obtains g buf' where "repeated_squaring B q c a n buf = (g, buf')" and "pad_ok q g"
    and "length buf' = 2 * R_PADDED_QWORDS q" and "qval g = ppow (R_BITS q) (qval a) (2 ^ n)"
proof -
  define P where "P n s \<longleftrightarrow> pad_ok q (fst s) \<and> length (snd s :: u64 list) = 2 * R_PADDED_QWORDS q
    \<and> qval (fst s) = ppow (R_BITS q) (qval a) (2 ^ n)" for n s
  have "P n (repeated_squaring B q c a n buf)"
    unfolding repeated_squaring_def copy_val [OF q c a]
  proof (rule for_range_inv [where P = P])
    show "P 0 (a, buf)" using a buf ppow_1 [OF pad_okD(2) [OF a]] by (simp add: P_def)
  next
    fix i s assume s: "P i s"
    obtain g' b' where "gf2x_mod_sqr_in_place B q (fst s, snd s) = (g', b')" "pad_ok q g'" "length b' = 2 * R_PADDED_QWORDS q"
      "qval g' = pmul (R_BITS q) (qval (fst s)) (qval (fst s))"
      using gf2x_mod_sqr_in_place_correct [OF q B, of "fst s" "snd s"] s by (auto simp: P_def)
    then show "P (Suc i) (gf2x_mod_sqr_in_place B q s)" using s by (simp add: P_def ppow_twice del: ppow.simps)
  qed simp
  then show ?thesis using that by (cases "repeated_squaring B q c a n buf") (auto simp: P_def)
qed

subsection \<open>The tables\<close>

text \<open>Powers of two modulo \<open>r\<close> by repeated squaring, to check the tables.\<close>

definition sqm :: "nat \<Rightarrow> bool \<Rightarrow> nat \<Rightarrow> nat" where
  "sqm r b h = (if b then 2 * h * h else h * h) mod r"

function p2m :: "nat \<Rightarrow> nat \<Rightarrow> nat" where
  "p2m r n = (if n = 0 then 1 mod r else sqm r (odd n) (p2m r (n div 2)))"
  by pat_completeness auto
termination by (relation "measure snd") auto

declare p2m.simps [simp del]

lemma sqm_mod: "sqm r b (h mod r) = sqm r b h"
  by (simp add: sqm_def mod_mult_eq mult.assoc) (metis mod_mult_eq mod_mult_right_eq)

lemma p2m_eq: "p2m r n = 2 ^ n mod r"
proof (induction n rule: less_induct)
  case (less n)
  show ?case
  proof (cases "n = 0")
    case False
    then have IH: "p2m r (n div 2) = 2 ^ (n div 2) mod r" by (intro less) simp
    let ?h = "2 ^ (n div 2) :: nat"
    have n: "2 ^ n = (if odd n then 2 * ?h * ?h else ?h * ?h)"
      by (cases "odd n") (auto elim!: oddE evenE simp: mult_2 power_add distrib_right)
    have "p2m r n = sqm r (odd n) ?h" using False by (simp add: p2m.simps [of r n] IH sqm_mod)
    then show ?thesis by (simp only: sqm_def n)
  qed (simp add: p2m.simps)
qed

lemma p2m_0: "p2m r 0 = 1 mod r"
  by (subst p2m.simps) simp

lemma p2m_1: "p2m r (Suc 0) = sqm r True (1 mod r)"
  by (subst p2m.simps) (simp add: p2m_0)

lemma p2m_numeral: "p2m r (numeral m) = sqm r (odd (numeral m :: nat)) (p2m r (numeral m div 2))"
  by (subst p2m.simps) simp

lemmas p2m_numerals = p2m_0 p2m_1 p2m_numeral

lemma inv_tables_k:
  assumes "q \<in> set bike_levels"
  shows "EXP0_K_VALS q = map (\<lambda>i. 2 ^ i) [0..<MAX_I q]"
    and "EXP1_K_VALS q = map (\<lambda>i. if odd ((R_BITS q - 2) div 2 ^ i) then (R_BITS q - 2) mod 2 ^ i else 0) [0..<MAX_I q]"
    and "R_BITS q - 2 < 2 ^ MAX_I q" and "1 < MAX_I q"
  using assms
  by (elim bike_level_cases; simp add: EXP0_K_VALS_def EXP1_K_VALS_def MAX_I_def bike_l1_def bike_l3_def bike_l5_def upt_rec)+

text \<open>The entries of the tables of permutations are the inverses of \<open>2^k\<close>.\<close>

lemma inv_tables_l:
  assumes "q \<in> set bike_levels"
  shows "list_all2 (\<lambda>k l. l * p2m (R_BITS q) k mod R_BITS q = 1) (EXP0_K_VALS q) (EXP0_L_VALS q)"
    and "list_all2 (\<lambda>k l. k \<noteq> 0 \<longrightarrow> l * p2m (R_BITS q) k mod R_BITS q = 1) (EXP1_K_VALS q) (EXP1_L_VALS q)"
  using assms
  by (elim bike_level_cases; simp add: EXP0_K_VALS_def EXP1_K_VALS_def EXP0_L_VALS_def EXP1_L_VALS_def bike_l1_def bike_l3_def bike_l5_def
      p2m_numerals sqm_def)+

lemma fermat_levels: "q \<in> set bike_levels \<Longrightarrow> 2 ^ (R_BITS q - 1) mod R_BITS q = 1 mod R_BITS q"
  by (subst p2m_eq [symmetric], elim bike_level_cases; simp add: bike_l1_def bike_l3_def bike_l5_def p2m_numerals sqm_def)

subsection \<open>The loop\<close>

definition inv_l :: "bike_params \<Rightarrow> nat \<Rightarrow> nat \<Rightarrow> bool" where
  "inv_l q k l \<longleftrightarrow> l * 2 ^ k mod R_BITS q = 1"

lemma inv_tables_inverse:
  assumes q: "q \<in> set bike_levels" and i: "i < MAX_I q"
  shows "inv_l q (EXP0_K_VALS q ! i) (EXP0_L_VALS q ! i)"
    and "EXP1_K_VALS q ! i \<noteq> 0 \<Longrightarrow> inv_l q (EXP1_K_VALS q ! i) (EXP1_L_VALS q ! i)"
proof -
  have l: "length (EXP0_K_VALS q) = MAX_I q" "length (EXP1_K_VALS q) = MAX_I q"
    by (simp_all add: inv_tables_k(1,2) [OF q])
  show "inv_l q (EXP0_K_VALS q ! i) (EXP0_L_VALS q ! i)"
    using list_all2_nthD [OF inv_tables_l(1) [OF q], of i] i l by (simp add: inv_l_def p2m_eq mod_mult_right_eq)
  show "EXP1_K_VALS q ! i \<noteq> 0 \<Longrightarrow> inv_l q (EXP1_K_VALS q ! i) (EXP1_L_VALS q ! i)"
    using list_all2_nthD [OF inv_tables_l(2) [OF q], of i] i l by (simp add: inv_l_def p2m_eq mod_mult_right_eq)
qed

lemma inv_exp_correct:
  assumes q: "q \<in> set bike_levels" and B: "build_ok B" and g: "pad_ok q g" and f: "pad_ok q f"
    and buf: "length buf = 2 * R_PADDED_QWORDS q" and l: "inv_l q k l"
  obtains g' buf' where "inv_exp B q g f k l buf = (g', buf')" and "pad_ok q g'"
    and "length buf' = 2 * R_PADDED_QWORDS q" and "qval g' = ppow (R_BITS q) (qval f) (2 ^ k)"
proof (cases "k \<le> K_SQR_THR")
  case True
  obtain g' buf' where "repeated_squaring B q g f k buf = (g', buf')" "pad_ok q g'"
    "length buf' = 2 * R_PADDED_QWORDS q" "qval g' = ppow (R_BITS q) (qval f) (2 ^ k)"
    using repeated_squaring_correct [OF q B g f buf] .
  then show ?thesis using True by (intro that) (simp_all add: inv_exp_def)
next
  case False
  have "ppow (R_BITS q) (qval f) (2 ^ k) = pperm (R_BITS q) l (qval f)"
    using l bike_sizes_pos [OF q] pad_okD(2) [OF f] by (intro ppow_pow2_perm) (simp_all add: inv_l_def)
  then show ?thesis using False k_sqr_port_correct [OF q g f, of l] buf by (intro that) (simp_all add: inv_exp_def)
qed

lemma ppow_chain:
  "pmul r (ppow r (ppow r a (2 ^ m - 1)) (2 ^ k)) (ppow r a (2 ^ k - 1)) = ppow r a (2 ^ (m + k) - 1)"
proof -
  have "(2 ^ m - 1) * 2 ^ k + (2 ^ k - 1) = 2 ^ (m + k) - (1 :: nat)"
    by (simp add: diff_mult_distrib power_add)
  then show ?thesis by (simp only: ppow_mult flip: ppow_add)
qed

text \<open>Before iteration \<open>i\<close>: \<open>f = a^(2^(2^(i-1)) - 1)\<close> and \<open>t = a^(2^s - 1)\<close>, with \<open>s\<close> the low \<open>i\<close> bits of \<open>r - 2\<close>.\<close>

definition inv_ok :: "bike_params \<Rightarrow> nat \<Rightarrow> nat \<Rightarrow> inv_state \<Rightarrow> bool" where
  "inv_ok q a i s \<longleftrightarrow> pad_ok q (inv_f s) \<and> pad_ok q (inv_g s) \<and> pad_ok q (inv_t s) \<and> length (inv_buf s) = 2 * R_PADDED_QWORDS q
     \<and> qval (inv_f s) = ppow (R_BITS q) a (2 ^ 2 ^ (i - 1) - 1)
     \<and> qval (inv_t s) = ppow (R_BITS q) a (2 ^ ((R_BITS q - 2) mod 2 ^ i) - 1)"

lemma mod_pow2_Suc: "(x :: nat) mod 2 ^ Suc i = (if odd (x div 2 ^ i) then 2 ^ i else 0) + x mod 2 ^ i"
proof -
  have "x mod (2 ^ i * 2) = 2 ^ i * (x div 2 ^ i mod 2) + x mod 2 ^ i" by (rule mod_mult2_eq)
  then show ?thesis by (cases "odd (x div 2 ^ i)") (auto simp: mult.commute odd_iff_mod_2_eq_one even_iff_mod_2_eq_zero)
qed

lemma inv_step_correct:
  assumes q: "q \<in> set bike_levels" and B: "build_ok B" and i: "1 \<le> i" "i < MAX_I q" and s: "inv_ok q a i s"
  shows "\<exists>s'. inv_step B q i s = Some s' \<and> inv_ok q a (Suc i) s'"
proof -
  let ?r = "R_BITS q" and ?k0 = "EXP0_K_VALS q ! (i - 1)" and ?k1 = "EXP1_K_VALS q ! i"
  note s' = s [unfolded inv_ok_def]
  have f: "pad_ok q (inv_f s)" and g: "pad_ok q (inv_g s)" and t: "pad_ok q (inv_t s)"
    and b: "length (inv_buf s) = 2 * R_PADDED_QWORDS q" using s' by blast+
  have k0: "?k0 = 2 ^ (i - 1)" using i unfolding inv_tables_k(1) [OF q] by simp
  have k1: "?k1 = (if odd ((?r - 2) div 2 ^ i) then (?r - 2) mod 2 ^ i else 0)" using i unfolding inv_tables_k(2) [OF q] by simp
  have "i - 1 < MAX_I q" using i by simp
  then obtain g1 b1 where g1: "inv_exp B q (inv_g s) (inv_f s) ?k0 (EXP0_L_VALS q ! (i - 1)) (inv_buf s) = (g1, b1)"
      "pad_ok q g1" "length b1 = 2 * R_PADDED_QWORDS q" "qval g1 = ppow ?r (qval (inv_f s)) (2 ^ ?k0)"
    using inv_exp_correct [OF q B g f b inv_tables_inverse(1) [OF q]] by blast
  obtain f1 where f1: "gf2x_mod_mul_with_ctx B q (inv_f s) g1 (inv_f s) = Some f1" "pad_ok q f1"
      "qval f1 = pmul ?r (qval g1) (qval (inv_f s))"
    using gf2x_mod_mul_with_ctx_correct [OF q B g1(2) f pad_okD(1) [OF f]] .
  have "2 ^ (i - 1) + 2 ^ (i - 1) = (2 :: nat) ^ i" using i(1) by (cases i) simp_all
  then have vf: "qval f1 = ppow ?r a (2 ^ 2 ^ i - 1)"
    using s' by (simp only: f1(3) g1(4) k0 ppow_chain)
  show ?thesis
  proof (cases "?k1 = 0")
    case True
    then have "\<not> odd ((?r - 2) div 2 ^ i) \<or> (?r - 2) mod 2 ^ i = 0" using k1 by (auto split: if_splits)
    moreover have "(?r - 2) mod 2 ^ i \<noteq> 0"
    proof
      assume "(?r - 2) mod 2 ^ i = 0"
      then have "2 ^ i dvd ?r - 2" by (rule dvd_eq_mod_eq_0 [THEN iffD2])
      moreover have "(2 :: nat) dvd 2 ^ i" using i(1) by simp
      ultimately have "2 dvd ?r - 2" by (rule dvd_trans [rotated])
      then show False using bike_sizes_pos(2,3) [OF q] by presburger
    qed
    ultimately have "(?r - 2) mod 2 ^ Suc i = (?r - 2) mod 2 ^ i" unfolding mod_pow2_Suc by simp
    then show ?thesis using True f1 g1 vf t s' by (simp add: inv_step_def inv_ok_def)
  next
    case False
    then have o': "odd ((?r - 2) div 2 ^ i)" and k: "?k1 = (?r - 2) mod 2 ^ i" using k1 by (auto split: if_splits)
    obtain g2 b2 where g2: "inv_exp B q g1 f1 ?k1 (EXP1_L_VALS q ! i) b1 = (g2, b2)"
        "pad_ok q g2" "length b2 = 2 * R_PADDED_QWORDS q" "qval g2 = ppow ?r (qval f1) (2 ^ ?k1)"
      using inv_exp_correct [OF q B g1(2) f1(2) g1(3) inv_tables_inverse(2) [OF q i(2) False]] .
    obtain t2 where t2: "gf2x_mod_mul_with_ctx B q (inv_t s) g2 (inv_t s) = Some t2" "pad_ok q t2"
        "qval t2 = pmul ?r (qval g2) (qval (inv_t s))"
      using gf2x_mod_mul_with_ctx_correct [OF q B g2(2) t pad_okD(1) [OF t]] .
    have "qval t2 = ppow ?r a (2 ^ (2 ^ i + ?k1) - 1)"
      using s' unfolding k by (simp only: t2(3) g2(4) vf k ppow_chain)
    moreover have "2 ^ i + ?k1 = (?r - 2) mod 2 ^ Suc i" using o' unfolding mod_pow2_Suc k by simp
    ultimately show ?thesis using False f1 g1(1) g2 t2 vf by (simp add: inv_step_def inv_ok_def)
  qed
qed

text \<open>The result is the power of exponent \<open>2^(r-1) - 2\<close>.\<close>

lemma gf2x_mod_inv_power:
  assumes q: "q \<in> set bike_levels" and B: "build_ok B" and a: "pad_ok q a" and c: "pad_ok q c"
  obtains c' where "gf2x_mod_inv B q c a = Some c'" and "pad_ok q c'"
    and "qval c' = ppow (R_BITS q) (qval a) (2 ^ (R_BITS q - 1) - 2)"
proof -
  let ?r = "R_BITS q" and ?n = "MAX_I q"
  let ?s = "\<lparr>inv_f = a, inv_g = pad_zero q, inv_t = a, inv_buf = replicate (2 * R_PADDED_QWORDS q) 0\<rparr>"
  let ?P = "\<lambda>i s. \<exists>s'. s = Some s' \<and> inv_ok q (qval a) i s'"
  have "?P ?n (for_range 1 ?n (\<lambda>i s. Option.bind s (inv_step B q i)) (Some ?s))"
  proof (rule for_range_inv [where P = ?P])
    show "1 \<le> ?n" using inv_tables_k(4) [OF q] by simp
    have "(?r - 2) mod 2 ^ 1 = 1" using bike_sizes_pos(2,3) [OF q] by simp presburger
    moreover have "ppow ?r (qval a) (2 ^ 1 - 1) = qval a" using ppow_1 [OF pad_okD(2) [OF a]] by simp
    ultimately show "?P 1 (Some ?s)" using a by (simp only: inv_ok_def option.inject ex_simps) simp
  next
    fix i s assume "1 \<le> i" "i < ?n" "?P i s"
    then show "?P (Suc i) (Option.bind s (inv_step B q i))" using inv_step_correct [OF q B] by auto
  qed
  then obtain s' where s': "for_range 1 ?n (\<lambda>i s. Option.bind s (inv_step B q i)) (Some ?s) = Some s'" "inv_ok q (qval a) ?n s'"
    by blast
  have t: "pad_ok q (inv_t s')" "length (inv_buf s') = 2 * R_PADDED_QWORDS q"
    and vt: "qval (inv_t s') = ppow ?r (qval a) (2 ^ (?r - 2) - 1)"
    using s'(2) inv_tables_k(3) [OF q] by (simp_all add: inv_ok_def)
  obtain t' b' where t': "gf2x_mod_sqr_in_place B q (inv_t s', inv_buf s') = (t', b')" "pad_ok q t'"
      "qval t' = pmul ?r (qval (inv_t s')) (qval (inv_t s'))"
    using gf2x_mod_sqr_in_place_correct [OF q B t] by metis
  have "?r - 1 = Suc (?r - 2)" using bike_sizes_pos(3) [OF q] by simp
  then have "2 * (2 ^ (?r - 2) - 1) = 2 ^ (?r - 1) - (2 :: nat)" by simp
  then have "qval t' = ppow ?r (qval a) (2 ^ (?r - 1) - 2)" by (simp only: t'(3) vt flip: ppow_twice)
  moreover have "gf2x_mod_inv B q c a = Some t'"
    using s'(1) t' by (simp add: gf2x_mod_inv_def Let_def copy_val [OF q _ a] copy_val [OF q c])
  ultimately show ?thesis using t'(2) by (intro that)
qed

lemma gf2x_mod_inv_inverse:
  assumes q: "q \<in> set bike_levels" and B: "build_ok B" and a: "pad_ok q a" and c: "pad_ok q c"
    and b: "pmul (R_BITS q) (qval a) b = 1"
  obtains c' where "gf2x_mod_inv B q c a = Some c'" and "pad_ok q c'" and "pmul (R_BITS q) (qval a) (qval c') = 1"
  using gf2x_mod_inv_power [OF q B a c] ppow_inverse [OF _ fermat_levels [OF q] _ pad_okD(2) [OF a] b] bike_sizes_pos(2,3) [OF q]
  by metis

end
