(* ===== verification/Bike_Decode.thy ===== *)
theory Bike_Decode
  imports Bike_Inv
begin

text \<open>
  The decoder of BIKE: the rotation, the duplication and the bit-sliced counters of \<open>decode_portable.c\<close>, in the portable
  and in the SVE2 build, and the Black-Gray-Flip decoder of \<open>decode.c\<close>.  A \<open>syndrome_t\<close> is its \<open>3 * R_QWORDS\<close> words, an
  \<open>upc_t\<close> the list of its slices.
\<close>

subsection \<open>Rotation\<close>

definition UPTOPOW2_0 :: "nat \<Rightarrow> nat" where
  "UPTOPOW2_0 v = v - 1"

definition UPTOPOW2_1 :: "nat \<Rightarrow> nat" where
  "UPTOPOW2_1 v = (UPTOPOW2_0 v OR drop_bit 1 (UPTOPOW2_0 v))"

definition UPTOPOW2_2 :: "nat \<Rightarrow> nat" where
  "UPTOPOW2_2 v = (UPTOPOW2_1 v OR drop_bit 2 (UPTOPOW2_1 v))"

definition UPTOPOW2_3 :: "nat \<Rightarrow> nat" where
  "UPTOPOW2_3 v = (UPTOPOW2_2 v OR drop_bit 4 (UPTOPOW2_2 v))"

definition UPTOPOW2_4 :: "nat \<Rightarrow> nat" where
  "UPTOPOW2_4 v = (UPTOPOW2_3 v OR drop_bit 8 (UPTOPOW2_3 v))"

definition UPTOPOW2_5 :: "nat \<Rightarrow> nat" where
  "UPTOPOW2_5 v = (UPTOPOW2_4 v OR drop_bit 16 (UPTOPOW2_4 v))"

definition UPTOPOW2 :: "nat \<Rightarrow> nat" where
  "UPTOPOW2 v = UPTOPOW2_5 v + 1"

definition R_QWORDS_HALF_LOG2 :: "bike_params \<Rightarrow> nat" where
  "R_QWORDS_HALF_LOG2 q = UPTOPOW2 (R_QWORDS q div 2)"

text \<open>\<open>((uint32_t)secure_l32_mask(qw_num, idx) + 1U) - 1ULL\<close>.\<close>

definition rotr_mask :: "nat \<Rightarrow> nat \<Rightarrow> u64" where
  "rotr_mask qw_num idx = ucast (secure_l32_mask (of_nat qw_num) (of_nat idx) + 1 :: u32) - 1"

text \<open>The loop \<open>for (idx = n; idx >= 1; idx >>= 1)\<close>.\<close>

function for_halving :: "(nat \<Rightarrow> 's \<Rightarrow> 's) \<Rightarrow> nat \<Rightarrow> 's \<Rightarrow> 's" where
  "for_halving f idx s = (if idx = 0 then s else for_halving f (idx div 2) (f idx s))"
  by pat_completeness auto
termination by (relation "measure (\<lambda>(f, idx, s). idx)") auto

declare for_halving.simps [simp del]

definition rotr_big_step :: "bike_params \<Rightarrow> nat \<Rightarrow> nat \<times> u64 list \<Rightarrow> nat \<times> u64 list" where
  "rotr_big_step q idx = (\<lambda>(qw_num, out).
     let mask = rotr_mask qw_num idx;
         qw_num = qw_num - unat (of_nat idx AND mask)
     in (qw_num, for_range 0 (R_QWORDS q + idx) (\<lambda>i out. out[i := (out ! i AND NOT mask) OR (out ! (i + idx) AND mask)]) out))"

definition rotr_big :: "bike_params \<Rightarrow> u64 list \<Rightarrow> nat \<Rightarrow> u64 list" where
  "rotr_big q inp qw_num = snd (for_halving (rotr_big_step q) (R_QWORDS_HALF_LOG2 q) (qw_num, inp))"

text \<open>The call is in place, \<open>rotr_small(out, out, bits)\<close>.\<close>

definition rotr_small :: "bike_params \<Rightarrow> u64 list \<Rightarrow> nat \<Rightarrow> u64 list" where
  "rotr_small q s bits =
     (let mask = 0 - (if bits \<noteq> 0 then 1 else 0) :: u64;
          high_shift = (64 - of_nat bits) AND mask
      in for_range 0 (R_QWORDS q) (\<lambda>i s.
           let low_part = drop_bit bits (s ! i);
               high_part = push_bit (unat high_shift) (s ! (i + 1)) AND mask
           in s[i := low_part OR high_part]) s)"

subsection \<open>Rotation with vectors\<close>

definition svlsr :: "u64 list \<Rightarrow> u64 list \<Rightarrow> u64 list" where
  "svlsr a s = map2 (\<lambda>x n. drop_bit (unat n) x) a s"

definition svlsl :: "u64 list \<Rightarrow> u64 list \<Rightarrow> u64 list" where
  "svlsl a s = map2 (\<lambda>x n. push_bit (unat n) x) a s"

definition svand :: "u64 list \<Rightarrow> u64 list \<Rightarrow> u64 list" where
  "svand a b = map2 (AND) a b"

definition svorr :: "u64 list \<Rightarrow> u64 list \<Rightarrow> u64 list" where
  "svorr a b = map2 (OR) a b"

definition svcmpne_n :: "u64 list \<Rightarrow> u64 \<Rightarrow> svbool" where
  "svcmpne_n a n = map (\<lambda>x. x \<noteq> n) a"

text \<open>\<open>for (; i + step <= limit; i += step)\<close>, with the final value of \<open>i\<close>.\<close>

function for_while :: "nat \<Rightarrow> nat \<Rightarrow> (nat \<Rightarrow> 's \<Rightarrow> 's) \<Rightarrow> nat \<Rightarrow> 's \<Rightarrow> nat \<times> 's" where
  "for_while step limit f i s = (if 0 < step \<and> i + step \<le> limit then for_while step limit f (i + step) (f i s) else (i, s))"
  by pat_completeness auto
termination by (relation "measure (\<lambda>(step, limit, f, i, s). limit - i)") auto

declare for_while.simps [simp del]

definition rotr_big_step_sve :: "nat \<Rightarrow> bike_params \<Rightarrow> nat \<Rightarrow> nat \<times> u64 list \<Rightarrow> nat \<times> u64 list" where
  "rotr_big_step_sve vl q idx = (\<lambda>(qw_num, ptr).
     let ptrue = svptrue vl;
         vl2 = vl * 2;
         mask_val = rotr_mask qw_num idx;
         qw_num = qw_num - unat (of_nat idx AND mask_val);
         p_swap = svcmpne_n (svdup vl mask_val) 0;
         limit = R_QWORDS q + idx;
         (i, ptr) = for_while vl2 limit (\<lambda>i ptr.
            let v_out0 = svld1 ptrue ptr i;
                v_out_idx0 = svld1 ptrue ptr (i + idx);
                v_out1 = svld1 ptrue ptr (i + vl);
                v_out_idx1 = svld1 ptrue ptr (i + vl + idx);
                v_res0 = svsel p_swap v_out_idx0 v_out0;
                v_res1 = svsel p_swap v_out_idx1 v_out1;
                ptr = svst1 ptrue ptr i v_res0
            in svst1 ptrue ptr (i + vl) v_res1) 0 ptr;
         (i, ptr) = for_while vl limit (\<lambda>i ptr.
            let v_out = svld1 ptrue ptr i;
                v_out_idx = svld1 ptrue ptr (i + idx);
                v_res = svsel p_swap v_out_idx v_out
            in svst1 ptrue ptr i v_res) i ptr
     in (qw_num, if i < limit
         then (let pg = svwhilelt vl i limit;
                   v_out = svld1 pg ptr i;
                   v_out_idx = svld1 pg ptr (i + idx);
                   v_res = svsel p_swap v_out_idx v_out
               in svst1 pg ptr i v_res)
         else ptr))"

definition rotr_big_sve :: "nat \<Rightarrow> bike_params \<Rightarrow> u64 list \<Rightarrow> nat \<Rightarrow> u64 list" where
  "rotr_big_sve vl q inp qw_num = snd (for_halving (rotr_big_step_sve vl q) (R_QWORDS_HALF_LOG2 q) (qw_num, inp))"

definition rotr_small_sve :: "nat \<Rightarrow> bike_params \<Rightarrow> u64 list \<Rightarrow> nat \<Rightarrow> u64 list" where
  "rotr_small_sve vl q s bits =
     (let bit_mask_val = - (if bits \<noteq> 0 then 1 else 0) :: u64;
          hi_shift_val = (64 - of_nat bits) AND bit_mask_val;
          v_bit_shift = svdup vl (of_nat bits);
          v_hi_shift = svdup vl hi_shift_val;
          v_mask = svdup vl bit_mask_val;
          ptrue = svptrue vl;
          vl2 = vl * 2;
          limit = R_QWORDS q;
          (i, s) = for_while vl2 limit (\<lambda>i s.
            let v0_0 = svld1 ptrue s i;
                v1_0 = svld1 ptrue s (i + 1);
                v0_1 = svld1 ptrue s (i + vl);
                v1_1 = svld1 ptrue s (i + vl + 1);
                lo0 = svlsr v0_0 v_bit_shift;
                hi0 = svand (svlsl v1_0 v_hi_shift) v_mask;
                lo1 = svlsr v0_1 v_bit_shift;
                hi1 = svand (svlsl v1_1 v_hi_shift) v_mask;
                res0 = svorr lo0 hi0;
                res1 = svorr lo1 hi1;
                s = svst1 ptrue s i res0
            in svst1 ptrue s (i + vl) res1) 0 s;
          (i, s) = for_while vl limit (\<lambda>i s.
            let v0 = svld1 ptrue s i;
                v1 = svld1 ptrue s (i + 1);
                lo = svlsr v0 v_bit_shift;
                hi = svand (svlsl v1 v_hi_shift) v_mask;
                res = svorr lo hi
            in svst1 ptrue s i res) i s
      in if i < limit
         then (let pg = svwhilelt vl i limit;
                   v0 = svld1 pg s i;
                   v1 = svld1 pg s (i + 1);
                   lo = svlsr v0 v_bit_shift;
                   hi = svand (svlsl v1 v_hi_shift) v_mask;
                   res = svorr lo hi
               in svst1 pg s i res)
         else s)"

definition rotate_right :: "bike_build \<Rightarrow> bike_params \<Rightarrow> u64 list \<Rightarrow> nat \<Rightarrow> u64 list" where
  "rotate_right B q inp bitscount = (case B of
     Portable \<Rightarrow> rotr_small q (rotr_big q inp (bitscount div 64)) (bitscount mod 64)
   | Sve2 vl \<Rightarrow> rotr_small_sve vl q (rotr_big_sve vl q inp (bitscount div 64)) (bitscount mod 64))"

subsection \<open>Duplication and the counters\<close>

definition dup_port :: "bike_params \<Rightarrow> u64 list \<Rightarrow> u64 list" where
  "dup_port q s =
     (let s = s[R_QWORDS q - 1 := push_bit (LAST_R_QWORD_LEAD q) (s ! 0) OR (s ! (R_QWORDS q - 1) AND LAST_R_QWORD_MASK q)]
      in for_range 0 (2 * R_QWORDS q - 1) (\<lambda>i s.
           s[R_QWORDS q + i := drop_bit (LAST_R_QWORD_TRAIL q) (s ! i) OR push_bit (LAST_R_QWORD_LEAD q) (s ! (i + 1))]) s)"

definition adder_word :: "nat \<Rightarrow> nat \<Rightarrow> u64 list list \<times> u64 list \<Rightarrow> u64 list list \<times> u64 list" where
  "adder_word j i = (\<lambda>(upc, rotated_syndrome).
     let carry = upc ! j ! i AND rotated_syndrome ! i;
         upc = upc[j := (upc ! j)[i := upc ! j ! i XOR rotated_syndrome ! i]]
     in (upc, rotated_syndrome[i := carry]))"

definition bit_sliced_adder_port ::
    "bike_params \<Rightarrow> u64 list list \<times> u64 list \<Rightarrow> nat \<Rightarrow> u64 list list \<times> u64 list" where
  "bit_sliced_adder_port q s num_of_slices =
     for_range 0 num_of_slices (\<lambda>j. for_range 0 (R_QWORDS q) (adder_word j)) s"

definition subtract_word :: "nat \<Rightarrow> u64 \<Rightarrow> nat \<Rightarrow> u64 list list \<times> u64 list \<Rightarrow> u64 list list \<times> u64 list" where
  "subtract_word j lsb_mask i = (\<lambda>(upc, br).
     let a = upc ! j ! i;
         b = lsb_mask;
         tmp = ((NOT a) AND b AND (NOT (br ! i))) OR ((((NOT a) OR b) AND br ! i));
         upc = upc[j := (upc ! j)[i := a XOR b XOR br ! i]]
     in (upc, br[i := tmp]))"

definition bit_slice_full_subtract_port :: "bike_params \<Rightarrow> u64 list list \<Rightarrow> u8 \<Rightarrow> u64 list list" where
  "bit_slice_full_subtract_port q upc val =
     fst (fst (for_range 0 (SLICES q) (\<lambda>j (s, val).
            let lsb_mask = 0 - ucast (val AND 1)
            in (for_range 0 (R_QWORDS q) (subtract_word j lsb_mask) s, drop_bit 1 val))
          ((upc, replicate (R_QWORDS q) 0), val)))"

subsection \<open>Syndrome and threshold\<close>

text \<open>\<open>__builtin_popcount\<close> of a byte.\<close>

definition popcount8 :: "u8 \<Rightarrow> nat" where
  "popcount8 x = length (filter (bit x) [0..<8])"

definition r_bits_vector_weight :: "bike_params \<Rightarrow> bytes \<Rightarrow> u64" where
  "r_bits_vector_weight q raw =
     (let acc = for_range 0 (R_BYTES q - 1) (\<lambda>i acc. acc + of_nat (popcount8 (raw ! i))) 0
      in acc + of_nat (popcount8 (raw ! (R_BYTES q - 1) AND LAST_R_BYTE_MASK q)))"

text \<open>
  \<open>junk\<close> is the content of the local variables that the code does not initialise; the product overwrites it.
  \<open>None\<close>: the multiplication does not return.
\<close>

definition compute_syndrome ::
    "bike_build \<Rightarrow> bike_params \<Rightarrow> u64 list \<Rightarrow> u64 list \<Rightarrow> u64 list \<Rightarrow> u64 list \<Rightarrow> u64 list option" where
  "compute_syndrome B q junk syndrome c0 h0 =
     do { pad_s \<leftarrow> gf2x_mod_mul B q junk c0 h0;
          Some (dup_port q (lanes_over (memcpy (bytes_of_lanes syndrome) 0 (pad_val q pad_s)))) }"

definition recompute_syndrome ::
    "bike_build \<Rightarrow> bike_params \<Rightarrow> u64 list \<Rightarrow> u64 list \<Rightarrow> u64 list \<Rightarrow> u64 list \<Rightarrow> u64 list \<Rightarrow> bytes list \<Rightarrow> u64 list option" where
  "recompute_syndrome B q junk syndrome c0 h0 pk e =
     (let e0 = set_pad_val (pad_zero q) (e ! 0);
          e1 = set_pad_val (pad_zero q) (e ! 1)
      in do { tmp_c0 \<leftarrow> gf2x_mod_mul B q junk e1 pk;
              let tmp_c0 = gf2x_mod_add B q tmp_c0 tmp_c0 c0;
              let tmp_c0 = gf2x_mod_add B q tmp_c0 tmp_c0 e0;
              compute_syndrome B q junk syndrome tmp_c0 h0 })"

definition MUL64HIGH :: "u64 \<Rightarrow> u64 \<Rightarrow> u64" where
  "MUL64HIGH a b =
     (let a_lo = a AND 0xffffffff; b_lo = b AND 0xffffffff; a_hi = drop_bit 32 a; b_hi = drop_bit 32 b
      in a_hi * b_hi + drop_bit 32 (a_hi * b_lo + a_lo * b_hi))"

definition get_threshold :: "bike_params \<Rightarrow> u64 list \<Rightarrow> u8" where
  "get_threshold q s =
     (let syndrome_weight = r_bits_vector_weight q (take (R_BYTES q) (bytes_of_lanes s));
          thr = THRESHOLD_COEFF0 q + THRESHOLD_COEFF1 q * syndrome_weight;
          thr = MUL64HIGH thr (THRESHOLD_MUL_CONST q);
          thr = drop_bit (THRESHOLD_SHR_CONST q) thr;
          mask = secure_l32_mask (ucast thr) (THRESHOLD_MIN q);
          thr = (ucast mask AND thr) OR ucast (NOT mask AND THRESHOLD_MIN q)
      in ucast thr)"

subsection \<open>The decoder\<close>

definition DELTA :: nat where
  "DELTA = 3"

definition MAX_IT :: nat where
  "MAX_IT = 5"

definition upc_zero :: "bike_params \<Rightarrow> u64 list list" where
  "upc_zero q = replicate (SLICES q) (replicate (R_PADDED_QWORDS q) 0)"

text \<open>The counters of the unsatisfied parity checks for one half of the key.\<close>

definition count_upc ::
    "bike_build \<Rightarrow> bike_params \<Rightarrow> u64 list \<Rightarrow> u32 list \<Rightarrow> u64 list \<Rightarrow> u64 list list \<times> u64 list" where
  "count_upc B q syndrome wlist rotated_syndrome =
     for_range 0 (par_D q) (\<lambda>j (upc, rotated_syndrome).
       let rotated_syndrome = rotate_right B q syndrome (unat (wlist ! j))
       in bit_sliced_adder_port q (upc, rotated_syndrome) (LOG2_MSB (j + 1))) (upc_zero q, rotated_syndrome)"

definition last_slice :: "bike_params \<Rightarrow> u64 list list \<Rightarrow> bytes" where
  "last_slice q upc = pad_val q (upc ! (SLICES q - 1))"

record dec_state =
  dec_e :: "bytes list"
  dec_black :: "bytes list"
  dec_gray :: "bytes list"

definition mask_last_byte :: "bike_params \<Rightarrow> bytes \<Rightarrow> bytes" where
  "mask_last_byte q b = b[R_BYTES q - 1 := b ! (R_BYTES q - 1) AND LAST_R_BYTE_MASK q]"

definition find_err1_half ::
    "bike_build \<Rightarrow> bike_params \<Rightarrow> u64 list \<Rightarrow> u32 list list \<Rightarrow> u8 \<Rightarrow> nat \<Rightarrow> dec_state \<times> u64 list \<Rightarrow> dec_state \<times> u64 list" where
  "find_err1_half B q syndrome wlist threshold i = (\<lambda>(d, rotated_syndrome).
     let (upc, rotated_syndrome) = count_upc B q syndrome (wlist ! i) rotated_syndrome;
         upc = bit_slice_full_subtract_port q upc threshold;
         (black, e) = for_range 0 (R_BYTES q) (\<lambda>j (black, e).
            let sum_msb = NOT (last_slice q upc ! j)
            in (black[j := sum_msb], e[j := e ! j XOR sum_msb])) (dec_black d ! i, dec_e d ! i);
         e = mask_last_byte q e;
         (upc, rotated_syndrome) = for_range 0 DELTA (\<lambda>_ (upc, rotated_syndrome).
            let rotated_syndrome = lanes_over (memcpy (bytes_of_lanes rotated_syndrome) 0 (replicate (R_BYTES q) 0xff))
            in bit_sliced_adder_port q (upc, rotated_syndrome) (SLICES q)) (upc, rotated_syndrome);
         gray = for_range 0 (R_BYTES q) (\<lambda>j gray.
            let sum_msb = NOT (last_slice q upc ! j)
            in gray[j := NOT (black ! j) AND sum_msb]) (dec_gray d ! i)
     in (\<lparr>dec_e = (dec_e d)[i := e], dec_black = (dec_black d)[i := black], dec_gray = (dec_gray d)[i := gray]\<rparr>, rotated_syndrome))"

definition find_err1 :: "bike_build \<Rightarrow> bike_params \<Rightarrow> u64 list \<Rightarrow> u32 list list \<Rightarrow> u8 \<Rightarrow> dec_state \<Rightarrow> dec_state" where
  "find_err1 B q syndrome wlist threshold d =
     fst (for_range 0 2 (find_err1_half B q syndrome wlist threshold) (d, replicate (3 * R_QWORDS q) 0))"

definition find_err2_half ::
    "bike_build \<Rightarrow> bike_params \<Rightarrow> u64 list \<Rightarrow> u32 list list \<Rightarrow> u8 \<Rightarrow> bytes list \<Rightarrow> nat \<Rightarrow> bytes list \<times> u64 list \<Rightarrow> bytes list \<times> u64 list" where
  "find_err2_half B q syndrome wlist threshold pos_e i = (\<lambda>(es, rotated_syndrome).
     let (upc, rotated_syndrome) = count_upc B q syndrome (wlist ! i) rotated_syndrome;
         upc = bit_slice_full_subtract_port q upc threshold;
         e = for_range 0 (R_BYTES q) (\<lambda>j e.
            let sum_msb = NOT (last_slice q upc ! j)
            in e[j := e ! j XOR (pos_e ! i ! j AND sum_msb)]) (es ! i)
     in (es[i := mask_last_byte q e], rotated_syndrome))"

definition find_err2 :: "bike_build \<Rightarrow> bike_params \<Rightarrow> u64 list \<Rightarrow> u32 list list \<Rightarrow> u8 \<Rightarrow> bytes list \<Rightarrow> bytes list \<Rightarrow> bytes list" where
  "find_err2 B q syndrome wlist threshold pos_e e =
     fst (for_range 0 2 (find_err2_half B q syndrome wlist threshold pos_e) (e, replicate (3 * R_QWORDS q) 0))"

record ct_t =
  ct_c0 :: bytes
  ct_c1 :: bytes

record bike_sk_t =
  sk_wlist :: "u32 list list"
  sk_bin :: "bytes list"
  sk_pk :: bytes
  sk_sigma :: bytes

definition decode_iter ::
    "bike_build \<Rightarrow> bike_params \<Rightarrow> u64 list \<Rightarrow> u32 list list \<Rightarrow> u64 list \<Rightarrow> u64 list \<Rightarrow> u64 list \<Rightarrow> nat
      \<Rightarrow> dec_state \<times> u64 list \<Rightarrow> (dec_state \<times> u64 list) option" where
  "decode_iter B q junk wlist c0 h0 pk iter = (\<lambda>(d, s).
     let threshold = get_threshold q s;
         d = find_err1 B q s wlist threshold d
     in do { s \<leftarrow> recompute_syndrome B q junk s c0 h0 pk (dec_e d);
             if 1 \<le> iter then Some (d, s)
             else do {
               let d = d\<lparr>dec_e := find_err2 B q s wlist (of_nat ((par_D q + 1) div 2 + 1)) (dec_black d) (dec_e d)\<rparr>;
               s \<leftarrow> recompute_syndrome B q junk s c0 h0 pk (dec_e d);
               let d = d\<lparr>dec_e := find_err2 B q s wlist (of_nat ((par_D q + 1) div 2 + 1)) (dec_gray d) (dec_e d)\<rparr>;
               s \<leftarrow> recompute_syndrome B q junk s c0 h0 pk (dec_e d);
               Some (d, s) } })"

definition decode :: "bike_build \<Rightarrow> bike_params \<Rightarrow> u64 list \<Rightarrow> ct_t \<Rightarrow> bike_sk_t \<Rightarrow> bytes list option" where
  "decode B q junk ct sk =
     (let c0 = set_pad_val (pad_zero q) (ct_c0 ct);
          h0 = set_pad_val (pad_zero q) (sk_bin sk ! 0);
          pk = set_pad_val (pad_zero q) (sk_pk sk);
          zeros = replicate 2 (replicate (R_BYTES q) 0)
      in do { s \<leftarrow> compute_syndrome B q junk (replicate (3 * R_QWORDS q) 0) c0 h0;
              let s = dup_port q s;
              (d, s) \<leftarrow> for_range 0 MAX_IT (\<lambda>iter s. Option.bind s (decode_iter B q junk (sk_wlist sk) c0 h0 pk iter))
                         (Some (\<lparr>dec_e = zeros, dec_black = zeros, dec_gray = zeros\<rparr>, s));
              Some (dec_e d) })"

end
