(* ===== verification/Bike_Sampling.thy ===== *)
theory Bike_Sampling
  imports Bike_Decode Sha3_Api
begin

text \<open>
  The sampling of BIKE: the pseudorandom function of \<open>shake_prf.c\<close> and the sampling of indices, keys and error vectors
  of \<open>sampling.c\<close> and \<open>sampling_portable.c\<close>.  A function that returns \<open>FAIL\<close> with \<open>bike_errno\<close> set is \<open>Inl\<close> of that error;
  \<open>READ_PAST_BUFFER\<close> is no code of the source, it marks a read past the end of an object, which has no defined result.
\<close>

datatype bike_err = E_DECODING_FAILURE | E_SHAKE_PRF_INIT_FAIL | E_SHAKE_OVER_USED | EXTERNAL_LIB_ERROR_OPENSSL | READ_PAST_BUFFER

definition GUARD :: "bike_err + 'a \<Rightarrow> ('a \<Rightarrow> bike_err + 'b) \<Rightarrow> bike_err + 'b" where
  "GUARD x f = (case x of Inl e \<Rightarrow> Inl e | Inr a \<Rightarrow> f a)"

lemma GUARD_simps [simp]: "GUARD (Inl e) f = Inl e" "GUARD (Inr a) f = f a"
  by (simp_all add: GUARD_def)

subsection \<open>The pseudorandom function\<close>

record prf_state =
  ps_s :: keccak_ctx
  ps_buffer :: bytes
  ps_pos :: nat
  ps_rem :: nat

definition MAX_PRF_INVOCATION :: nat where
  "MAX_PRF_INVOCATION = 2 ^ 32 - 1"

text \<open>The buffer of the zero-initialised \<open>prf_state\<close> is kept; an allocation of the context that fails ends the process.\<close>

definition init_prf_state :: "(bytes \<Rightarrow> bytes) \<Rightarrow> nat \<Rightarrow> bytes \<Rightarrow> bike_err + prf_state" where
  "init_prf_state perm max_num_invocations seed =
     (if 0 = max_num_invocations then Inl E_SHAKE_PRF_INIT_FAIL
      else Inr \<lparr>ps_s = keccak_inc_finalize SHAKE256_RATE 0x1F (keccak_inc_absorb perm SHAKE256_RATE seed keccak_inc_reset),
                ps_buffer = replicate 136 0, ps_pos = rate_bytes SHAKE256_RATE, ps_rem = max_num_invocations\<rparr>)"

definition get_prf_output :: "(bytes \<Rightarrow> bytes) \<Rightarrow> prf_state \<Rightarrow> nat \<Rightarrow> bike_err + bytes \<times> prf_state" where
  "get_prf_output perm s len =
     (if ps_rem s = 0 then Inl E_SHAKE_OVER_USED
      else if len + ps_pos s \<le> rate_bytes SHAKE256_RATE
      then Inr (seg (ps_buffer s) (ps_pos s) len, s\<lparr>ps_pos := ps_pos s + len\<rparr>)
      else (let (buffer, ctx) = keccak_inc_squeeze perm SHAKE256_RATE (rate_bytes SHAKE256_RATE) (ps_s s)
            in if length buffer < len then Inl READ_PAST_BUFFER
               else Inr (seg buffer 0 len, \<lparr>ps_s = ctx, ps_buffer = buffer, ps_pos = len, ps_rem = ps_rem s - 1\<rparr>)))"

subsection \<open>Uniform bits\<close>

definition NUM_OF_SEEDS :: nat where
  "NUM_OF_SEEDS = 2"

definition SEED_BYTES :: nat where
  "SEED_BYTES = 256 div 8"

text \<open>\<open>get_seeds\<close>, from the \<open>NUM_OF_SEEDS * sizeof(seed_t)\<close> random bytes it asks for.\<close>

definition get_seeds :: "bytes \<Rightarrow> bytes list" where
  "get_seeds random = map (\<lambda>i. seg random (SEED_BYTES * i) SEED_BYTES) [0..<NUM_OF_SEEDS]"

definition make_odd_weight :: "bike_params \<Rightarrow> bytes \<Rightarrow> bytes" where
  "make_odd_weight q r = (if r_bits_vector_weight q r mod 2 = 1 then r else r[0 := r ! 0 XOR 1])"

datatype must_be_odd_t = NO_RESTRICTION | MUST_BE_ODD

definition sample_uniform_r_bits_with_fixed_prf_context ::
    "(bytes \<Rightarrow> bytes) \<Rightarrow> bike_params \<Rightarrow> prf_state \<Rightarrow> must_be_odd_t \<Rightarrow> bike_err + bytes \<times> prf_state" where
  "sample_uniform_r_bits_with_fixed_prf_context perm q prf_state must_be_odd =
     GUARD (get_prf_output perm prf_state (R_BYTES q)) (\<lambda>(r, prf_state).
       let r = r[R_BYTES q - 1 := r ! (R_BYTES q - 1) AND (push_bit (R_BITS q + 8 - R_BYTES q * 8) 1 - 1)];
           r = (if must_be_odd = MUST_BE_ODD then make_odd_weight q r else r)
       in Inr (r, prf_state))"

definition sample_uniform_r_bits :: "(bytes \<Rightarrow> bytes) \<Rightarrow> bike_params \<Rightarrow> bytes \<Rightarrow> must_be_odd_t \<Rightarrow> bike_err + bytes" where
  "sample_uniform_r_bits perm q seed must_be_odd =
     GUARD (init_prf_state perm MAX_PRF_INVOCATION seed) (\<lambda>prf_state.
     GUARD (sample_uniform_r_bits_with_fixed_prf_context perm q prf_state must_be_odd) (\<lambda>(r, prf_state). Inr r))"

subsection \<open>Indices\<close>

definition CWW_RAND_BYTES :: nat where
  "CWW_RAND_BYTES = 4"

definition fy_step ::
    "(bytes \<Rightarrow> bytes) \<Rightarrow> nat \<Rightarrow> u32 \<Rightarrow> nat \<Rightarrow> u32 list \<times> prf_state \<Rightarrow> bike_err + u32 list \<times> prf_state" where
  "fy_step perm num_indices max_idx_val i = (\<lambda>(out, prf_state).
     GUARD (get_prf_output perm prf_state CWW_RAND_BYTES) (\<lambda>(bs, prf_state).
       let rand = lane_of_bytes (memcpy (bytes_of_lane 0) 0 bs);
           rand = rand * (ucast max_idx_val - of_nat i);
           l = (of_nat i + ucast (drop_bit (CWW_RAND_BYTES * 8) rand)) :: u32;
           is_dup = for_range (i + 1) num_indices (\<lambda>j is_dup. is_dup OR secure_cmp32 l (out ! j)) 0;
           mask = - is_dup
       in Inr (out[i := (mask AND of_nat i) XOR (NOT mask AND l)], prf_state)))"

definition sample_indices_fisher_yates ::
    "(bytes \<Rightarrow> bytes) \<Rightarrow> u32 list \<Rightarrow> nat \<Rightarrow> u32 \<Rightarrow> prf_state \<Rightarrow> bike_err + u32 list \<times> prf_state" where
  "sample_indices_fisher_yates perm out num_indices max_idx_val prf_state =
     for_down num_indices (\<lambda>i s. GUARD s (fy_step perm num_indices max_idx_val i)) (Inr (out, prf_state))"

subsection \<open>Setting bits\<close>

text \<open>The difference is an \<open>int32_t\<close>; its shift is arithmetic and both are converted to 64 bits with their sign.\<close>

definition pos_of :: "nat \<Rightarrow> u32 \<Rightarrow> u64 \<times> u64" where
  "pos_of first_pos v =
     (let w = v - of_nat first_pos
      in (scast (signed_drop_bit 6 w), push_bit (unat (scast w AND mask 6 :: u64)) 1))"

definition secure_set_bits_port :: "bike_params \<Rightarrow> u64 list \<Rightarrow> nat \<Rightarrow> u32 list \<Rightarrow> nat \<Rightarrow> u64 list" where
  "secure_set_bits_port q r first_pos wlist w_size =
     (let pos_qw = map (\<lambda>i. fst (pos_of first_pos (wlist ! i))) [0..<w_size];
          pos_bit = map (\<lambda>i. snd (pos_of first_pos (wlist ! i))) [0..<w_size]
      in for_range 0 (R_PADDED_QWORDS q) (\<lambda>i a64.
           let val = for_range 0 w_size (\<lambda>j val.
                 let mask = - 1 + (if secure_cmp32 (ucast (pos_qw ! j)) (of_nat i) = 0 then 1 else 0) :: u64
                 in val OR (pos_bit ! j AND mask)) 0
           in a64[i := val]) r)"

subsection \<open>Keys and errors\<close>

definition generate_sparse_rep_for_sk ::
    "(bytes \<Rightarrow> bytes) \<Rightarrow> bike_params \<Rightarrow> u64 list \<Rightarrow> prf_state \<Rightarrow> bike_err + u64 list \<times> u32 list \<times> prf_state" where
  "generate_sparse_rep_for_sk perm q r prf_state =
     GUARD (sample_indices_fisher_yates perm (replicate (par_D q) 0) (par_D q) (of_nat (R_BITS q)) prf_state)
       (\<lambda>(wlist, prf_state). Inr (secure_set_bits_port q r 0 wlist (par_D q), wlist, prf_state))"

definition generate_secret_key ::
    "(bytes \<Rightarrow> bytes) \<Rightarrow> bike_params \<Rightarrow> u64 list \<Rightarrow> u64 list \<Rightarrow> bytes \<Rightarrow> bike_err + u64 list \<times> u64 list \<times> u32 list \<times> u32 list" where
  "generate_secret_key perm q h0 h1 seed =
     GUARD (init_prf_state perm MAX_PRF_INVOCATION seed) (\<lambda>prf_state.
     GUARD (generate_sparse_rep_for_sk perm q h0 prf_state) (\<lambda>(h0, h0_wlist, prf_state).
     GUARD (generate_sparse_rep_for_sk perm q h1 prf_state) (\<lambda>(h1, h1_wlist, prf_state).
       Inr (h0, h1, h0_wlist, h1_wlist))))"

text \<open>The cleaning of the padding of one half of the error.\<close>

definition clean_pad :: "bike_params \<Rightarrow> u64 list \<Rightarrow> u64 list" where
  "clean_pad q e =
     (let raw = bytes_of_lanes e;
          raw = raw[R_BYTES q - 1 := raw ! (R_BYTES q - 1) AND LAST_R_BYTE_MASK q];
          raw = memcpy raw (R_BYTES q) (replicate (8 * R_PADDED_QWORDS q - R_BYTES q) 0)
      in lanes_over raw)"

text \<open>\<open>wlist\<close> and the error are not initialised (\<open>junk\<close>); every element and every word is written.\<close>

definition generate_error_vector ::
    "(bytes \<Rightarrow> bytes) \<Rightarrow> bike_params \<Rightarrow> u32 list \<Rightarrow> u64 list list \<Rightarrow> bytes \<Rightarrow> bike_err + u64 list list" where
  "generate_error_vector perm q wjunk e seed =
     GUARD (init_prf_state perm MAX_PRF_INVOCATION seed) (\<lambda>prf_state.
     GUARD (sample_indices_fisher_yates perm wjunk (par_T_bike q) (of_nat (N_BITS q)) prf_state) (\<lambda>(wlist, prf_state).
       let e0 = secure_set_bits_port q (e ! 0) 0 wlist (par_T_bike q);
           e1 = secure_set_bits_port q (e ! 1) (R_BITS q) wlist (par_T_bike q)
       in Inr [clean_pad q e0, clean_pad q e1]))"

end
