(* ===== verification/Bike_Kem.thy ===== *)
theory Bike_Kem
  imports Bike_Sampling
begin

text \<open>
  The key encapsulation of BIKE, \<open>kem.c\<close>, with the layout of its packed structures as bytes and its entry points of
  \<open>kem_bike.h\<close>.  A result is \<open>None\<close> when a recursion of the multiplication does not end, \<open>Inl\<close> when the function returns
  \<open>FAIL\<close>.  The random bytes are an argument, and so is the content of the locals that the code does not initialise.
\<close>

definition M_BYTES :: nat where
  "M_BYTES = 256 div 8"

definition SS_BYTES :: nat where
  "SS_BYTES = 256 div 8"

record bike_junk =
  jn_pad :: "u64 list"
  jn_e :: "u64 list list"
  jn_wlist :: "u32 list"
  jn_m :: bytes

subsection \<open>The packed structures\<close>

definition idx_bytes :: "u32 \<Rightarrow> bytes" where
  "idx_bytes w = take 4 (bytes_of_lane (ucast w))"

definition idx_of_bytes :: "bytes \<Rightarrow> u32" where
  "idx_of_bytes b = ucast (lane_of_bytes (b @ replicate 4 0))"

definition sk_bytes :: "bike_sk_t \<Rightarrow> bytes" where
  "sk_bytes sk = concat (map (\<lambda>w. concat (map idx_bytes w)) (sk_wlist sk)) @ concat (sk_bin sk) @ sk_pk sk @ sk_sigma sk"

definition bike_sk_of_bytes :: "bike_params \<Rightarrow> bytes \<Rightarrow> bike_sk_t" where
  "bike_sk_of_bytes q b =
     (let d = par_D q; bin = 8 * d; n = R_BYTES q
      in \<lparr>sk_wlist = map (\<lambda>i. map (\<lambda>j. idx_of_bytes (seg b (4 * (d * i + j)) 4)) [0..<d]) [0..<2],
          sk_bin = map (\<lambda>i. seg b (bin + n * i) n) [0..<2],
          sk_pk = seg b (bin + 2 * n) n,
          sk_sigma = seg b (bin + 3 * n) M_BYTES\<rparr>)"

definition ct_bytes :: "ct_t \<Rightarrow> bytes" where
  "ct_bytes ct = ct_c0 ct @ ct_c1 ct"

definition ct_of_bytes :: "bike_params \<Rightarrow> bytes \<Rightarrow> ct_t" where
  "ct_of_bytes q b = \<lparr>ct_c0 = seg b 0 (R_BYTES q), ct_c1 = seg b (R_BYTES q) M_BYTES\<rparr>"

subsection \<open>The hash functions\<close>

definition sha :: "(bytes \<Rightarrow> bytes) \<Rightarrow> bytes \<Rightarrow> bytes option" where
  "sha perm msg = SHA3_sha3_384 perm True msg"

definition convert_seed_to_m_type :: "bytes \<Rightarrow> bytes" where
  "convert_seed_to_m_type seed = take M_BYTES seed"

definition convert_m_to_seed_type :: "bytes \<Rightarrow> bytes" where
  "convert_m_to_seed_type m = take SEED_BYTES m"

definition function_h :: "(bytes \<Rightarrow> bytes) \<Rightarrow> bike_params \<Rightarrow> bike_junk \<Rightarrow> bytes \<Rightarrow> bike_err + u64 list list" where
  "function_h perm q J m = generate_error_vector perm q (jn_wlist J) (jn_e J) (convert_m_to_seed_type m)"

definition function_l :: "(bytes \<Rightarrow> bytes) \<Rightarrow> bike_params \<Rightarrow> u64 list list \<Rightarrow> bytes option" where
  "function_l perm q e =
     do { dgst \<leftarrow> sha perm (pad_val q (e ! 0) @ pad_val q (e ! 1));
          Some (take M_BYTES dgst) }"

definition function_k :: "(bytes \<Rightarrow> bytes) \<Rightarrow> bytes \<Rightarrow> ct_t \<Rightarrow> bytes option" where
  "function_k perm m ct =
     do { dgst \<leftarrow> sha perm (m @ ct_c0 ct @ ct_c1 ct);
          Some (take SS_BYTES dgst) }"

subsection \<open>Encryption\<close>

definition encrypt ::
    "bike_build \<Rightarrow> (bytes \<Rightarrow> bytes) \<Rightarrow> bike_params \<Rightarrow> u64 list list \<Rightarrow> bytes \<Rightarrow> bytes \<Rightarrow> ct_t option" where
  "encrypt B perm q e pk m =
     (let p_pk = set_pad_val (pad_zero q) pk
      in do { p_ct \<leftarrow> gf2x_mod_mul B q (pad_zero q) (e ! 1) p_pk;
              let p_ct = gf2x_mod_add B q p_ct p_ct (e ! 0);
              c1 \<leftarrow> function_l perm q e;
              let c1 = for_range 0 M_BYTES (\<lambda>i c1. c1[i := c1 ! i XOR m ! i]) c1;
              Some \<lparr>ct_c0 = pad_val q p_ct, ct_c1 = c1\<rparr> })"

text \<open>\<open>svcntb\<close> is the number of bytes of a vector, eight per lane.\<close>

definition reencrypt ::
    "bike_build \<Rightarrow> (bytes \<Rightarrow> bytes) \<Rightarrow> bike_params \<Rightarrow> bytes \<Rightarrow> u64 list list \<Rightarrow> ct_t \<Rightarrow> bytes option" where
  "reencrypt B perm q m e l_ct =
     do { tmp \<leftarrow> function_l perm q e;
          Some (case B of
            Portable \<Rightarrow> for_range 0 M_BYTES (\<lambda>i m. m[i := tmp ! i XOR ct_c1 l_ct ! i]) m
          | Sve2 vl \<Rightarrow> for_step (8 * vl) M_BYTES (\<lambda>i m.
              let pg = svwhilelt (8 * vl) i M_BYTES;
                  v_tmp = svld1 pg tmp i :: u8 list;
                  v_c1 = svld1 pg (ct_c1 l_ct) i;
                  v_out = sveor v_tmp v_c1
              in svst1 pg m i v_out) m) }"

subsection \<open>Key generation, encapsulation, decapsulation\<close>

definition keypair ::
    "bike_build \<Rightarrow> (bytes \<Rightarrow> bytes) \<Rightarrow> bike_params \<Rightarrow> bytes \<Rightarrow> (bike_err + bytes \<times> bytes) option" where
  "keypair B perm q random =
     (let seeds = get_seeds random
      in case generate_secret_key perm q (pad_zero q) (pad_zero q) (seeds ! 0) of
           Inl err \<Rightarrow> Some (Inl err)
         | Inr (h0, h1, w0, w1) \<Rightarrow>
             do { let sigma = convert_seed_to_m_type (seeds ! 1);
                  h0inv \<leftarrow> gf2x_mod_inv B q (pad_zero q) h0;
                  h \<leftarrow> gf2x_mod_mul B q (pad_zero q) h1 h0inv;
                  let l_sk = \<lparr>sk_wlist = [w0, w1], sk_bin = [pad_val q h0, pad_val q h1], sk_pk = pad_val q h, sk_sigma = sigma\<rparr>;
                  Some (Inr (sk_pk l_sk, sk_bytes l_sk)) })"

definition encaps ::
    "bike_build \<Rightarrow> (bytes \<Rightarrow> bytes) \<Rightarrow> bike_params \<Rightarrow> bike_junk \<Rightarrow> bytes \<Rightarrow> bytes \<Rightarrow> (bike_err + bytes \<times> bytes) option" where
  "encaps B perm q J random pk =
     (let l_pk = take (R_BYTES q) pk;
          seeds = get_seeds random;
          m = convert_seed_to_m_type (seeds ! 0)
      in case function_h perm q J m of
           Inl err \<Rightarrow> Some (Inl err)
         | Inr e \<Rightarrow>
             do { l_ct \<leftarrow> encrypt B perm q e l_pk m;
                  l_ss \<leftarrow> function_k perm m l_ct;
                  Some (Inr (ct_bytes l_ct, l_ss)) })"

definition select_m :: "u32 \<Rightarrow> bytes \<Rightarrow> bytes \<Rightarrow> bytes" where
  "select_m success_cond m_prime sigma =
     (let mask = secure_l32_mask 0 success_cond
      in for_range 0 M_BYTES (\<lambda>i m_prime.
           let m_prime = m_prime[i := m_prime ! i AND ucast (NOT mask)]
           in m_prime[i := m_prime ! i OR (ucast mask AND sigma ! i)]) m_prime)"

definition decaps ::
    "bike_build \<Rightarrow> (bytes \<Rightarrow> bytes) \<Rightarrow> bike_params \<Rightarrow> bike_junk \<Rightarrow> bytes \<Rightarrow> bytes \<Rightarrow> (bike_err + bytes) option" where
  "decaps B perm q J ct sk =
     (let l_ct = ct_of_bytes q ct;
          l_sk = bike_sk_of_bytes q sk
      in do { e \<leftarrow> decode B q (jn_pad J) l_ct l_sk;
              let e_prime = [set_pad_val (pad_zero q) (e ! 0), set_pad_val (pad_zero q) (e ! 1)];
              m_prime \<leftarrow> reencrypt B perm q (jn_m J) e_prime l_ct;
              case function_h perm q J m_prime of
                Inl err \<Rightarrow> Some (Inl err)
              | Inr e_tmp \<Rightarrow>
                  (let success_cond = secure_cmp (pad_val q (e_prime ! 0)) (pad_val q (e_tmp ! 0)) (R_BYTES q)
                         AND secure_cmp (pad_val q (e_prime ! 1)) (pad_val q (e_tmp ! 1)) (R_BYTES q);
                       m_prime = select_m success_cond m_prime (sk_sigma l_sk)
                   in do { l_ss \<leftarrow> function_k perm m_prime l_ct; Some (Inr l_ss) }) })"

text \<open>\<open>OQS_STATUS\<close>, and the operations that BIKE does not offer: they leave their outputs alone.\<close>

definition OQS_ERROR :: int where
  "OQS_ERROR = - 1"

definition keypair_derand :: "bytes \<Rightarrow> bytes \<Rightarrow> bytes \<Rightarrow> int \<times> bytes \<times> bytes" where
  "keypair_derand pk sk seed = (OQS_ERROR, pk, sk)"

definition encaps_derand :: "bytes \<Rightarrow> bytes \<Rightarrow> bytes \<Rightarrow> bytes \<Rightarrow> int \<times> bytes \<times> bytes" where
  "encaps_derand ct ss pk seed = (OQS_ERROR, ct, ss)"

subsection \<open>The entry points\<close>

record OQS_KEM =
  method_name :: string
  alg_version :: string
  claimed_nist_level :: nat
  ind_cca :: bool
  length_public_key :: nat
  length_secret_key :: nat
  length_ciphertext :: nat
  length_shared_secret :: nat
  length_keypair_seed :: nat
  length_encaps_seed :: nat
  kem_keypair :: "bytes \<Rightarrow> (bike_err + bytes \<times> bytes) option"
  kem_encaps :: "bike_junk \<Rightarrow> bytes \<Rightarrow> bytes \<Rightarrow> (bike_err + bytes \<times> bytes) option"
  kem_decaps :: "bike_junk \<Rightarrow> bytes \<Rightarrow> bytes \<Rightarrow> (bike_err + bytes) option"

definition OQS_KEM_bike_l1_new :: "bike_build \<Rightarrow> (bytes \<Rightarrow> bytes) \<Rightarrow> bool \<Rightarrow> OQS_KEM option" where
  "OQS_KEM_bike_l1_new B perm alloc =
     (if \<not> alloc then None
      else Some \<lparr>method_name = ''BIKE-L1'', alg_version = ''Additional - 01/27/2023'', claimed_nist_level = 1, ind_cca = False,
        length_public_key = 1541, length_secret_key = 5223, length_ciphertext = 1573, length_shared_secret = 32,
        length_keypair_seed = 0, length_encaps_seed = 0,
        kem_keypair = keypair B perm bike_l1, kem_encaps = encaps B perm bike_l1, kem_decaps = decaps B perm bike_l1\<rparr>)"

definition OQS_KEM_bike_l3_new :: "bike_build \<Rightarrow> (bytes \<Rightarrow> bytes) \<Rightarrow> bool \<Rightarrow> OQS_KEM option" where
  "OQS_KEM_bike_l3_new B perm alloc =
     (if \<not> alloc then None
      else Some \<lparr>method_name = ''BIKE-L3'', alg_version = ''Additional - 01/27/2023'', claimed_nist_level = 3, ind_cca = False,
        length_public_key = 3083, length_secret_key = 10105, length_ciphertext = 3115, length_shared_secret = 32,
        length_keypair_seed = 0, length_encaps_seed = 0,
        kem_keypair = keypair B perm bike_l3, kem_encaps = encaps B perm bike_l3, kem_decaps = decaps B perm bike_l3\<rparr>)"

definition OQS_KEM_bike_l5_new :: "bike_build \<Rightarrow> (bytes \<Rightarrow> bytes) \<Rightarrow> bool \<Rightarrow> OQS_KEM option" where
  "OQS_KEM_bike_l5_new B perm alloc =
     (if \<not> alloc then None
      else Some \<lparr>method_name = ''BIKE-L5'', alg_version = ''Additional - 01/07/2023'', claimed_nist_level = 5, ind_cca = False,
        length_public_key = 5122, length_secret_key = 16494, length_ciphertext = 5154, length_shared_secret = 32,
        length_keypair_seed = 0, length_encaps_seed = 0,
        kem_keypair = keypair B perm bike_l5, kem_encaps = encaps B perm bike_l5, kem_decaps = decaps B perm bike_l5\<rparr>)"

end
