(* ===== verification/Bike_Rotate.thy ===== *)
theory Bike_Rotate
  imports Bike_Decode
begin

text \<open>
  The rotation and the duplication of the syndrome.  The SVE2 loops compute what the portable ones compute, for every
  vector length; on a duplicated syndrome the result is the rotation modulo \<open>r\<close>.
\<close>

subsection \<open>Loops that combine a cell with a later one\<close>

text \<open>The first \<open>n\<close> cells of \<open>out\<close> have been combined with those \<open>d\<close> further on.\<close>

definition fwd :: "(u64 \<Rightarrow> u64 \<Rightarrow> u64) \<Rightarrow> nat \<Rightarrow> u64 list \<Rightarrow> nat \<Rightarrow> u64 list \<Rightarrow> bool" where
  "fwd f d out n s \<longleftrightarrow> length s = length out \<and>
     (\<forall>j<length out. s ! j = (if j < n then f (out ! j) (out ! (j + d)) else out ! j))"

lemma fwd_0: "fwd f d out 0 out"
  by (simp add: fwd_def)

lemma fwd_unique: "fwd f d out n s \<Longrightarrow> fwd f d out n s' \<Longrightarrow> s = s'"
  by (rule nth_equalityI) (auto simp: fwd_def)

lemma fwd_word:
  assumes "fwd f d out n s" and "1 \<le> d" and "n + d < length out"
  shows "fwd f d out (Suc n) (s[n := f (s ! n) (s ! (n + d))])"
  using assms by (auto simp: fwd_def nth_list_update)

lemma fwd_loop:
  assumes "1 \<le> d" and "n + d \<le> length out"
  shows "fwd f d out n (for_range 0 n (\<lambda>i s. s[i := f (s ! i) (s ! (i + d))]) out)"
  by (rule for_range_inv [where P = "fwd f d out"]) (use assms in \<open>auto simp: fwd_0 intro: fwd_word\<close>)

lemma fwd_vec:
  assumes "fwd f d out n s" and "1 \<le> d" and "n + vl + d \<le> length out"
    and "\<And>k. k < vl \<Longrightarrow> v ! k = f (s ! (n + k)) (s ! (n + k + d))"
  shows "fwd f d out (n + vl) (svst1 (svptrue vl) s n v)"
proof -
  have "svst1 (svptrue vl) s n v ! j = (if j < n + vl then f (out ! j) (out ! (j + d)) else out ! j)" if "j < length out" for j
    using assms(1-3) assms(4) [of "j - n"] that by (auto simp: fwd_def nth_svst1)
  then show ?thesis using assms(1) by (simp add: fwd_def)
qed

lemma fwd_vec2:
  assumes s: "fwd f d out n s" and d: "1 \<le> d" and n: "n + vl * 2 + d \<le> length out"
    and v0: "\<And>k. k < vl \<Longrightarrow> v0 ! k = f (s ! (n + k)) (s ! (n + k + d))"
    and v1: "\<And>k. k < vl \<Longrightarrow> v1 ! k = f (s ! (n + vl + k)) (s ! (n + vl + k + d))"
  shows "fwd f d out (n + vl * 2) (svst1 (svptrue vl) (svst1 (svptrue vl) s n v0) (n + vl) v1)"
proof -
  let ?s = "svst1 (svptrue vl) s n v0"
  have "fwd f d out (n + vl + vl) (svst1 (svptrue vl) ?s (n + vl) v1)"
  proof (rule fwd_vec [OF fwd_vec [OF s d _ v0] d])
    fix k assume k: "k < vl"
    have "length s = length out" using s by (simp add: fwd_def)
    then show "v1 ! k = f (?s ! (n + vl + k)) (?s ! (n + vl + k + d))"
      using k n d by (simp add: v1 nth_svst1)
  qed (use n in simp_all)
  then show ?thesis by (simp add: mult_2_right add.assoc)
qed

lemma fwd_tail:
  assumes "fwd f d out n s" and "1 \<le> d" and "n \<le> limit" and "limit + d \<le> length out" and "limit < n + vl"
    and "\<And>k. k < vl \<Longrightarrow> n + k < limit \<Longrightarrow> v ! k = f (s ! (n + k)) (s ! (n + k + d))"
  shows "fwd f d out limit (svst1 (svwhilelt vl n limit) s n v)"
proof -
  have "svst1 (svwhilelt vl n limit) s n v ! j = (if j < limit then f (out ! j) (out ! (j + d)) else out ! j)"
    if "j < length out" for j
    using assms(1-5) assms(6) [of "j - n"] that by (auto simp: fwd_def nth_svst1)
  then show ?thesis using assms(1) by (simp add: fwd_def)
qed

lemma for_while_inv:
  assumes step: "0 < step" and f: "\<And>i s. P i s \<Longrightarrow> i + step \<le> limit \<Longrightarrow> P (i + step) (f i s)"
  shows "P i s \<Longrightarrow> i \<le> limit \<Longrightarrow>
    \<exists>i' s'. for_while step limit f i s = (i', s') \<and> P i' s' \<and> i' \<le> limit \<and> limit < i' + step"
proof (induction "limit - i" arbitrary: i s rule: less_induct)
  case less
  show ?case
  proof (cases "i + step \<le> limit")
    case True
    then have "limit - (i + step) < limit - i" using step by simp
    from less(1) [OF this f [OF less(2) True] True] True step show ?thesis by (simp add: for_while.simps [of _ _ _ i])
  next
    case False
    then show ?thesis using less by (simp add: for_while.simps [of _ _ _ i])
  qed
qed

text \<open>The three loops of a vector routine: two vectors, one vector, the tail.\<close>

lemma fwd_three_loops:
  assumes vl: "0 < vl" and d: "1 \<le> d" and lim: "limit + d \<le> length out"
    and two: "\<And>i s. fwd f d out i s \<Longrightarrow> i + vl * 2 \<le> limit \<Longrightarrow> fwd f d out (i + vl * 2) (body2 i s)"
    and one: "\<And>i s. fwd f d out i s \<Longrightarrow> i + vl \<le> limit \<Longrightarrow> fwd f d out (i + vl) (body1 i s)"
    and tail: "\<And>i s. fwd f d out i s \<Longrightarrow> i < limit \<Longrightarrow> limit < i + vl \<Longrightarrow> fwd f d out limit (body0 i s)"
  shows "fwd f d out limit
    (let (i, s) = for_while (vl * 2) limit body2 0 out; (i, s) = for_while vl limit body1 i s in if i < limit then body0 i s else s)"
proof -
  obtain i1 s1 where 1: "for_while (vl * 2) limit body2 0 out = (i1, s1)" "fwd f d out i1 s1" "i1 \<le> limit"
    using for_while_inv [of "vl * 2" "fwd f d out" limit body2 0 out] vl two by (auto simp: fwd_0)
  obtain i2 s2 where 2: "for_while vl limit body1 i1 s1 = (i2, s2)" "fwd f d out i2 s2" "i2 \<le> limit" "limit < i2 + vl"
    using for_while_inv [of vl "fwd f d out" limit body1 i1 s1] vl one 1 by auto
  show ?thesis
  proof (cases "i2 < limit")
    case True
    then show ?thesis using tail [OF 2(2) True 2(4)] by (simp add: 1(1) 2(1))
  next
    case False
    then have "i2 = limit" using 2(3) by simp
    then show ?thesis using 2(2) by (simp add: 1(1) 2(1))
  qed
qed

subsection \<open>Rotation by words\<close>

lemma rotr_mask_eq: "qw < 2 ^ 32 \<Longrightarrow> idx < 2 ^ 32 \<Longrightarrow> rotr_mask qw idx = (if qw < idx then 0 else - 1)"
  by (simp add: rotr_mask_def secure_l32_mask_eq word_less_nat_alt unat_of_nat_small)

definition pick_later :: "bool \<Rightarrow> u64 \<Rightarrow> u64 \<Rightarrow> u64" where
  "pick_later b x y = (if b then y else x)"

lemma select_mask: "(x AND NOT (if b then 0 else - 1)) OR (y AND (if b then 0 else - 1)) = pick_later (\<not> b) x (y :: u64)"
  by (simp add: pick_later_def)

lemma rotr_big_step_fwd:
  assumes "1 \<le> idx" and "qw < 2 ^ 32" and "idx < 2 ^ 32" and "R_QWORDS q + idx + idx \<le> length out"
  shows "\<exists>s. rotr_big_step q idx (qw, out) = (if idx \<le> qw then qw - idx else qw, s)
    \<and> fwd (pick_later (idx \<le> qw)) idx out (R_QWORDS q + idx) s"
proof -
  have m: "rotr_mask qw idx = (if qw < idx then 0 else - 1)" using assms by (intro rotr_mask_eq)
  have "unat (of_nat idx :: u64) = idx" using assms(3) by (intro unat_of_nat_small) simp
  then have "qw - unat (of_nat idx AND rotr_mask qw idx) = (if idx \<le> qw then qw - idx else qw)" by (simp add: m)
  then show ?thesis using fwd_loop [OF assms(1,4), of "pick_later (idx \<le> qw)"]
    by (simp add: rotr_big_step_def m select_mask not_less)
qed

lemma rotr_big_step_sve_fwd:
  assumes vl: "0 < vl" and idx: "1 \<le> idx" and "qw < 2 ^ 32" and "idx < 2 ^ 32" and len: "R_QWORDS q + idx + idx \<le> length out"
  shows "\<exists>s. rotr_big_step_sve vl q idx (qw, out) = (if idx \<le> qw then qw - idx else qw, s)
    \<and> fwd (pick_later (idx \<le> qw)) idx out (R_QWORDS q + idx) s"
proof -
  let ?l = "R_QWORDS q + idx" and ?f = "pick_later (idx \<le> qw)" and ?m = "rotr_mask qw idx"
  let ?p = "svcmpne_n (svdup vl ?m) 0"
  have m: "?m = (if qw < idx then 0 else - 1)" using assms by (intro rotr_mask_eq)
  have p: "length ?p = vl" "k < vl \<Longrightarrow> ?p ! k \<longleftrightarrow> idx \<le> qw" for k by (auto simp: svcmpne_n_def m)
  have sel: "svsel ?p (svld1 pg s (n + idx)) (svld1 pg s n) ! k = ?f (s ! (n + k)) (s ! (n + k + idx))"
    if "k < vl" "length pg = vl" "pg ! k" for pg s n k
    using that p by (simp add: svsel_def pick_later_def ac_simps)
  have "unat (of_nat idx :: u64) = idx" using assms(4) by (intro unat_of_nat_small) simp
  then have qw: "qw - unat (of_nat idx AND ?m) = (if idx \<le> qw then qw - idx else qw)" by (simp add: m)
  define two where "two = (\<lambda>i (ptr :: u64 list). svst1 (svptrue vl) (svst1 (svptrue vl) ptr i (svsel ?p (svld1 (svptrue vl) ptr (i + idx)) (svld1 (svptrue vl) ptr i)))
     (i + vl) (svsel ?p (svld1 (svptrue vl) ptr (i + vl + idx)) (svld1 (svptrue vl) ptr (i + vl))))"
  define one where "one = (\<lambda>i (ptr :: u64 list). svst1 (svptrue vl) ptr i (svsel ?p (svld1 (svptrue vl) ptr (i + idx)) (svld1 (svptrue vl) ptr i)))"
  define tl where "tl = (\<lambda>i (ptr :: u64 list). svst1 (svwhilelt vl i ?l) ptr i (svsel ?p (svld1 (svwhilelt vl i ?l) ptr (i + idx)) (svld1 (svwhilelt vl i ?l) ptr i)))"
  let ?r = "let (i, s) = for_while (vl * 2) ?l two 0 out; (i, s) = for_while vl ?l one i s in if i < ?l then tl i s else s"
  have "fwd ?f idx out ?l ?r"
  proof (rule fwd_three_loops [OF vl idx len])
    show "fwd ?f idx out (i + vl * 2) (two i s)" if "fwd ?f idx out i s" "i + vl * 2 \<le> ?l" for i s
      unfolding two_def by (rule fwd_vec2 [OF that(1) idx]) (use that len in \<open>simp_all add: sel\<close>)
    show "fwd ?f idx out (i + vl) (one i s)" if "fwd ?f idx out i s" "i + vl \<le> ?l" for i s
      unfolding one_def by (rule fwd_vec [OF that(1) idx]) (use that len in \<open>simp_all add: sel\<close>)
    show "fwd ?f idx out ?l (tl i s)" if "fwd ?f idx out i s" "i < ?l" "?l < i + vl" for i s
      unfolding tl_def by (rule fwd_tail [OF that(1) idx]) (use that len in \<open>simp_all add: sel\<close>)
  qed
  moreover have "rotr_big_step_sve vl q idx (qw, out) = (if idx \<le> qw then qw - idx else qw, ?r)"
    by (simp add: rotr_big_step_sve_def qw Let_def two_def one_def tl_def split: prod.splits)
  ultimately show ?thesis by blast
qed

lemma for_halving_pow2:
  "for_halving f (2 ^ Suc m) s = for_halving f (2 ^ m) (f (2 ^ Suc m) s)" "for_halving f (2 ^ 0) s = f 1 s"
  by (subst for_halving.simps, simp) (simp add: for_halving.simps)

lemma rotr_big_step_loop:
  assumes "1 \<le> idx" and "idx < 2 ^ 31" and "fst s < 2 ^ 32" and "R_QWORDS q + idx + idx \<le> length (snd s)"
  shows "\<exists>out. rotr_big_step q idx s = (if idx \<le> fst s then fst s - idx else fst s, out)
      \<and> fwd (pick_later (idx \<le> fst s)) idx (snd s) (R_QWORDS q + idx) out"
proof (cases s)
  case (Pair qw out)
  show ?thesis unfolding Pair fst_conv snd_conv by (rule rotr_big_step_fwd) (use assms Pair in simp_all)
qed

lemma rotr_big_step_sve_loop:
  assumes "0 < vl" and "1 \<le> idx" and "idx < 2 ^ 31" and "fst s < 2 ^ 32" and "R_QWORDS q + idx + idx \<le> length (snd s)"
  shows "\<exists>out. rotr_big_step_sve vl q idx s = (if idx \<le> fst s then fst s - idx else fst s, out)
      \<and> fwd (pick_later (idx \<le> fst s)) idx (snd s) (R_QWORDS q + idx) out"
proof (cases s)
  case (Pair qw out)
  show ?thesis unfolding Pair fst_conv snd_conv by (rule rotr_big_step_sve_fwd) (use assms Pair in simp_all)
qed

text \<open>The words still to be rotated are fewer than twice the current distance.\<close>

definition rotr_at :: "bike_params \<Rightarrow> u64 list \<Rightarrow> nat \<Rightarrow> nat \<Rightarrow> nat \<times> u64 list \<Rightarrow> bool" where
  "rotr_at q inp qw0 idx s \<longleftrightarrow> length (snd s) = length inp \<and> fst s \<le> qw0 \<and> fst s < 2 * idx
     \<and> (\<forall>j<R_QWORDS q + 2 * idx. snd s ! j = inp ! (j + (qw0 - fst s)))"

lemma rotr_at_step:
  assumes s: "rotr_at q inp qw0 idx s" and idx: "1 \<le> idx" "idx < 2 ^ 31" and len: "R_QWORDS q + 2 * idx \<le> length inp"
    and t: "t = (if idx \<le> fst s then fst s - idx else fst s, out)" "fwd (pick_later (idx \<le> fst s)) idx (snd s) (R_QWORDS q + idx) out"
  shows "length (snd t) = length inp \<and> fst t \<le> qw0 \<and> fst t < idx
     \<and> (\<forall>j<R_QWORDS q + idx. snd t ! j = inp ! (j + (qw0 - fst t)))"
proof -
  have s': "length (snd s) = length inp" "fst s \<le> qw0" "fst s < 2 * idx"
    using s by (simp_all add: rotr_at_def)
  have v: "snd s ! j = inp ! (j + (qw0 - fst s))" if "j < R_QWORDS q + 2 * idx" for j
    using s that by (auto simp: rotr_at_def)
  have "snd t ! j = inp ! (j + (qw0 - fst t))" if j: "j < R_QWORDS q + idx" for j
  proof -
    have "j < length (snd s)" using j len s'(1) by simp
    have "snd t ! j = (if idx \<le> fst s then snd s ! (j + idx) else snd s ! j)"
      using t j \<open>j < length (snd s)\<close> by (simp add: fwd_def pick_later_def)
    moreover have "idx + (qw0 - fst s) = qw0 - (fst s - idx)" if "idx \<le> fst s" using that s'(2) by simp
    ultimately show ?thesis using v [of j] v [of "j + idx"] j t(1) by (cases "idx \<le> fst s") (simp_all add: add.assoc)
  qed
  then show ?thesis using t s' idx by (auto simp: fwd_def)
qed

lemma rotr_loop:
  assumes step: "\<And>idx s. 1 \<le> idx \<Longrightarrow> idx < 2 ^ 31 \<Longrightarrow> fst s < 2 ^ 32 \<Longrightarrow> R_QWORDS q + idx + idx \<le> length (snd s) \<Longrightarrow>
      \<exists>out. f idx s = (if idx \<le> fst s then fst s - idx else fst s, out)
        \<and> fwd (pick_later (idx \<le> fst s)) idx (snd s) (R_QWORDS q + idx) out"
    and m: "m < 31" and len: "R_QWORDS q + 2 * 2 ^ m \<le> length inp" and s: "rotr_at q inp qw0 (2 ^ m) s"
  shows "length (snd (for_halving f (2 ^ m) s)) = length inp \<and> (\<forall>j\<le>R_QWORDS q. snd (for_halving f (2 ^ m) s) ! j = inp ! (j + qw0))"
  using m len s
proof (induction m arbitrary: s)
  have one: "\<exists>out. f (2 ^ m) s = (if 2 ^ m \<le> fst s then fst s - 2 ^ m else fst s, out)
        \<and> fwd (pick_later (2 ^ m \<le> fst s)) (2 ^ m) (snd s) (R_QWORDS q + 2 ^ m) out"
    if "m < 31" "R_QWORDS q + 2 * 2 ^ m \<le> length inp" "rotr_at q inp qw0 (2 ^ m) s" for m s
  proof (rule step)
    have "(2 :: nat) ^ m < 2 ^ 31" using that(1) by (intro power_strict_increasing) simp_all
    then show "(2 :: nat) ^ m < 2 ^ 31" "fst s < 2 ^ 32" using that(3) by (simp_all add: rotr_at_def)
  qed (use that in \<open>simp_all add: rotr_at_def\<close>)
  have lt: "(2 :: nat) ^ m < 2 ^ 31" if "m < 31" for m :: nat using that by (intro power_strict_increasing) simp_all
  {
    case 0
    obtain out where o: "f 1 s = (if 1 \<le> fst s then fst s - 1 else fst s, out)"
        "fwd (pick_later (1 \<le> fst s)) 1 (snd s) (R_QWORDS q + 1) out" using one [of 0 s] 0 by auto
    have "length (snd (f 1 s)) = length inp \<and> fst (f 1 s) \<le> qw0 \<and> fst (f 1 s) < 1
      \<and> (\<forall>j<R_QWORDS q + 1. snd (f 1 s) ! j = inp ! (j + (qw0 - fst (f 1 s))))"
      by (rule rotr_at_step [OF _ _ _ _ o]) (use 0 in simp_all)
    then show ?case unfolding for_halving_pow2 by auto
  next
    case (Suc m)
    let ?i = "2 ^ Suc m :: nat"
    obtain out where o: "f ?i s = (if ?i \<le> fst s then fst s - ?i else fst s, out)"
        "fwd (pick_later (?i \<le> fst s)) ?i (snd s) (R_QWORDS q + ?i) out" using one [OF Suc.prems] by blast
    have "length (snd (f ?i s)) = length inp \<and> fst (f ?i s) \<le> qw0 \<and> fst (f ?i s) < ?i
      \<and> (\<forall>j<R_QWORDS q + ?i. snd (f ?i s) ! j = inp ! (j + (qw0 - fst (f ?i s))))"
      by (rule rotr_at_step [OF _ _ lt _ o]) (use Suc.prems in simp_all)
    then have "rotr_at q inp qw0 (2 ^ m) (f ?i s)" by (simp add: rotr_at_def)
    then show ?case unfolding for_halving_pow2 using Suc.prems by (intro Suc.IH) simp_all
  }
qed

lemma R_QWORDS_HALF_levels:
  assumes "q \<in> set bike_levels"
  obtains m where "R_QWORDS_HALF_LOG2 q = 2 ^ m" and "m < 31" and "R_QWORDS q + 2 * 2 ^ m \<le> 3 * R_QWORDS q - 1"
    and "R_QWORDS q \<le> 2 * 2 ^ m"
proof -
  let ?m = "if R_BITS q = 12323 then 7 else if R_BITS q = 24659 then 8 else 9 :: nat"
  have "R_QWORDS_HALF_LOG2 q = 2 ^ ?m"
    using assms by (elim bike_level_cases) (simp_all add: R_QWORDS_HALF_LOG2_def UPTOPOW2_def UPTOPOW2_5_def UPTOPOW2_4_def
        UPTOPOW2_3_def UPTOPOW2_2_def UPTOPOW2_1_def UPTOPOW2_0_def bike_sizes)
  moreover have "R_QWORDS q + 2 * 2 ^ ?m \<le> 3 * R_QWORDS q - 1" "R_QWORDS q \<le> 2 * 2 ^ ?m" "?m < 31"
    using assms by (elim bike_level_cases; simp add: bike_sizes)+
  ultimately show ?thesis by (intro that)
qed

lemma rotr_big_correct:
  assumes q: "q \<in> set bike_levels" and len: "length inp = 3 * R_QWORDS q" and qw: "qw < R_QWORDS q"
  shows "length (rotr_big q inp qw) = 3 * R_QWORDS q" and "j \<le> R_QWORDS q \<Longrightarrow> rotr_big q inp qw ! j = inp ! (j + qw)"
proof -
  obtain m where m: "R_QWORDS_HALF_LOG2 q = 2 ^ m" "m < 31" "R_QWORDS q + 2 * 2 ^ m \<le> 3 * R_QWORDS q - 1" "R_QWORDS q \<le> 2 * 2 ^ m"
    using R_QWORDS_HALF_levels [OF q] .
  have "rotr_at q inp qw (2 ^ m) (qw, inp)" using qw m(4) by (simp add: rotr_at_def)
  then have "length (snd (for_halving (rotr_big_step q) (2 ^ m) (qw, inp))) = length inp
    \<and> (\<forall>j\<le>R_QWORDS q. snd (for_halving (rotr_big_step q) (2 ^ m) (qw, inp)) ! j = inp ! (j + qw))"
    using m len by (intro rotr_loop rotr_big_step_loop) simp_all
  then show "length (rotr_big q inp qw) = 3 * R_QWORDS q" "j \<le> R_QWORDS q \<Longrightarrow> rotr_big q inp qw ! j = inp ! (j + qw)"
    by (simp_all add: rotr_big_def m len)
qed

lemma rotr_big_sve_correct:
  assumes vl: "0 < vl" and q: "q \<in> set bike_levels" and len: "length inp = 3 * R_QWORDS q" and qw: "qw < R_QWORDS q"
  shows "length (rotr_big_sve vl q inp qw) = 3 * R_QWORDS q" and "j \<le> R_QWORDS q \<Longrightarrow> rotr_big_sve vl q inp qw ! j = inp ! (j + qw)"
proof -
  obtain m where m: "R_QWORDS_HALF_LOG2 q = 2 ^ m" "m < 31" "R_QWORDS q + 2 * 2 ^ m \<le> 3 * R_QWORDS q - 1" "R_QWORDS q \<le> 2 * 2 ^ m"
    using R_QWORDS_HALF_levels [OF q] .
  have "rotr_at q inp qw (2 ^ m) (qw, inp)" using qw m(4) by (simp add: rotr_at_def)
  then have "length (snd (for_halving (rotr_big_step_sve vl q) (2 ^ m) (qw, inp))) = length inp
    \<and> (\<forall>j\<le>R_QWORDS q. snd (for_halving (rotr_big_step_sve vl q) (2 ^ m) (qw, inp)) ! j = inp ! (j + qw))"
    using m len vl by (intro rotr_loop rotr_big_step_sve_loop) simp_all
  then show "length (rotr_big_sve vl q inp qw) = 3 * R_QWORDS q" "j \<le> R_QWORDS q \<Longrightarrow> rotr_big_sve vl q inp qw ! j = inp ! (j + qw)"
    by (simp_all add: rotr_big_sve_def m len)
qed

subsection \<open>Rotation by bits\<close>

definition shift_pair :: "nat \<Rightarrow> u64 \<Rightarrow> u64 \<Rightarrow> u64" where
  "shift_pair bits x y =
     (drop_bit bits x OR (push_bit (unat ((64 - of_nat bits) AND (0 - (if bits \<noteq> 0 then 1 else 0) :: u64))) y
       AND (0 - (if bits \<noteq> 0 then 1 else 0))))"

lemma bit_shift_pair:
  assumes "bits < 64" and "n < 64"
  shows "bit (shift_pair bits x y) n \<longleftrightarrow> (if n + bits < 64 then bit x (n + bits) else bit y (n + bits - 64))"
proof (cases "bits = 0")
  case False
  have "unat (of_nat bits :: u64) = bits" using assms(1) by (intro unat_of_nat_small) simp
  then have "unat (64 - of_nat bits :: u64) = 64 - bits"
    using assms(1) by (subst unat_diff) simp_all
  then have "shift_pair bits x y = (drop_bit bits x OR push_bit (64 - bits) y)" using False by (simp add: shift_pair_def)
  then show ?thesis using assms False by (auto simp: bit_simps add.commute dest: bit_imp_le_length)
qed (use assms in \<open>simp add: shift_pair_def\<close>)

lemma rotr_small_fwd:
  assumes "R_QWORDS q + 1 \<le> length s"
  shows "fwd (shift_pair bits) 1 s (R_QWORDS q) (rotr_small q s bits)"
  unfolding rotr_small_def Let_def shift_pair_def by (rule fwd_loop) (use assms in simp_all)

lemma nth_sv_shift [simp]:
  "length (svlsr a s) = min (length a) (length s)" "length (svlsl a s) = min (length a) (length s)"
  "length (svand a s) = min (length a) (length s)" "length (svorr a s) = min (length a) (length s)"
  "k < length a \<Longrightarrow> k < length s \<Longrightarrow> svlsr a s ! k = drop_bit (unat (s ! k)) (a ! k)"
  "k < length a \<Longrightarrow> k < length s \<Longrightarrow> svlsl a s ! k = push_bit (unat (s ! k)) (a ! k)"
  "k < length a \<Longrightarrow> k < length s \<Longrightarrow> svand a s ! k = a ! k AND s ! k"
  "k < length a \<Longrightarrow> k < length s \<Longrightarrow> svorr a s ! k = a ! k OR s ! k"
  by (simp_all add: svlsr_def svlsl_def svand_def svorr_def)

lemma rotr_small_sve_fwd:
  assumes vl: "0 < vl" and bits: "bits < 64" and len: "R_QWORDS q + 1 \<le> length s"
  shows "fwd (shift_pair bits) 1 s (R_QWORDS q) (rotr_small_sve vl q s bits)"
proof -
  let ?l = "R_QWORDS q" and ?f = "shift_pair bits" and ?m = "- (if bits \<noteq> 0 then 1 else 0) :: u64"
  let ?bs = "svdup vl (of_nat bits) :: u64 list" and ?hs = "svdup vl ((64 - of_nat bits) AND ?m)" and ?vm = "svdup vl ?m"
  define res where "res pg t i = svorr (svlsr (svld1 pg t i) ?bs) (svand (svlsl (svld1 pg t (i + 1)) ?hs) ?vm)" for pg and t :: "u64 list" and i
  have ub: "unat (of_nat bits :: u64) = bits" using bits by (intro unat_of_nat_small) simp
  have res: "res pg t i ! k = ?f (t ! (i + k)) (t ! (i + k + 1))" if "k < vl" "length pg = vl" "pg ! k" for pg t i k
    using that by (simp add: res_def shift_pair_def ub ac_simps)
  define two where "two = (\<lambda>i t. svst1 (svptrue vl) (svst1 (svptrue vl) t i (res (svptrue vl) t i)) (i + vl) (res (svptrue vl) t (i + vl)))"
  define one where "one = (\<lambda>i t. svst1 (svptrue vl) t i (res (svptrue vl) t i))"
  define tl where "tl = (\<lambda>i t. svst1 (svwhilelt vl i ?l) t i (res (svwhilelt vl i ?l) t i))"
  let ?r = "let (i, t) = for_while (vl * 2) ?l two 0 s; (i, t) = for_while vl ?l one i t in if i < ?l then tl i t else t"
  have "fwd ?f 1 s ?l ?r"
  proof (rule fwd_three_loops [OF vl order_refl len])
    show "fwd ?f 1 s (i + vl * 2) (two i t)" if "fwd ?f 1 s i t" "i + vl * 2 \<le> ?l" for i t
      unfolding two_def by (rule fwd_vec2 [OF that(1) order_refl]) (use that len in \<open>simp_all add: res\<close>)
    show "fwd ?f 1 s (i + vl) (one i t)" if "fwd ?f 1 s i t" "i + vl \<le> ?l" for i t
      unfolding one_def by (rule fwd_vec [OF that(1) order_refl]) (use that len in \<open>simp_all add: res\<close>)
    show "fwd ?f 1 s ?l (tl i t)" if "fwd ?f 1 s i t" "i < ?l" "?l < i + vl" for i t
      unfolding tl_def by (rule fwd_tail [OF that(1) order_refl]) (use that len in \<open>simp_all add: res\<close>)
  qed
  moreover have "rotr_small_sve vl q s bits = ?r"
    unfolding rotr_small_sve_def two_def one_def tl_def res_def Let_def ..
  ultimately show ?thesis by simp
qed

lemma bit_qval_word: "n < 64 \<Longrightarrow> bit (qval xs) (64 * i + n) \<longleftrightarrow> i < length xs \<and> bit (xs ! i) n"
  by (simp add: bit_qval)

lemma fwd_shift_pair:
  assumes f: "fwd (shift_pair bits) 1 s n t" and bits: "bits < 64" and len: "n < length s" and k: "k < 64 * n"
  shows "bit (qval t) k \<longleftrightarrow> bit (qval s) (k + bits)"
proof -
  let ?i = "k div 64" and ?n = "k mod 64"
  have i: "?i < n" using k by (simp add: less_mult_imp_div_less mult.commute)
  have l: "length t = length s" using f by (simp add: fwd_def)
  have ke: "k = 64 * ?i + ?n" by simp
  have "bit (qval t) k \<longleftrightarrow> bit (t ! ?i) ?n" using i len l by (simp add: bit_qval)
  also have "t ! ?i = shift_pair bits (s ! ?i) (s ! (?i + 1))" using f i len by (simp add: fwd_def)
  also have "bit \<dots> ?n \<longleftrightarrow> (if ?n + bits < 64 then bit (s ! ?i) (?n + bits) else bit (s ! (?i + 1)) (?n + bits - 64))"
    using bits by (simp add: bit_shift_pair)
  also have "\<dots> \<longleftrightarrow> bit (qval s) (64 * ?i + (?n + bits))"
  proof (cases "?n + bits < 64")
    case True
    then show ?thesis using i len by (simp only: bit_qval_word) simp
  next
    case False
    then have e: "64 * ?i + (?n + bits) = 64 * (?i + 1) + (?n + bits - 64)" by simp
    have "?n < 64" by simp
    then have "?n + bits - 64 < 64" using bits by linarith
    then show ?thesis using False i len by (simp only: e bit_qval_word) simp
  qed
  also have "64 * ?i + (?n + bits) = k + bits" by simp
  finally show ?thesis .
qed

definition vl_pos :: "bike_build \<Rightarrow> bool" where
  "vl_pos B = (case B of Portable \<Rightarrow> True | Sve2 vl \<Rightarrow> 0 < vl)"

lemma split_sum: "n = 64 * d + m \<Longrightarrow> k + m = 64 * a + b \<Longrightarrow> k + n = 64 * (a + d) + (b :: nat)"
  by simp

lemma rotate_right_words:
  assumes B: "vl_pos B" and q: "q \<in> set bike_levels" and len: "length inp = 3 * R_QWORDS q" and n: "n < R_BITS q"
  shows "length (rotate_right B q inp n) = 3 * R_QWORDS q"
    and "k < 64 * R_QWORDS q \<Longrightarrow> bit (qval (rotate_right B q inp n)) k \<longleftrightarrow> bit (qval inp) (k + n)"
proof -
  note sz = bike_sizes_pos [OF q]
  have qw: "n div 64 < R_QWORDS q" using n sz(6) by (simp add: less_mult_imp_div_less mult.commute)
  define m where "m = (case B of Portable \<Rightarrow> rotr_big q inp (n div 64) | Sve2 vl \<Rightarrow> rotr_big_sve vl q inp (n div 64))"
  have m: "length m = 3 * R_QWORDS q" "\<And>j. j \<le> R_QWORDS q \<Longrightarrow> m ! j = inp ! (j + n div 64)"
    unfolding m_def using B rotr_big_correct [OF q len qw] rotr_big_sve_correct [OF _ q len qw]
    by (auto simp: vl_pos_def split: bike_build.splits)
  have l1: "R_QWORDS q + 1 \<le> length m" using m(1) sz(4) by simp
  have f: "fwd (shift_pair (n mod 64)) 1 m (R_QWORDS q) (rotate_right B q inp n)"
    using B rotr_small_fwd [OF l1] rotr_small_sve_fwd [OF _ _ l1]
    by (auto simp: rotate_right_def m_def vl_pos_def split: bike_build.splits)
  then show "length (rotate_right B q inp n) = 3 * R_QWORDS q" using m(1) by (simp add: fwd_def)
  show "bit (qval (rotate_right B q inp n)) k \<longleftrightarrow> bit (qval inp) (k + n)" if k: "k < 64 * R_QWORDS q"
  proof -
    let ?a = "(k + n mod 64) div 64" and ?b = "(k + n mod 64) mod 64"
    have "n mod 64 < 64" by simp
    then have "k + n mod 64 < (R_QWORDS q + 1) * 64" using k by simp
    then have k2: "?a \<le> R_QWORDS q" using less_mult_imp_div_less [of "k + n mod 64" "R_QWORDS q + 1" 64] by simp
    have e2: "k + n mod 64 = 64 * ?a + ?b" by simp
    have e1: "k + n = 64 * (?a + n div 64) + ?b" by (rule split_sum [OF _ e2]) simp
    have b: "?b < 64" by simp
    have "bit (qval (rotate_right B q inp n)) k \<longleftrightarrow> bit (qval m) (64 * ?a + ?b)"
      using fwd_shift_pair [OF f _ _ k] l1 by (simp flip: e2)
    also have "\<dots> \<longleftrightarrow> bit (qval inp) (64 * (?a + n div 64) + ?b)"
      unfolding bit_qval_word [OF b] using m k2 qw len by auto
    also have "\<dots> \<longleftrightarrow> bit (qval inp) (k + n)" by (simp only: e1 [symmetric])
    finally show ?thesis .
  qed
qed

subsection \<open>Duplication\<close>

text \<open>Two neighbouring words, read from bit \<open>t\<close> of the first.\<close>

lemma bit_two_words:
  assumes "n < 64" and "0 < t" and "t < 64" and "i + 1 < length s"
  shows "bit (drop_bit t (s ! i) OR push_bit (64 - t) (s ! (i + 1)) :: u64) n \<longleftrightarrow> bit (qval s) (64 * i + n + t)"
proof (cases "n + t < 64")
  case True
  then have "bit (qval s) (64 * i + (n + t)) \<longleftrightarrow> bit (s ! i) (n + t)" using assms(4) by (simp only: bit_qval_word) simp
  then show ?thesis using True assms by (auto simp: bit_simps add.commute add.left_commute add.assoc)
next
  case False
  then have "64 * i + n + t = 64 * (i + 1) + (n + t - 64)" by simp
  moreover have "n + t - 64 < 64" using assms by simp
  ultimately have "bit (qval s) (64 * i + n + t) \<longleftrightarrow> bit (s ! (i + 1)) (n + t - 64)" using assms(4) by (simp only: bit_qval_word) simp
  moreover have "n - (64 - t) = n + t - 64" using False assms by simp
  ultimately show ?thesis using False assms by (auto simp: bit_simps add.commute dest: bit_imp_le_length)
qed

definition periodic :: "bike_params \<Rightarrow> nat \<Rightarrow> nat \<Rightarrow> u64 list \<Rightarrow> bool" where
  "periodic q x n s \<longleftrightarrow> length s = 3 * R_QWORDS q \<and> (\<forall>k<64 * n. bit (qval s) k \<longleftrightarrow> bit x (k mod R_BITS q))"

lemma dup_first:
  assumes q: "q \<in> set bike_levels" and len: "length s = 3 * R_QWORDS q"
  shows "periodic q (qval s) (R_QWORDS q) (s[R_QWORDS q - 1 := push_bit (LAST_R_QWORD_LEAD q) (s ! 0) OR (s ! (R_QWORDS q - 1) AND LAST_R_QWORD_MASK q)])"
proof -
  let ?n = "R_QWORDS q" and ?r = "R_BITS q" and ?L = "LAST_R_QWORD_LEAD q"
  let ?w = "push_bit ?L (s ! 0) OR (s ! (?n - 1) AND LAST_R_QWORD_MASK q)"
  note sz = bike_sizes_pos [OF q]
  note sp = R_QWORDS_split [OF bike_ok_levels [OF q]]
  have m: "bit (LAST_R_QWORD_MASK q) j \<longleftrightarrow> j < ?L" if "j < 64" for j
    using that sp(3) by (simp add: LAST_R_QWORD_MASK_def bit_mask_iff flip: mask_eq_exp_minus_1)
  have w: "bit ?w j \<longleftrightarrow> (if j < ?L then bit (s ! (?n - 1)) j else bit (s ! 0) (j - ?L))" if "j < 64" for j
    using that by (auto simp: bit_simps m)
  have "bit (qval (s[?n - 1 := ?w])) k \<longleftrightarrow> bit (qval s) (k mod ?r)" if k: "k < 64 * ?n" for k
  proof -
    let ?i = "k div 64" and ?j = "k mod 64"
    have i: "?i < ?n" using k by (simp add: less_mult_imp_div_less mult.commute)
    have j: "?j < 64" by simp
    have ke: "k = 64 * ?i + ?j" by simp
    have "bit (qval (s[?n - 1 := ?w])) (64 * ?i + ?j) \<longleftrightarrow> bit (s[?n - 1 := ?w] ! ?i) ?j"
      using i len by (simp only: bit_qval_word [OF j]) simp
    also have "\<dots> \<longleftrightarrow> bit (qval s) (k mod ?r)"
    proof (cases "k < ?r")
      case True
      then have "?i = ?n - 1 \<Longrightarrow> ?j < ?L" using sp(1) ke by linarith
      then have "bit (s[?n - 1 := ?w] ! ?i) ?j \<longleftrightarrow> bit (s ! ?i) ?j" using i len w [OF j] by (cases "?i = ?n - 1") simp_all
      also have "\<dots> \<longleftrightarrow> bit (qval s) (64 * ?i + ?j)" using i len by (simp only: bit_qval_word [OF j]) simp
      finally show ?thesis using True by simp
    next
      case False
      then have "\<not> ?i < ?n - 1" using sp(1) ke j by linarith
      then have i': "?i = ?n - 1" using i by simp
      then have jL: "?L \<le> ?j" and kr: "k - ?r = ?j - ?L" using False sp(1) ke by linarith+
      have "k mod ?r = k - ?r" using False k sz(7) by (simp add: mod_if)
      moreover have "bit (qval s) (64 * 0 + (?j - ?L)) \<longleftrightarrow> bit (s ! 0) (?j - ?L)"
        using sz(4) len j by (subst bit_qval_word) simp_all
      ultimately have "bit (qval s) (k mod ?r) \<longleftrightarrow> bit (s ! 0) (?j - ?L)" by (simp add: kr)
      then show ?thesis using i' jL i len w [OF j] by simp
    qed
    finally show ?thesis by simp
  qed
  then show ?thesis using len by (simp add: periodic_def)
qed

lemma dup_step:
  assumes q: "q \<in> set bike_levels" and s: "periodic q x (R_QWORDS q + i) s" and i: "i < 2 * R_QWORDS q - 1"
  shows "periodic q x (R_QWORDS q + Suc i)
    (s[R_QWORDS q + i := drop_bit (LAST_R_QWORD_TRAIL q) (s ! i) OR push_bit (LAST_R_QWORD_LEAD q) (s ! (i + 1))])"
proof -
  let ?n = "R_QWORDS q" and ?r = "R_BITS q" and ?T = "LAST_R_QWORD_TRAIL q" and ?L = "LAST_R_QWORD_LEAD q"
  let ?w = "drop_bit ?T (s ! i) OR push_bit ?L (s ! (i + 1))" and ?s = "s[?n + i := drop_bit ?T (s ! i) OR push_bit ?L (s ! (i + 1))]"
  note sz = bike_sizes_pos [OF q]
  note sp = R_QWORDS_split [OF bike_ok_levels [OF q]]
  have T: "0 < ?T" "?T < 64" "?L = 64 - ?T" using sp(2,3) by (auto simp: LAST_R_QWORD_TRAIL_def)
  have len: "length s = 3 * ?n" using s by (simp add: periodic_def)
  have "i + 1 < 3 * ?n" "?n + i < 3 * ?n" using i by linarith+
  then have b: "bit ?w j \<longleftrightarrow> bit (qval s) (64 * i + j + ?T)" if "j < 64" for j
    unfolding T(3) using bit_two_words [OF that T(1,2), of i s] len T(3) by simp
  have "bit (qval ?s) k \<longleftrightarrow> bit x (k mod ?r)" if k: "k < 64 * (?n + Suc i)" for k
  proof (cases "k < 64 * (?n + i)")
    case True
    then have "k div 64 \<noteq> ?n + i" by (metis less_mult_imp_div_less mult.commute nat_neq_iff)
    then have "bit (qval ?s) k \<longleftrightarrow> bit (qval s) k" by (simp add: bit_qval)
    then show ?thesis using s True by (simp add: periodic_def)
  next
    case False
    define j where "j = k - 64 * (?n + i)"
    have k': "k = 64 * (?n + i) + j" and j: "j < 64" using False k by (auto simp: j_def)
    have e: "k = 64 * i + j + ?T + ?r" using k' sp(1) T sz(4) by (simp add: algebra_simps)
    have "bit (qval ?s) (64 * (?n + i) + j) \<longleftrightarrow> bit ?w j"
      using len \<open>?n + i < 3 * ?n\<close> by (simp only: bit_qval_word [OF j]) simp
    also have "\<dots> \<longleftrightarrow> bit (qval s) (64 * i + j + ?T)" by (rule b [OF j])
    also have "64 \<le> ?r" using q by (elim bike_level_cases) (simp_all add: bike_sizes)
    then have "64 * i + j + ?T < 64 * (?n + i)" using e k' j by linarith
    then have "bit (qval s) (64 * i + j + ?T) \<longleftrightarrow> bit x ((64 * i + j + ?T) mod ?r)" using s by (simp add: periodic_def)
    also have "(64 * i + j + ?T) mod ?r = k mod ?r" unfolding e by simp
    finally show ?thesis by (simp only: k')
  qed
  then show ?thesis using len by (simp add: periodic_def)
qed

lemma dup_port_periodic:
  assumes q: "q \<in> set bike_levels" and len: "length s = 3 * R_QWORDS q"
  shows "periodic q (qval s) (3 * R_QWORDS q - 1) (dup_port q s)"
proof -
  let ?n = "R_QWORDS q"
  have "periodic q (qval s) (?n + (2 * ?n - 1)) (dup_port q s)"
    unfolding dup_port_def Let_def
  proof (rule for_range_inv [where P = "\<lambda>i. periodic q (qval s) (?n + i)"])
    show "periodic q (qval s) (?n + 0) (s[?n - 1 := push_bit (LAST_R_QWORD_LEAD q) (s ! 0) OR (s ! (?n - 1) AND LAST_R_QWORD_MASK q)])"
      using dup_first [OF q len] by simp
  qed (simp, rule dup_step [OF q])
  moreover have "?n + (2 * ?n - 1) = 3 * ?n - 1" using bike_sizes_pos(4) [OF q] by simp
  ultimately show ?thesis by simp
qed

text \<open>Rotating a duplicated syndrome.\<close>

lemma rotate_right_periodic:
  assumes B: "vl_pos B" and q: "q \<in> set bike_levels" and s: "periodic q x (3 * R_QWORDS q - 1) s" and n: "n < R_BITS q"
  shows "length (rotate_right B q s n) = 3 * R_QWORDS q"
    and "k < 64 * R_QWORDS q \<Longrightarrow> bit (qval (rotate_right B q s n)) k \<longleftrightarrow> bit x ((k + n) mod R_BITS q)"
proof -
  have len: "length s = 3 * R_QWORDS q" using s by (simp add: periodic_def)
  note r = rotate_right_words [OF B q len n]
  show "length (rotate_right B q s n) = 3 * R_QWORDS q" by (rule r(1))
  assume k: "k < 64 * R_QWORDS q"
  have "k + n < 64 * (3 * R_QWORDS q - 1)"
    using k n bike_sizes_pos(4,6) [OF q] q by (elim bike_level_cases) (simp_all add: bike_sizes)
  then show "bit (qval (rotate_right B q s n)) k \<longleftrightarrow> bit x ((k + n) mod R_BITS q)"
    using r(2) [OF k] s by (simp add: periodic_def)
qed

end
