(* ===== verification/Bike_Upc.thy ===== *)
theory Bike_Upc
  imports Bike_Rotate
begin

text \<open>
  The bit-sliced counters of \<open>decode_portable.c\<close>: \<open>cnt\<close> is the number that the slices hold at one position.
  The adder adds a vector of bits to the counters, the subtraction subtracts a constant modulo \<open>2 ^ SLICES\<close>, and
  \<open>count_upc\<close> counts the unsatisfied parity checks.
\<close>

subsection \<open>A loop over one slice\<close>

definition slice_word :: "(u64 \<Rightarrow> u64 \<Rightarrow> u64) \<Rightarrow> (u64 \<Rightarrow> u64 \<Rightarrow> u64) \<Rightarrow> nat \<Rightarrow> nat \<Rightarrow> u64 list list \<times> u64 list \<Rightarrow> u64 list list \<times> u64 list" where
  "slice_word f g j i = (\<lambda>(upc, rs).
     (upc[j := (upc ! j)[i := f (upc ! j ! i) (rs ! i)]], rs[i := g (upc ! j ! i) (rs ! i)]))"

lemma adder_word_slice: "adder_word j = slice_word (XOR) (AND) j"
  by (simp add: adder_word_def slice_word_def Let_def fun_eq_iff)

lemma subtract_word_slice:
  "subtract_word j m = slice_word (\<lambda>a br. a XOR m XOR br) (\<lambda>a br. ((NOT a) AND m AND (NOT br)) OR (((NOT a) OR m) AND br)) j"
  by (simp add: subtract_word_def slice_word_def Let_def fun_eq_iff)

definition mapn :: "(u64 \<Rightarrow> u64 \<Rightarrow> u64) \<Rightarrow> nat \<Rightarrow> u64 list \<Rightarrow> u64 list \<Rightarrow> u64 list \<Rightarrow> u64 list" where
  "mapn f n xs ys zs = map (\<lambda>i. f (xs ! i) (ys ! i)) [0..<n] @ drop n zs"

lemma mapn_0 [simp]: "mapn f 0 xs ys zs = zs"
  by (simp add: mapn_def)

lemma length_mapn [simp]: "n \<le> length zs \<Longrightarrow> length (mapn f n xs ys zs) = length zs"
  by (simp add: mapn_def)

lemma mapn_Suc: "n < length zs \<Longrightarrow> (mapn f n xs ys zs)[n := f (xs ! n) (ys ! n)] = mapn f (Suc n) xs ys zs"
  by (simp add: mapn_def list_update_append flip: Cons_nth_drop_Suc)

lemma nth_mapn: "n \<le> length zs \<Longrightarrow> i < length zs \<Longrightarrow> mapn f n xs ys zs ! i = (if i < n then f (xs ! i) (ys ! i) else zs ! i)"
  by (simp add: mapn_def nth_append)

lemma slice_loop:
  assumes "j < length upc" and "n \<le> length (upc ! j)" and "n \<le> length rs"
  shows "for_range 0 n (slice_word f g j) (upc, rs) = (upc[j := mapn f n (upc ! j) rs (upc ! j)], mapn g n (upc ! j) rs rs)"
  using assms(2,3)
proof (induction n)
  case (Suc n)
  then show ?case using assms(1) by (simp add: for_range_Suc slice_word_def nth_mapn mapn_Suc)
qed simp

lemma bit_mapn:
  assumes f: "\<And>a b m. m < 64 \<Longrightarrow> bit (f a b) m \<longleftrightarrow> F (bit a m) (bit b m)"
    and k: "k < 64 * n" and n: "n \<le> length xs" "n \<le> length ys" "n \<le> length zs"
  shows "bit (qval (mapn f n xs ys zs)) k \<longleftrightarrow> F (bit (qval xs) k) (bit (qval ys) k)"
proof -
  have "k div 64 < n" using k by (simp add: less_mult_imp_div_less mult.commute)
  then show ?thesis using n f [of "k mod 64"] by (simp add: bit_qval nth_mapn)
qed

subsection \<open>Counters\<close>

primrec cnt :: "nat \<Rightarrow> u64 list list \<Rightarrow> nat \<Rightarrow> nat" where
  "cnt 0 upc k = 0"
| "cnt (Suc n) upc k = cnt n upc k + of_bool (bit (qval (upc ! n)) k) * 2 ^ n"

lemma cnt_lt: "cnt n upc k < 2 ^ n"
proof (induction n)
  case (Suc n)
  have "of_bool (bit (qval (upc ! n)) k) * 2 ^ n \<le> (2 :: nat) ^ n" by simp
  with Suc show ?case unfolding cnt.simps power_Suc by linarith
qed simp

lemma cnt_cong: "(\<And>j. j < n \<Longrightarrow> bit (qval (upc ! j)) k \<longleftrightarrow> bit (qval (upc' ! j)) k) \<Longrightarrow> cnt n upc k = cnt n upc' k"
  by (induction n) simp_all

lemma cnt_zero: "(\<And>j. j < n \<Longrightarrow> \<not> bit (qval (upc ! j)) k) \<Longrightarrow> cnt n upc k = 0"
  by (induction n) simp_all

text \<open>The top slices contribute a multiple that does not depend on the low ones.\<close>

lemma cnt_high:
  assumes "n \<le> m" and "\<And>j. n \<le> j \<Longrightarrow> j < m \<Longrightarrow> bit (qval (upc ! j)) k \<longleftrightarrow> bit (qval (upc' ! j)) k"
  shows "\<exists>h. cnt m upc k = cnt n upc k + 2 ^ n * h \<and> cnt m upc' k = cnt n upc' k + 2 ^ n * h"
  using assms
proof (induction m)
  case (Suc m)
  show ?case
  proof (cases "n = Suc m")
    case False
    then have le: "n \<le> m" using Suc.prems(1) by simp
    then obtain h where h: "cnt m upc k = cnt n upc k + 2 ^ n * h" "cnt m upc' k = cnt n upc' k + 2 ^ n * h"
      using Suc by auto
    have "of_bool (bit (qval (upc ! m)) k) * 2 ^ m = (2 :: nat) ^ n * (of_bool (bit (qval (upc ! m)) k) * 2 ^ (m - n))"
      using le by (simp flip: power_add)
    moreover have "bit (qval (upc' ! m)) k \<longleftrightarrow> bit (qval (upc ! m)) k" using Suc.prems(2) [of m] le by simp
    ultimately have "cnt (Suc m) upc k = cnt n upc k + 2 ^ n * (h + of_bool (bit (qval (upc ! m)) k) * 2 ^ (m - n))"
      "cnt (Suc m) upc' k = cnt n upc' k + 2 ^ n * (h + of_bool (bit (qval (upc ! m)) k) * 2 ^ (m - n))"
      using h by (simp_all add: distrib_left)
    then show ?thesis by blast
  qed auto
qed auto

lemma cnt_msb: "bit (qval (upc ! n)) k \<longleftrightarrow> 2 ^ n \<le> cnt (Suc n) upc k"
  using cnt_lt [of n upc k] by auto

definition upc_ok :: "bike_params \<Rightarrow> u64 list list \<Rightarrow> bool" where
  "upc_ok q upc \<longleftrightarrow> length upc = SLICES q \<and> (\<forall>s\<in>set upc. length s = R_PADDED_QWORDS q)"

lemma upc_okD: "upc_ok q upc \<Longrightarrow> length upc = SLICES q" "upc_ok q upc \<Longrightarrow> j < SLICES q \<Longrightarrow> length (upc ! j) = R_PADDED_QWORDS q"
  by (simp_all add: upc_ok_def)

lemma upc_ok_update: "upc_ok q upc \<Longrightarrow> length s = R_PADDED_QWORDS q \<Longrightarrow> upc_ok q (upc[j := s])"
  using set_update_subset_insert [of upc j s] by (auto simp: upc_ok_def)

text \<open>One slice of a ripple: the slices above are unchanged, \<open>F\<close> is the new bit and \<open>G\<close> the new carry.\<close>

lemma slice_ripple:
  assumes q: "q \<in> set bike_levels" and u: "upc_ok q upc" and rs: "R_QWORDS q \<le> length rs" and j: "j < SLICES q"
    and f: "\<And>a b m. m < 64 \<Longrightarrow> bit (f a b) m \<longleftrightarrow> F (bit a m) (bit b m)"
    and g: "\<And>a b m. m < 64 \<Longrightarrow> bit (g a b) m \<longleftrightarrow> G (bit a m) (bit b m)"
  obtains upc' rs' where "for_range 0 (R_QWORDS q) (slice_word f g j) (upc, rs) = (upc', rs')"
    and "upc_ok q upc'" and "length rs' = length rs" and "\<And>i. i \<noteq> j \<Longrightarrow> upc' ! i = upc ! i"
    and "\<And>k. k < 64 * R_QWORDS q \<Longrightarrow> bit (qval (upc' ! j)) k \<longleftrightarrow> F (bit (qval (upc ! j)) k) (bit (qval rs) k)"
    and "\<And>k. k < 64 * R_QWORDS q \<Longrightarrow> bit (qval rs') k \<longleftrightarrow> G (bit (qval (upc ! j)) k) (bit (qval rs) k)"
proof -
  have l: "j < length upc" "length (upc ! j) = R_PADDED_QWORDS q" using u j by (simp_all add: upc_okD)
  then have n: "R_QWORDS q \<le> length (upc ! j)" using bike_sizes_pos(5) [OF q] by simp
  let ?s = "mapn f (R_QWORDS q) (upc ! j) rs (upc ! j)"
  show ?thesis
  proof (rule that [OF slice_loop [OF l(1) n rs]])
    show "upc_ok q (upc[j := ?s])" using u n l(2) by (intro upc_ok_update) simp_all
    show "bit (qval (upc[j := ?s] ! j)) k \<longleftrightarrow> F (bit (qval (upc ! j)) k) (bit (qval rs) k)" if "k < 64 * R_QWORDS q" for k
      using bit_mapn [where f = f and F = F, OF f that n rs n] l(1) by simp
    show "bit (qval (mapn g (R_QWORDS q) (upc ! j) rs rs)) k \<longleftrightarrow> G (bit (qval (upc ! j)) k) (bit (qval rs) k)" if "k < 64 * R_QWORDS q" for k
      using bit_mapn [where f = g and F = G, OF g that n rs rs] .
  qed (use rs in simp_all)
qed

subsection \<open>The adder\<close>

lemma adder_correct:
  assumes q: "q \<in> set bike_levels" and u: "upc_ok q upc" and rs: "R_QWORDS q \<le> length rs" and n: "n \<le> SLICES q"
  obtains upc' rs' where "bit_sliced_adder_port q (upc, rs) n = (upc', rs')" and "upc_ok q upc'" and "length rs' = length rs"
    and "\<And>i. n \<le> i \<Longrightarrow> upc' ! i = upc ! i"
    and "\<And>k. k < 64 * R_QWORDS q \<Longrightarrow>
      cnt n upc' k + 2 ^ n * of_bool (bit (qval rs') k) = cnt n upc k + of_bool (bit (qval rs) k)"
proof -
  let ?f = "\<lambda>j. for_range 0 (R_QWORDS q) (adder_word j)"
  define P where "P n s \<longleftrightarrow> upc_ok q (fst s) \<and> length (snd s) = length rs \<and> (\<forall>i\<ge>n. fst s ! i = upc ! i)
    \<and> (\<forall>k<64 * R_QWORDS q. cnt n (fst s) k + 2 ^ n * of_bool (bit (qval (snd s)) k) = cnt n upc k + of_bool (bit (qval rs) k))" for n s
  have "P n (for_range 0 n ?f (upc, rs))"
  proof (rule for_range_inv [where P = P])
    show "P 0 (upc, rs)" using u by (simp add: P_def)
  next
    fix j s assume j: "j < n" and s: "P j s"
    obtain u1 r1 where s1: "s = (u1, r1)" by fastforce
    have s2: "upc_ok q u1" "length r1 = length rs" "\<And>i. j \<le> i \<Longrightarrow> u1 ! i = upc ! i"
      "\<And>k. k < 64 * R_QWORDS q \<Longrightarrow> cnt j u1 k + 2 ^ j * of_bool (bit (qval r1) k) = cnt j upc k + of_bool (bit (qval rs) k)"
      using s by (simp_all add: P_def s1)
    obtain u2 r2 where t: "?f j (u1, r1) = (u2, r2)" "upc_ok q u2" "length r2 = length r1" "\<And>i. i \<noteq> j \<Longrightarrow> u2 ! i = u1 ! i"
      "\<And>k. k < 64 * R_QWORDS q \<Longrightarrow> bit (qval (u2 ! j)) k \<longleftrightarrow> bit (qval (u1 ! j)) k \<noteq> bit (qval r1) k"
      "\<And>k. k < 64 * R_QWORDS q \<Longrightarrow> bit (qval r2) k \<longleftrightarrow> bit (qval (u1 ! j)) k \<and> bit (qval r1) k"
      using slice_ripple [OF q s2(1), of r1 j "(XOR)" "(\<noteq>)" "(AND)" "(\<and>)"] j n rs s2(2)
      by (auto simp: adder_word_slice bit_xor_iff bit_and_iff)
    have "cnt (Suc j) u2 k + 2 ^ Suc j * of_bool (bit (qval r2) k) = cnt (Suc j) upc k + of_bool (bit (qval rs) k)"
      if k: "k < 64 * R_QWORDS q" for k
    proof -
      have "cnt j u2 k = cnt j u1 k" using t(4) by (intro cnt_cong) simp
      moreover have "u1 ! j = upc ! j" using s2(3) by simp
      ultimately show ?thesis using s2(4) [OF k] t(5,6) [OF k] by (cases "bit (qval (upc ! j)) k"; cases "bit (qval r1) k") simp_all
    qed
    then show "P (Suc j) (?f j s)" using t(1-4) s2 by (simp add: P_def s1)
  qed simp
  then show ?thesis using that by (cases "for_range 0 n ?f (upc, rs)") (auto simp: P_def bit_sliced_adder_port_def)
qed

subsection \<open>The subtraction\<close>

lemma lsb_mask_bit: "m < 64 \<Longrightarrow> bit (0 - ucast (val AND 1 :: u8) :: u64) m \<longleftrightarrow> bit val 0"
proof -
  assume m: "m < 64"
  have "val AND 1 = of_bool (bit val 0)" by (rule bit_word_eqI) (auto simp: bit_simps)
  then show ?thesis using m by (auto simp: bit_simps)
qed

lemma subtract_correct:
  assumes q: "q \<in> set bike_levels" and u: "upc_ok q upc"
  shows "upc_ok q (bit_slice_full_subtract_port q upc val)"
    and "k < 64 * R_QWORDS q \<Longrightarrow> cnt (SLICES q) (bit_slice_full_subtract_port q upc val) k
      = (cnt (SLICES q) upc k + 2 ^ SLICES q - unat val mod 2 ^ SLICES q) mod 2 ^ SLICES q"
proof -
  let ?n = "SLICES q" and ?K = "64 * R_QWORDS q"
  let ?f = "\<lambda>j (s, val). let lsb_mask = 0 - ucast (val AND 1) in (for_range 0 (R_QWORDS q) (subtract_word j lsb_mask) s, drop_bit 1 val)"
  let ?s0 = "((upc, replicate (R_QWORDS q) 0 :: u64 list), val)"
  define P where "P j s \<longleftrightarrow> snd s = drop_bit j val \<and> upc_ok q (fst (fst s)) \<and> length (snd (fst s)) = R_QWORDS q
    \<and> (\<forall>i\<ge>j. fst (fst s) ! i = upc ! i)
    \<and> (\<forall>k<?K. cnt j (fst (fst s)) k + unat val mod 2 ^ j = cnt j upc k + 2 ^ j * of_bool (bit (qval (snd (fst s))) k))" for j s
  have "P ?n (for_range 0 ?n ?f ?s0)"
  proof (rule for_range_inv [where P = P])
    show "P 0 ?s0" using u by (simp add: P_def)
  next
    fix j s assume j: "j < ?n" and s: "P j s"
    obtain u1 b1 v1 where s1: "s = ((u1, b1), v1)" by (metis surj_pair)
    have s2: "v1 = drop_bit j val" "upc_ok q u1" "length b1 = R_QWORDS q" "\<And>i. j \<le> i \<Longrightarrow> u1 ! i = upc ! i"
      "\<And>k. k < ?K \<Longrightarrow> cnt j u1 k + unat val mod 2 ^ j = cnt j upc k + 2 ^ j * of_bool (bit (qval b1) k)"
      using s by (simp_all add: P_def s1)
    let ?m = "0 - ucast (v1 AND 1) :: u64" and ?v = "bit val j"
    have m: "bit ?m i \<longleftrightarrow> ?v" if "i < 64" for i using lsb_mask_bit [OF that, of v1] by (simp add: s2(1) bit_drop_bit_eq)
    obtain u2 b2 where t: "for_range 0 (R_QWORDS q) (subtract_word j ?m) (u1, b1) = (u2, b2)" "upc_ok q u2" "length b2 = length b1"
      "\<And>i. i \<noteq> j \<Longrightarrow> u2 ! i = u1 ! i"
      "\<And>k. k < ?K \<Longrightarrow> bit (qval (u2 ! j)) k \<longleftrightarrow> (bit (qval (u1 ! j)) k \<noteq> ?v) \<noteq> bit (qval b1) k"
      "\<And>k. k < ?K \<Longrightarrow> bit (qval b2) k \<longleftrightarrow> \<not> bit (qval (u1 ! j)) k \<and> ?v \<and> \<not> bit (qval b1) k \<or> (\<not> bit (qval (u1 ! j)) k \<or> ?v) \<and> bit (qval b1) k"
      using slice_ripple [OF q s2(2), of b1 j "\<lambda>a br. a XOR ?m XOR br" "\<lambda>a br. (a \<noteq> ?v) \<noteq> br"
          "\<lambda>a br. ((NOT a) AND ?m AND (NOT br)) OR (((NOT a) OR ?m) AND br)" "\<lambda>a br. \<not> a \<and> ?v \<and> \<not> br \<or> (\<not> a \<or> ?v) \<and> br"]
        j s2(3) m unfolding subtract_word_slice
      by (simp add: bit_xor_iff bit_and_iff bit_or_iff bit_not_iff) blast
    have vm: "unat val mod 2 ^ Suc j = unat val mod 2 ^ j + of_bool ?v * 2 ^ j"
      using mod_pow2_Suc [of "unat val" j] by (simp add: bit_unsigned_iff bit_iff_odd [of "unat val", symmetric] flip: bit_iff_odd)
    have "cnt (Suc j) u2 k + unat val mod 2 ^ Suc j = cnt (Suc j) upc k + 2 ^ Suc j * of_bool (bit (qval b2) k)"
      if k: "k < ?K" for k
    proof -
      have "cnt j u2 k = cnt j u1 k" using t(4) by (intro cnt_cong) simp
      moreover have "u1 ! j = upc ! j" using s2(4) by simp
      ultimately show ?thesis using s2(5) [OF k] t(5,6) [OF k] unfolding vm
        by (cases "bit (qval (upc ! j)) k"; cases "bit (qval b1) k"; cases ?v) simp_all
    qed
    then show "P (Suc j) (?f j s)" using t(1-4) s2 by (simp add: P_def s1 Let_def)
  qed simp
  then have p: "P ?n (for_range 0 ?n ?f ?s0)" .
  have e: "bit_slice_full_subtract_port q upc val = fst (fst (for_range 0 ?n ?f ?s0))" by (simp add: bit_slice_full_subtract_port_def)
  show "upc_ok q (bit_slice_full_subtract_port q upc val)" using p by (simp add: e P_def)
  show "cnt ?n (bit_slice_full_subtract_port q upc val) k = (cnt ?n upc k + 2 ^ ?n - unat val mod 2 ^ ?n) mod 2 ^ ?n" if k: "k < ?K"
  proof -
    let ?u = "bit_slice_full_subtract_port q upc val" and ?M = "2 ^ ?n :: nat"
    obtain b where b: "cnt ?n ?u k + unat val mod ?M = cnt ?n upc k + ?M * of_bool b" using p k unfolding e P_def by blast
    have lt: "cnt ?n ?u k < ?M" "unat val mod ?M < ?M" by (simp_all add: cnt_lt)
    show ?thesis
    proof (cases b)
      case True
      then have "cnt ?n upc k + ?M - unat val mod ?M = cnt ?n ?u k" using b by simp
      then show ?thesis using lt by simp
    next
      case False
      then have "cnt ?n upc k + ?M - unat val mod ?M = cnt ?n ?u k + ?M" using b lt by simp
      then show ?thesis using lt by simp
    qed
  qed
qed

end
