(* ===== verification/Bike_Threshold.thy ===== *)
theory Bike_Threshold
  imports Bike_Decode
begin

text \<open>
  The weight of a vector (\<open>utilities.c\<close>) and the threshold of the decoder: the integer arithmetic of
  \<open>get_threshold\<close> gives the floor of the fraction that its comment states, for every weight that can occur.
\<close>

subsection \<open>Weight\<close>

definition weight :: "nat \<Rightarrow> nat \<Rightarrow> nat" where
  "weight n x = length (filter (bit x) [0..<n])"

lemma weight_le: "weight n x \<le> n"
  using length_filter_le [of "bit x" "[0..<n]"] by (simp add: weight_def)

lemma weight_add: "weight (m + n) x = weight m x + weight n (drop_bit m x)"
proof -
  have "[0..<m + n] = [0..<m] @ map (\<lambda>i. i + m) [0..<n]"
    using upt_add_eq_append [of 0 m n] map_add_upt [of m n] by (simp add: add.commute)
  then show ?thesis by (simp add: weight_def filter_map o_def bit_drop_bit_eq add.commute)
qed

lemma weight_cong: "(\<And>k. k < n \<Longrightarrow> bit x k \<longleftrightarrow> bit y k) \<Longrightarrow> weight n x = weight n y"
  unfolding weight_def by (rule arg_cong [where f = length], rule filter_cong) simp_all

lemma popcount8_weight: "popcount8 b = weight 8 (unat b)"
  by (simp add: popcount8_def weight_def bit_unsigned_iff cong: filter_cong)

lemma weight_bval:
  "n \<le> length bs \<Longrightarrow> weight (8 * n) (bval bs) = (\<Sum>i<n. popcount8 (bs ! i))"
proof (induction n)
  case (Suc n)
  have "bit (drop_bit (8 * n) (bval bs)) k \<longleftrightarrow> bit (unat (bs ! n)) k" if "k < 8" for k
    using that Suc.prems by (simp add: bit_drop_bit_eq bit_bval bit_unsigned_iff add.commute)
  then have "weight 8 (drop_bit (8 * n) (bval bs)) = popcount8 (bs ! n)"
    unfolding popcount8_weight by (rule weight_cong)
  then show ?case using Suc weight_add [of "8 * n" 8 "bval bs"] by (simp add: add.commute)
qed (simp add: weight_def)

lemma r_bits_vector_weight_correct:
  assumes q: "q \<in> set bike_levels" and len: "R_BYTES q \<le> length raw"
  shows "r_bits_vector_weight q raw = of_nat (weight (R_BITS q) (bval raw))"
proof -
  let ?n = "R_BYTES q - 1" and ?L = "LAST_R_BYTE_LEAD q"
  note bf = R_BYTES_facts [OF q]
  have n: "?n < length raw" using len bf(1) by simp
  have acc: "for_range 0 m (\<lambda>i acc. acc + of_nat (popcount8 (raw ! i))) 0 = (of_nat (\<Sum>i<m. popcount8 (raw ! i)) :: u64)" for m
    by (induction m) (simp_all add: for_range_Suc)
  have m: "bit (LAST_R_BYTE_MASK q) j \<longleftrightarrow> j < ?L" if "j < 8" for j
    using that bf(6) by (simp add: LAST_R_BYTE_MASK_def bit_mask_iff flip: mask_eq_exp_minus_1)
  have "popcount8 (raw ! ?n AND LAST_R_BYTE_MASK q) = length (filter (\<lambda>j. bit (raw ! ?n) j \<and> j < ?L) [0..<8])"
    unfolding popcount8_def by (rule arg_cong [where f = length], rule filter_cong) (auto simp: bit_and_iff m)
  also have "[0..<8] = [0..<?L] @ [?L..<8]" using upt_add_eq_append [of 0 ?L "8 - ?L"] bf(6) by simp
  also have "length (filter (\<lambda>j. bit (raw ! ?n) j \<and> j < ?L) ([0..<?L] @ [?L..<8])) = length (filter (bit (raw ! ?n)) [0..<?L])"
  proof -
    have "filter (\<lambda>j. bit (raw ! ?n) j \<and> j < ?L) [0..<?L] = filter (bit (raw ! ?n)) [0..<?L]" by (rule filter_cong) auto
    moreover have "filter (\<lambda>j. bit (raw ! ?n) j \<and> j < ?L) [?L..<8] = []" by (auto simp: filter_empty_conv)
    ultimately show ?thesis by simp
  qed
  also have "\<dots> = weight ?L (drop_bit (8 * ?n) (bval raw))"
    unfolding weight_def using n bf(6)
    by (intro arg_cong [where f = length] filter_cong) (auto simp: bit_drop_bit_eq bit_bval add.commute)
  finally have "popcount8 (raw ! ?n AND LAST_R_BYTE_MASK q) = weight ?L (drop_bit (8 * ?n) (bval raw))" .
  then show ?thesis
    using weight_add [of "8 * ?n" ?L "bval raw"] weight_bval [of ?n raw] n bf(4)
    by (simp add: r_bits_vector_weight_def acc)
qed

subsection \<open>The threshold\<close>

lemma unat_and_32: "unat (x AND 0xffffffff :: u64) = unat x mod 2 ^ 32"
proof -
  have "(0xffffffff :: u64) = mask 32" by (simp add: mask_eq_exp_minus_1)
  then show ?thesis by (simp only: unat_and_mask)
qed

lemma MUL64HIGH_nat:
  assumes "unat x < 2 ^ 36"
  shows "unat (MUL64HIGH x 12379400392853802749) = (unat x * 2882303761 + unat x div 2 ^ 32 * 2221002493) div 2 ^ 32"
proof -
  let ?b = "12379400392853802749 :: u64" and ?h = "drop_bit 32 x" and ?l = "x AND 0xffffffff"
  have b: "unat (?b AND 0xffffffff) = 2221002493" "unat (drop_bit 32 ?b) = 2882303761"
    by (simp_all add: unat_and_32 unat_drop_bit)
  have h: "unat ?h = unat x div 2 ^ 32" "unat ?h < 16" and l: "unat ?l = unat x mod 2 ^ 32" "unat ?l < 2 ^ 32"
    using assms by (auto simp: unat_drop_bit unat_and_32 less_mult_imp_div_less)
  have 1: "unat (?h * drop_bit 32 ?b) = unat ?h * 2882303761" using h(2) b(2) by (subst unat_mult_small) simp_all
  have 2: "unat (?h * (?b AND 0xffffffff)) = unat ?h * 2221002493" using h(2) b(1) by (subst unat_mult_small) simp_all
  have 3: "unat (?l * drop_bit 32 ?b) = unat ?l * 2882303761" using l(2) b(2) by (subst unat_mult_small) simp_all
  have 4: "unat (?h * (?b AND 0xffffffff) + ?l * drop_bit 32 ?b) = unat ?h * 2221002493 + unat ?l * 2882303761"
  proof -
    have "unat (?h * (?b AND 0xffffffff)) + unat (?l * drop_bit 32 ?b) < 2 ^ LENGTH(64)" unfolding 2 3 using h(2) l(2) by simp
    then show ?thesis by (simp only: unat_add_small 2 3)
  qed
  let ?s = "unat ?h * 2221002493 + unat ?l * 2882303761"
  have "?s div 2 ^ 32 < 2 ^ 40" using h(2) l(2) by simp
  then have "unat (MUL64HIGH x ?b) = unat ?h * 2882303761 + ?s div 2 ^ 32"
  proof -
    have e: "unat (drop_bit 32 (?h * (?b AND 0xffffffff) + ?l * drop_bit 32 ?b)) = ?s div 2 ^ 32" by (simp only: unat_drop_bit 4)
    have "unat (?h * drop_bit 32 ?b) + unat (drop_bit 32 (?h * (?b AND 0xffffffff) + ?l * drop_bit 32 ?b)) < 2 ^ LENGTH(64)"
      unfolding 1 e using \<open>?s div 2 ^ 32 < 2 ^ 40\<close> h(2) by simp
    then show ?thesis unfolding MUL64HIGH_def Let_def by (simp only: unat_add_small 1 e)
  qed
  also have "\<dots> = (unat ?h * 2882303761 * 2 ^ 32 + ?s) div 2 ^ 32" by simp
  also have "unat ?h * 2882303761 * 2 ^ 32 + ?s = (unat ?h * 2 ^ 32 + unat ?l) * 2882303761 + unat ?h * 2221002493" by simp
  also have "unat ?h * 2 ^ 32 + unat ?l = unat x" unfolding h(1) l(1) by (rule div_mult_mod_eq)
  finally show ?thesis by (simp only: h(1))
qed

lemma div_100000000:
  fixes x :: nat
  assumes "2 \<le> x mod 10 ^ 8" and "x < 2 ^ 35"
  shows "(x * 2882303761 + x div 2 ^ 32 * 2221002493) div 2 ^ 58 = x div 10 ^ 8"
proof -
  define k m h where "k = x div 10 ^ 8" and "m = x mod 10 ^ 8" and "h = x div 2 ^ 32"
  have x: "x = 10 ^ 8 * k + m" "m < 10 ^ 8" "2 \<le> m" using assms(1) by (simp_all add: k_def m_def)
  have h: "h * 2 ^ 32 \<le> x" "x < h * 2 ^ 32 + 2 ^ 32"
  proof -
    have "x mod 2 ^ 32 < 2 ^ 32" by simp
    then show "h * 2 ^ 32 \<le> x" "x < h * 2 ^ 32 + 2 ^ 32" unfolding h_def using div_mult_mod_eq [of x "2 ^ 32"] by linarith+
  qed
  have "k * 2 ^ 58 \<le> x * 2882303761 + h * 2221002493" "x * 2882303761 + h * 2221002493 < k * 2 ^ 58 + 2 ^ 58"
    using x h assms(2) by simp_all
  then show ?thesis unfolding k_def [symmetric] h_def [symmetric] by (intro div_nat_eqI) simp_all
qed

definition threshold_sum :: "bike_params \<Rightarrow> nat \<Rightarrow> nat" where
  "threshold_sum q w = unat (THRESHOLD_COEFF0 q) + unat (THRESHOLD_COEFF1 q) * w"

text \<open>
  No weight puts the sum just above a multiple of \<open>10^8\<close>, where the approximation would be off by one: modulo
  \<open>10^8\<close> divided by a common factor \<open>g\<close>, the weight would be the one residue that \<open>v\<close>, the inverse of \<open>a1\<close>, determines.
\<close>

lemma sum_mod:
  fixes g M a0 a1 v w r :: nat
  assumes gM: "g * M = 100000000" and inv: "v * a1 mod M = 1" and z: "0 < v * a0 mod M" "v * a0 mod M + r < M" and w: "w \<le> r"
    and g: "even g"
  shows "2 \<le> (g * a0 + g * a1 * w) mod 100000000"
proof -
  let ?y = "a0 + a1 * w" and ?z = "v * a0 mod M"
  have x: "(g * a0 + g * a1 * w) mod 100000000 = g * (?y mod M)"
  proof -
    have "g * a0 + g * a1 * w = g * ?y" by (simp add: distrib_left)
    then show ?thesis by (simp only: gM [symmetric] mult_mod_right)
  qed
  have "?y mod M \<noteq> 0"
  proof
    assume "?y mod M = 0"
    then have "v * ?y mod M = 0" by (metis mod_mult_right_eq mult_0_right mod_0)
    moreover have "v * ?y mod M = (?z + v * a1 mod M * w) mod M" 
    proof -
      have "v * ?y = v * a0 + v * a1 * w" by (simp add: distrib_left)
      then show ?thesis by (metis mod_add_eq mod_add_left_eq mod_mult_left_eq mod_mod_trivial)
    qed
    ultimately have "(?z + w) mod M = 0" by (simp add: inv)
    then show False using z w by simp
  qed
  then have "g * 1 \<le> g * (?y mod M)" by (intro mult_le_mono2) simp
  moreover have "2 \<le> g" using g gM by (cases "g = 0"; cases "g = 1") auto
  ultimately show ?thesis unfolding x by linarith
qed

lemma threshold_sum_levels:
  assumes q: "q \<in> set bike_levels" and w: "w \<le> R_BITS q"
  shows "2 \<le> threshold_sum q w mod 10 ^ 8" and "threshold_sum q w < 2 ^ 35"
proof -
  consider "q = bike_l1" | "q = bike_l3" | "q = bike_l5" using q by (rule bike_level_cases)
  then have "2 \<le> threshold_sum q w mod 100000000 \<and> threshold_sum q w < 2 ^ 35"
  proof cases
    case 1
    then have "threshold_sum q w = 20 * 67650000 + 20 * 34861 * w" and "w \<le> 12323"
      using w by (simp_all add: threshold_sum_def bike_l1_def)
    then show ?thesis using sum_mod [of 20 5000000 2488741 34861 67650000 12323 w] by simp
  next
    case 2
    then have "threshold_sum q w = 500 * 3051760 + 500 * 1053 * w" and "w \<le> 24659"
      using w by (simp_all add: threshold_sum_def bike_l3_def)
    then show ?thesis using sum_mod [of 500 200000 65717 1053 3051760 24659 w] by simp
  next
    case 3
    then have "threshold_sum q w = 8 * 223481250 + 8 * 50289 * w" and "w \<le> 40973"
      using w by (simp_all add: threshold_sum_def bike_l5_def)
    then show ?thesis using sum_mod [of 8 12500000 7766609 50289 223481250 40973 w] by simp
  qed
  then show "2 \<le> threshold_sum q w mod 10 ^ 8" "threshold_sum q w < 2 ^ 35" by simp_all
qed

definition threshold_of :: "bike_params \<Rightarrow> nat \<Rightarrow> nat" where
  "threshold_of q w = max (unat (THRESHOLD_MIN q)) (threshold_sum q w div 10 ^ 8)"

lemma threshold_of_lt: "q \<in> set bike_levels \<Longrightarrow> w \<le> R_BITS q \<Longrightarrow> threshold_of q w < 183"
  by (elim bike_level_cases) (simp_all add: threshold_of_def threshold_sum_def bike_l1_def bike_l3_def bike_l5_def)

lemma level_consts:
  assumes "q \<in> set bike_levels"
  shows "THRESHOLD_MUL_CONST q = 12379400392853802749" and "THRESHOLD_SHR_CONST q = 26" and "R_BITS q < 2 ^ 16"
    and "unat (THRESHOLD_COEFF0 q) < 2 ^ 32" and "unat (THRESHOLD_COEFF1 q) < 2 ^ 20" and "unat (THRESHOLD_MIN q) < 128"
  using assms by (elim bike_level_cases; simp add: bike_l1_def bike_l3_def bike_l5_def)+

lemma get_threshold_correct:
  assumes q: "q \<in> set bike_levels" and len: "R_BYTES q \<le> 8 * length s"
  shows "unat (get_threshold q s) = threshold_of q (weight (R_BITS q) (qval s))"
proof -
  let ?w = "weight (R_BITS q) (qval s)"
  note lc = level_consts [OF q]
  have w: "?w \<le> R_BITS q" by (rule weight_le)
  have lb: "R_BITS q \<le> 8 * R_BYTES q" by (rule R_BYTES_facts(3) [OF q])
  have sw: "r_bits_vector_weight q (take (R_BYTES q) (bytes_of_lanes s)) = of_nat ?w"
  proof -
    have "weight (R_BITS q) (bval (take (R_BYTES q) (bytes_of_lanes s))) = ?w"
      using lb by (intro weight_cong) (simp add: bval_take bit_take_bit_iff)
    then show ?thesis using r_bits_vector_weight_correct [OF q, of "take (R_BYTES q) (bytes_of_lanes s)"] len by simp
  qed
  have uw: "unat (of_nat ?w :: u64) = ?w" using w lc(3) by (intro unat_of_nat_small) simp
  let ?x = "THRESHOLD_COEFF0 q + THRESHOLD_COEFF1 q * of_nat ?w"
  have p: "unat (THRESHOLD_COEFF1 q) * ?w < 2 ^ 36"
  proof -
    have "unat (THRESHOLD_COEFF1 q) * ?w \<le> 2 ^ 20 * 2 ^ 16" using w lc(3,5) by (intro mult_le_mono) simp_all
    moreover have "unat (THRESHOLD_COEFF1 q) * ?w \<le> threshold_sum q ?w" by (simp add: threshold_sum_def)
    ultimately show ?thesis using threshold_sum_levels(2) [OF q w] by simp
  qed
  then have um: "unat (THRESHOLD_COEFF1 q * of_nat ?w) = unat (THRESHOLD_COEFF1 q) * ?w"
    by (subst unat_mult_small) (simp_all add: uw)
  have ux: "unat ?x = threshold_sum q ?w"
    using p lc(4) by (subst unat_add_small) (simp_all add: um threshold_sum_def)
  have t: "unat (drop_bit 26 (MUL64HIGH ?x 12379400392853802749)) = threshold_sum q ?w div 10 ^ 8"
  proof -
    have "unat (drop_bit 26 (MUL64HIGH ?x 12379400392853802749))
      = (unat ?x * 2882303761 + unat ?x div 2 ^ 32 * 2221002493) div 2 ^ 58"
      using threshold_sum_levels(2) [OF q w] ux by (subst unat_drop_bit, subst MUL64HIGH_nat) (simp_all flip: div_mult2_eq)
    then show ?thesis using div_100000000 [OF threshold_sum_levels [OF q w]] ux by simp
  qed
  define thr where "thr = drop_bit 26 (MUL64HIGH ?x 12379400392853802749)"
  have lt: "unat thr < 183" using t threshold_of_lt [OF q w] by (simp add: thr_def threshold_of_def)
  have u32: "unat (ucast thr :: u32) = unat thr" using lt by (simp add: unat_ucast)
  have "get_threshold q s = ucast ((ucast (secure_l32_mask (ucast thr) (THRESHOLD_MIN q)) AND thr)
      OR ucast (NOT (secure_l32_mask (ucast thr) (THRESHOLD_MIN q)) AND THRESHOLD_MIN q))"
    by (simp only: get_threshold_def Let_def sw lc(1,2) thr_def)
  also have "\<dots> = (if ucast thr < THRESHOLD_MIN q then ucast (THRESHOLD_MIN q) else ucast thr)"
  proof (cases "ucast thr < THRESHOLD_MIN q")
    case True
    have "(ucast (ucast (THRESHOLD_MIN q) :: u64) :: u8) = ucast (THRESHOLD_MIN q)"
      by (rule bit_word_eqI) (auto simp: bit_ucast_iff dest: bit_imp_le_length)
    then show ?thesis using True by (simp add: secure_l32_mask_eq)
  next
    case False
    have "ucast (- 1 :: u32) AND thr = thr"
    proof -
      have e: "(ucast (- 1 :: u32) :: u64) = mask 32" by (rule bit_word_eqI) (auto simp: bit_ucast_iff bit_mask_iff)
      have "unat (mask 32 AND thr) = unat thr" using lt by (simp add: unat_and_mask and.commute [of "mask 32"])
      then show ?thesis unfolding e word_eq_unat .
    qed
    then show ?thesis using False by (simp add: secure_l32_mask_eq)
  qed
  finally have "unat (get_threshold q s) = (if unat thr < unat (THRESHOLD_MIN q) then unat (THRESHOLD_MIN q) else unat thr)"
    using lt lc(6) by (simp add: word_less_nat_alt u32 unat_ucast)
  then show ?thesis using t by (simp add: threshold_of_def thr_def max_def)
qed

end
