(* ===== verification/Bike_Bgf.thy ===== *)
theory Bike_Bgf
  imports Bike_Upc Bike_Threshold
begin

text \<open>
  The Black-Gray-Flip decoder on polynomials, and the refinement: \<open>decode.c\<close>, with its rotated copies of the syndrome and
  bit-sliced counters, computes it in the portable build and, with vectors of 128 bits, in the SVE2 build.
\<close>

subsection \<open>The specification\<close>

definition poly_of :: "nat \<Rightarrow> (nat \<Rightarrow> bool) \<Rightarrow> nat" where
  "poly_of r P = horner_sum of_bool 2 (map P [0..<r])"

text \<open>
  The unsatisfied parity checks at position \<open>k\<close>: the ones of the syndrome \<open>x\<close> at distances \<open>w\<close>.  A position is over the
  threshold when the difference is not negative as a number of \<open>SLICES\<close> bits.
\<close>

definition bgf_count :: "bike_params \<Rightarrow> nat \<Rightarrow> nat list \<Rightarrow> nat \<Rightarrow> nat" where
  "bgf_count q x w k = length (filter (\<lambda>j. bit x ((k + w ! j) mod R_BITS q)) [0..<par_D q])"

definition bgf_over :: "bike_params \<Rightarrow> nat \<Rightarrow> nat \<Rightarrow> bool" where
  "bgf_over q t c \<longleftrightarrow> (c + 2 ^ SLICES q - t) mod 2 ^ SLICES q < 2 ^ (SLICES q - 1)"

definition bgf_flags :: "bike_params \<Rightarrow> nat \<Rightarrow> nat \<Rightarrow> nat list \<Rightarrow> nat" where
  "bgf_flags q x t w = poly_of (R_BITS q) (\<lambda>k. bgf_over q t (bgf_count q x w k))"

definition bgf_near :: "bike_params \<Rightarrow> nat \<Rightarrow> nat \<Rightarrow> nat list \<Rightarrow> nat" where
  "bgf_near q x t w = poly_of (R_BITS q) (\<lambda>k. bgf_over q t (bgf_count q x w k + DELTA) \<and> \<not> bgf_over q t (bgf_count q x w k))"

definition bgf_syndrome :: "bike_params \<Rightarrow> nat \<Rightarrow> nat \<Rightarrow> nat \<Rightarrow> nat list \<Rightarrow> nat" where
  "bgf_syndrome q c0 h0 pk e = pmul (R_BITS q) (pmul (R_BITS q) (e ! 1) pk XOR c0 XOR e ! 0) h0"

record bgf_state =
  bgf_e :: "nat list"
  bgf_black :: "nat list"
  bgf_gray :: "nat list"

definition bgf_err1 :: "bike_params \<Rightarrow> nat \<Rightarrow> nat \<Rightarrow> nat list list \<Rightarrow> bgf_state \<Rightarrow> bgf_state" where
  "bgf_err1 q x t ws b =
     \<lparr>bgf_e = map2 (XOR) (bgf_e b) (map (bgf_flags q x t) ws), bgf_black = map (bgf_flags q x t) ws, bgf_gray = map (bgf_near q x t) ws\<rparr>"

definition bgf_err2 :: "bike_params \<Rightarrow> nat \<Rightarrow> nat \<Rightarrow> nat list list \<Rightarrow> nat list \<Rightarrow> nat list \<Rightarrow> nat list" where
  "bgf_err2 q x t ws pos e = map2 (XOR) e (map2 (AND) pos (map (bgf_flags q x t) ws))"

definition bgf_iter :: "bike_params \<Rightarrow> nat \<Rightarrow> nat \<Rightarrow> nat \<Rightarrow> nat list list \<Rightarrow> nat \<Rightarrow> bgf_state \<times> nat \<Rightarrow> bgf_state \<times> nat" where
  "bgf_iter q c0 h0 pk ws iter = (\<lambda>(b, x).
     let b = bgf_err1 q x (threshold_of q (weight (R_BITS q) x)) ws b;
         x = bgf_syndrome q c0 h0 pk (bgf_e b)
     in if 1 \<le> iter then (b, x)
        else (let t = (par_D q + 1) div 2 + 1;
                  b = b\<lparr>bgf_e := bgf_err2 q x t ws (bgf_black b) (bgf_e b)\<rparr>;
                  x = bgf_syndrome q c0 h0 pk (bgf_e b);
                  b = b\<lparr>bgf_e := bgf_err2 q x t ws (bgf_gray b) (bgf_e b)\<rparr>
              in (b, bgf_syndrome q c0 h0 pk (bgf_e b))))"

definition bgf_decode :: "bike_params \<Rightarrow> nat \<Rightarrow> nat \<Rightarrow> nat \<Rightarrow> nat list list \<Rightarrow> nat list" where
  "bgf_decode q c0 h0 pk ws =
     bgf_e (fst (for_range 0 MAX_IT (bgf_iter q c0 h0 pk ws)
       (\<lparr>bgf_e = [0, 0], bgf_black = [0, 0], bgf_gray = [0, 0]\<rparr>, pmul (R_BITS q) c0 h0)))"

lemma bit_poly_of: "bit (poly_of r P) i \<longleftrightarrow> i < r \<and> P i"
  by (auto simp: poly_of_def bit_horner_sum_bit_iff)

lemma poly_of_lt: "poly_of r P < 2 ^ r"
proof -
  have "take_bit r (poly_of r P) = poly_of r P" by (rule bit_eqI) (auto simp: bit_take_bit_iff bit_poly_of)
  then show ?thesis by (simp add: take_bit_nat_eq_self_iff)
qed

text \<open>With a threshold that \<open>SLICES - 1\<close> bits can hold the test is the comparison.\<close>

lemma bgf_over_le:
  assumes "c < 2 ^ (SLICES q - 1)" and "t \<le> 2 ^ (SLICES q - 1)" and "0 < SLICES q"
  shows "bgf_over q t c \<longleftrightarrow> t \<le> c"
proof -
  obtain s where s: "SLICES q = Suc s" using assms(3) by (cases "SLICES q") auto
  show ?thesis
  proof (cases "t \<le> c")
    case True
    then have e: "c + 2 ^ Suc s - t = (c - t) + 2 ^ Suc s" by simp
    have lt: "c - t < 2 ^ s" using assms(1) s by simp
    then have "(c + 2 ^ Suc s - t) mod 2 ^ Suc s = c - t" unfolding e mod_add_self2 by (intro mod_less) simp
    then show ?thesis using True lt unfolding bgf_over_def s by simp
  next
    case False
    then have "c + 2 ^ Suc s - t < 2 ^ Suc s" "2 ^ s \<le> c + 2 ^ Suc s - t" using assms(2) s by simp_all
    then show ?thesis using False s unfolding bgf_over_def by (simp del: power_Suc)
  qed
qed

lemma bgf_count_le: "bgf_count q x w k \<le> par_D q"
  using length_filter_le [of "\<lambda>j. bit x ((k + w ! j) mod R_BITS q)" "[0..<par_D q]"] by (simp add: bgf_count_def)

subsection \<open>Counting\<close>

lemma LOG2_MSB_bound: "v < 512 \<Longrightarrow> v < 2 ^ LOG2_MSB v"
  by (simp add: LOG2_MSB_def)

lemma LOG2_MSB_mono: "v \<le> w \<Longrightarrow> LOG2_MSB v \<le> LOG2_MSB w"
  by (simp add: LOG2_MSB_def)

lemma par_D_levels:
  assumes "q \<in> set bike_levels"
  shows "par_D q < 512" and "par_D q + 3 < 2 ^ (SLICES q - 1)" and "8 \<le> SLICES q" and "(par_D q + 1) div 2 + 1 < 128"
  using assms by (elim bike_level_cases; simp add: SLICES_def LOG2_MSB_def bike_l1_def bike_l3_def bike_l5_def)+

lemma count_upc_correct:
  assumes B: "vl_pos B" and q: "q \<in> set bike_levels" and s: "periodic q x (3 * R_QWORDS q - 1) s"
    and w: "\<And>j. j < par_D q \<Longrightarrow> unat (wl ! j) < R_BITS q" and wl: "length wl = par_D q" and rs: "length rs = 3 * R_QWORDS q"
  obtains upc rs' where "count_upc B q s wl rs = (upc, rs')" and "upc_ok q upc" and "length rs' = 3 * R_QWORDS q"
    and "\<And>k. k < 64 * R_QWORDS q \<Longrightarrow> cnt (SLICES q) upc k = bgf_count q x (map unat wl) k"
proof -
  let ?S = "SLICES q" and ?K = "64 * R_QWORDS q"
  let ?c = "\<lambda>n k. length (filter (\<lambda>j. bit x ((k + map unat wl ! j) mod R_BITS q)) [0..<n])"
  let ?f = "\<lambda>j (upc, rotated_syndrome). let rotated_syndrome = rotate_right B q s (unat (wl ! j))
       in bit_sliced_adder_port q (upc, rotated_syndrome) (LOG2_MSB (j + 1))"
  define P where "P n t \<longleftrightarrow> upc_ok q (fst t) \<and> length (snd t :: u64 list) = 3 * R_QWORDS q \<and> (\<forall>k<?K. cnt ?S (fst t) k = ?c n k)" for n t
  have "P (par_D q) (for_range 0 (par_D q) ?f (upc_zero q, rs))"
  proof (rule for_range_inv [where P = P])
    have "upc_ok q (upc_zero q)" by (simp add: upc_ok_def upc_zero_def)
    moreover have "cnt ?S (upc_zero q) k = 0" for k by (rule cnt_zero) (simp add: upc_zero_def)
    ultimately show "P 0 (upc_zero q, rs)" using rs by (simp add: P_def)
  next
    fix n t assume n: "n < par_D q" and t: "P n t"
    let ?L = "LOG2_MSB (n + 1)" and ?r = "rotate_right B q s (unat (wl ! n))"
    obtain u r where t1: "t = (u, r)" by fastforce
    have t2: "upc_ok q u" "\<And>k. k < ?K \<Longrightarrow> cnt ?S u k = ?c n k" using t by (simp_all add: P_def t1)
    note rr = rotate_right_periodic [OF B q s w [OF n]]
    have "?L \<le> LOG2_MSB (par_D q)" using n by (intro LOG2_MSB_mono) simp
    then have L: "?L \<le> ?S" by (simp add: SLICES_def)
    have b: "n + 1 < 2 ^ ?L" using n par_D_levels(1) [OF q] by (intro LOG2_MSB_bound) simp
    have "R_QWORDS q \<le> length ?r" using rr(1) by simp
    then obtain u2 r2 where a: "bit_sliced_adder_port q (u, ?r) ?L = (u2, r2)" "upc_ok q u2" "length r2 = length ?r"
      "\<And>i. ?L \<le> i \<Longrightarrow> u2 ! i = u ! i"
      "\<And>k. k < ?K \<Longrightarrow> cnt ?L u2 k + 2 ^ ?L * of_bool (bit (qval r2) k) = cnt ?L u k + of_bool (bit (qval ?r) k)"
      using adder_correct [OF q t2(1) _ L, of ?r] by blast
    have "cnt ?S u2 k = ?c (Suc n) k" if k: "k < ?K" for k
    proof -
      obtain h where h: "cnt ?S u k = cnt ?L u k + 2 ^ ?L * h" "cnt ?S u2 k = cnt ?L u2 k + 2 ^ ?L * h"
        using cnt_high [OF L, of u k u2] a(4) by auto
      have cn: "?c n k \<le> n" using length_filter_le [of "\<lambda>j. bit x ((k + map unat wl ! j) mod R_BITS q)" "[0..<n]"] by simp
      have h0: "h = 0"
      proof (rule ccontr)
        assume "h \<noteq> 0"
        then have "2 ^ ?L \<le> cnt ?S u k" unfolding h(1) by (cases h) simp_all
        then show False using t2(2) [OF k] cn b by simp
      qed
      have bk: "bit (qval ?r) k \<longleftrightarrow> bit x ((k + unat (wl ! n)) mod R_BITS q)" by (rule rr(2) [OF k])
      have "cnt ?L u k + of_bool (bit (qval ?r) k) \<le> n + 1" using t2(2) [OF k] cn h(1) h0 by simp
      then have "\<not> bit (qval r2) k" using a(5) [OF k] b by (cases "bit (qval r2) k") simp_all
      then have "cnt ?S u2 k = ?c n k + of_bool (bit (qval ?r) k)" using a(5) [OF k] h h0 t2(2) [OF k] by simp
      then show ?thesis using bk n wl by simp
    qed
    then show "P (Suc n) (?f n t)" using a rr(1) by (simp add: P_def t1)
  qed simp
  then show ?thesis using that
    by (cases "for_range 0 (par_D q) ?f (upc_zero q, rs)") (auto simp: P_def count_upc_def bgf_count_def)
qed

subsection \<open>Bytes\<close>

lemma for_range_pair:
  "for_range 0 n (\<lambda>j (a, b). (f j a, g j b)) (a, b) = (for_range 0 n f a, for_range 0 n g b)"
  by (induction n) (simp_all add: for_range_Suc)

lemma update_bytes:
  "length xs = n \<Longrightarrow> for_range 0 n (\<lambda>j xs. xs[j := f j (xs ! j)]) xs = map (\<lambda>j. f j (xs ! j)) [0..<n]"
  using for_range_update [of n xs f] by simp

lemma set_bytes: "length xs = n \<Longrightarrow> for_range 0 n (\<lambda>j xs. xs[j := f j]) xs = map f [0..<n]"
  using for_range_update [of n xs "\<lambda>j _. f j"] by simp

lemma bit_bval_map: "bit (bval (map f [0..<n])) k \<longleftrightarrow> k div 8 < n \<and> bit (f (k div 8)) (k mod 8)"
  by (auto simp: bit_bval)

lemma mask_last_byte_correct:
  assumes q: "q \<in> set bike_levels" and b: "length b = R_BYTES q"
  shows "length (mask_last_byte q b) = R_BYTES q" and "bval (mask_last_byte q b) = take_bit (R_BITS q) (bval b)"
proof -
  note bf = R_BYTES_facts [OF q]
  have m: "bit (LAST_R_BYTE_MASK q) j \<longleftrightarrow> j < LAST_R_BYTE_LEAD q" if "j < 8" for j
    using that bf(6) by (simp add: LAST_R_BYTE_MASK_def bit_mask_iff flip: mask_eq_exp_minus_1)
  have "bit (bval (mask_last_byte q b)) k \<longleftrightarrow> k < R_BITS q \<and> bit (bval b) k" for k
  proof -
    have "bit (bval (mask_last_byte q b)) k \<longleftrightarrow> bit (bval b) k \<and> (k div 8 = R_BYTES q - 1 \<longrightarrow> k mod 8 < LAST_R_BYTE_LEAD q)"
      using b bf(1) by (auto simp: mask_last_byte_def bit_bval bit_and_iff m nth_list_update)
    moreover have "k < 8 * R_BYTES q \<and> (k div 8 = R_BYTES q - 1 \<longrightarrow> k mod 8 < LAST_R_BYTE_LEAD q) \<longleftrightarrow> k < R_BITS q"
      using bf(1,4,6) div_mult_mod_eq [of k 8] by (cases "k div 8 = R_BYTES q - 1") auto
    moreover have "bit (bval b) k \<Longrightarrow> k < 8 * R_BYTES q" using bit_lt_nat [OF bval_lt, of b k] b by simp
    ultimately show ?thesis by blast
  qed
  then show "bval (mask_last_byte q b) = take_bit (R_BITS q) (bval b)" by (intro bit_eqI) (simp add: bit_take_bit_iff)
  show "length (mask_last_byte q b) = R_BYTES q" using b by (simp add: mask_last_byte_def)
qed

lemma bit_last_slice:
  assumes q: "q \<in> set bike_levels" and u: "upc_ok q upc" and k: "k < R_BITS q"
  shows "bit (last_slice q upc ! (k div 8)) (k mod 8) \<longleftrightarrow> 2 ^ (SLICES q - 1) \<le> cnt (SLICES q) upc k" and "k div 8 < R_BYTES q"
proof -
  let ?s = "upc ! (SLICES q - 1)"
  have S: "SLICES q - 1 < SLICES q" "SLICES q = Suc (SLICES q - 1)" using par_D_levels(3) [OF q] by simp_all
  show kb: "k div 8 < R_BYTES q" using k R_BYTES_facts(3) [OF q] by (simp add: less_mult_imp_div_less mult.commute)
  have "length (last_slice q upc) = R_BYTES q"
    using upc_okD(2) [OF u S(1)] R_BYTES_facts(2) [OF q] by (simp add: last_slice_def pad_val_def)
  then have "bit (last_slice q upc ! (k div 8)) (k mod 8) \<longleftrightarrow> bit (bval (last_slice q upc)) k" using kb by (simp add: bit_bval)
  also have "\<dots> \<longleftrightarrow> bit (qval ?s) k" using k R_BYTES_facts(3) [OF q] by (simp add: last_slice_def pad_val_def bval_take bit_take_bit_iff)
  also have "\<dots> \<longleftrightarrow> 2 ^ (SLICES q - 1) \<le> cnt (SLICES q) upc k" using cnt_msb [of upc "SLICES q - 1" k] S(2) by simp
  finally show "bit (last_slice q upc ! (k div 8)) (k mod 8) \<longleftrightarrow> 2 ^ (SLICES q - 1) \<le> cnt (SLICES q) upc k" .
qed

text \<open>After the subtraction a clear bit of the last slice marks a position over the threshold.\<close>

lemma bit_last_slice_subtract:
  assumes q: "q \<in> set bike_levels" and u: "upc_ok q upc" and k: "k < R_BITS q"
  shows "bit (last_slice q (bit_slice_full_subtract_port q upc val) ! (k div 8)) (k mod 8)
    \<longleftrightarrow> \<not> bgf_over q (unat val) (cnt (SLICES q) upc k)"
proof -
  have S: "(2 :: nat) ^ 8 \<le> 2 ^ SLICES q" using par_D_levels(3) [OF q] by (intro power_increasing) simp_all
  have "unat val < 2 ^ 8" using unat_8_lt [of val] by simp
  then have "unat val < 2 ^ SLICES q" using S by (rule less_le_trans)
  moreover have "k < 64 * R_QWORDS q" using k bike_sizes_pos(6) [OF q] by simp
  ultimately show ?thesis
    using bit_last_slice(1) [OF q subtract_correct(1) [OF q u] k, of val] subtract_correct(2) [OF q u, of k val]
    by (simp add: bgf_over_def not_less)
qed

lemma delta_loop:
  assumes q: "q \<in> set bike_levels" and u: "upc_ok q upc" and rs: "length rs = 3 * R_QWORDS q"
  obtains upc' rs' where
    "for_range 0 n (\<lambda>_ (upc, rotated_syndrome).
       let rotated_syndrome = lanes_over (memcpy (bytes_of_lanes rotated_syndrome) 0 (replicate (R_BYTES q) 0xff))
       in bit_sliced_adder_port q (upc, rotated_syndrome) (SLICES q)) (upc, rs) = (upc', rs')"
    and "upc_ok q upc'" and "length rs' = 3 * R_QWORDS q"
    and "\<And>k. k < R_BITS q \<Longrightarrow> cnt (SLICES q) upc' k = (cnt (SLICES q) upc k + n) mod 2 ^ SLICES q"
proof -
  let ?S = "SLICES q" and ?ones = "replicate (R_BYTES q) 0xff :: bytes"
  let ?f = "\<lambda>_ (upc, rotated_syndrome).
       let rotated_syndrome = lanes_over (memcpy (bytes_of_lanes rotated_syndrome) 0 ?ones)
       in bit_sliced_adder_port q (upc, rotated_syndrome) ?S"
  define P where "P n t \<longleftrightarrow> upc_ok q (fst t) \<and> length (snd t :: u64 list) = 3 * R_QWORDS q
    \<and> (\<forall>k<R_BITS q. cnt ?S (fst t) k = (cnt ?S upc k + n) mod 2 ^ ?S)" for n t
  have "P n (for_range 0 n ?f (upc, rs))"
  proof (rule for_range_inv [where P = P])
    show "P 0 (upc, rs)" using u rs by (simp add: P_def cnt_lt)
  next
    fix i t assume t: "P i t"
    obtain u1 r1 where t1: "t = (u1, r1)" by fastforce
    have t2: "upc_ok q u1" "length r1 = 3 * R_QWORDS q" "\<And>k. k < R_BITS q \<Longrightarrow> cnt ?S u1 k = (cnt ?S upc k + i) mod 2 ^ ?S"
      using t by (simp_all add: P_def t1)
    let ?m = "memcpy (bytes_of_lanes r1) 0 ?ones"
    have rb: "R_BYTES q \<le> length (bytes_of_lanes r1)" using t2(2) R_BYTES_facts(7) [OF q] by simp
    then have lm: "length ?m = 8 * length r1" by (simp add: memcpy_def)
    then have lr: "length (lanes_over ?m) = 3 * R_QWORDS q" using t2(2) by simp
    have ones: "bit (qval (lanes_over ?m)) k" if "k < R_BITS q" for k
    proof -
      have "k div 8 < R_BYTES q" using that R_BYTES_facts(3) [OF q] by (simp add: less_mult_imp_div_less mult.commute)
      moreover have "bit (0xff :: u8) (k mod 8)"
      proof -
        have e: "(0xff :: u8) = mask 8" by (simp add: mask_eq_exp_minus_1)
        show ?thesis unfolding e by (simp add: bit_mask_iff)
      qed
      ultimately have "bit (bval ?m) k" using lm rb by (simp add: bit_bval nth_memcpy)
      then show ?thesis using lm by (simp add: qval_lanes_over)
    qed
    have lq: "R_QWORDS q \<le> length (lanes_over ?m)" using lr by simp
    obtain u2 r2 where a: "bit_sliced_adder_port q (u1, lanes_over ?m) ?S = (u2, r2)" "upc_ok q u2" "length r2 = length (lanes_over ?m)"
      "\<And>i. ?S \<le> i \<Longrightarrow> u2 ! i = u1 ! i"
      "\<And>k. k < 64 * R_QWORDS q \<Longrightarrow> cnt ?S u2 k + 2 ^ ?S * of_bool (bit (qval r2) k) = cnt ?S u1 k + of_bool (bit (qval (lanes_over ?m)) k)"
      using adder_correct [OF q t2(1) lq order_refl] by metis
    have "cnt ?S u2 k = (cnt ?S upc k + Suc i) mod 2 ^ ?S" if k: "k < R_BITS q" for k
    proof -
      have "cnt ?S u2 k + 2 ^ ?S * of_bool (bit (qval r2) k) = cnt ?S u1 k + 1"
        using a(5) [of k] k ones [OF k] bike_sizes_pos(6) [OF q] by simp
      then have "(cnt ?S u1 k + 1) mod 2 ^ ?S = cnt ?S u2 k mod 2 ^ ?S" by (metis mod_mult_self2)
      then show ?thesis using t2(3) [OF k] cnt_lt [of ?S u2 k] by (simp add: mod_Suc_eq)
    qed
    then show "P (Suc i) (?f i t)" using a lr by (simp add: P_def t1)
  qed simp
  then show ?thesis using that by (cases "for_range 0 n ?f (upc, rs)") (auto simp: P_def)
qed

subsection \<open>Finding errors\<close>

definition half_ok :: "bike_params \<Rightarrow> bytes \<Rightarrow> nat \<Rightarrow> bool" where
  "half_ok q b x \<longleftrightarrow> length b = R_BYTES q \<and> bval b = x \<and> x < 2 ^ R_BITS q"

definition half_low :: "bike_params \<Rightarrow> bytes \<Rightarrow> nat \<Rightarrow> bool" where
  "half_low q b x \<longleftrightarrow> length b = R_BYTES q \<and> take_bit (R_BITS q) (bval b) = x"

lemma err1_half_correct:
  fixes t :: u8
  assumes q: "q \<in> set bike_levels" and u: "upc_ok q upc" and rs: "length rs = 3 * R_QWORDS q"
    and c: "\<And>k. k < R_BITS q \<Longrightarrow> cnt (SLICES q) upc k = c k"
    and e: "half_ok q e x" and black: "length black = R_BYTES q" and gray: "length gray = R_BYTES q"
  defines "sub \<equiv> bit_slice_full_subtract_port q upc t"
  defines "black' \<equiv> map (\<lambda>j. NOT (last_slice q sub ! j)) [0..<R_BYTES q]"
  defines "e' \<equiv> mask_last_byte q (map (\<lambda>j. e ! j XOR NOT (last_slice q sub ! j)) [0..<R_BYTES q])"
  shows "for_range 0 (R_BYTES q) (\<lambda>j (black, e). let sum_msb = NOT (last_slice q sub ! j) in (black[j := sum_msb], e[j := e ! j XOR sum_msb])) (black, e)
      = (black', map (\<lambda>j. e ! j XOR NOT (last_slice q sub ! j)) [0..<R_BYTES q])"
    and "half_ok q e' (x XOR poly_of (R_BITS q) (\<lambda>k. bgf_over q (unat t) (c k)))"
    and "half_low q black' (poly_of (R_BITS q) (\<lambda>k. bgf_over q (unat t) (c k)))"
proof -
  let ?n = "R_BYTES q" and ?r = "R_BITS q" and ?F = "\<lambda>k. bgf_over q (unat t) (c k)"
  have l: "bit (last_slice q sub ! (k div 8)) (k mod 8) \<longleftrightarrow> \<not> ?F k" "k div 8 < ?n" if "k < ?r" for k
    using bit_last_slice_subtract [OF q u that, of t] bit_last_slice(2) [OF q u that] c [OF that] by (simp_all add: sub_def)
  have e1: "length e = ?n" "bval e = x" "x < 2 ^ ?r" using e by (simp_all add: half_ok_def)
  show "for_range 0 ?n (\<lambda>j (black, e). let sum_msb = NOT (last_slice q sub ! j) in (black[j := sum_msb], e[j := e ! j XOR sum_msb])) (black, e)
      = (black', map (\<lambda>j. e ! j XOR NOT (last_slice q sub ! j)) [0..<?n])"
    using update_bytes [OF e1(1), of "\<lambda>j y. y XOR NOT (last_slice q sub ! j)"]
    by (simp only: Let_def for_range_pair set_bytes [OF black] black'_def)
  have "take_bit ?r (bval (map (\<lambda>j. e ! j XOR NOT (last_slice q sub ! j)) [0..<?n])) = x XOR poly_of ?r ?F"
  proof (rule bit_eqI)
    fix k
    have "bit x k \<longleftrightarrow> k div 8 < ?n \<and> bit (e ! (k div 8)) (k mod 8)" using e1 by (simp add: bit_bval flip: e1(2))
    then show "bit (take_bit ?r (bval (map (\<lambda>j. e ! j XOR NOT (last_slice q sub ! j)) [0..<?n]))) k = bit (x XOR poly_of ?r ?F) k"
      using l [of k] bit_lt_nat [OF e1(3), of k]
      by (cases "k < ?r") (auto simp: bit_take_bit_iff bit_bval_map bit_xor_iff bit_not_iff bit_poly_of)
  qed
  moreover have "x XOR poly_of ?r ?F < 2 ^ ?r" using e1(3) poly_of_lt by (rule xor_lt)
  ultimately show "half_ok q e' (x XOR poly_of ?r ?F)"
    using mask_last_byte_correct [OF q, of "map (\<lambda>j. e ! j XOR NOT (last_slice q sub ! j)) [0..<?n]"]
    by (simp add: half_ok_def e'_def)
  show "half_low q black' (poly_of ?r ?F)"
    unfolding half_low_def black'_def
    using l by (auto simp: bit_take_bit_iff bit_bval_map bit_not_iff bit_poly_of intro!: bit_eqI)
qed

lemma gray_correct:
  assumes q: "q \<in> set bike_levels" and u: "upc_ok q upc" and t: "t \<le> 2 ^ SLICES q"
    and c: "\<And>k. k < R_BITS q \<Longrightarrow> cnt (SLICES q) upc k = ((c k + 2 ^ SLICES q - t) mod 2 ^ SLICES q + DELTA) mod 2 ^ SLICES q"
    and b: "half_low q black (poly_of (R_BITS q) (\<lambda>k. bgf_over q t (c k)))" and gray: "length gray = R_BYTES q"
  shows "half_low q (for_range 0 (R_BYTES q) (\<lambda>j gray. let sum_msb = NOT (last_slice q upc ! j) in gray[j := NOT (black ! j) AND sum_msb]) gray)
    (poly_of (R_BITS q) (\<lambda>k. bgf_over q t (c k + DELTA) \<and> \<not> bgf_over q t (c k)))"
proof -
  let ?n = "R_BYTES q" and ?r = "R_BITS q"
  have l: "bit (last_slice q upc ! (k div 8)) (k mod 8) \<longleftrightarrow> \<not> bgf_over q t (c k + DELTA)" "k div 8 < ?n" if "k < ?r" for k
  proof -
    have "c k + DELTA + 2 ^ SLICES q - t = (c k + 2 ^ SLICES q - t) + DELTA" using t by simp
    then have "cnt (SLICES q) upc k = (c k + DELTA + 2 ^ SLICES q - t) mod 2 ^ SLICES q" using c [OF that] by (simp add: mod_add_left_eq)
    then show "bit (last_slice q upc ! (k div 8)) (k mod 8) \<longleftrightarrow> \<not> bgf_over q t (c k + DELTA)" "k div 8 < ?n"
      using bit_last_slice [OF q u that] by (simp_all add: bgf_over_def not_less)
  qed
  have bk: "bit (black ! (k div 8)) (k mod 8) \<longleftrightarrow> bgf_over q t (c k)" if "k < ?r" for k
  proof -
    have "bit (take_bit ?r (bval black)) k \<longleftrightarrow> bit (poly_of ?r (\<lambda>k. bgf_over q t (c k))) k" "length black = ?n"
      using b by (simp_all add: half_low_def)
    then show ?thesis using that l(2) [OF that] by (simp add: bit_take_bit_iff bit_bval bit_poly_of)
  qed
  show ?thesis
    unfolding Let_def set_bytes [OF gray] half_low_def
    using l bk by (auto simp: bit_take_bit_iff bit_bval_map bit_and_iff bit_not_iff bit_poly_of intro!: bit_eqI)
qed

lemma err2_half_correct:
  fixes t :: u8
  assumes q: "q \<in> set bike_levels" and u: "upc_ok q upc" and c: "\<And>k. k < R_BITS q \<Longrightarrow> cnt (SLICES q) upc k = c k"
    and e: "half_ok q e x" and pos: "half_low q pos p"
  defines "sub \<equiv> bit_slice_full_subtract_port q upc t"
  shows "half_ok q (mask_last_byte q (for_range 0 (R_BYTES q) (\<lambda>j e. let sum_msb = NOT (last_slice q sub ! j) in e[j := e ! j XOR (pos ! j AND sum_msb)]) e))
    (x XOR (p AND poly_of (R_BITS q) (\<lambda>k. bgf_over q (unat t) (c k))))"
proof -
  let ?n = "R_BYTES q" and ?r = "R_BITS q" and ?F = "\<lambda>k. bgf_over q (unat t) (c k)"
  have l: "bit (last_slice q sub ! (k div 8)) (k mod 8) \<longleftrightarrow> \<not> ?F k" "k div 8 < ?n" if "k < ?r" for k
    using bit_last_slice_subtract [OF q u that, of t] bit_last_slice(2) [OF q u that] c [OF that] by (simp_all add: sub_def)
  have e1: "length e = ?n" "bval e = x" "x < 2 ^ ?r" using e by (simp_all add: half_ok_def)
  have p1: "length pos = ?n" "take_bit ?r (bval pos) = p" using pos by (simp_all add: half_low_def)
  let ?m = "map (\<lambda>j. e ! j XOR (pos ! j AND NOT (last_slice q sub ! j))) [0..<?n]"
  have "take_bit ?r (bval ?m) = x XOR (p AND poly_of ?r ?F)"
  proof (rule bit_eqI)
    fix k
    have "bit x k \<longleftrightarrow> k div 8 < ?n \<and> bit (e ! (k div 8)) (k mod 8)" using e1 by (simp add: bit_bval flip: e1(2))
    moreover have "bit p k \<longleftrightarrow> k < ?r \<and> k div 8 < ?n \<and> bit (pos ! (k div 8)) (k mod 8)"
      using p1(1) by (simp add: bit_bval bit_take_bit_iff flip: p1(2))
    ultimately show "bit (take_bit ?r (bval ?m)) k = bit (x XOR (p AND poly_of ?r ?F)) k"
      using l [of k] bit_lt_nat [OF e1(3), of k]
      by (cases "k < ?r") (auto simp: bit_take_bit_iff bit_bval_map bit_xor_iff bit_and_iff bit_not_iff bit_poly_of)
  qed
  moreover have "x XOR (p AND poly_of ?r ?F) < 2 ^ ?r"
  proof (rule xor_lt [OF e1(3)])
    have "take_bit ?r (p AND poly_of ?r ?F) = p AND poly_of ?r ?F" by (rule bit_eqI) (auto simp: bit_take_bit_iff bit_and_iff bit_poly_of)
    then show "p AND poly_of ?r ?F < 2 ^ ?r" by (simp only: take_bit_nat_eq_self_iff)
  qed
  ultimately show ?thesis
    unfolding Let_def update_bytes [OF e1(1), of "\<lambda>j y. y XOR (pos ! j AND NOT (last_slice q sub ! j))"] half_ok_def
    using mask_last_byte_correct [OF q, of ?m] by simp
qed

definition wlist_ok :: "bike_params \<Rightarrow> u32 list list \<Rightarrow> bool" where
  "wlist_ok q wl \<longleftrightarrow> length wl = 2 \<and> (\<forall>w\<in>set wl. length w = par_D q \<and> (\<forall>v\<in>set w. unat v < R_BITS q))"

lemma wlist_okD:
  assumes "wlist_ok q wl" and "i < 2"
  shows "length (wl ! i) = par_D q" and "j < par_D q \<Longrightarrow> unat (wl ! i ! j) < R_BITS q"
proof -
  have "wl ! i \<in> set wl" using assms by (auto simp: wlist_ok_def)
  then show l: "length (wl ! i) = par_D q" using assms(1) by (auto simp: wlist_ok_def)
  show "unat (wl ! i ! j) < R_BITS q" if "j < par_D q"
    using that l \<open>wl ! i \<in> set wl\<close> assms(1) nth_mem [of j "wl ! i"] unfolding wlist_ok_def by simp
qed

lemma threshold_fits:
  assumes "q \<in> set bike_levels"
  shows "unat (t :: u8) \<le> 2 ^ SLICES q" and "unat t mod 2 ^ SLICES q = unat t"
proof -
  have S: "(2 :: nat) ^ 8 \<le> 2 ^ SLICES q" using par_D_levels(3) [OF assms] by (intro power_increasing) simp_all
  have "unat t < 2 ^ 8" using unat_8_lt [of t] by simp
  then have "unat t < 2 ^ SLICES q" using S by (rule less_le_trans)
  then show "unat t \<le> 2 ^ SLICES q" "unat t mod 2 ^ SLICES q = unat t" by simp_all
qed

lemma find_err1_half_correct:
  assumes B: "vl_pos B" and q: "q \<in> set bike_levels" and s: "periodic q x (3 * R_QWORDS q - 1) s"
    and wl: "wlist_ok q wl" and i: "i < 2" and rs: "length rs = 3 * R_QWORDS q"
    and e: "half_ok q (dec_e d ! i) y" and black: "length (dec_black d ! i) = R_BYTES q" and gray: "length (dec_gray d ! i) = R_BYTES q"
  obtains e' bl gr rs' where "find_err1_half B q s wl t i (d, rs)
      = (\<lparr>dec_e = (dec_e d)[i := e'], dec_black = (dec_black d)[i := bl], dec_gray = (dec_gray d)[i := gr]\<rparr>, rs')"
    and "length rs' = 3 * R_QWORDS q" and "half_ok q e' (y XOR bgf_flags q x (unat t) (map unat (wl ! i)))"
    and "half_low q bl (bgf_flags q x (unat t) (map unat (wl ! i)))" and "half_low q gr (bgf_near q x (unat t) (map unat (wl ! i)))"
proof -
  let ?c = "bgf_count q x (map unat (wl ! i))" and ?S = "SLICES q"
  obtain upc r1 where u: "count_upc B q s (wl ! i) rs = (upc, r1)" "upc_ok q upc" "length r1 = 3 * R_QWORDS q"
    "\<And>k. k < 64 * R_QWORDS q \<Longrightarrow> cnt ?S upc k = ?c k"
    by (rule count_upc_correct [OF B q s wlist_okD(2) [OF wl i] wlist_okD(1) [OF wl i] rs]) (assumption, (rule that; assumption))
  have K: "k < 64 * R_QWORDS q" if "k < R_BITS q" for k using that bike_sizes_pos(6) [OF q] by simp
  have c: "cnt ?S upc k = ?c k" if "k < R_BITS q" for k using u(4) [OF K [OF that]] .
  let ?sub = "bit_slice_full_subtract_port q upc t"
  note e1 = err1_half_correct [OF q u(2) rs c e black gray, of t]
  note sub = subtract_correct [OF q u(2), where val = t]
  obtain u2 r2 where dl: "for_range 0 DELTA (\<lambda>_ (upc, rotated_syndrome).
       let rotated_syndrome = lanes_over (memcpy (bytes_of_lanes rotated_syndrome) 0 (replicate (R_BYTES q) 0xff))
       in bit_sliced_adder_port q (upc, rotated_syndrome) (SLICES q)) (?sub, r1) = (u2, r2)"
    "upc_ok q u2" "length r2 = 3 * R_QWORDS q" "\<And>k. k < R_BITS q \<Longrightarrow> cnt ?S u2 k = (cnt ?S ?sub k + DELTA) mod 2 ^ ?S"
    by (rule delta_loop [OF q sub(1) u(3), of DELTA]) (rule that; assumption)
  have c2: "cnt ?S u2 k = ((?c k + 2 ^ ?S - unat t) mod 2 ^ ?S + DELTA) mod 2 ^ ?S" if "k < R_BITS q" for k
    using dl(4) [OF that] sub(2) [OF K [OF that]] c [OF that] threshold_fits(2) [OF q, of t] by simp
  note g = gray_correct [OF q dl(2) threshold_fits(1) [OF q] c2 e1(3) gray]
  show ?thesis
    by (rule that [OF _ dl(3) e1(2) [folded bgf_flags_def] e1(3) [folded bgf_flags_def] g [folded bgf_near_def]])
      (simp only: find_err1_half_def prod.case u(1) Let_def e1(1) [unfolded Let_def] dl(1) [unfolded Let_def])
qed

lemma find_err2_half_correct:
  assumes B: "vl_pos B" and q: "q \<in> set bike_levels" and s: "periodic q x (3 * R_QWORDS q - 1) s"
    and wl: "wlist_ok q wl" and i: "i < 2" and rs: "length rs = 3 * R_QWORDS q"
    and e: "half_ok q (es ! i) y" and pos: "half_low q (pos ! i) p"
  obtains e' rs' where "find_err2_half B q s wl t pos i (es, rs) = (es[i := e'], rs')"
    and "length rs' = 3 * R_QWORDS q" and "half_ok q e' (y XOR (p AND bgf_flags q x (unat t) (map unat (wl ! i))))"
proof -
  let ?c = "bgf_count q x (map unat (wl ! i))" and ?S = "SLICES q"
  obtain upc r1 where u: "count_upc B q s (wl ! i) rs = (upc, r1)" "upc_ok q upc" "length r1 = 3 * R_QWORDS q"
    "\<And>k. k < 64 * R_QWORDS q \<Longrightarrow> cnt ?S upc k = ?c k"
    by (rule count_upc_correct [OF B q s wlist_okD(2) [OF wl i] wlist_okD(1) [OF wl i] rs]) (assumption, (rule that; assumption))
  have c: "cnt ?S upc k = ?c k" if "k < R_BITS q" for k using u(4) [of k] that bike_sizes_pos(6) [OF q] by simp
  show ?thesis
    by (rule that [OF _ u(3) err2_half_correct [OF q u(2) c e pos, of t, folded bgf_flags_def]])
      (simp only: find_err2_half_def prod.case u(1) Let_def)
qed

end
