(* ===== verification/Bike_Refine.thy ===== *)
theory Bike_Refine
  imports Bike_Bgf
begin

text \<open>
  The decoder of \<open>decode.c\<close> refines the Black-Gray-Flip decoder on polynomials: the syndrome of three rotated copies stands for
  a polynomial, the arrays of bytes for error patterns and the positions flagged black and gray.
\<close>

subsection \<open>The syndrome\<close>

lemma periodic_cong:
  assumes q: "q \<in> set bike_levels" and s: "periodic q x n s" and e: "\<And>k. k < R_BITS q \<Longrightarrow> bit x k \<longleftrightarrow> bit y k"
  shows "periodic q y n s"
  using s e [OF mod_less_divisor [OF bike_sizes_pos(1) [OF q]]] by (simp add: periodic_def)

lemma periodic_low:
  assumes q: "q \<in> set bike_levels" and s: "periodic q x (3 * R_QWORDS q - 1) s" and k: "k < R_BITS q"
  shows "bit (qval s) k \<longleftrightarrow> bit x k"
proof -
  have "k < 64 * R_QWORDS q" using k bike_sizes_pos(6) [OF q] by simp
  also have "\<dots> \<le> 64 * (3 * R_QWORDS q - 1)" using bike_sizes_pos(4) [OF q] by simp
  finally show ?thesis using s k by (simp add: periodic_def)
qed

lemma dup_port_again:
  assumes q: "q \<in> set bike_levels" and s: "periodic q x (3 * R_QWORDS q - 1) s"
  shows "periodic q x (3 * R_QWORDS q - 1) (dup_port q s)"
proof -
  have "length s = 3 * R_QWORDS q" using s by (simp add: periodic_def)
  from dup_port_periodic [OF q this] show ?thesis by (rule periodic_cong [OF q]) (rule periodic_low [OF q s])
qed

lemma get_threshold_periodic:
  assumes q: "q \<in> set bike_levels" and s: "periodic q x (3 * R_QWORDS q - 1) s"
  shows "unat (get_threshold q s) = threshold_of q (weight (R_BITS q) x)"
proof -
  have "R_BYTES q \<le> 8 * length s" using s R_BYTES_facts(7) [OF q] by (simp add: periodic_def)
  then have "unat (get_threshold q s) = threshold_of q (weight (R_BITS q) (qval s))" by (rule get_threshold_correct [OF q])
  also have "weight (R_BITS q) (qval s) = weight (R_BITS q) x" using periodic_low [OF q s] by (rule weight_cong)
  finally show ?thesis .
qed

lemma compute_syndrome_correct:
  assumes q: "q \<in> set bike_levels" and B: "build_ok B" and junk: "length junk = R_PADDED_QWORDS q"
    and c0: "pad_ok q c0" and h0: "pad_ok q h0" and s: "length s = 3 * R_QWORDS q"
  obtains s' where "compute_syndrome B q junk s c0 h0 = Some s'"
    and "periodic q (pmul (R_BITS q) (qval c0) (qval h0)) (3 * R_QWORDS q - 1) s'"
proof -
  let ?x = "pmul (R_BITS q) (qval c0) (qval h0)"
  obtain p where p: "gf2x_mod_mul B q junk c0 h0 = Some p" "pad_ok q p" "qval p = ?x"
    using gf2x_mod_mul_correct [OF q B c0 h0 junk] by blast
  let ?m = "memcpy (bytes_of_lanes s) 0 (pad_val q p)"
  have rb: "R_BYTES q \<le> 8 * length s" using s R_BYTES_facts(7) [OF q] by simp
  then have lm: "length ?m = 8 * length s" using p(2) q by (simp add: memcpy_def)
  have "bit (qval (lanes_over ?m)) k \<longleftrightarrow> bit ?x k" if k: "k < R_BITS q" for k
  proof -
    have kb: "k div 8 < R_BYTES q" using k R_BYTES_facts(3) [OF q] by (simp add: less_mult_imp_div_less mult.commute)
    have "bit (qval (lanes_over ?m)) k \<longleftrightarrow> bit (bval ?m) k" using lm by (simp add: qval_lanes_over)
    also have "\<dots> \<longleftrightarrow> bit (bval (pad_val q p)) k" using kb rb lm p(2) q by (simp add: bit_bval nth_memcpy)
    finally show ?thesis using p q by (simp add: bval_pad_val)
  qed
  moreover have "length (lanes_over ?m) = 3 * R_QWORDS q" using lm s by simp
  ultimately have "periodic q ?x (3 * R_QWORDS q - 1) (dup_port q (lanes_over ?m))"
    using periodic_cong [OF q dup_port_periodic [OF q]] by blast
  moreover have "compute_syndrome B q junk s c0 h0 = Some (dup_port q (lanes_over ?m))"
    by (simp add: compute_syndrome_def p(1))
  ultimately show ?thesis using that by blast
qed

lemma set_pad_val_half:
  assumes "q \<in> set bike_levels" and "half_ok q b x"
  shows "pad_ok q (set_pad_val (pad_zero q) b)" and "qval (set_pad_val (pad_zero q) b) = x"
  using assms set_pad_val_correct [OF assms(1) pad_zero_ok(1), of b] by (auto simp: half_ok_def)

lemma recompute_syndrome_correct:
  assumes q: "q \<in> set bike_levels" and B: "build_ok B" and junk: "length junk = R_PADDED_QWORDS q"
    and c0: "pad_ok q c0" and h0: "pad_ok q h0" and pk: "pad_ok q pk" and s: "length s = 3 * R_QWORDS q"
    and e: "list_all2 (half_ok q) e [x0, x1]"
  obtains s' where "recompute_syndrome B q junk s c0 h0 pk e = Some s'"
    and "periodic q (bgf_syndrome q (qval c0) (qval h0) (qval pk) [x0, x1]) (3 * R_QWORDS q - 1) s'"
proof -
  have h: "half_ok q (e ! 0) x0" "half_ok q (e ! 1) x1" using e by (auto simp: list_all2_Cons2)
  note e0 = set_pad_val_half [OF q h(1)] and e1 = set_pad_val_half [OF q h(2)]
  obtain p where p: "gf2x_mod_mul B q junk (set_pad_val (pad_zero q) (e ! 1)) pk = Some p" "pad_ok q p"
    "qval p = pmul (R_BITS q) x1 (qval pk)"
    using gf2x_mod_mul_correct [OF q B e1(1) pk junk] unfolding e1(2) by blast
  note a1 = gf2x_mod_add_correct [OF B p(2) c0 pad_okD(1) [OF p(2)]]
  note a2 = gf2x_mod_add_correct [OF B a1(1) e0(1) pad_okD(1) [OF a1(1)]]
  let ?t = "gf2x_mod_add B q p p c0"
  obtain s' where c: "compute_syndrome B q junk s (gf2x_mod_add B q ?t ?t (set_pad_val (pad_zero q) (e ! 0))) h0 = Some s'"
    and per: "periodic q (pmul (R_BITS q) (qval (gf2x_mod_add B q ?t ?t (set_pad_val (pad_zero q) (e ! 0)))) (qval h0)) (3 * R_QWORDS q - 1) s'"
    by (rule compute_syndrome_correct [OF q B junk a2(1) h0 s])
  show ?thesis
  proof (rule that)
    show "recompute_syndrome B q junk s c0 h0 pk e = Some s'"
      unfolding recompute_syndrome_def Let_def p(1) by (simp add: c)
    show "periodic q (bgf_syndrome q (qval c0) (qval h0) (qval pk) [x0, x1]) (3 * R_QWORDS q - 1) s'"
      using per by (simp add: bgf_syndrome_def a2(2) a1(2) p(3) e0(2) xor.assoc)
  qed
qed

subsection \<open>The steps of the decoder\<close>

definition dec_rel :: "bike_params \<Rightarrow> dec_state \<Rightarrow> bgf_state \<Rightarrow> bool" where
  "dec_rel q d b \<longleftrightarrow> length (bgf_e b) = 2 \<and> length (bgf_black b) = 2 \<and> length (bgf_gray b) = 2
     \<and> list_all2 (half_ok q) (dec_e d) (bgf_e b) \<and> list_all2 (half_low q) (dec_black d) (bgf_black b)
     \<and> list_all2 (half_low q) (dec_gray d) (bgf_gray b)"

lemma two_eq: "length xs = 2 \<longleftrightarrow> (\<exists>a b. xs = [a, b])"
  by (auto simp: numeral_2_eq_2 length_Suc_conv)

lemma for_range_2: "for_range 0 2 f s = f 1 (f 0 s)"
  by (simp add: numeral_2_eq_2 for_range_Suc)

lemma find_err1_correct:
  assumes B: "vl_pos B" and q: "q \<in> set bike_levels" and s: "periodic q x (3 * R_QWORDS q - 1) s"
    and wl: "wlist_ok q wl" and d: "dec_rel q d b"
  shows "dec_rel q (find_err1 B q s wl t d) (bgf_err1 q x (unat t) (map (map unat) wl) b)"
proof -
  obtain w0 w1 where w: "wl = [w0, w1]" using wl by (auto simp: wlist_ok_def two_eq)
  obtain y0 y1 k0 k1 g0 g1 where b: "bgf_e b = [y0, y1]" "bgf_black b = [k0, k1]" "bgf_gray b = [g0, g1]"
    using d by (auto simp: dec_rel_def two_eq)
  obtain e0 e1 bl0 bl1 gr0 gr1 where de: "dec_e d = [e0, e1]" "dec_black d = [bl0, bl1]" "dec_gray d = [gr0, gr1]"
    and h: "half_ok q e0 y0" "half_ok q e1 y1" "half_low q bl0 k0" "half_low q bl1 k1" "half_low q gr0 g0" "half_low q gr1 g1"
    using d unfolding dec_rel_def b by (auto simp: list_all2_Cons2)
  have len: "length bl0 = R_BYTES q" "length bl1 = R_BYTES q" "length gr0 = R_BYTES q" "length gr1 = R_BYTES q"
    using h by (simp_all add: half_low_def)
  let ?rs = "replicate (3 * R_QWORDS q) 0 :: u64 list" and ?f = "find_err1_half B q s wl t"
  have rs: "length ?rs = 3 * R_QWORDS q" and two: "0 < (2 :: nat)" "1 < (2 :: nat)" by simp_all
  have h0: "half_ok q (dec_e d ! 0) y0" "length (dec_black d ! 0) = R_BYTES q" "length (dec_gray d ! 0) = R_BYTES q"
    using h len by (simp_all add: de)
  obtain e0' bl0' gr0' rs1 where f0: "?f 0 (d, ?rs) = (\<lparr>dec_e = (dec_e d)[0 := e0'], dec_black = (dec_black d)[0 := bl0'],
        dec_gray = (dec_gray d)[0 := gr0']\<rparr>, rs1)"
    "length rs1 = 3 * R_QWORDS q" "half_ok q e0' (y0 XOR bgf_flags q x (unat t) (map unat (wl ! 0)))"
    "half_low q bl0' (bgf_flags q x (unat t) (map unat (wl ! 0)))" "half_low q gr0' (bgf_near q x (unat t) (map unat (wl ! 0)))"
    by (rule find_err1_half_correct [OF B q s wl two(1) rs h0, where t = t]) (rule that; assumption)
  let ?d = "\<lparr>dec_e = (dec_e d)[0 := e0'], dec_black = (dec_black d)[0 := bl0'], dec_gray = (dec_gray d)[0 := gr0']\<rparr>"
  have h1: "half_ok q (dec_e ?d ! 1) y1" "length (dec_black ?d ! 1) = R_BYTES q" "length (dec_gray ?d ! 1) = R_BYTES q"
    using h len by (simp_all add: de)
  obtain e1' bl1' gr1' rs2 where f1: "?f 1 (?d, rs1) = (\<lparr>dec_e = (dec_e ?d)[1 := e1'], dec_black = (dec_black ?d)[1 := bl1'],
        dec_gray = (dec_gray ?d)[1 := gr1']\<rparr>, rs2)"
    "length rs2 = 3 * R_QWORDS q" "half_ok q e1' (y1 XOR bgf_flags q x (unat t) (map unat (wl ! 1)))"
    "half_low q bl1' (bgf_flags q x (unat t) (map unat (wl ! 1)))" "half_low q gr1' (bgf_near q x (unat t) (map unat (wl ! 1)))"
    by (rule find_err1_half_correct [OF B q s wl two(2) f0(2) h1, where t = t]) (rule that; assumption)
  show ?thesis
    unfolding find_err1_def for_range_2 f0(1) f1(1) using f0 f1 by (simp add: dec_rel_def bgf_err1_def b w de)
qed

lemma find_err2_correct:
  assumes B: "vl_pos B" and q: "q \<in> set bike_levels" and s: "periodic q x (3 * R_QWORDS q - 1) s"
    and wl: "wlist_ok q wl" and e: "list_all2 (half_ok q) es [y0, y1]" and p: "list_all2 (half_low q) pos [p0, p1]"
  shows "list_all2 (half_ok q) (find_err2 B q s wl t pos es) (bgf_err2 q x (unat t) (map (map unat) wl) [p0, p1] [y0, y1])"
proof -
  obtain w0 w1 where w: "wl = [w0, w1]" using wl by (auto simp: wlist_ok_def two_eq)
  obtain e0 e1 where de: "es = [e0, e1]" "half_ok q e0 y0" "half_ok q e1 y1" using e by (auto simp: list_all2_Cons2)
  have h: "half_low q (pos ! 0) p0" "half_low q (pos ! 1) p1" using p by (auto simp: list_all2_Cons2)
  let ?rs = "replicate (3 * R_QWORDS q) 0 :: u64 list" and ?f = "find_err2_half B q s wl t pos"
  have rs: "length ?rs = 3 * R_QWORDS q" and two: "0 < (2 :: nat)" "1 < (2 :: nat)" by simp_all
  have h0: "half_ok q (es ! 0) y0" using de by simp
  obtain e0' rs1 where f0: "?f 0 (es, ?rs) = (es[0 := e0'], rs1)" "length rs1 = 3 * R_QWORDS q"
    "half_ok q e0' (y0 XOR (p0 AND bgf_flags q x (unat t) (map unat (wl ! 0))))"
    by (rule find_err2_half_correct [OF B q s wl two(1) rs h0 h(1), where t = t]) (rule that; assumption)
  have h1: "half_ok q (es[0 := e0'] ! 1) y1" using de by simp
  obtain e1' rs2 where f1: "?f 1 (es[0 := e0'], rs1) = (es[0 := e0', 1 := e1'], rs2)" "length rs2 = 3 * R_QWORDS q"
    "half_ok q e1' (y1 XOR (p1 AND bgf_flags q x (unat t) (map unat (wl ! 1))))"
    by (rule find_err2_half_correct [OF B q s wl two(2) f0(2) h1 h(2), where t = t]) (rule that; assumption)
  show ?thesis
    unfolding find_err2_def for_range_2 f0(1) f1(1) using f0 f1 by (simp add: bgf_err2_def w de)
qed

lemma vl_pos_build: "build_ok B \<Longrightarrow> vl_pos B"
  by (simp add: build_ok_def vl_pos_def split: bike_build.splits)

text \<open>One iteration, and the whole decoder.\<close>

lemma dec_relD:
  assumes "dec_rel q d b"
  obtains y0 y1 where "bgf_e b = [y0, y1]" and "list_all2 (half_ok q) (dec_e d) [y0, y1]"
  using assms by (auto simp: dec_rel_def two_eq)

lemma err2_threshold: "q \<in> set bike_levels \<Longrightarrow> unat (of_nat ((par_D q + 1) div 2 + 1) :: u8) = (par_D q + 1) div 2 + 1"
  using par_D_levels(4) [of q] by (simp add: unat_of_nat del: of_nat_add of_nat_Suc)

lemma dec_rel_err2:
  assumes B: "vl_pos B" and q: "q \<in> set bike_levels" and s: "periodic q x (3 * R_QWORDS q - 1) s"
    and wl: "wlist_ok q wl" and d: "dec_rel q d b" and p: "list_all2 (half_low q) pos ps" and ps: "length ps = 2"
  shows "dec_rel q (d\<lparr>dec_e := find_err2 B q s wl (of_nat ((par_D q + 1) div 2 + 1)) pos (dec_e d)\<rparr>)
    (b\<lparr>bgf_e := bgf_err2 q x ((par_D q + 1) div 2 + 1) (map (map unat) wl) ps (bgf_e b)\<rparr>)"
proof -
  obtain y0 y1 where y: "bgf_e b = [y0, y1]" "list_all2 (half_ok q) (dec_e d) [y0, y1]" by (rule dec_relD [OF d])
  obtain p0 p1 where p': "ps = [p0, p1]" using ps by (auto simp: two_eq)
  have l: "length (bgf_err2 q x t (map (map unat) wl) [p0, p1] [y0, y1]) = 2" for t
    using wl by (simp add: bgf_err2_def wlist_ok_def)
  show ?thesis
    using find_err2_correct [OF B q s wl y(2) p [unfolded p'], of "of_nat ((par_D q + 1) div 2 + 1)"] d l
    by (simp only: err2_threshold [OF q]) (simp add: dec_rel_def y(1) p')
qed

lemma decode_iter_correct:
  assumes B: "build_ok B" and q: "q \<in> set bike_levels" and junk: "length junk = R_PADDED_QWORDS q"
    and c0: "pad_ok q c0" and h0: "pad_ok q h0" and pk: "pad_ok q pk" and wl: "wlist_ok q wl"
    and d: "dec_rel q d b" and s: "periodic q x (3 * R_QWORDS q - 1) s"
  obtains d' s' b' x' where "decode_iter B q junk wl c0 h0 pk iter (d, s) = Some (d', s')"
    and "bgf_iter q (qval c0) (qval h0) (qval pk) (map (map unat) wl) iter (b, x) = (b', x')"
    and "dec_rel q d' b'" and "periodic q x' (3 * R_QWORDS q - 1) s'"
proof -
  let ?syn = "\<lambda>b. bgf_syndrome q (qval c0) (qval h0) (qval pk) (bgf_e b)" and ?ws = "map (map unat) wl"
  let ?T = "(par_D q + 1) div 2 + 1"
  note vl = vl_pos_build [OF B]
  have re: "\<exists>s'. recompute_syndrome B q junk s c0 h0 pk (dec_e d) = Some s' \<and> periodic q (?syn b) (3 * R_QWORDS q - 1) s'"
    if r: "dec_rel q d b" and s: "periodic q x (3 * R_QWORDS q - 1) s" for d b s x
  proof -
    obtain y0 y1 where y: "bgf_e b = [y0, y1]" "list_all2 (half_ok q) (dec_e d) [y0, y1]" by (rule dec_relD [OF r])
    have ls: "length s = 3 * R_QWORDS q" using s by (simp add: periodic_def)
    obtain s' where "recompute_syndrome B q junk s c0 h0 pk (dec_e d) = Some s'"
      "periodic q (?syn b) (3 * R_QWORDS q - 1) s'"
      unfolding y(1) by (rule recompute_syndrome_correct [OF q B junk c0 h0 pk ls y(2)])
    then show ?thesis by blast
  qed
  define d1 b1 where "d1 = find_err1 B q s wl (get_threshold q s) d"
    and "b1 = bgf_err1 q x (threshold_of q (weight (R_BITS q) x)) ?ws b"
  have r1: "dec_rel q d1 b1"
    using find_err1_correct [OF vl q s wl d, of "get_threshold q s"] unfolding d1_def b1_def get_threshold_periodic [OF q s] .
  obtain s1 where s1: "recompute_syndrome B q junk s c0 h0 pk (dec_e d1) = Some s1" "periodic q (?syn b1) (3 * R_QWORDS q - 1) s1"
    using re [OF r1 s] by blast
  define d2 b2 where "d2 = d1\<lparr>dec_e := find_err2 B q s1 wl (of_nat ?T) (dec_black d1) (dec_e d1)\<rparr>"
    and "b2 = b1\<lparr>bgf_e := bgf_err2 q (?syn b1) ?T ?ws (bgf_black b1) (bgf_e b1)\<rparr>"
  have p1: "list_all2 (half_low q) (dec_black d1) (bgf_black b1)" "length (bgf_black b1) = 2" using r1 by (simp_all add: dec_rel_def)
  have r2: "dec_rel q d2 b2" unfolding d2_def b2_def by (rule dec_rel_err2 [OF vl q s1(2) wl r1 p1])
  obtain s2 where s2: "recompute_syndrome B q junk s1 c0 h0 pk (dec_e d2) = Some s2" "periodic q (?syn b2) (3 * R_QWORDS q - 1) s2"
    using re [OF r2 s1(2)] by blast
  define d3 b3 where "d3 = d2\<lparr>dec_e := find_err2 B q s2 wl (of_nat ?T) (dec_gray d2) (dec_e d2)\<rparr>"
    and "b3 = b2\<lparr>bgf_e := bgf_err2 q (?syn b2) ?T ?ws (bgf_gray b2) (bgf_e b2)\<rparr>"
  have p2: "list_all2 (half_low q) (dec_gray d2) (bgf_gray b2)" "length (bgf_gray b2) = 2" using r2 by (simp_all add: dec_rel_def)
  have r3: "dec_rel q d3 b3" unfolding d3_def b3_def by (rule dec_rel_err2 [OF vl q s2(2) wl r2 p2])
  obtain s3 where s3: "recompute_syndrome B q junk s2 c0 h0 pk (dec_e d3) = Some s3" "periodic q (?syn b3) (3 * R_QWORDS q - 1) s3"
    using re [OF r3 s2(2)] by blast
  show ?thesis
  proof (cases "1 \<le> iter")
    case True
    have i: "decode_iter B q junk wl c0 h0 pk iter (d, s) = Some (d1, s1)"
      using True s1(1) by (simp add: decode_iter_def d1_def Let_def)
    have j: "bgf_iter q (qval c0) (qval h0) (qval pk) ?ws iter (b, x) = (b1, ?syn b1)"
      using True by (simp add: bgf_iter_def b1_def Let_def)
    show ?thesis by (rule that [OF i j r1 s1(2)])
  next
    case False
    have i: "decode_iter B q junk wl c0 h0 pk iter (d, s) = Some (d3, s3)"
      by (simp only: decode_iter_def prod.case Let_def d1_def [symmetric] s1(1) bind.bind_lunit False if_False
        d2_def [symmetric] s2(1) d3_def [symmetric] s3(1))
    have j: "bgf_iter q (qval c0) (qval h0) (qval pk) ?ws iter (b, x) = (b3, ?syn b3)"
      by (simp only: bgf_iter_def prod.case Let_def b1_def [symmetric] False if_False b2_def [symmetric] b3_def [symmetric])
    show ?thesis by (rule that [OF i j r3 s3(2)])
  qed
qed

definition half_fits :: "bike_params \<Rightarrow> bytes \<Rightarrow> bool" where
  "half_fits q b \<longleftrightarrow> length b = R_BYTES q \<and> bval b < 2 ^ R_BITS q"

lemma half_fits_ok: "half_fits q b \<longleftrightarrow> half_ok q b (bval b)"
  by (simp add: half_fits_def half_ok_def)

theorem decode_correct:
  assumes B: "build_ok B" and q: "q \<in> set bike_levels" and junk: "length junk = R_PADDED_QWORDS q"
    and c0: "half_fits q (ct_c0 ct)" and h0: "half_fits q (sk_bin sk ! 0)" and pk: "half_fits q (sk_pk sk)"
    and wl: "wlist_ok q (sk_wlist sk)"
  obtains e where "decode B q junk ct sk = Some e" and "length e = 2" and "list_all (half_fits q) e"
    and "map bval e = bgf_decode q (bval (ct_c0 ct)) (bval (sk_bin sk ! 0)) (bval (sk_pk sk)) (map (map unat) (sk_wlist sk))"
proof -
  let ?ws = "map (map unat) (sk_wlist sk)" and ?p = "set_pad_val (pad_zero q)" and ?z = "replicate 2 (replicate (R_BYTES q) 0) :: bytes list"
  note pc = set_pad_val_half [OF q c0 [unfolded half_fits_ok]] and ph = set_pad_val_half [OF q h0 [unfolded half_fits_ok]]
    and pp = set_pad_val_half [OF q pk [unfolded half_fits_ok]]
  let ?d0 = "\<lparr>dec_e = ?z, dec_black = ?z, dec_gray = ?z\<rparr>" and ?b0 = "\<lparr>bgf_e = [0, 0], bgf_black = [0, 0], bgf_gray = [0, 0]\<rparr>"
  let ?x = "pmul (R_BITS q) (bval (ct_c0 ct)) (bval (sk_bin sk ! 0))"
  obtain s where s: "compute_syndrome B q junk (replicate (3 * R_QWORDS q) 0) (?p (ct_c0 ct)) (?p (sk_bin sk ! 0)) = Some s"
    "periodic q (pmul (R_BITS q) (qval (?p (ct_c0 ct))) (qval (?p (sk_bin sk ! 0)))) (3 * R_QWORDS q - 1) s"
    by (rule compute_syndrome_correct [OF q B junk pc(1) ph(1), of "replicate (3 * R_QWORDS q) 0"]) simp_all
  let ?f = "\<lambda>iter s. Option.bind s (decode_iter B q junk (sk_wlist sk) (?p (ct_c0 ct)) (?p (sk_bin sk ! 0)) (?p (sk_pk sk)) iter)"
    and ?g = "bgf_iter q (bval (ct_c0 ct)) (bval (sk_bin sk ! 0)) (bval (sk_pk sk)) ?ws"
  define R where "R t u \<longleftrightarrow> (\<exists>d s. t = Some (d, s) \<and> dec_rel q d (fst u) \<and> periodic q (snd u) (3 * R_QWORDS q - 1) s)" for t u
  have "R (for_range 0 n ?f (Some (?d0, dup_port q s))) (for_range 0 n ?g (?b0, ?x))" for n
  proof (induction n)
    case 0
    have "dec_rel q ?d0 ?b0" by (simp add: dec_rel_def half_ok_def half_low_def numeral_2_eq_2)
    then show ?case using dup_port_again [OF q s(2)] by (simp add: R_def pc ph)
  next
    case (Suc n)
    obtain d t where d: "for_range 0 n ?f (Some (?d0, dup_port q s)) = Some (d, t)"
      "dec_rel q d (fst (for_range 0 n ?g (?b0, ?x)))" "periodic q (snd (for_range 0 n ?g (?b0, ?x))) (3 * R_QWORDS q - 1) t"
      using Suc unfolding R_def by blast
    obtain d' t' b' x' where i: "decode_iter B q junk (sk_wlist sk) (?p (ct_c0 ct)) (?p (sk_bin sk ! 0)) (?p (sk_pk sk)) n (d, t) = Some (d', t')"
      "bgf_iter q (qval (?p (ct_c0 ct))) (qval (?p (sk_bin sk ! 0))) (qval (?p (sk_pk sk))) ?ws n
        (fst (for_range 0 n ?g (?b0, ?x)), snd (for_range 0 n ?g (?b0, ?x))) = (b', x')"
      "dec_rel q d' b'" "periodic q x' (3 * R_QWORDS q - 1) t'"
      by (rule decode_iter_correct [OF B q junk pc(1) ph(1) pp(1) wl d(2,3), where iter = n])
    have "for_range 0 (Suc n) ?f (Some (?d0, dup_port q s)) = Some (d', t')" by (simp add: for_range_Suc d(1) i(1))
    moreover have "for_range 0 (Suc n) ?g (?b0, ?x) = (b', x')" using i(2) by (simp add: for_range_Suc pc ph pp)
    ultimately show ?case using i(3,4) unfolding R_def by simp
  qed
  then obtain d t where d: "for_range 0 MAX_IT ?f (Some (?d0, dup_port q s)) = Some (d, t)"
    "dec_rel q d (fst (for_range 0 MAX_IT ?g (?b0, ?x)))" unfolding R_def by blast
  obtain y0 y1 where y: "bgf_e (fst (for_range 0 MAX_IT ?g (?b0, ?x))) = [y0, y1]" "list_all2 (half_ok q) (dec_e d) [y0, y1]"
    by (rule dec_relD [OF d(2)])
  show ?thesis
  proof (rule that)
    show "decode B q junk ct sk = Some (dec_e d)"
      by (simp only: decode_def Let_def s(1) bind.bind_lunit d(1) prod.case)
    show "length (dec_e d) = 2" "list_all (half_fits q) (dec_e d)"
      "map bval (dec_e d) = bgf_decode q (bval (ct_c0 ct)) (bval (sk_bin sk ! 0)) (bval (sk_pk sk)) ?ws"
      using y by (auto simp: bgf_decode_def list_all2_Cons2 half_ok_def half_fits_def)
  qed
qed

end
