(* ===== verification/Bike_Sampling_Correct.thy ===== *)
theory Bike_Sampling_Correct
  imports Bike_Sampling Bike_Refine
begin

text \<open>
  The sampling of BIKE is right: the draws of four bytes read the SHAKE256 stream of the seed without gaps and never fail, the
  indices are those of the Fisher-Yates shuffle (distinct and in range), and the bits that are set are those of the list.
\<close>

subsection \<open>The draws\<close>

definition shake_init :: "(bytes \<Rightarrow> bytes) \<Rightarrow> bytes \<Rightarrow> keccak_ctx" where
  "shake_init perm seed = keccak_inc_finalize SHAKE256_RATE 0x1F (keccak_inc_absorb perm SHAKE256_RATE seed keccak_inc_reset)"

definition shake_stream :: "(bytes \<Rightarrow> bytes) \<Rightarrow> bytes \<Rightarrow> nat \<Rightarrow> bytes" where
  "shake_stream perm seed n = sponge perm SHAKE256_RATE 0x1F seed n"

definition shake_word :: "(bytes \<Rightarrow> bytes) \<Rightarrow> bytes \<Rightarrow> nat \<Rightarrow> bytes" where
  "shake_word perm seed k = seg (shake_stream perm seed (4 * k + 4)) (4 * k) 4"

lemma shake_init_wf: "perm_ok perm \<Longrightarrow> keccak_wf SHAKE256_RATE (shake_init perm seed)"
  unfolding shake_init_def by (rule keccak_wf_finalize, rule keccak_inc_absorb_wf) (simp_all add: keccak_inc_reset_def)

lemma shake_stream_squeeze:
  "perm_ok perm \<Longrightarrow> fst (keccak_inc_squeeze perm SHAKE256_RATE n (shake_init perm seed)) = shake_stream perm seed n"
  unfolding shake_init_def shake_stream_def by (rule keccak_inc_sponge)

lemma length_shake_stream: "perm_ok perm \<Longrightarrow> length (shake_stream perm seed n) = n"
  by (simp add: length_keccak_squeeze shake_init_wf flip: shake_stream_squeeze)

lemma squeeze_more:
  assumes "perm_ok perm"
  shows "shake_stream perm seed (m + n) = shake_stream perm seed m
      @ fst (keccak_inc_squeeze perm SHAKE256_RATE n (snd (keccak_inc_squeeze perm SHAKE256_RATE m (shake_init perm seed))))"
    and "snd (keccak_inc_squeeze perm SHAKE256_RATE (m + n) (shake_init perm seed))
      = snd (keccak_inc_squeeze perm SHAKE256_RATE n (snd (keccak_inc_squeeze perm SHAKE256_RATE m (shake_init perm seed))))"
  unfolding shake_stream_squeeze [OF assms, symmetric] keccak_inc_squeeze_add [OF assms shake_init_wf [OF assms]]
  by (simp_all add: case_prod_unfold Let_def)

lemma seg_shake_stream:
  assumes "perm_ok perm" and "off + l \<le> n" and "n \<le> m"
  shows "seg (shake_stream perm seed m) off l = seg (shake_stream perm seed n) off l"
proof -
  have "shake_stream perm seed m = shake_stream perm seed n @ fst (keccak_inc_squeeze perm SHAKE256_RATE (m - n)
      (snd (keccak_inc_squeeze perm SHAKE256_RATE n (shake_init perm seed))))"
    using squeeze_more(1) [OF assms(1), where seed = seed and m = n and n = "m - n"] assms(3) by simp
  then show ?thesis using assms by (simp add: seg_append_left length_shake_stream)
qed

text \<open>The state before draw \<open>k\<close>: \<open>B\<close> blocks are squeezed, the last of them is in the buffer.\<close>

definition prf_at :: "(bytes \<Rightarrow> bytes) \<Rightarrow> bytes \<Rightarrow> nat \<Rightarrow> prf_state \<Rightarrow> bool" where
  "prf_at perm seed k s \<longleftrightarrow> (\<exists>B. 4 * k + 136 = 136 * B + ps_pos s \<and> 0 < ps_pos s \<and> ps_pos s \<le> 136
     \<and> ps_rem s + B = MAX_PRF_INVOCATION
     \<and> ps_s s = snd (keccak_inc_squeeze perm SHAKE256_RATE (136 * B) (shake_init perm seed))
     \<and> (0 < B \<longrightarrow> ps_buffer s = seg (shake_stream perm seed (136 * B)) (136 * (B - 1)) 136))"

lemma init_prf_state_at:
  assumes "perm_ok perm"
  obtains s where "init_prf_state perm MAX_PRF_INVOCATION seed = Inr s" and "prf_at perm seed 0 s"
proof
  let ?s = "\<lparr>ps_s = shake_init perm seed, ps_buffer = replicate 136 0, ps_pos = 136, ps_rem = MAX_PRF_INVOCATION\<rparr>"
  show "init_prf_state perm MAX_PRF_INVOCATION seed = Inr ?s"
    by (simp add: init_prf_state_def MAX_PRF_INVOCATION_def shake_init_def)
  have "snd (keccak_inc_squeeze perm SHAKE256_RATE 0 (shake_init perm seed)) = shake_init perm seed"
    by (subst keccak_inc_squeeze.simps) simp
  then show "prf_at perm seed 0 ?s" unfolding prf_at_def by (intro exI [of _ 0]) simp
qed

lemma get_prf_output_at:
  assumes p: "perm_ok perm" and s: "prf_at perm seed k s" and k: "k < 2 ^ 32"
  obtains s' where "get_prf_output perm s 4 = Inr (shake_word perm seed k, s')" and "prf_at perm seed (Suc k) s'"
proof -
  obtain B where B: "4 * k + 136 = 136 * B + ps_pos s" "0 < ps_pos s" "ps_pos s \<le> 136" "ps_rem s + B = MAX_PRF_INVOCATION"
    "ps_s s = snd (keccak_inc_squeeze perm SHAKE256_RATE (136 * B) (shake_init perm seed))"
    and buf: "0 < B \<Longrightarrow> ps_buffer s = seg (shake_stream perm seed (136 * B)) (136 * (B - 1)) 136"
    using s unfolding prf_at_def by auto
  have rem: "ps_rem s \<noteq> 0" using B(1,2,4) k by (simp add: MAX_PRF_INVOCATION_def)
  show ?thesis
  proof (cases "4 + ps_pos s \<le> 136")
    case True
    then have "0 < B" using B(1) by (cases B) auto
    then obtain b where b: "B = Suc b" by (cases B) auto
    have off: "136 * b + ps_pos s = 4 * k" using B(1) b by simp
    have "seg (ps_buffer s) (ps_pos s) 4 = seg (shake_stream perm seed (136 * B)) (4 * k) 4"
      using buf [OF \<open>0 < B\<close>] True off by (simp add: b seg_seg)
    also have "\<dots> = shake_word perm seed k"
      unfolding shake_word_def using True off b by (intro seg_shake_stream [OF p]) simp_all
    finally have "get_prf_output perm s 4 = Inr (shake_word perm seed k, s\<lparr>ps_pos := ps_pos s + 4\<rparr>)"
      using rem True by (simp add: get_prf_output_def)
    moreover have "prf_at perm seed (Suc k) (s\<lparr>ps_pos := ps_pos s + 4\<rparr>)"
      unfolding prf_at_def using B buf True by (intro exI [of _ B]) simp
    ultimately show ?thesis by (rule that)
  next
    case False
    moreover have "ps_pos s = 4 * (k + 34 - 34 * B)" using B(1) by simp
    ultimately have "34 \<le> k + 34 - 34 * B" by simp
    then have "ps_pos s = 136" using B(3) \<open>ps_pos s = 4 * (k + 34 - 34 * B)\<close> by simp
    then have off: "136 * B = 4 * k" using B(1) by simp
    obtain buffer ctx where sq: "keccak_inc_squeeze perm SHAKE256_RATE 136 (ps_s s) = (buffer, ctx)" by fastforce
    have more: "shake_stream perm seed (136 * B + 136) = shake_stream perm seed (136 * B) @ buffer"
      "ctx = snd (keccak_inc_squeeze perm SHAKE256_RATE (136 * B + 136) (shake_init perm seed))"
      using squeeze_more [OF p, where seed = seed and m = "136 * B" and n = 136] sq B(5) by simp_all
    have len: "length buffer = 136"
      using arg_cong [OF more(1), of length] length_shake_stream [OF p] by simp
    have segb: "seg (shake_stream perm seed (136 * Suc B)) (136 * B) 136 = buffer"
      using more(1) len seg_append_right [of "shake_stream perm seed (136 * B)" buffer 136]
      by (simp add: length_shake_stream [OF p] add.commute)
    have "seg buffer 0 4 = seg (shake_stream perm seed (136 * Suc B)) (4 * k) 4"
      unfolding segb [symmetric] by (simp add: seg_seg off)
    also have "\<dots> = shake_word perm seed k"
      unfolding shake_word_def using off by (intro seg_shake_stream [OF p]) simp_all
    finally have "get_prf_output perm s 4
        = Inr (shake_word perm seed k, \<lparr>ps_s = ctx, ps_buffer = buffer, ps_pos = 4, ps_rem = ps_rem s - 1\<rparr>)"
      using rem False sq len by (simp add: get_prf_output_def)
    moreover have "prf_at perm seed (Suc k) \<lparr>ps_s = ctx, ps_buffer = buffer, ps_pos = 4, ps_rem = ps_rem s - 1\<rparr>"
      unfolding prf_at_def using B off more(2) segb rem by (intro exI [of _ "Suc B"]) (simp add: add.commute)
    ultimately show ?thesis by (rule that)
  qed
qed

subsection \<open>Fisher-Yates\<close>

text \<open>The last \<open>k\<close> of \<open>n\<close> indices below \<open>M\<close>, drawn from the last to the first with the numbers \<open>r\<close> of 32 bits.\<close>

primrec fy :: "nat \<Rightarrow> nat \<Rightarrow> (nat \<Rightarrow> nat) \<Rightarrow> nat \<Rightarrow> nat list" where
  "fy n M r 0 = []"
| "fy n M r (Suc k) =
     (let i = n - Suc k; later = fy n M r k; l = i + r k * (M - i) div 2 ^ 32
      in (if l \<in> set later then i else l) # later)"

lemma length_fy [simp]: "length (fy n M r k) = k"
  by (induction k) (simp_all add: Let_def)

lemma fy_index_lt:
  assumes "r < 2 ^ 32" and "i < M"
  shows "i + r * (M - i) div 2 ^ 32 < (M :: nat)"
proof -
  have "r * (M - i) < 2 ^ 32 * (M - i)" using assms by simp
  then have "r * (M - i) div 2 ^ 32 < M - i" by (simp only: less_mult_imp_div_less mult.commute)
  then show ?thesis by simp
qed

lemma fy_range:
  assumes "k \<le> n" and "n \<le> M" and "\<And>j. r j < 2 ^ 32" and "x \<in> set (fy n M r k)"
  shows "n - k \<le> x" and "x < M"
proof -
  have "n - k \<le> x \<and> x < M" using assms(1,4)
  proof (induction k)
    case (Suc k)
    have "n - Suc k < M" using Suc.prems(1) assms(2) by simp
    from fy_index_lt [OF assms(3) this] show ?case
      using Suc assms(2) by (auto simp: Let_def split: if_splits)
  qed simp
  then show "n - k \<le> x" "x < M" by simp_all
qed

lemma fy_distinct:
  assumes "k \<le> n" and "n \<le> M" and "\<And>j. r j < 2 ^ 32"
  shows "distinct (fy n M r k)"
  using assms(1)
proof (induction k)
  case (Suc k)
  have "n - Suc k \<notin> set (fy n M r k)"
    using fy_range(1) [of k n M r "n - Suc k", OF _ assms(2,3)] Suc.prems by auto
  then show ?case using Suc by (simp add: Let_def)
qed simp

subsection \<open>The indices\<close>

lemma bval_lane: "length bs = 8 \<Longrightarrow> unat (lane_of_bytes bs) = bval bs"
  by (metis bval_bytes_of_lane bytes_of_lane_of_bytes)

lemma bytes_of_lane_0: "bytes_of_lane 0 = replicate 8 0"
  by (rule nth_equalityI) (simp_all add: bytes_of_lane_def)

lemma rand_of_bytes: "length bs = 4 \<Longrightarrow> unat (lane_of_bytes (memcpy (bytes_of_lane 0) 0 bs)) = bval bs"
  by (subst bval_lane) (simp_all add: memcpy_def bytes_of_lane_0 bval_append)

lemma is_dup_loop:
  "for_range a b (\<lambda>j is_dup. is_dup OR secure_cmp32 l (out ! j)) 0 = (if \<exists>j. a \<le> j \<and> j < b \<and> out ! j = l then 1 else 0)"
proof (induction b)
  case (Suc b)
  show ?case
  proof (cases "a \<le> b")
    case True
    then show ?thesis
      unfolding for_range_Suc [OF True] Suc by (auto simp: secure_cmp32_def less_Suc_eq)
  next
    case False
    then show ?thesis by auto
  qed
qed simp

lemma dup_select: "(- (1 :: u32) AND i) XOR (NOT (- 1) AND l) = i" "(- (0 :: u32) AND i) XOR (NOT (- 0) AND l) = l"
  by simp_all

lemma word_of_nat_unat: "of_nat (unat w) = (w :: 'a::len word)"
  by simp

lemma fy_step_correct:
  assumes p: "perm_ok perm" and s: "prf_at perm seed k s" and k: "k < 2 ^ 32"
    and i: "i < n" and n: "n \<le> unat M" and M: "unat M < 2 ^ 31" and out: "length out = n"
  obtains s' where "fy_step perm n M i (out, s) = Inr (out[i := of_nat (let l = i + bval (shake_word perm seed k) * (unat M - i) div 2 ^ 32
      in if l \<in> set (map unat (drop (Suc i) out)) then i else l)], s')"
    and "prf_at perm seed (Suc k) s'"
proof -
  let ?b = "shake_word perm seed k"
  obtain s' where g: "get_prf_output perm s 4 = Inr (?b, s')" "prf_at perm seed (Suc k) s'"
    by (rule get_prf_output_at [OF p s k])
  have lb: "length ?b = 4" by (simp add: shake_word_def length_shake_stream [OF p])
  have r: "bval ?b < 2 ^ 32" using bval_lt [of ?b] lb by simp
  let ?rand = "lane_of_bytes (memcpy (bytes_of_lane 0) 0 ?b) * (ucast M - of_nat i) :: u64"
  define l where "l = i + bval ?b * (unat M - i) div 2 ^ 32"
  have iM: "i < unat M" using i n by simp
  have l: "l < unat M" unfolding l_def by (rule fy_index_lt [OF r iM])
  have d: "unat (ucast M - of_nat i :: u64) = unat M - i"
    using iM M by (subst unat_diff) (simp_all add: unat_of_nat)
  have "bval ?b * (unat M - i) < 2 ^ 32 * 2 ^ 32" by (rule mult_strict_mono) (use r M iM in simp_all)
  then have rand: "unat ?rand = bval ?b * (unat M - i)"
    using d rand_of_bytes [OF lb] by (subst unat_mult64) simp_all
  define X where "X = bval ?b * (unat M - i) div 2 ^ 32"
  have lX: "l = i + X" by (simp add: l_def X_def)
  have "unat (ucast (drop_bit 32 ?rand) :: u32) = X"
    using l M unfolding unat_ucast unat_drop_bit rand X_def [symmetric] lX by simp
  then have "ucast (drop_bit 32 ?rand) = (of_nat X :: u32)" by (metis word_of_nat_unat)
  then have lw: "of_nat i + ucast (drop_bit 32 ?rand) = (of_nat l :: u32)" by (simp only: lX of_nat_add)
  have ul: "unat (of_nat l :: u32) = l" using l M by (simp add: unat_of_nat)
  have dup: "(\<exists>j. Suc i \<le> j \<and> j < n \<and> out ! j = of_nat l) \<longleftrightarrow> l \<in> set (map unat (drop (Suc i) out))"
  proof
    assume "\<exists>j. Suc i \<le> j \<and> j < n \<and> out ! j = of_nat l"
    then obtain j where j: "Suc i \<le> j" "j < n" "out ! j = of_nat l" by blast
    then have "out ! j = drop (Suc i) out ! (j - Suc i)" "j - Suc i < length (drop (Suc i) out)" using out by simp_all
    then have "out ! j \<in> set (drop (Suc i) out)" by (metis nth_mem)
    then show "l \<in> set (map unat (drop (Suc i) out))" using j(3) ul by (force simp: image_iff)
  next
    assume "l \<in> set (map unat (drop (Suc i) out))"
    then obtain w where w: "w \<in> set (drop (Suc i) out)" "unat w = l" by auto
    then obtain j where j: "j < length (drop (Suc i) out)" "drop (Suc i) out ! j = w" by (auto simp: in_set_conv_nth)
    have "out ! (Suc i + j) = of_nat l" using j w(2) out by (simp add: word_eq_unat ul)
    then show "\<exists>j. Suc i \<le> j \<and> j < n \<and> out ! j = of_nat l" using j(1) out by (intro exI [of _ "Suc i + j"]) simp
  qed
  have "fy_step perm n M i (out, s) = Inr (out[i := of_nat (if l \<in> set (map unat (drop (Suc i) out)) then i else l)], s')"
    unfolding fy_step_def prod.case CWW_RAND_BYTES_def g(1) GUARD_simps Let_def
    using lw by (simp add: is_dup_loop dup)
  then show ?thesis using g(2) by (intro that) (simp_all add: l_def)
qed

definition shake_indices :: "(bytes \<Rightarrow> bytes) \<Rightarrow> bytes \<Rightarrow> nat \<Rightarrow> nat \<Rightarrow> nat \<Rightarrow> nat list" where
  "shake_indices perm seed k n M = fy n M (\<lambda>j. bval (shake_word perm seed (k + j))) n"

lemma shake_word_lt: "perm_ok perm \<Longrightarrow> bval (shake_word perm seed k) < 2 ^ 32"
  using bval_lt [of "shake_word perm seed k"] by (simp add: shake_word_def length_shake_stream)

lemma shake_indices_ok:
  assumes "perm_ok perm" and "n \<le> M"
  shows "length (shake_indices perm seed k n M) = n" and "distinct (shake_indices perm seed k n M)"
    and "x \<in> set (shake_indices perm seed k n M) \<Longrightarrow> x < M"
  using fy_distinct [of n n M "\<lambda>j. bval (shake_word perm seed (k + j))"]
    fy_range(2) [of n n M "\<lambda>j. bval (shake_word perm seed (k + j))" x] shake_word_lt [OF assms(1)] assms(2)
  by (simp_all add: shake_indices_def)

lemma sample_indices_correct:
  assumes p: "perm_ok perm" and s: "prf_at perm seed k s" and k: "k + n \<le> 2 ^ 32"
    and n: "n \<le> unat M" and M: "unat M < 2 ^ 31" and out: "length out = n"
  obtains w s' where "sample_indices_fisher_yates perm out n M s = Inr (w, s')" and "map unat w = shake_indices perm seed k n (unat M)"
    and "prf_at perm seed (k + n) s'"
proof -
  let ?r = "\<lambda>j. bval (shake_word perm seed (k + j))" and ?M = "unat M"
  define P where "P i t \<longleftrightarrow> i \<le> n \<and> (\<exists>out s. t = Inr (out, s) \<and> length out = n \<and> map unat (drop i out) = fy n ?M ?r (n - i)
      \<and> prf_at perm seed (k + (n - i)) s)" for i and t :: "bike_err + u32 list \<times> prf_state"
  have "P 0 (sample_indices_fisher_yates perm out n M s)"
    unfolding sample_indices_fisher_yates_def
  proof (rule for_down_inv [where P = P])
    show "P n (Inr (out, s))" using out s by (simp add: P_def)
  next
    fix i t assume i: "i < n" and "P (Suc i) t"
    then obtain out s where t: "t = Inr (out, s)" "length out = n" "map unat (drop (Suc i) out) = fy n ?M ?r (n - Suc i)"
      "prf_at perm seed (k + (n - Suc i)) s" by (auto simp: P_def)
    let ?l = "i + ?r (n - Suc i) * (?M - i) div 2 ^ 32"
    let ?v = "let l = ?l in if l \<in> set (map unat (drop (Suc i) out)) then i else l"
    obtain s' where f: "fy_step perm n M i (out, s) = Inr (out[i := of_nat ?v], s')"
      "prf_at perm seed (Suc (k + (n - Suc i))) s'"
      by (rule fy_step_correct [OF p t(4) _ i n M t(2)]) (use k i in auto)
    have "?l < ?M" using i n by (intro fy_index_lt [OF shake_word_lt [OF p]]) simp
    then have v: "unat (of_nat ?v :: u32) = ?v" using i n M by (simp add: unat_of_nat Let_def)
    have ni: "n - i = Suc (n - Suc i)" using i by simp
    have "drop i (out[i := of_nat ?v]) = of_nat ?v # drop (Suc i) out"
      using i t(2) by (simp add: Cons_nth_drop_Suc [symmetric])
    then have "map unat (drop i (out[i := of_nat ?v])) = ?v # fy n ?M ?r (n - Suc i)" using v t(3) by (simp only: list.map)
    also have "\<dots> = fy n ?M ?r (n - i)" unfolding ni using i by (simp add: Let_def t(3))
    finally show "P i (GUARD t (fy_step perm n M i))"
      using i f t by (simp add: P_def ni)
  qed
  then obtain w s' where "sample_indices_fisher_yates perm out n M s = Inr (w, s')" "map unat w = fy n ?M ?r n"
    "prf_at perm seed (k + n) s'"
    by (auto simp: P_def)
  then show ?thesis by (intro that) (simp_all add: shake_indices_def)
qed

subsection \<open>Setting bits\<close>

lemma signed_diff: "a < 2 ^ 30 \<Longrightarrow> b < 2 ^ 30 \<Longrightarrow> signed_take_bit 31 (int a - int b) = int a - int b"
  by (intro signed_take_bit_int_eq_self) simp_all

lemma sint_of_int32: "sint (of_int d :: u32) = signed_take_bit 31 d"
  by (simp only: sint_sbintrunc' len_bit0 len_num1) simp

lemma sint_pos:
  fixes v :: u32
  assumes "unat v < 2 ^ 30" and "first < 2 ^ 30"
  shows "sint (v - of_nat first) = int (unat v) - int first"
proof -
  have "v - of_nat first = of_int (int (unat v) - int first)" by (simp only: of_int_diff of_int_of_nat_eq word_of_nat_unat)
  then show ?thesis by (simp only: sint_of_int32 signed_diff [OF assms])
qed

lemma low_bits_signed:
  fixes w :: u32
  shows "int (unat (scast w AND mask 6 :: u64)) = sint w mod 64"
proof -
  let ?s = "scast w :: u64"
  have "int (unat ?s) = uint (of_int (sint w) :: u64)" by simp
  also have "\<dots> = take_bit 64 (sint w)" by (simp only: unsigned_of_int) simp
  finally have "int (unat ?s) = take_bit 64 (sint w)" .
  then have "int (unat (?s AND mask 6)) = sint w mod 2 ^ 64 mod 2 ^ 6"
    by (simp only: unat_and_mask zmod_int of_nat_power of_nat_numeral take_bit_eq_mod)
  then show ?thesis by (simp add: mod_mod_cancel)
qed

lemma div_mod_64:
  assumes "n < 64"
  shows "d div 64 = int i \<and> d mod 64 = int n \<longleftrightarrow> d = int (64 * i + n)"
proof
  assume "d div 64 = int i \<and> d mod 64 = int n"
  then show "d = int (64 * i + n)" using div_mult_mod_eq [of d 64] by simp
next
  assume "d = int (64 * i + n)"
  then show "d div 64 = int i \<and> d mod 64 = int n" using assms by (simp flip: of_nat_div of_nat_mod)
qed

lemma sint_small: "i < 2 ^ 16 \<Longrightarrow> sint (of_nat i :: u32) = int i"
  using sint_of_int32 [of "int i"] signed_diff [of i 0] by simp

lemma nat_diff_eq: "int a - int b = int c \<longleftrightarrow> a = b + c"
  by linarith

text \<open>One entry: its word, at every index that occurs, and its bit.\<close>

lemma pos_of_correct:
  fixes v :: u32
  assumes v: "unat v < 2 ^ 30" "first < 2 ^ 30" and i: "i < 2 ^ 16" and n: "n < 64"
  shows "secure_cmp32 (ucast (fst (pos_of first v))) (of_nat i) \<noteq> 0 \<and> bit (snd (pos_of first v)) n
    \<longleftrightarrow> unat v = first + (64 * i + n)"
proof -
  define w where "w = v - of_nat first"
  define d where "d = int (unat v) - int first"
  have d: "sint w = d" unfolding w_def d_def by (rule sint_pos [OF v])
  have c: "ucast (scast (signed_drop_bit 6 w) :: u64) = signed_drop_bit 6 w"
    by (rule bit_word_eqI) (simp add: bit_simps)
  have "signed_drop_bit 6 w = of_nat i \<longleftrightarrow> drop_bit 6 d = int i"
    unfolding word_eq_iff_signed [where 'a = int and 'b = 32] by (simp only: sint_signed_drop_bit_eq d sint_small [OF i])
  also have "\<dots> \<longleftrightarrow> d div 64 = int i" by (simp add: drop_bit_eq_div)
  finally have 1: "secure_cmp32 (ucast (fst (pos_of first v))) (of_nat i) \<noteq> 0 \<longleftrightarrow> d div 64 = int i"
    by (simp add: secure_cmp32_def pos_of_def Let_def c flip: w_def)
  have "bit (push_bit k 1 :: u64) n \<longleftrightarrow> int k = int n" for k using n by (auto simp: bit_exp_iff)
  then have 2: "bit (snd (pos_of first v)) n \<longleftrightarrow> d mod 64 = int n"
    by (simp only: pos_of_def Let_def snd_conv low_bits_signed d flip: w_def)
  show ?thesis unfolding 1 2 div_mod_64 [OF n] d_def nat_diff_eq ..
qed

lemma bit_or_loop:
  fixes x :: "nat \<Rightarrow> u64"
  shows "bit (for_range 0 m (\<lambda>j val. val OR x j) 0) n \<longleftrightarrow> (\<exists>j<m. bit (x j) n)"
  by (induction m) (auto simp: for_range_Suc bit_or_iff less_Suc_eq)

text \<open>The whole array: bit \<open>k\<close> is set when \<open>first + k\<close> is one of the positions.\<close>

lemma secure_set_bits_correct:
  assumes q: "q \<in> set bike_levels" and r: "length r = R_PADDED_QWORDS q" and first: "first < 2 ^ 30"
    and w: "\<And>v. v \<in> set w \<Longrightarrow> unat v < 2 ^ 30" and m: "length w = m"
  shows "length (secure_set_bits_port q r first w m) = R_PADDED_QWORDS q"
    and "bit (qval (secure_set_bits_port q r first w m)) k \<longleftrightarrow> k < 64 * R_PADDED_QWORDS q \<and> first + k \<in> set (map unat w)"
proof -
  let ?n = "R_PADDED_QWORDS q"
  let ?x = "\<lambda>i j. snd (pos_of first (w ! j)) AND (- 1 + (if secure_cmp32 (ucast (fst (pos_of first (w ! j)))) (of_nat i) = 0 then 1 else 0))"
  let ?v = "\<lambda>i. for_range 0 m (\<lambda>j val. val OR ?x i j) 0"
  have n: "?n < 2 ^ 16" using q by (elim bike_level_cases) (simp_all add: bike_sizes)
  have "for_range 0 m (\<lambda>j val. val OR (map (\<lambda>i. snd (pos_of first (w ! i))) [0..<m] ! j AND
      (- 1 + (if secure_cmp32 (ucast (map (\<lambda>i. fst (pos_of first (w ! i))) [0..<m] ! j)) (of_nat i) = 0 then 1 else 0)))) 0 = ?v i" for i
    by (rule for_range_cong) simp
  then have e: "secure_set_bits_port q r first w m = map ?v [0..<?n]"
    unfolding secure_set_bits_port_def Let_def using for_range_update [of ?n r "\<lambda>i _. ?v i"] r by simp
  show "length (secure_set_bits_port q r first w m) = ?n" by (simp add: e)
  have b: "bit (?v i) c \<longleftrightarrow> first + (64 * i + c) \<in> set (map unat w)" if "i < ?n" "c < 64" for i c
  proof -
    have "bit (?x i j) c \<longleftrightarrow> unat (w ! j) = first + (64 * i + c)" if j: "j < m" for j
    proof -
      have "unat (w ! j) < 2 ^ 30" using w j m by simp
      from pos_of_correct [OF this first _ \<open>c < 64\<close>, of i] show ?thesis
        using \<open>i < ?n\<close> \<open>c < 64\<close> n by (auto simp: bit_and_iff)
    qed
    then have "bit (?v i) c \<longleftrightarrow> (\<exists>j<m. unat (w ! j) = first + (64 * i + c))" unfolding bit_or_loop by blast
    also have "\<dots> \<longleftrightarrow> first + (64 * i + c) \<in> set (map unat w)" by (simp only: in_set_conv_nth length_map m) (use m in auto)
    finally show ?thesis .
  qed
  have "bit (qval (map ?v [0..<?n])) k \<longleftrightarrow> k div 64 < ?n \<and> bit (?v (k div 64)) (k mod 64)"
    unfolding bit_qval length_map length_upt diff_zero by (rule conj_cong [OF refl]) (simp only: nth_map_upt diff_zero add_0)
  also have "\<dots> \<longleftrightarrow> k div 64 < ?n \<and> first + k \<in> set (map unat w)"
    using b [of "k div 64" "k mod 64"] mult_div_mod_eq [of 64 k] by auto
  finally show "bit (qval (secure_set_bits_port q r first w m)) k \<longleftrightarrow> k < 64 * ?n \<and> first + k \<in> set (map unat w)"
    unfolding e by (simp add: div_less_iff_less_mult mult.commute)
qed

subsection \<open>Keys and errors\<close>

definition set_poly :: "nat \<Rightarrow> nat list \<Rightarrow> nat" where
  "set_poly r xs = poly_of r (\<lambda>k. k \<in> set xs)"

lemma weight_set_poly:
  assumes "distinct xs" and "\<And>x. x \<in> set xs \<Longrightarrow> x < r"
  shows "weight r (set_poly r xs) = length xs"
proof -
  have "set (filter (bit (set_poly r xs)) [0..<r]) = set xs" using assms(2) by (auto simp: set_poly_def bit_poly_of)
  then have "card (set (filter (bit (set_poly r xs)) [0..<r])) = card (set xs)" by simp
  then show ?thesis by (simp only: weight_def distinct_card distinct_filter distinct_upt assms(1))
qed

lemma bike_sizes_small:
  assumes "q \<in> set bike_levels"
  shows "R_BITS q < 2 ^ 16" and "N_BITS q < 2 ^ 17" and "par_D q \<le> R_BITS q" and "par_T_bike q \<le> N_BITS q"
    and "par_D q < 2 ^ 16" and "par_T_bike q < 2 ^ 16"
  using assms by (elim bike_level_cases; simp add: bike_sizes)+

lemma generate_sparse_rep_correct:
  assumes p: "perm_ok perm" and q: "q \<in> set bike_levels" and r: "length r = R_PADDED_QWORDS q"
    and s: "prf_at perm seed k s" and k: "k < 2 ^ 16"
  obtains r' w s' where "generate_sparse_rep_for_sk perm q r s = Inr (r', w, s')" and "pad_ok q r'"
    and "map unat w = shake_indices perm seed k (par_D q) (R_BITS q)" and "qval r' = set_poly (R_BITS q) (map unat w)"
    and "prf_at perm seed (k + par_D q) s'"
proof -
  note sm = bike_sizes_small [OF q]
  have M: "unat (of_nat (R_BITS q) :: u32) = R_BITS q" using sm(1) by (simp add: unat_of_nat)
  have b: "k + par_D q \<le> 2 ^ 32" "par_D q \<le> unat (of_nat (R_BITS q) :: u32)" "unat (of_nat (R_BITS q) :: u32) < 2 ^ 31"
    using sm k unfolding M by simp_all
  obtain w s' where w: "sample_indices_fisher_yates perm (replicate (par_D q) 0) (par_D q) (of_nat (R_BITS q)) s = Inr (w, s')"
    "map unat w = shake_indices perm seed k (par_D q) (unat (of_nat (R_BITS q) :: u32))" "prf_at perm seed (k + par_D q) s'"
    by (rule sample_indices_correct [OF p s b length_replicate])
  note w2 = w(2) [unfolded M]
  have lt: "x < R_BITS q" if "x \<in> set (map unat w)" for x
    using shake_indices_ok(3) [OF p sm(3)] that unfolding w2 by blast
  have wl: "length w = par_D q" using arg_cong [OF w2, of length] shake_indices_ok(1) [OF p sm(3)] by simp
  have w30: "unat v < 2 ^ 30" if "v \<in> set w" for v using lt [of "unat v"] that sm(1) by auto
  let ?r = "secure_set_bits_port q r 0 w (par_D q)"
  note sb = secure_set_bits_correct [OF q r _ w30 wl, of 0]
  have v: "qval ?r = set_poly (R_BITS q) (map unat w)"
  proof (rule bit_eqI)
    fix j
    have "R_BITS q \<le> 64 * R_PADDED_QWORDS q" using bike_sizes_pos(5,6) [OF q] by simp
    then show "bit (qval ?r) j = bit (set_poly (R_BITS q) (map unat w)) j"
      using sb(2) [of j] lt [of j] by (auto simp: set_poly_def bit_poly_of)
  qed
  have "pad_ok q ?r" using sb(1) v poly_of_lt by (simp add: pad_ok_def set_poly_def)
  moreover have "generate_sparse_rep_for_sk perm q r s = Inr (?r, w, s')" by (simp add: generate_sparse_rep_for_sk_def w(1))
  ultimately show ?thesis using w2 v w(3) that by blast
qed

lemma wlist_ok_indices:
  assumes "perm_ok perm" and "q \<in> set bike_levels"
    and "map unat w0 = shake_indices perm s0 k0 (par_D q) (R_BITS q)" and "map unat w1 = shake_indices perm s1 k1 (par_D q) (R_BITS q)"
  shows "wlist_ok q [w0, w1]"
proof -
  have "length w = par_D q \<and> (\<forall>v\<in>set w. unat v < R_BITS q)"
    if m: "map unat w = shake_indices perm s k (par_D q) (R_BITS q)" for w :: "u32 list" and s k
  proof
    show "length w = par_D q"
      using arg_cong [OF m, of length] shake_indices_ok(1) [OF assms(1) bike_sizes_small(3) [OF assms(2)]] by simp
    show "\<forall>v\<in>set w. unat v < R_BITS q"
      using shake_indices_ok(3) [OF assms(1) bike_sizes_small(3) [OF assms(2)], of _ s k] unfolding m [symmetric] by simp
  qed
  from this [OF assms(3)] this [OF assms(4)] show ?thesis by (simp add: wlist_ok_def)
qed

theorem generate_secret_key_correct:
  assumes p: "perm_ok perm" and q: "q \<in> set bike_levels" and z: "length z0 = R_PADDED_QWORDS q" "length z1 = R_PADDED_QWORDS q"
  obtains h0 h1 w0 w1 where "generate_secret_key perm q z0 z1 seed = Inr (h0, h1, w0, w1)"
    and "pad_ok q h0" and "pad_ok q h1" and "wlist_ok q [w0, w1]"
    and "map unat w0 = shake_indices perm seed 0 (par_D q) (R_BITS q)" and "map unat w1 = shake_indices perm seed (par_D q) (par_D q) (R_BITS q)"
    and "qval h0 = set_poly (R_BITS q) (map unat w0)" and "qval h1 = set_poly (R_BITS q) (map unat w1)"
proof -
  obtain s where s: "init_prf_state perm MAX_PRF_INVOCATION seed = Inr s" "prf_at perm seed 0 s"
    by (rule init_prf_state_at [OF p])
  obtain h0 w0 s1 where h0: "generate_sparse_rep_for_sk perm q z0 s = Inr (h0, w0, s1)" "pad_ok q h0"
    "map unat w0 = shake_indices perm seed 0 (par_D q) (R_BITS q)" "qval h0 = set_poly (R_BITS q) (map unat w0)"
    "prf_at perm seed (0 + par_D q) s1"
    by (rule generate_sparse_rep_correct [OF p q z(1) s(2)]) simp_all
  obtain h1 w1 s2 where h1: "generate_sparse_rep_for_sk perm q z1 s1 = Inr (h1, w1, s2)" "pad_ok q h1"
    "map unat w1 = shake_indices perm seed (0 + par_D q) (par_D q) (R_BITS q)" "qval h1 = set_poly (R_BITS q) (map unat w1)"
    by (rule generate_sparse_rep_correct [OF p q z(2) h0(5)]) (use bike_sizes_small(5) [OF q] in simp_all)
  have g: "generate_secret_key perm q z0 z1 seed = Inr (h0, h1, w0, w1)" by (simp add: generate_secret_key_def s(1) h0(1) h1(1))
  have "wlist_ok q [w0, w1]" by (rule wlist_ok_indices [OF p q h0(3) h1(3)])
  from that [OF g h0(2) h1(2) this h0(3) _ h0(4) h1(4)] h1(3) show ?thesis by simp
qed

lemma clean_pad_correct:
  assumes q: "q \<in> set bike_levels" and e: "length e = R_PADDED_QWORDS q"
  shows "pad_ok q (clean_pad q e)" and "qval (clean_pad q e) = take_bit (R_BITS q) (qval e)"
proof -
  note bf = R_BYTES_facts [OF q]
  let ?b = "bytes_of_lanes e" and ?n = "8 * R_PADDED_QWORDS q"
  let ?m = "mask_last_byte q (take (R_BYTES q) ?b)"
  let ?raw = "memcpy (?b[R_BYTES q - 1 := ?b ! (R_BYTES q - 1) AND LAST_R_BYTE_MASK q]) (R_BYTES q) (replicate (?n - R_BYTES q) 0)"
  have lb: "length ?b = ?n" using e by simp
  have m: "length ?m = R_BYTES q" "bval ?m = take_bit (R_BITS q) (bval (take (R_BYTES q) ?b))"
    using mask_last_byte_correct [OF q, of "take (R_BYTES q) ?b"] bf(2) lb by simp_all
  have v: "bval ?m = take_bit (R_BITS q) (qval e)"
    using m(2) bf(3) by (simp add: bval_take take_bit_take_bit min_def)
  have "?raw = ?m @ replicate (?n - R_BYTES q) 0"
    using lb bf(1,2) by (simp add: memcpy_def mask_last_byte_def take_update_swap nth_take)
  then have b: "bval ?raw = take_bit (R_BITS q) (qval e)" and lr: "length ?raw = ?n" using v m(1) bf(2) by (simp_all add: bval_append)
  have c: "clean_pad q e = lanes_over ?raw" by (simp add: clean_pad_def Let_def)
  show q2: "qval (clean_pad q e) = take_bit (R_BITS q) (qval e)" unfolding c using b lr by (simp add: qval_lanes_over)
  have "length (clean_pad q e) = R_PADDED_QWORDS q" unfolding c using lr by simp
  moreover have "take_bit (R_BITS q) (qval e) < 2 ^ R_BITS q" by simp
  ultimately show "pad_ok q (clean_pad q e)" unfolding pad_ok_def q2 by simp
qed

definition err_indices :: "(bytes \<Rightarrow> bytes) \<Rightarrow> bike_params \<Rightarrow> bytes \<Rightarrow> nat list" where
  "err_indices perm q seed = shake_indices perm seed 0 (par_T_bike q) (N_BITS q)"

text \<open>The two halves of the error that a seed determines.\<close>

definition err_poly :: "(bytes \<Rightarrow> bytes) \<Rightarrow> bike_params \<Rightarrow> bytes \<Rightarrow> nat list" where
  "err_poly perm q seed =
     [poly_of (R_BITS q) (\<lambda>k. k \<in> set (err_indices perm q seed)), poly_of (R_BITS q) (\<lambda>k. R_BITS q + k \<in> set (err_indices perm q seed))]"

lemma take_bit_poly_of:
  assumes "r \<le> n" and b: "\<And>k. bit x k \<longleftrightarrow> k < n \<and> P k"
  shows "take_bit r x = poly_of r P"
proof (rule bit_eqI)
  fix k show "bit (take_bit r x) k = bit (poly_of r P) k"
    using assms(1) unfolding bit_take_bit_iff bit_poly_of b by (cases "k < r") simp_all
qed

theorem generate_error_vector_correct:
  assumes p: "perm_ok perm" and q: "q \<in> set bike_levels" and z: "length z0 = R_PADDED_QWORDS q" "length z1 = R_PADDED_QWORDS q"
    and wj: "length wj = par_T_bike q"
  obtains e0 e1 where "generate_error_vector perm q wj [z0, z1] seed = Inr [e0, e1]" and "pad_ok q e0" and "pad_ok q e1"
    and "[qval e0, qval e1] = err_poly perm q seed"
proof -
  note sm = bike_sizes_small [OF q]
  obtain s where s: "init_prf_state perm MAX_PRF_INVOCATION seed = Inr s" "prf_at perm seed 0 s"
    by (rule init_prf_state_at [OF p])
  have M: "unat (of_nat (N_BITS q) :: u32) = N_BITS q" using sm(2) by (simp add: unat_of_nat)
  have b: "0 + par_T_bike q \<le> 2 ^ 32" "par_T_bike q \<le> unat (of_nat (N_BITS q) :: u32)" "unat (of_nat (N_BITS q) :: u32) < 2 ^ 31"
    using sm unfolding M by simp_all
  obtain w s' where w: "sample_indices_fisher_yates perm wj (par_T_bike q) (of_nat (N_BITS q)) s = Inr (w, s')"
    "map unat w = shake_indices perm seed 0 (par_T_bike q) (unat (of_nat (N_BITS q) :: u32))" "prf_at perm seed (0 + par_T_bike q) s'"
    by (rule sample_indices_correct [OF p s(2) b wj])
  note w2 = w(2) [unfolded M, folded err_indices_def]
  have lt: "x < N_BITS q" if "x \<in> set (map unat w)" for x
    using shake_indices_ok(3) [OF p sm(4)] that unfolding w2 err_indices_def by blast
  have wl: "length w = par_T_bike q"
    using arg_cong [OF w2, of length] shake_indices_ok(1) [OF p sm(4)] by (simp add: err_indices_def)
  have w30: "unat v < 2 ^ 30" if "v \<in> set w" for v using lt [of "unat v"] that sm(2) by auto
  have R30: "R_BITS q < 2 ^ 30" using sm(1) by simp
  let ?z0 = "secure_set_bits_port q z0 0 w (par_T_bike q)" and ?z1 = "secure_set_bits_port q z1 (R_BITS q) w (par_T_bike q)"
  note s0 = secure_set_bits_correct [OF q z(1) _ w30 wl, of 0] and s1 = secure_set_bits_correct [OF q z(2) R30 w30 wl]
  have l0: "length ?z0 = R_PADDED_QWORDS q" and l1: "length ?z1 = R_PADDED_QWORDS q" using s0(1) s1(1) by simp_all
  note c0 = clean_pad_correct [OF q l0] and c1 = clean_pad_correct [OF q l1]
  have R: "R_BITS q \<le> 64 * R_PADDED_QWORDS q" using bike_sizes_pos(5,6) [OF q] by simp
  have b0: "bit (qval ?z0) k \<longleftrightarrow> k < 64 * R_PADDED_QWORDS q \<and> k \<in> set (map unat w)" for k
    using s0(2) [of k] by simp
  have b1: "bit (qval ?z1) k \<longleftrightarrow> k < 64 * R_PADDED_QWORDS q \<and> R_BITS q + k \<in> set (map unat w)" for k
    by (rule s1(2))
  have "qval (clean_pad q ?z0) = poly_of (R_BITS q) (\<lambda>k. k \<in> set (map unat w))"
    "qval (clean_pad q ?z1) = poly_of (R_BITS q) (\<lambda>k. R_BITS q + k \<in> set (map unat w))"
    unfolding c0(2) c1(2) by (rule take_bit_poly_of [OF R b0], rule take_bit_poly_of [OF R b1])
  then have v: "[qval (clean_pad q ?z0), qval (clean_pad q ?z1)] = err_poly perm q seed" by (simp only: err_poly_def w2)
  have g: "generate_error_vector perm q wj [z0, z1] seed = Inr [clean_pad q ?z0, clean_pad q ?z1]"
    by (simp add: generate_error_vector_def s(1) w(1))
  show ?thesis by (rule that [OF g c0(1) c1(1) v])
qed

subsection \<open>Uniform bits\<close>

text \<open>A draw of \<open>R_BYTES\<close> bytes is longer than the block in the buffer, which is all that one call copies from.\<close>

lemma sample_uniform_reads_past:
  assumes p: "perm_ok perm" and q: "q \<in> set bike_levels"
  shows "sample_uniform_r_bits perm q seed must_be_odd = Inl READ_PAST_BUFFER"
proof -
  obtain s where s: "init_prf_state perm MAX_PRF_INVOCATION seed = Inr s" "prf_at perm seed 0 s" by (rule init_prf_state_at [OF p])
  then have a: "ps_pos s = 136" "ps_rem s \<noteq> 0" "ps_s s = shake_init perm seed"
    by (auto simp: init_prf_state_def MAX_PRF_INVOCATION_def shake_init_def)
  have n: "136 < R_BYTES q" using q by (elim bike_level_cases) (simp_all add: bike_sizes)
  have "length (fst (keccak_inc_squeeze perm SHAKE256_RATE 136 (ps_s s))) = 136"
    unfolding a(3) by (rule length_keccak_squeeze [OF p shake_init_wf [OF p]])
  then have "get_prf_output perm s (R_BYTES q) = Inl READ_PAST_BUFFER"
    using a(1,2) n by (simp add: get_prf_output_def case_prod_unfold Let_def)
  then show ?thesis by (simp add: sample_uniform_r_bits_def s(1) sample_uniform_r_bits_with_fixed_prf_context_def)
qed

end
