(* ===== verification/Bike_Kem_Correct.thy ===== *)
theory Bike_Kem_Correct
  imports Bike_Kem Bike_Sampling_Correct
begin

text \<open>
  The key encapsulation of BIKE on polynomials and byte strings, the transform that makes it out of an encryption (an
  interface with its laws, interpreted on BIKE), and the proof that \<open>kem.c\<close> computes it in the
  portable build and, with vectors of 128 bits, in the SVE2 build.
\<close>

subsection \<open>The transform\<close>

text \<open>
  A message determines the error \<open>H\<close>; the ciphertext is the encoded error and the message masked with \<open>L\<close>.  Decapsulation
  decodes, unmasks, and takes the message only if it determines the decoded error: otherwise the secret \<open>sigma\<close>.
\<close>

definition fo_encaps :: "('m \<Rightarrow> 'e) \<Rightarrow> ('e \<Rightarrow> 'm) \<Rightarrow> ('m \<Rightarrow> 'm \<Rightarrow> 'm) \<Rightarrow> ('m \<Rightarrow> 'c \<times> 'm \<Rightarrow> 'k) \<Rightarrow> ('e \<Rightarrow> 'c) \<Rightarrow> 'm \<Rightarrow> ('c \<times> 'm) \<times> 'k" where
  "fo_encaps H L msk K enc m = (let e = H m; ct = (enc e, msk m (L e)) in (ct, K m ct))"

definition fo_decaps :: "('m \<Rightarrow> 'e) \<Rightarrow> ('e \<Rightarrow> 'm) \<Rightarrow> ('m \<Rightarrow> 'm \<Rightarrow> 'm) \<Rightarrow> ('m \<Rightarrow> 'c \<times> 'm \<Rightarrow> 'k) \<Rightarrow> ('c \<Rightarrow> 'e) \<Rightarrow> 'm \<Rightarrow> 'c \<times> 'm \<Rightarrow> 'k" where
  "fo_decaps H L msk K dec sigma ct =
     (let e = dec (fst ct); m = msk (snd ct) (L e) in K (if H m = e then m else sigma) ct)"

locale fo_kem =
  fixes H :: "'m \<Rightarrow> 'e" and L :: "'e \<Rightarrow> 'm" and msk :: "'m \<Rightarrow> 'm \<Rightarrow> 'm" and msg :: "'m \<Rightarrow> bool"
  assumes unmask: "msg m \<Longrightarrow> msk (msk m (L e)) (L e) = m"
begin

lemma decaps_encaps:
  assumes "msg m" and "dec (enc (H m)) = H m"
  shows "fo_decaps H L msk K dec sigma (fst (fo_encaps H L msk K enc m)) = snd (fo_encaps H L msk K enc m)"
  using assms by (simp add: fo_decaps_def fo_encaps_def Let_def unmask)

lemma decaps_reject:
  assumes "H (msk (snd ct) (L (dec (fst ct)))) \<noteq> dec (fst ct)"
  shows "fo_decaps H L msk K dec sigma ct = K sigma ct"
  using assms by (simp add: fo_decaps_def Let_def)

end

subsection \<open>BIKE as such a transform\<close>

definition poly_bytes :: "bike_params \<Rightarrow> nat \<Rightarrow> bytes" where
  "poly_bytes q x = map (\<lambda>i. of_nat (drop_bit (8 * i) x)) [0..<R_BYTES q]"

definition kem_L :: "(bytes \<Rightarrow> bytes) \<Rightarrow> bike_params \<Rightarrow> nat list \<Rightarrow> bytes" where
  "kem_L perm q e = take M_BYTES (sponge perm SHA3_384_RATE 0x06 (poly_bytes q (e ! 0) @ poly_bytes q (e ! 1)) 48)"

definition kem_K :: "(bytes \<Rightarrow> bytes) \<Rightarrow> bytes \<Rightarrow> bytes \<times> bytes \<Rightarrow> bytes" where
  "kem_K perm m ct = take SS_BYTES (sponge perm SHA3_384_RATE 0x06 (m @ fst ct @ snd ct) 48)"

definition kem_mask :: "bytes \<Rightarrow> bytes \<Rightarrow> bytes" where
  "kem_mask m l = map (\<lambda>i. m ! i XOR l ! i) [0..<M_BYTES]"

definition kem_enc :: "bike_params \<Rightarrow> nat \<Rightarrow> nat list \<Rightarrow> bytes" where
  "kem_enc q pk e = poly_bytes q (pmul (R_BITS q) (e ! 1) pk XOR e ! 0)"

definition kem_dec :: "bike_params \<Rightarrow> bike_sk_t \<Rightarrow> bytes \<Rightarrow> nat list" where
  "kem_dec q sk c0 = bgf_decode q (bval c0) (bval (sk_bin sk ! 0)) (bval (sk_pk sk)) (map (map unat) (sk_wlist sk))"

interpretation bike_fo: fo_kem "err_poly perm q" "kem_L perm q" kem_mask "\<lambda>m. length m = M_BYTES" for perm q
proof
  show "kem_mask (kem_mask m (kem_L perm q e)) (kem_L perm q e) = m" if "length m = M_BYTES" for m e
    by (rule nth_equalityI) (use that in \<open>simp_all add: kem_mask_def xor.assoc\<close>)
qed

subsection \<open>Bytes\<close>

lemma bit_of_nat8: "bit (of_nat n :: u8) k \<longleftrightarrow> k < 8 \<and> bit n k"
proof -
  have "bit (of_nat n :: u8) k \<longleftrightarrow> bit (unat (of_nat n :: u8)) k" by (simp add: bit_unsigned_iff)
  also have "unat (of_nat n :: u8) = take_bit 8 n" by (simp add: unat_of_nat take_bit_eq_mod)
  finally show ?thesis by (simp add: bit_take_bit_iff)
qed

lemma bval_poly_bytes: "bval (poly_bytes q x) = take_bit (8 * R_BYTES q) x"
proof (rule bit_eqI)
  fix k
  have "k div 8 < R_BYTES q \<longleftrightarrow> k < 8 * R_BYTES q" by (simp add: div_less_iff_less_mult mult.commute)
  then show "bit (bval (poly_bytes q x)) k = bit (take_bit (8 * R_BYTES q) x) k"
    by (simp add: poly_bytes_def bit_bval_map bit_take_bit_iff bit_of_nat8 bit_drop_bit_eq)
qed

lemma poly_bytes_half_ok:
  assumes "q \<in> set bike_levels" and "x < 2 ^ R_BITS q"
  shows "half_ok q (poly_bytes q x) x"
  using assms pow2_mono [OF assms(2) R_BYTES_facts(3) [OF assms(1)]]
  by (simp add: half_ok_def bval_poly_bytes take_bit_nat_eq_self_iff) (simp add: poly_bytes_def)

lemma half_ok_bytes: "q \<in> set bike_levels \<Longrightarrow> half_ok q b x \<Longrightarrow> b = poly_bytes q x"
  using poly_bytes_half_ok [of q x] by (intro bval_eqI) (auto simp: half_ok_def)

lemma pad_val_half: "q \<in> set bike_levels \<Longrightarrow> pad_ok q a \<Longrightarrow> half_ok q (pad_val q a) (qval a)"
  by (simp add: half_ok_def bval_pad_val pad_okD)

lemma pad_val_bytes: "q \<in> set bike_levels \<Longrightarrow> pad_ok q a \<Longrightarrow> pad_val q a = poly_bytes q (qval a)"
  by (rule half_ok_bytes, assumption) (rule pad_val_half)

lemma poly_bytes_eq:
  assumes "q \<in> set bike_levels" and "x < 2 ^ R_BITS q" and "y < 2 ^ R_BITS q"
  shows "poly_bytes q x = poly_bytes q y \<longleftrightarrow> x = y"
proof -
  have "bval (poly_bytes q x) = x" "bval (poly_bytes q y) = y"
    using poly_bytes_half_ok [OF assms(1,2)] poly_bytes_half_ok [OF assms(1,3)] by (simp_all add: half_ok_def)
  then show ?thesis by metis
qed

lemma length_poly_bytes [simp]: "length (poly_bytes q x) = R_BYTES q"
  by (simp add: poly_bytes_def)

lemma length_sponge: "perm_ok perm \<Longrightarrow> length (sponge perm r p m n) = n"
  by (simp add: length_keccak_squeeze keccak_wf_finalize keccak_inc_absorb_wf keccak_inc_reset_def
      flip: keccak_inc_sponge)

lemma length_kem_L [simp]: "perm_ok perm \<Longrightarrow> length (kem_L perm q e) = M_BYTES"
  by (simp add: kem_L_def length_sponge M_BYTES_def)

lemma length_kem_K [simp]: "perm_ok perm \<Longrightarrow> length (kem_K perm m ct) = SS_BYTES"
  by (simp add: kem_K_def length_sponge SS_BYTES_def)

lemma length_kem_mask [simp]: "length (kem_mask m l) = M_BYTES"
  by (simp add: kem_mask_def)

lemma sha_sponge: "perm_ok perm \<Longrightarrow> sha perm msg = Some (sponge perm SHA3_384_RATE 0x06 msg 48)"
  by (simp add: sha_def one_shot_sponge(2))

subsection \<open>The functions\<close>

lemma function_l_correct:
  assumes "perm_ok perm" and "q \<in> set bike_levels" and "pad_ok q e0" and "pad_ok q e1"
  shows "function_l perm q [e0, e1] = Some (kem_L perm q [qval e0, qval e1])"
  using assms by (simp add: function_l_def sha_sponge kem_L_def pad_val_bytes)

lemma function_k_correct: "perm_ok perm \<Longrightarrow> function_k perm m ct = Some (kem_K perm m (ct_c0 ct, ct_c1 ct))"
  by (simp add: function_k_def sha_sponge kem_K_def)

lemma encrypt_correct:
  assumes p: "perm_ok perm" and q: "q \<in> set bike_levels" and B: "build_ok B" and e: "pad_ok q e0" "pad_ok q e1"
    and pk: "half_fits q pk"
  shows "encrypt B perm q [e0, e1] pk m
    = Some \<lparr>ct_c0 = kem_enc q (bval pk) [qval e0, qval e1], ct_c1 = kem_mask m (kem_L perm q [qval e0, qval e1])\<rparr>"
proof -
  note pp = set_pad_val_half [OF q pk [unfolded half_fits_ok]]
  obtain c where c: "gf2x_mod_mul B q (pad_zero q) e1 (set_pad_val (pad_zero q) pk) = Some c" "pad_ok q c"
    "qval c = pmul (R_BITS q) (qval e1) (qval (set_pad_val (pad_zero q) pk))"
    using gf2x_mod_mul_correct [OF q B e(2) pp(1) pad_okD(1) [OF pad_zero_ok(1)]] by blast
  note a = gf2x_mod_add_correct [OF B c(2) e(1) pad_okD(1) [OF c(2)]]
  have x: "for_range 0 M_BYTES (\<lambda>i c1. c1[i := c1 ! i XOR m ! i]) (kem_L perm q [qval e0, qval e1])
      = kem_mask m (kem_L perm q [qval e0, qval e1])"
    using update_bytes [OF length_kem_L [OF p, of q "[qval e0, qval e1]"], of "\<lambda>i y. y XOR m ! i"] by (simp add: kem_mask_def xor.commute)
  show ?thesis
    using a pp(2) c(3) by (simp add: encrypt_def c(1) function_l_correct [OF p q e] x kem_enc_def pad_val_bytes [OF q])
qed

lemma reencrypt_correct:
  assumes p: "perm_ok perm" and q: "q \<in> set bike_levels" and B: "vl_pos B" and e: "pad_ok q e0" "pad_ok q e1"
    and m: "length m = M_BYTES"
  shows "reencrypt B perm q m [e0, e1] ct = Some (kem_mask (ct_c1 ct) (kem_L perm q [qval e0, qval e1]))"
proof (cases B)
  case Portable
  then show ?thesis
    using set_bytes [OF m, of "\<lambda>i. kem_L perm q [qval e0, qval e1] ! i XOR ct_c1 ct ! i"]
    by (simp add: reencrypt_def function_l_correct [OF p q e] kem_mask_def xor.commute)
next
  case (Sve2 vl)
  let ?l = "kem_L perm q [qval e0, qval e1]"
  have "for_step (8 * vl) M_BYTES (\<lambda>i m. svst1 (svwhilelt (8 * vl) i M_BYTES) m i
        (sveor (svld1 (svwhilelt (8 * vl) i M_BYTES) ?l i :: u8 list) (svld1 (svwhilelt (8 * vl) i M_BYTES) (ct_c1 ct) i))) m
      = map (\<lambda>i. ?l ! i XOR ct_c1 ct ! i) [0..<M_BYTES] @ drop M_BYTES m"
    by (rule for_step_store) (use B Sve2 m in \<open>auto simp: vl_pos_def\<close>)
  then show ?thesis
    using m Sve2 by (simp add: reencrypt_def function_l_correct [OF p q e] Let_def kem_mask_def xor.commute)
qed

lemma select_m_correct:
  assumes "length m = M_BYTES" and "length sigma = M_BYTES"
  shows "select_m (if b then 1 else 0) m sigma = (if b then m else sigma)"
proof -
  have "select_m c m sigma = map (\<lambda>i. (m ! i AND ucast (NOT (secure_l32_mask 0 c))) OR (ucast (secure_l32_mask 0 c) AND sigma ! i)) [0..<M_BYTES]" for c
  proof -
    have "select_m c m sigma = for_range 0 M_BYTES (\<lambda>i m. m[i := (m ! i AND ucast (NOT (secure_l32_mask 0 c))) OR (ucast (secure_l32_mask 0 c) AND sigma ! i)]) m"
      unfolding select_m_def Let_def
      by (rule for_range_rel [where R = "\<lambda>_ x y. x = y \<and> length x = M_BYTES", THEN conjunct1]) (use assms in auto)
    then show ?thesis using update_bytes [OF assms(1), of "\<lambda>i y. (y AND ucast (NOT (secure_l32_mask 0 c))) OR (ucast (secure_l32_mask 0 c) AND sigma ! i)"] by simp
  qed
  moreover have "ucast (- 1 :: u32) = (- 1 :: u8)" by (rule bit_word_eqI) (simp add: bit_simps)
  ultimately show ?thesis using assms map_nth [of m] map_nth [of sigma] by (simp add: secure_l32_mask_eq)
qed

subsection \<open>Encapsulation and decapsulation\<close>

definition junk_ok :: "bike_params \<Rightarrow> bike_junk \<Rightarrow> bool" where
  "junk_ok q J \<longleftrightarrow> length (jn_pad J) = R_PADDED_QWORDS q \<and> (\<exists>z0 z1. jn_e J = [z0, z1] \<and> length z0 = R_PADDED_QWORDS q
     \<and> length z1 = R_PADDED_QWORDS q) \<and> length (jn_wlist J) = par_T_bike q \<and> length (jn_m J) = M_BYTES"

definition sk_wf :: "bike_params \<Rightarrow> bike_sk_t \<Rightarrow> bool" where
  "sk_wf q sk \<longleftrightarrow> wlist_ok q (sk_wlist sk) \<and> length (sk_bin sk) = 2 \<and> (\<forall>b\<in>set (sk_bin sk). half_fits q b)
     \<and> half_fits q (sk_pk sk) \<and> length (sk_sigma sk) = M_BYTES"

lemma sk_wfD:
  assumes "sk_wf q sk"
  shows "wlist_ok q (sk_wlist sk)" and "half_fits q (sk_bin sk ! 0)" and "half_fits q (sk_pk sk)" and "length (sk_sigma sk) = M_BYTES"
  using assms by (auto simp: sk_wf_def)

lemma seed_of_m: "length m = M_BYTES \<Longrightarrow> convert_m_to_seed_type m = m"
  by (simp add: convert_m_to_seed_type_def SEED_BYTES_def M_BYTES_def)

lemma function_h_correct:
  assumes p: "perm_ok perm" and q: "q \<in> set bike_levels" and J: "junk_ok q J" and m: "length m = M_BYTES"
  obtains e0 e1 where "function_h perm q J m = Inr [e0, e1]" and "pad_ok q e0" and "pad_ok q e1"
    and "[qval e0, qval e1] = err_poly perm q m"
proof -
  obtain z0 z1 where z: "jn_e J = [z0, z1]" "length z0 = R_PADDED_QWORDS q" "length z1 = R_PADDED_QWORDS q"
    using J by (auto simp: junk_ok_def)
  have w: "length (jn_wlist J) = par_T_bike q" using J by (simp add: junk_ok_def)
  obtain e0 e1 where e: "generate_error_vector perm q (jn_wlist J) [z0, z1] m = Inr [e0, e1]" "pad_ok q e0" "pad_ok q e1"
    "[qval e0, qval e1] = err_poly perm q m"
    by (rule generate_error_vector_correct [OF p q z(2,3) w])
  have "function_h perm q J m = Inr [e0, e1]" by (simp add: function_h_def seed_of_m [OF m] z(1) e(1))
  then show ?thesis using e(2-4) by (rule that)
qed

abbreviation bike_encaps_spec where
  "bike_encaps_spec perm q pk \<equiv> fo_encaps (err_poly perm q) (kem_L perm q) kem_mask (kem_K perm) (kem_enc q pk)"

abbreviation bike_decaps_spec where
  "bike_decaps_spec perm q sk \<equiv> fo_decaps (err_poly perm q) (kem_L perm q) kem_mask (kem_K perm) (kem_dec q sk) (sk_sigma sk)"

lemma seeds:
  assumes "length random = 64"
  shows "get_seeds random ! 0 = take 32 random" and "get_seeds random ! 1 = drop 32 random"
  using assms by (simp_all add: get_seeds_def NUM_OF_SEEDS_def SEED_BYTES_def seg_def)

lemma encaps_correct:
  assumes p: "perm_ok perm" and q: "q \<in> set bike_levels" and B: "build_ok B" and J: "junk_ok q J"
    and r: "length random = 64" and pk: "half_fits q pk"
  shows "encaps B perm q J random pk
    = Some (Inr (map_prod (\<lambda>ct. fst ct @ snd ct) id (bike_encaps_spec perm q (bval pk) (take 32 random))))"
proof -
  let ?m = "take 32 random"
  have m: "convert_seed_to_m_type (get_seeds random ! 0) = ?m" "length ?m = M_BYTES"
    using r by (simp_all add: seeds [OF r] convert_seed_to_m_type_def M_BYTES_def)
  have pk1: "take (R_BYTES q) pk = pk" using pk by (simp add: half_fits_def)
  obtain e0 e1 where e: "function_h perm q J ?m = Inr [e0, e1]" "pad_ok q e0" "pad_ok q e1" "[qval e0, qval e1] = err_poly perm q ?m"
    by (rule function_h_correct [OF p q J m(2)])
  note c = encrypt_correct [OF p q B e(2,3) pk, of ?m, unfolded e(4)]
  show ?thesis
    unfolding encaps_def Let_def pk1 m(1) e(1) sum.case c
    by (simp add: function_k_correct [OF p] fo_encaps_def Let_def ct_bytes_def)
qed

lemma pad_val_set: "q \<in> set bike_levels \<Longrightarrow> half_fits q b \<Longrightarrow> pad_val q (set_pad_val (pad_zero q) b) = b"
  using set_pad_val_half [of q b "bval b"] half_ok_bytes [of q b "bval b"] by (simp add: half_fits_ok pad_val_bytes)

lemma secure_cmp_list: "length a = n \<Longrightarrow> length b = n \<Longrightarrow> secure_cmp a b n = (if a = b then 1 else 0)"
  by (simp add: secure_cmp_eq list_eq_iff_nth_eq)

lemma secure_cmp_half:
  assumes q: "q \<in> set bike_levels" and a: "pad_ok q a" and b: "pad_ok q b"
  shows "secure_cmp (pad_val q a) (pad_val q b) (R_BYTES q) = (if qval a = qval b then 1 else 0)"
  using poly_bytes_eq [OF q pad_okD(2) [OF a] pad_okD(2) [OF b]]
  by (simp add: secure_cmp_list pad_val_bytes [OF q a] pad_val_bytes [OF q b])

lemma decaps_correct:
  assumes p: "perm_ok perm" and q: "q \<in> set bike_levels" and B: "build_ok B" and J: "junk_ok q J"
    and sk: "sk_wf q (bike_sk_of_bytes q sk)" and c0: "half_fits q (ct_c0 (ct_of_bytes q ct))"
  shows "decaps B perm q J ct sk
    = Some (Inr (bike_decaps_spec perm q (bike_sk_of_bytes q sk) (ct_c0 (ct_of_bytes q ct), ct_c1 (ct_of_bytes q ct))))"
proof -
  let ?sk = "bike_sk_of_bytes q sk" and ?ct = "ct_of_bytes q ct" and ?p = "set_pad_val (pad_zero q)"
  have j: "length (jn_pad J) = R_PADDED_QWORDS q" "length (jn_m J) = M_BYTES" using J by (simp_all add: junk_ok_def)
  obtain e where e: "decode B q (jn_pad J) ?ct ?sk = Some e" "length e = 2" "list_all (half_fits q) e"
    "map bval e = kem_dec q ?sk (ct_c0 ?ct)"
    unfolding kem_dec_def by (rule decode_correct [OF B q j(1) c0 sk_wfD(2,3,1) [OF sk]])
  obtain b0 b1 where b: "e = [b0, b1]" using e(2) by (auto simp: two_eq)
  have f: "half_fits q b0" "half_fits q b1" using e(3) by (simp_all add: b)
  note p0 = set_pad_val_half [OF q f(1) [unfolded half_fits_ok]] and p1 = set_pad_val_half [OF q f(2) [unfolded half_fits_ok]]
  have d: "[bval b0, bval b1] = kem_dec q ?sk (ct_c0 ?ct)" using e(4) by (simp add: b)
  define m where "m = kem_mask (ct_c1 ?ct) (kem_L perm q [bval b0, bval b1])"
  have re: "reencrypt B perm q (jn_m J) [?p b0, ?p b1] ?ct = Some m"
    using reencrypt_correct [OF p q vl_pos_build [OF B] p0(1) p1(1) j(2)] by (simp add: p0(2) p1(2) m_def)
  have lm: "length m = M_BYTES" by (simp add: m_def)
  obtain t0 t1 where t: "function_h perm q J m = Inr [t0, t1]" "pad_ok q t0" "pad_ok q t1" "[qval t0, qval t1] = err_poly perm q m"
    by (rule function_h_correct [OF p q J lm])
  have "secure_cmp (pad_val q (?p b0)) (pad_val q t0) (R_BYTES q) AND secure_cmp (pad_val q (?p b1)) (pad_val q t1) (R_BYTES q)
      = (if [qval t0, qval t1] = [bval b0, bval b1] then 1 else 0)"
    by (auto simp: secure_cmp_half [OF q p0(1) t(2)] secure_cmp_half [OF q p1(1) t(3)] p0(2) p1(2))
  note cond = this [unfolded t(4)]
  have "decaps B perm q J ct sk = Some (Inr (kem_K perm (if err_poly perm q m = [bval b0, bval b1] then m else sk_sigma ?sk) (ct_c0 ?ct, ct_c1 ?ct)))"
    unfolding decaps_def Let_def e(1) bind.bind_lunit b nth_Cons_0 re
    by (simp add: re t(1) cond select_m_correct [OF lm sk_wfD(4) [OF sk]] function_k_correct [OF p])
  then show ?thesis by (simp add: fo_decaps_def Let_def m_def d)
qed

end
