(* ===== verification/Bike_Kem_Round.thy ===== *)
theory Bike_Kem_Round
  imports Bike_Kem_Correct
begin

text \<open>
  Key generation of BIKE, the layout of its keys, and the run of the three operations one after the other.
\<close>

subsection \<open>The layout of a secret key\<close>

lemma idx_round [simp]: "idx_of_bytes (idx_bytes w) = w"
proof -
  let ?l = "bytes_of_lane (ucast w)"
  have "unat w < 2 ^ 32" using unat_32_lt [of w] by simp
  then have "bval (take 4 ?l @ replicate 4 0) = unat w"
    by (simp add: bval_append bval_take bval_bytes_of_lane take_bit_nat_eq_self_iff)
  then have "take 4 ?l @ replicate 4 0 = ?l" by (intro bval_eqI) (simp_all add: bval_bytes_of_lane)
  moreover have "ucast (ucast w :: u64) = w" by (rule bit_word_eqI) (simp add: bit_simps)
  ultimately show ?thesis by (simp add: idx_of_bytes_def idx_bytes_def lane_of_bytes_of_lane)
qed

lemma length_idx_bytes [simp]: "length (idx_bytes w) = 4"
  by (simp add: idx_bytes_def)

lemma length_concat_idx [simp]: "length (concat (map idx_bytes ws)) = 4 * length ws"
  by (induction ws) simp_all

lemma seg_concat_idx: "j < length ws \<Longrightarrow> seg (concat (map idx_bytes ws) @ ys) (4 * j) 4 = idx_bytes (ws ! j)"
proof (induction ws arbitrary: j)
  case (Cons w ws)
  then show ?case by (cases j) (simp_all add: seg_def)
qed simp

lemma seg_mid: "length xs = off \<Longrightarrow> length m = n \<Longrightarrow> seg (xs @ m @ ys) off n = m"
  by (simp add: seg_def)

lemma sk_bytes_split:
  assumes "sk_wf q sk"
  obtains w0 w1 b0 b1 where "sk_wlist sk = [w0, w1]" and "length w0 = par_D q" and "length w1 = par_D q" and "sk_bin sk = [b0, b1]"
    and "length b0 = R_BYTES q" and "length b1 = R_BYTES q"
    and "sk_bytes sk = concat (map idx_bytes (w0 @ w1)) @ b0 @ b1 @ sk_pk sk @ sk_sigma sk"
proof -
  obtain w0 w1 where w: "sk_wlist sk = [w0, w1]" "length w0 = par_D q" "length w1 = par_D q"
    using sk_wfD(1) [OF assms] by (auto simp: wlist_ok_def two_eq)
  obtain b0 b1 where b: "sk_bin sk = [b0, b1]" "length b0 = R_BYTES q" "length b1 = R_BYTES q"
    using assms by (auto simp: sk_wf_def two_eq half_fits_def)
  from w b show ?thesis by (intro that) (simp_all add: sk_bytes_def)
qed

lemma sk_round:
  assumes wf: "sk_wf q sk"
  shows "bike_sk_of_bytes q (sk_bytes sk) = sk" and "length (sk_bytes sk) = 8 * par_D q + 3 * R_BYTES q + M_BYTES"
proof -
  let ?d = "par_D q" and ?n = "R_BYTES q"
  obtain w0 w1 b0 b1 where s: "sk_wlist sk = [w0, w1]" "length w0 = ?d" "length w1 = ?d" "sk_bin sk = [b0, b1]"
    "length b0 = ?n" "length b1 = ?n" "sk_bytes sk = concat (map idx_bytes (w0 @ w1)) @ b0 @ b1 @ sk_pk sk @ sk_sigma sk"
    by (rule sk_bytes_split [OF wf])
  have l: "length (sk_pk sk) = ?n" "length (sk_sigma sk) = M_BYTES" using wf by (simp_all add: sk_wf_def half_fits_def)
  show "length (sk_bytes sk) = 8 * ?d + 3 * ?n + M_BYTES" using s l by simp
  have w: "idx_of_bytes (seg (sk_bytes sk) (4 * (?d * i + j)) 4) = (w0 @ w1) ! (?d * i + j)" if "i < 2" "j < ?d" for i j
  proof -
    have "?d * i + j < length (w0 @ w1)" using that s(2,3) by (auto simp: less_2_cases_iff)
    from seg_concat_idx [OF this] show ?thesis unfolding s(7) by simp
  qed
  have w01: "map (\<lambda>j. idx_of_bytes (seg (sk_bytes sk) (4 * (?d * i + j)) 4)) [0..<?d] = [w0, w1] ! i" if "i < 2" for i
  proof (rule nth_equalityI)
    show "length (map (\<lambda>j. idx_of_bytes (seg (sk_bytes sk) (4 * (?d * i + j)) 4)) [0..<?d]) = length ([w0, w1] ! i)"
      using that s by (auto simp: less_2_cases_iff)
    fix j assume "j < length (map (\<lambda>j. idx_of_bytes (seg (sk_bytes sk) (4 * (?d * i + j)) 4)) [0..<?d])"
    then have j: "j < ?d" by simp
    have "(w0 @ w1) ! (?d * i + j) = [w0, w1] ! i ! j" using that j s by (auto simp: less_2_cases_iff nth_append)
    then show "map (\<lambda>j. idx_of_bytes (seg (sk_bytes sk) (4 * (?d * i + j)) 4)) [0..<?d] ! j = [w0, w1] ! i ! j"
      using w [OF that j] j by simp
  qed
  have u2: "[0..<2] = [0, Suc 0]" by (simp add: numeral_2_eq_2)
  have wl: "map (\<lambda>i. map (\<lambda>j. idx_of_bytes (seg (sk_bytes sk) (4 * (?d * i + j)) 4)) [0..<?d]) [0..<2] = [w0, w1]"
    using w01 [of 0] w01 [of 1] by (simp add: u2)
  let ?w = "concat (map idx_bytes (w0 @ w1))"
  have lw: "length ?w = 8 * ?d" using s by (simp del: map_append)
  have bin: "seg (sk_bytes sk) (8 * ?d) ?n = b0" "seg (sk_bytes sk) (8 * ?d + ?n) ?n = b1"
    "seg (sk_bytes sk) (8 * ?d + 2 * ?n) ?n = sk_pk sk" "seg (sk_bytes sk) (8 * ?d + 3 * ?n) M_BYTES = sk_sigma sk"
    using seg_mid [of ?w "8 * ?d" b0 ?n "b1 @ sk_pk sk @ sk_sigma sk"] seg_mid [of "?w @ b0" "8 * ?d + ?n" b1 ?n "sk_pk sk @ sk_sigma sk"]
      seg_mid [of "?w @ b0 @ b1" "8 * ?d + 2 * ?n" "sk_pk sk" ?n "sk_sigma sk"]
      seg_mid [of "?w @ b0 @ b1 @ sk_pk sk" "8 * ?d + 3 * ?n" "sk_sigma sk" M_BYTES "[]"] lw s(5,6) l
    unfolding s(7) by (simp_all only: append_assoc length_append append_Nil2)
  show "bike_sk_of_bytes q (sk_bytes sk) = sk"
    unfolding bike_sk_of_bytes_def Let_def wl using s(1,4) bin by (cases sk) (simp add: u2)
qed

lemma ct_round:
  assumes "length c0 = R_BYTES q" and "length c1 = M_BYTES"
  shows "ct_of_bytes q (c0 @ c1) = \<lparr>ct_c0 = c0, ct_c1 = c1\<rparr>"
  using assms by (simp add: ct_of_bytes_def seg_def)

subsection \<open>Key generation\<close>

text \<open>The key of the two indices lists and \<open>sigma\<close>; the public key is \<open>h1 / h0\<close>, with the inverse as the power \<open>2 ^ (r - 1) - 2\<close>.\<close>

definition honest_sk :: "(bytes \<Rightarrow> bytes) \<Rightarrow> bike_params \<Rightarrow> bytes \<Rightarrow> u32 list list \<Rightarrow> bike_sk_t \<Rightarrow> bool" where
  "honest_sk perm q random ws sk \<longleftrightarrow>
     (let r = R_BITS q; seed = take 32 random;
          p0 = shake_indices perm seed 0 (par_D q) r; p1 = shake_indices perm seed (par_D q) (par_D q) r;
          h0 = set_poly r p0; h1 = set_poly r p1
      in map (map unat) ws = [p0, p1] \<and> sk = \<lparr>sk_wlist = ws, sk_bin = [poly_bytes q h0, poly_bytes q h1],
           sk_pk = poly_bytes q (pmul r h1 (ppow r h0 (2 ^ (r - 1) - 2))), sk_sigma = drop 32 random\<rparr>)"

lemma keypair_correct:
  assumes p: "perm_ok perm" and q: "q \<in> set bike_levels" and B: "build_ok B" and r: "length random = 64"
  obtains ws sk where "keypair B perm q random = Some (Inr (sk_pk sk, sk_bytes sk))" and "honest_sk perm q random ws sk" and "sk_wf q sk"
proof -
  let ?s = "take 32 random" and ?r = "R_BITS q"
  have lz: "length (pad_zero q) = R_PADDED_QWORDS q" by (simp add: pad_zero_def)
  obtain h0 h1 w0 w1 where g: "generate_secret_key perm q (pad_zero q) (pad_zero q) ?s = Inr (h0, h1, w0, w1)"
    "pad_ok q h0" "pad_ok q h1" "wlist_ok q [w0, w1]" "map unat w0 = shake_indices perm ?s 0 (par_D q) ?r"
    "map unat w1 = shake_indices perm ?s (par_D q) (par_D q) ?r"
    "qval h0 = set_poly ?r (map unat w0)" "qval h1 = set_poly ?r (map unat w1)"
    by (rule generate_secret_key_correct [OF p q lz lz])
  obtain i where i: "gf2x_mod_inv B q (pad_zero q) h0 = Some i" "pad_ok q i" "qval i = ppow ?r (qval h0) (2 ^ (?r - 1) - 2)"
    by (rule gf2x_mod_inv_power [OF q B g(2) pad_zero_ok(1)])
  obtain h where h: "gf2x_mod_mul B q (pad_zero q) h1 i = Some h" "pad_ok q h" "qval h = pmul ?r (qval h1) (qval i)"
    using gf2x_mod_mul_correct [OF q B g(3) i(2) lz] by blast
  let ?sk = "\<lparr>sk_wlist = [w0, w1], sk_bin = [pad_val q h0, pad_val q h1], sk_pk = pad_val q h, sk_sigma = drop 32 random\<rparr>"
  have sig: "convert_seed_to_m_type (drop 32 random) = drop 32 random" using r by (simp add: convert_seed_to_m_type_def M_BYTES_def)
  have k: "keypair B perm q random = Some (Inr (sk_pk ?sk, sk_bytes ?sk))"
    unfolding keypair_def Let_def seeds [OF r] g(1) sum.case prod.case i(1) bind.bind_lunit h(1) sig ..
  have "honest_sk perm q random [w0, w1] ?sk"
    using g(5-8) i(3) h(3) by (simp add: honest_sk_def Let_def pad_val_bytes [OF q] g(2,3) h(2))
  moreover have "half_fits q (pad_val q a)" if "pad_ok q a" for a
    using pad_val_half [OF q that] by (auto simp: half_fits_def half_ok_def)
  then have "sk_wf q ?sk" using g(2,3,4) h(2) r by (simp add: sk_wf_def M_BYTES_def)
  ultimately show ?thesis using k by (intro that)
qed

subsection \<open>The honest syndrome\<close>

lemma honest_syndrome:
  assumes "h0 < 2 ^ r" and "e0 < 2 ^ r" and "e1 < 2 ^ r" and "h1 < 2 ^ r" and "pmul r h0 i = 1"
  shows "pmul r (pmul r e1 (pmul r h1 i) XOR e0) h0 = pmul r e0 h0 XOR pmul r e1 h1"
proof -
  have "pmul r (pmul r h1 i) h0 = pmul r h1 (pmul r h0 i)" by (simp only: pmul_ac)
  then have "pmul r (pmul r h1 i) h0 = h1" using assms(4,5) by (simp del: One_nat_def)
  then show ?thesis by (simp add: pmul_xor_left pmul_assoc xor.commute)
qed

lemma honest_error_syndrome:
  assumes "e0 < 2 ^ R_BITS q" and "e1 < 2 ^ R_BITS q"
  shows "bgf_syndrome q (pmul (R_BITS q) e1 pk XOR e0) h0 pk [e0, e1] = 0"
proof -
  have "a XOR ((a XOR b) XOR b) = 0" for a b :: nat by (rule bit_eqI) (auto simp: bit_xor_iff)
  then show ?thesis by (simp only: bgf_syndrome_def) simp
qed

subsection \<open>The three operations, one after the other\<close>

lemma kem_run:
  assumes p: "perm_ok perm" and q: "q \<in> set bike_levels" and B: "build_ok B" "build_ok B'" "build_ok B''"
    and J: "junk_ok q J" "junk_ok q J'" and r: "length random = 64" "length random' = 64"
  obtains ws sk ct ss ss' where "keypair B perm q random = Some (Inr (sk_pk sk, sk_bytes sk))" and "honest_sk perm q random ws sk" and "sk_wf q sk"
    and "encaps B' perm q J random' (sk_pk sk) = Some (Inr (ct, ss))" and "decaps B'' perm q J' ct (sk_bytes sk) = Some (Inr ss')"
    and "length ct = R_BYTES q + M_BYTES" and "length ss = SS_BYTES" and "length ss' = SS_BYTES"
    and "kem_dec q sk (take (R_BYTES q) ct) = err_poly perm q (take 32 random') \<longrightarrow> ss' = ss"
proof -
  obtain ws sk where k: "keypair B perm q random = Some (Inr (sk_pk sk, sk_bytes sk))" "honest_sk perm q random ws sk" "sk_wf q sk"
    by (rule keypair_correct [OF p q B(1) r(1)])
  let ?m = "take 32 random'" and ?pk = "bval (sk_pk sk)"
  let ?e = "err_poly perm q ?m"
  let ?c0 = "kem_enc q ?pk ?e" and ?c1 = "kem_mask ?m (kem_L perm q (err_poly perm q ?m))"
  have lm: "length ?m = M_BYTES" using r(2) by (simp add: M_BYTES_def)
  have e: "?e ! 0 < 2 ^ R_BITS q" by (simp add: err_poly_def poly_of_lt)
  have "pmul (R_BITS q) (?e ! 1) ?pk XOR ?e ! 0 < 2 ^ R_BITS q" by (rule xor_lt) (simp_all add: e)
  then have c0: "half_fits q ?c0" "length ?c0 = R_BYTES q"
    using poly_bytes_half_ok [OF q] by (auto simp: kem_enc_def half_fits_def half_ok_def)
  note en = encaps_correct [OF p q B(2) J(1) r(2) sk_wfD(3) [OF k(3)]]
  have en': "encaps B' perm q J random' (sk_pk sk) = Some (Inr (?c0 @ ?c1, kem_K perm ?m (?c0, ?c1)))"
    unfolding en by (simp add: fo_encaps_def Let_def)
  have ct: "ct_of_bytes q (?c0 @ ?c1) = \<lparr>ct_c0 = ?c0, ct_c1 = ?c1\<rparr>" by (rule ct_round) (simp_all add: c0)
  have de: "decaps B'' perm q J' (?c0 @ ?c1) (sk_bytes sk) = Some (Inr (bike_decaps_spec perm q sk (?c0, ?c1)))"
    using decaps_correct [OF p q B(3) J(2), of "sk_bytes sk" "?c0 @ ?c1"] k(3) c0 by (simp add: sk_round(1) [OF k(3)] ct)
  have "bike_decaps_spec perm q sk (?c0, ?c1) = kem_K perm ?m (?c0, ?c1)" if "kem_dec q sk ?c0 = ?e"
    using bike_fo.decaps_encaps [OF lm, where dec = "kem_dec q sk" and enc = "kem_enc q ?pk" and K = "kem_K perm" and perm = perm and q = q
        and sigma = "sk_sigma sk"] that by (simp add: fo_encaps_def Let_def)
  then show ?thesis
    using p c0 by (intro that [OF k en' de]) (simp_all add: fo_decaps_def Let_def)
qed

lemma bike_length_sums:
  assumes "q \<in> set bike_levels"
  shows "8 * par_D q + 3 * R_BYTES q + M_BYTES = (if q = bike_l1 then 5223 else if q = bike_l3 then 10105 else 16494)"
    and "R_BYTES q = (if q = bike_l1 then 1541 else if q = bike_l3 then 3083 else 5122)"
  using assms by (elim bike_level_cases; simp add: bike_sizes M_BYTES_def)+

end
