(* ===== verification/Spec2Isabelle.thy ===== *)
theory Spec2Isabelle
  imports Cross_Reject Sha3_Api Cross_Sve_Correct Bike_Kem_Round
begin

text \<open>
  A verification of the code that this repository changes in liboqs: the CROSS signatures, the key encapsulation BIKE and
  the Keccak code under \<open>src/source_lib/liboqs_source/src\<close>, with the SVE2 branches written for this repository.  Paths below
  are relative to that directory; \<open>cross/\<close> stands for \<open>sig/cross/upcross_cross-rsdpg-128-balanced_clean/\<close> and \<open>bike/\<close> for
  \<open>kem/bike/additional_r4/\<close>.

  The program.  CROSS is a signature scheme over the restricted syndrome decoding problem.  \<open>sign.c\<close> is the byte
  interface; it calls \<open>CROSS.c\<close> (key generation, signing, verification), which calls the exponent and field
  arithmetic (\<open>restr_arith.h\<close>, \<open>fp_arith.h\<close>), the packing of vectors (\<open>pack_unpack.c\<close>), the seed tree (\<open>seedtree.c\<close>),
  the Merkle tree (\<open>merkle.c\<close>) and the expander, hash and samplers (\<open>csprng_hash.h\<close>, \<open>csprng_hash.c\<close>).  The last ones
  call SHAKE through \<open>sha3.h\<close>, which ends in the incremental sponge of \<open>common/sha3/xkcp_sha3.c\<close>.  With
  \<open>OQS_ENABLE_SVE2\<close> the matrix products use vectors, and the trees, the signer and the verifier hash two inputs at
  a time with a sponge that interleaves two states.

  BIKE is a key encapsulation over the ring of binary polynomials modulo \<open>x^r - 1\<close>.  \<open>kem.c\<close> holds its three operations.
  They sample sparse polynomials (\<open>sampling.c\<close>, \<open>sampling_portable.c\<close>) from a SHAKE256 stream (\<open>shake_prf.c\<close>), multiply
  and invert (\<open>gf2x_mul.c\<close>, \<open>gf2x_mul_base_portable.c\<close>, \<open>gf2x_mul_portable.c\<close>, \<open>gf2x_inv.c\<close>, \<open>gf2x_ksqr_portable.c\<close>) and
  decode (\<open>decode.c\<close>, \<open>decode_portable.c\<close>); \<open>cleanup.h\<close>, \<open>utilities.h\<close> and \<open>utilities.c\<close> hold the helpers that run in
  constant time.  With \<open>OQS_ENABLE_SVE2\<close> the base multiplication, the square, the sum, the rotation of the decoder and
  the unmasking of the message (\<open>reencrypt\<close>) use vectors.

  Theories and sources.
  \<^item> \<open>Prelude\<close>, \<open>Words\<close>: loops over a range, memory copies, blocks of bytes, facts on machine words.
  \<^item> \<open>Keccak_Inc\<close>, \<open>Keccak_Stream\<close>, \<open>Sha3_Api\<close>: \<open>xkcp_sha3.c\<close>.  The state \<open>uint64_t[26]\<close> is the record \<open>keccak_ctx\<close> of 200
    bytes and a counter.  The lemmas: absorbing and squeezing compose, and equal the sponge of FIPS 202.
  \<^item> \<open>Cross_Params\<close>, \<open>Cross_Sets\<close>: \<open>parameters.h\<close>.  The macros are the fields of the record \<open>cross_params\<close>; the three
    balanced sets are values of it, and the shape of their truncated trees is computed.
  \<^item> \<open>Cross_Fz\<close>, \<open>Cross_Fp\<close>: the portable arithmetic.  Vectors are lists of 8- or 16-bit words, matrices are stored by
    rows.  The lemmas relate each operation to arithmetic modulo 127 and 509, with all wrap-around in the words.
  \<^item> \<open>Cross_Pack\<close>: the 7- and 9-bit codes, an interface (locale) for a dense code with its two interpretations, round
    trips in both directions and the padding test.
  \<^item> \<open>Cross_Csprng\<close>: expander, hash, rejection samplers, the fixed-weight challenge.
  \<^item> \<open>Cross_Tree\<close>, \<open>Cross_Merkle\<close>, \<open>Cross_Seedtree\<close>: the index arithmetic of the truncated trees as loops over a body;
    then the trees themselves.  The locale \<open>cross_tree\<close> holds what the proofs use of a parameter set and is interpreted on
    the three sets.
  \<^item> \<open>Cross_Scheme\<close>, \<open>Cross_Correct\<close>: the portable branch of \<open>CROSS.c\<close> and its completeness, in the locale
    \<open>cross_scheme\<close>, again interpreted on the three sets.
  \<^item> \<open>Cross_Api\<close>, \<open>Cross_Reject\<close>: \<open>sign.c\<close> with the layout of the structures as bytes, and what acceptance implies.
  \<^item> \<open>Sve\<close>: the intrinsics that the code uses, lane by lane, for every vector length.
  \<^item> \<open>Cross_Sve_Arith\<close>, \<open>Keccak_X2\<close>, \<open>Keccak_X2_Correct\<close>, \<open>Keccak_X2_Sim\<close>, \<open>Cross_Csprng_X2\<close>, \<open>Cross_Sve_Walk\<close>,
    \<open>Cross_Sve_Tree\<close>, \<open>Cross_Sve_Scheme\<close>, \<open>Cross_Sve_Correct\<close>: the SVE2 branches, bottom up, each with the proof that it
    computes what the portable branch computes.
  \<^item> \<open>Bike_Poly\<close>, \<open>Bike_Ring\<close>: binary polynomials as natural numbers, the carry-less product and the ring modulo \<open>x^r - 1\<close>
    with its powers and inverses: the reference for the arithmetic.
  \<^item> \<open>Bike_Defs\<close>, \<open>Bike_Gf2x\<close>, \<open>Bike_Gf2x_Correct\<close>: the three levels of \<open>bike_defs.h\<close> as values of the record \<open>bike_params\<close>,
    the helpers that run in constant time, the base multiplication and Karatsuba's recursion.
  \<^item> \<open>Bike_Mod\<close>, \<open>Bike_Inv\<close>: reduction, square, product and inversion modulo \<open>x^r - 1\<close>.  A \<open>pad_r_t\<close> is the list of its words;
    the invariant \<open>pad_ok\<close> says that the padding is zero.  Each operation keeps it and is the operation of the ring.
  \<^item> \<open>Bike_Decode\<close>, \<open>Bike_Rotate\<close>, \<open>Bike_Upc\<close>, \<open>Bike_Threshold\<close>: the Black-Gray-Flip decoder as it is written, with the proofs
    of the rotation, the bit-sliced counters, the weight and the threshold.
  \<^item> \<open>Bike_Bgf\<close>, \<open>Bike_Refine\<close>: the decoder on polynomials, and the refinement of it by \<open>decode.c\<close>.
  \<^item> \<open>Bike_Sampling\<close>, \<open>Bike_Sampling_Correct\<close>: the pseudorandom function and the sampling of indices, keys and errors; the
    draws read the SHAKE256 stream without gaps and the indices are distinct and in range.
  \<^item> \<open>Bike_Kem\<close>, \<open>Bike_Kem_Correct\<close>, \<open>Bike_Kem_Round\<close>: \<open>kem.c\<close> over byte buffers with the layout of its packed structures.
    The locale \<open>fo_kem\<close> is the transform that makes a key encapsulation out of an encryption, with its laws; it is
    interpreted on BIKE.  The lemmas: each operation computes the transform (\<open>build_ok\<close>, see below), and the run of the three
    ends in equal secrets whenever the decoder finds the error.

  Parameters of the model.  The Keccak permutation is the function \<open>keccak_perm\<close> of a parameter set; the proofs use that it
  maps 200 bytes to 200 bytes (\<open>perm_ok\<close>).  The assembly routine \<open>_f1600x2\<close> is \<open>f1600x2\<close> of the record \<open>sve_unit\<close>; the
  proofs use that it permutes both interleaved states (\<open>permx2_ok\<close>).  Randomness is an argument, and so is the
  content of memory that the code leaves uninitialised (the record \<open>bike_junk\<close> of BIKE): the theorems
  hold for each content.

  Results.  An operation of BIKE is \<open>None\<close> where the recursion of its multiplication does not end, \<open>Inl\<close> of an error where
  the function returns \<open>FAIL\<close>, and \<open>READ_PAST_BUFFER\<close> marks a read outside of an object.  The vector multiplication is right
  only for vectors of 128 bits, which \<open>build_ok\<close> says; the rotation is right for every length.  Decapsulation does not
  mask the first part of a ciphertext, so the theorems on it ask for \<open>half_fits\<close>: no bit above \<open>R_BITS\<close>.

  Loops.  All loops are total functions: \<open>for_range\<close> and \<open>for_step\<close> follow a counter.  The rejection samplers read a
  buffer of fixed size; when it is used up, zeros are shifted in, and 0 is accepted, which is the measure of
  their termination proof.  Karatsuba's recursion of BIKE may not end and is a partial function into options; that every
  product of the three levels returns is proved, and so is one length where the SVE2 build does not.  No definition
  takes fuel.

  Bounds.  The sums of the SVE2 field products need at most 4000 rows, those of the exponents at most one row past a
  multiple of four; both are proved of the three sets.  The two-way sponge has a fast path for whole rates that does not
  interleave the two inputs; no call of CROSS takes it, and the theorems carry the length that excludes it.

  Not modelled.  The Keccak permutation and its assembly (a parameter); the allocation of contexts beyond success or
  failure (of the contexts of BIKE not at all, as a failure ends the process); the cleansing of memory, which has no effect on
  a result; timing; the printing of \<open>VERBOSE\<close> builds.  The x86 variants of BIKE (\<open>avx2\<close>, \<open>avx512\<close>, \<open>pclmul\<close>), which the
  aarch64 build does not compile.  That a sampled \<open>h0\<close> has an inverse, and how often the decoder fails, are no facts of
  the code: they are hypotheses or conditions of the theorems.  The other variants of CROSS, the other algorithms of
  liboqs, its provider for OpenSSL and OpenSSL itself are third-party code that the repository carries.
\<close>
section \<open>The signature scheme\<close>

text \<open>
  C1. Completeness: for the three parameter sets, every seed, message, randomness and content of
  uninitialised memory, CROSS_verify accepts what CROSS_sign makes with the secret key of
  the pair that CROSS_keygen returned.
\<close>

theorem CROSS_sign_verify:
  assumes "p \<in> balanced_params perm" and "perm_ok perm"
    and "length root_seed = SEED_LENGTH_BYTES p"
    and "length merkle_memory = NUM_NODES p * HASH_DIGEST_LENGTH p"
    and "length proof_memory = NUM_NODES p * HASH_DIGEST_LENGTH p"
  shows "CROSS_verify p (snd (CROSS_keygen p seed_sk)) m
    (CROSS_sign p (fst (CROSS_keygen p seed_sk)) m root_seed salt merkle_memory) proof_memory"
proof -
  obtain lam where s: "cross_scheme p lam" "perm_ok (keccak_perm p)" using balanced_scheme assms(1,2) by blast
  then show ?thesis using assms(3-5) by (auto intro!: cross_scheme.sign_verify)
qed

theorem CROSS_sign_verify_witness:
  "CROSS_verify (rsdpg_128_balanced rotate1) (snd (CROSS_keygen (rsdpg_128_balanced rotate1) (replicate 32 7)))
    [1, 2, 3] (CROSS_sign (rsdpg_128_balanced rotate1)
      (fst (CROSS_keygen (rsdpg_128_balanced rotate1) (replicate 32 7))) [1, 2, 3]
      (replicate 16 9) (replicate 32 5) (replicate 16352 0)) (replicate 16352 1)"
  by (rule CROSS_sign_verify [OF balanced_128 perm_ok_rotate1]) (simp_all add: sizes_128)

text \<open>
  C2. The byte interface: crypto_sign_open returns the message that was signed, its length and 0
  on the output of crypto_sign, and crypto_sign_verify returns 0 on the output of
  crypto_sign_signature, whatever length it is told, with the keys that crypto_sign_keypair wrote.
\<close>

theorem crypto_sign_open_sign:
  assumes "p \<in> balanced_params perm" and "perm_ok perm" and "crypto_sign_keypair p seed_sk = (pk, sk, 0)"
    and "length seed_sk = KEYPAIR_SEED_LENGTH_BYTES p" and "length root_seed = SEED_LENGTH_BYTES p"
    and "length salt = SALT_LENGTH_BYTES p"
    and "length merkle_memory = NUM_NODES p * HASH_DIGEST_LENGTH p"
    and "length proof_memory = NUM_NODES p * HASH_DIGEST_LENGTH p"
  shows "crypto_sign_open p (fst (crypto_sign p m sk root_seed salt merkle_memory)) pk proof_memory
      = Some (m, length m, 0)
    \<and> crypto_sign_verify p (fst (crypto_sign_signature p m sk root_seed salt merkle_memory)) siglen m pk proof_memory = 0"
proof -
  obtain lam where s: "cross_scheme p lam" "perm_ok (keccak_perm p)" using balanced_scheme assms(1,2) by blast
  then show ?thesis using cross_scheme.sign_verify_bytes [OF s assms(3-8)] by blast
qed

theorem crypto_sign_open_sign_witness:
  "\<exists>pk sk. crypto_sign_keypair (rsdpg_128_balanced rotate1) (replicate 32 7) = (pk, sk, 0)
    \<and> crypto_sign_open (rsdpg_128_balanced rotate1) (fst (crypto_sign (rsdpg_128_balanced rotate1) [1, 2] sk
        (replicate 16 9) (replicate 32 5) (replicate 16352 0))) pk (replicate 16352 1) = Some ([1, 2], 2, 0)"
proof -
  let ?p = "rsdpg_128_balanced rotate1"
  obtain pk sk where k: "crypto_sign_keypair ?p (replicate 32 7) = (pk, sk, 0)"
    by (cases "CROSS_keygen ?p (replicate 32 7)") (simp add: crypto_sign_keypair_def)
  have "crypto_sign_open ?p (fst (crypto_sign ?p [1, 2] sk (replicate 16 9) (replicate 32 5) (replicate 16352 0)))
      pk (replicate 16352 1) = Some ([1, 2], length ([1, 2] :: bytes), 0)"
    by (rule conjunct1 [OF crypto_sign_open_sign [OF balanced_128 perm_ok_rotate1 k]]) (simp_all add: sizes_128)
  with k show ?thesis by auto
qed

text \<open>
  C3. The seed path: rebuild_tree, given the path that seed_path made of the signer's tree, accepts
  its padding and regrows the seed of every round whose second challenge is 1, whatever the memory
  of the tree held.
\<close>

theorem rebuild_tree_seed_path:
  assumes "p \<in> balanced_params perm" and "perm_ok perm" and "chall = expand_digest_to_fixed_weight p d"
    and "length root_seed = SEED_LENGTH_BYTES p"
    and "length mem = NUM_NODES p * SEED_LENGTH_BYTES p" and "length mem' = NUM_NODES p * SEED_LENGTH_BYTES p"
    and "length out = par_T p * SEED_LENGTH_BYTES p" and "c < par_T p" and "chall ! c = 1"
  shows "let tree = gen_seed_tree p mem root_seed salt;
      path = fst (seed_path p (replicate (TREE_NODES_TO_STORE p * SEED_LENGTH_BYTES p) 0) tree chall);
      (tree', ok) = rebuild_tree p mem' chall path salt
    in ok \<and> blk (SEED_LENGTH_BYTES p) (seed_leaves p out tree') c = blk (SEED_LENGTH_BYTES p) (seed_leaves p out tree) c"
proof -
  obtain lam where s: "cross_scheme p lam" "perm_ok (keccak_perm p)" using balanced_scheme assms(1,2) by blast
  from cross_scheme.seed_path_roundtrip [OF s(1,2) assms(4-9) [unfolded assms(3)]] show ?thesis
    by (simp add: assms(3) Let_def case_prod_unfold)
qed

theorem rebuild_tree_seed_path_witness:
  "\<exists>c<256. let p = rsdpg_128_balanced rotate1;
      chall = expand_digest_to_fixed_weight p (replicate 32 3);
      tree = gen_seed_tree p (replicate 8176 0) (replicate 16 9) (replicate 32 5);
      path = fst (seed_path p (replicate (TREE_NODES_TO_STORE p * SEED_LENGTH_BYTES p) 0) tree chall);
      (tree', ok) = rebuild_tree p (replicate 8176 1) chall path (replicate 32 5)
    in ok \<and> blk (SEED_LENGTH_BYTES p) (seed_leaves p (replicate 4096 2) tree') c
      = blk (SEED_LENGTH_BYTES p) (seed_leaves p (replicate 4096 2) tree) c"
proof -
  let ?p = "rsdpg_128_balanced rotate1"
  obtain c where c: "c < par_T ?p" "expand_digest_to_fixed_weight ?p (replicate 32 3) ! c = 1"
    using challenge_has_1 [OF balanced_128] by blast
  have "length (replicate 16 (9 :: u8)) = SEED_LENGTH_BYTES ?p"
      "length (replicate 8176 (0 :: u8)) = NUM_NODES ?p * SEED_LENGTH_BYTES ?p"
      "length (replicate 8176 (1 :: u8)) = NUM_NODES ?p * SEED_LENGTH_BYTES ?p"
      "length (replicate 4096 (2 :: u8)) = par_T ?p * SEED_LENGTH_BYTES ?p"
    by (simp_all add: sizes_128)
  note reb = rebuild_tree_seed_path [OF balanced_128 perm_ok_rotate1 refl this c, where salt = "replicate 32 5"]
  have lt: "c < 256" using c(1) by (simp add: sizes_128)
  show ?thesis unfolding Let_def by (rule exI [of _ c], rule conjI [OF lt reb [unfolded Let_def]])
qed

text \<open>
  C4. The Merkle proof: recompute_root, given the proof tree_proof made of the signer's tree and
  commitments that agree with the signer's where the second challenge is 0, accepts the padding and
  returns the signer's root, whatever the memory of its tree held.
\<close>

theorem recompute_root_tree_proof:
  assumes "p \<in> balanced_params perm" and "perm_ok perm" and "chall = expand_digest_to_fixed_weight p d"
    and "length mem = NUM_NODES p * HASH_DIGEST_LENGTH p" and "length mem' = NUM_NODES p * HASH_DIGEST_LENGTH p"
    and "\<And>c. c < par_T p \<Longrightarrow> length (cmts ! c) = HASH_DIGEST_LENGTH p"
    and "\<And>c. c < par_T p \<Longrightarrow> length (cmts' ! c) = HASH_DIGEST_LENGTH p"
    and "\<And>c. c < par_T p \<Longrightarrow> chall ! c = 0 \<Longrightarrow> cmts' ! c = cmts ! c"
  shows "let (root, tree) = tree_root p mem cmts;
      mtp = fst (tree_proof p (replicate (TREE_NODES_TO_STORE p * HASH_DIGEST_LENGTH p) 0) tree chall)
    in recompute_root p mem' cmts' mtp chall = (root, True)"
proof -
  obtain lam where s: "cross_scheme p lam" "perm_ok (keccak_perm p)" using balanced_scheme assms(1,2) by blast
  from cross_scheme.merkle_roundtrip [OF s(1,2) assms(4-8) [unfolded assms(3)]] show ?thesis
    by (simp add: assms(3) Let_def case_prod_unfold)
qed

theorem recompute_root_tree_proof_witness:
  "let p = rsdpg_128_balanced rotate1; chall = expand_digest_to_fixed_weight p (replicate 32 3);
      (root, tree) = tree_root p (replicate 16352 0) (replicate 256 (replicate 32 4));
      mtp = fst (tree_proof p (replicate (TREE_NODES_TO_STORE p * HASH_DIGEST_LENGTH p) 0) tree chall)
    in recompute_root p (replicate 16352 1) (replicate 256 (replicate 32 4)) mtp chall = (root, True)"
proof -
  let ?p = "rsdpg_128_balanced rotate1"
  have "length (replicate 16352 (0 :: u8)) = NUM_NODES ?p * HASH_DIGEST_LENGTH ?p"
      "length (replicate 16352 (1 :: u8)) = NUM_NODES ?p * HASH_DIGEST_LENGTH ?p"
      "\<And>c. c < par_T ?p \<Longrightarrow> length (replicate 256 (replicate 32 (4 :: u8)) ! c) = HASH_DIGEST_LENGTH ?p"
    by (simp_all add: sizes_128)
  note recompute_root_tree_proof [OF balanced_128 perm_ok_rotate1 refl this this(3) refl, where d = "replicate 32 3"]
  then show ?thesis unfolding Let_def .
qed

text \<open>
  C5. TREE_NODES_TO_STORE suffices: for every digest, neither tree_proof nor seed_path stores more
  nodes than the signature has room for, and both store the same number.
\<close>

theorem published_nodes_fit:
  assumes "p \<in> balanced_params perm"
    and "length tree = NUM_NODES p * HASH_DIGEST_LENGTH p" and "length seeds = NUM_NODES p * SEED_LENGTH_BYTES p"
  shows "let chall = expand_digest_to_fixed_weight p d;
      n = snd (tree_proof p (replicate (TREE_NODES_TO_STORE p * HASH_DIGEST_LENGTH p) 0) tree chall);
      n' = snd (seed_path p (replicate (TREE_NODES_TO_STORE p * SEED_LENGTH_BYTES p) 0) seeds chall)
    in n \<le> TREE_NODES_TO_STORE p \<and> n' = n"
proof -
  obtain lam where s: "cross_scheme p lam" using balanced_scheme_only assms(1) by blast
  show ?thesis
    using cross_scheme.published_counts [OF s assms(2,3)] by (simp add: Let_def)
qed

theorem published_nodes_fit_witness:
  "let p = rsdpg_128_balanced rotate1; chall = expand_digest_to_fixed_weight p (replicate 32 3);
      n = snd (tree_proof p (replicate (TREE_NODES_TO_STORE p * HASH_DIGEST_LENGTH p) 0) (replicate 16352 4) chall);
      n' = snd (seed_path p (replicate (TREE_NODES_TO_STORE p * SEED_LENGTH_BYTES p) 0) (replicate 8176 5) chall)
    in n \<le> 101 \<and> n' = n"
proof -
  let ?p = "rsdpg_128_balanced rotate1"
  have "length (replicate 16352 (4 :: u8)) = NUM_NODES ?p * HASH_DIGEST_LENGTH ?p"
      "length (replicate 8176 (5 :: u8)) = NUM_NODES ?p * SEED_LENGTH_BYTES ?p"
    by (simp_all add: sizes_128)
  note published_nodes_fit [OF balanced_128 this, where d = "replicate 32 3"]
  then show ?thesis unfolding Let_def sizes_128(10) .
qed

text \<open>
  C6. The identity behind verification: with the challenged response the verifier's s_prime equals
  the signer's, for canonical secret and masking exponents, any canonical matrix W_mat and any challenge.
\<close>

theorem verifier_s_prime:
  assumes "p \<in> balanced_params perm" and "length e_G = par_M p" and "fz_canon e_G"
    and "length e_G' = par_M p" and "fz_canon e_G'" and "fz_mat_ok p W_mat" and "length u' = par_N p"
  shows "let e = fz_dz_norm_n p (fz_inf_w_by_fz_matrix p e_G W_mat);
      e' = fz_dz_norm_n p (fz_inf_w_by_fz_matrix p e_G' W_mat);
      v_G = fz_dz_norm_m p (fz_vec_sub_m p e_G e_G');
      y = fp_vec_by_restr_vec_scaled p e' c u';
      s = restr_vec_by_fp_matrix p e V_tr;
      v = convert_restr_vec_to_fp p (fz_inf_w_by_fz_matrix p v_G W_mat)
    in fp_synd_minus_fp_vec_scaled p (fp_vec_by_fp_matrix p (fp_vec_by_fp_vec_pointwise p v y) V_tr) c s
      = fp_vec_by_fp_matrix p (fp_vec_by_fp_vec_pointwise p (convert_restr_vec_to_fp p (fz_vec_sub_n p e e')) u') V_tr"
  using s_prime_eq [OF balanced_facts(5) [OF assms(1)] assms(2-7), of c V_tr]
  unfolding Let_def secret_of_def .

theorem verifier_s_prime_witness:
  "\<exists>e_G e_G'. e_G \<noteq> e_G' \<and>
    (let p = rsdpg_128_balanced rotate1; W_mat = replicate 750 2; V_tr = replicate 684 3;
      e = fz_dz_norm_n p (fz_inf_w_by_fz_matrix p e_G W_mat);
      e' = fz_dz_norm_n p (fz_inf_w_by_fz_matrix p e_G' W_mat);
      v_G = fz_dz_norm_m p (fz_vec_sub_m p e_G e_G');
      y = fp_vec_by_restr_vec_scaled p e' 7 (replicate 55 8);
      s = restr_vec_by_fp_matrix p e V_tr;
      v = convert_restr_vec_to_fp p (fz_inf_w_by_fz_matrix p v_G W_mat)
    in fp_synd_minus_fp_vec_scaled p (fp_vec_by_fp_matrix p (fp_vec_by_fp_vec_pointwise p v y) V_tr) 7 s
      = fp_vec_by_fp_matrix p (fp_vec_by_fp_vec_pointwise p (convert_restr_vec_to_fp p (fz_vec_sub_n p e e'))
          (replicate 55 8)) V_tr)"
proof (intro exI conjI)
  let ?p = "rsdpg_128_balanced rotate1"
  have "length (replicate 25 (5 :: u8)) = par_M ?p" "fz_canon (replicate 25 5)"
      "length (replicate 25 (9 :: u8)) = par_M ?p" "fz_canon (replicate 25 9)"
      "fz_mat_ok ?p (replicate 750 2)" "length (replicate 55 (8 :: u16)) = par_N ?p"
    by (simp_all add: sizes_128 fz_canon_def fz_mat_ok_def Z_def)
  note sp = verifier_s_prime [OF balanced_128 this, where V_tr = "replicate 684 3" and c = 7]
  show "let p = ?p; W_mat = replicate 750 2; V_tr = replicate 684 3;
      e = fz_dz_norm_n p (fz_inf_w_by_fz_matrix p (replicate 25 5) W_mat);
      e' = fz_dz_norm_n p (fz_inf_w_by_fz_matrix p (replicate 25 9) W_mat);
      v_G = fz_dz_norm_m p (fz_vec_sub_m p (replicate 25 5) (replicate 25 9));
      y = fp_vec_by_restr_vec_scaled p e' 7 (replicate 55 8);
      s = restr_vec_by_fp_matrix p e V_tr;
      v = convert_restr_vec_to_fp p (fz_inf_w_by_fz_matrix p v_G W_mat)
    in fp_synd_minus_fp_vec_scaled p (fp_vec_by_fp_matrix p (fp_vec_by_fp_vec_pointwise p v y) V_tr) 7 s
      = fp_vec_by_fp_matrix p (fp_vec_by_fp_vec_pointwise p (convert_restr_vec_to_fp p (fz_vec_sub_n p e e'))
          (replicate 55 8)) V_tr"
    using sp unfolding Let_def .
  show "replicate 25 5 \<noteq> replicate 25 (9 :: u8)" by simp
qed

text \<open>
  C7. Rejection: an accepted signature has a public key whose padding bits are 0, a seed path
  with zero padding, and in every one of its T - W responses a y and a v_G_bar with zero padding and
  a v_G_bar whose elements are below Z.
\<close>

theorem CROSS_verify_checks:
  assumes "p \<in> balanced_params perm" and "CROSS_verify p PK m sig proof_memory" and "k < par_T p - par_W p"
  shows "snd (unpack_fp_syn p (pk_s PK))
    \<and> snd (rebuild_tree p (replicate (SEED_LENGTH_BYTES p * NUM_NODES p) 0)
        (expand_digest_to_fixed_weight p (sig_digest_chall_2 sig)) (sig_path sig) (sig_salt sig))
    \<and> snd (unpack_fp_vec p (resp_y (sig_resp_0 sig ! k)))
    \<and> snd (unpack_fz_rsdp_g_vec p (resp_v_G_bar (sig_resp_0 sig ! k)))
    \<and> (\<forall>x\<in>set (fst (unpack_fz_rsdp_g_vec p (resp_v_G_bar (sig_resp_0 sig ! k)))). unat x < Z)"
proof -
  obtain lam where s: "cross_scheme p lam" using balanced_scheme_only assms(1) by blast
  note c = cross_scheme.verify_checks [OF s assms(2)]
  have "length (fst (unpack_fz_rsdp_g_vec p (resp_v_G_bar (sig_resp_0 sig ! k)))) = par_M p"
    by (simp add: unpack_fz_rsdp_g_vec_def generic_unpack_7_bit_eq)
  with c(1,2) c(3) [OF assms(3)] show ?thesis
    by (simp add: resp_ok_def is_fz_vec_in_restr_group_m_iff fz_canon_def)
qed

theorem CROSS_verify_checks_witness:
  "let p = rsdpg_128_balanced rotate1;
      (SK, PK) = CROSS_keygen p (replicate 32 7);
      sig = CROSS_sign p SK [1, 2, 3] (replicate 16 9) (replicate 32 5) (replicate 16352 0)
    in snd (unpack_fp_vec p (resp_y (sig_resp_0 sig ! 35)))"
proof -
  let ?p = "rsdpg_128_balanced rotate1"
  obtain lam where s: "cross_scheme ?p lam" using balanced_scheme_only balanced_128 by blast
  have "CROSS_verify ?p (snd (CROSS_keygen ?p (replicate 32 7))) [1, 2, 3] (CROSS_sign ?p
      (fst (CROSS_keygen ?p (replicate 32 7))) [1, 2, 3] (replicate 16 9) (replicate 32 5) (replicate 16352 0)) (replicate 16352 1)"
    by (rule cross_scheme.sign_verify [OF s]) (simp_all add: sizes_128 perm_ok_rotate1)
  note CROSS_verify_checks [OF balanced_128 this, of 35]
  then show ?thesis by (simp add: sizes_128 Let_def case_prod_unfold)
qed

text \<open>
  C8. The bytes of a detached signature: crypto_sign_verify returns 0 for what crypto_sign_signature wrote,
  whatever bytes follow it and whatever length is given; for every string long enough it returns 0 or -1, and 0
  only if the bytes of each response are the packing of a vector of 9-bit elements and of exponents below Z; so a
  string with the last bit of a packed y set gets -1.
\<close>

theorem crypto_sign_verify_encoding:
  assumes "p \<in> balanced_params perm" and "perm_ok perm" and "crypto_sign_keypair p seed_sk = (pk, sk, 0)"
    and "length seed_sk = KEYPAIR_SEED_LENGTH_BYTES p" and "length root_seed = SEED_LENGTH_BYTES p"
    and "length salt = SALT_LENGTH_BYTES p"
    and "length merkle_memory = NUM_NODES p * HASH_DIGEST_LENGTH p"
    and "length proof_memory = NUM_NODES p * HASH_DIGEST_LENGTH p"
    and "sizeof_sig p \<le> length b" and "k < par_T p - par_W p"
  shows "crypto_sign_verify p (fst (crypto_sign_signature p m sk root_seed salt merkle_memory) @ tail) siglen m pk proof_memory = 0
    \<and> (let r = seg b (off_resp_0 p + k * sizeof_resp_0 p) (sizeof_resp_0 p); v = crypto_sign_verify p b n m' pk' mem
       in (v = 0 \<or> v = - 1)
        \<and> (v = 0 \<longrightarrow> (\<exists>y e. length y = par_N p \<and> (\<forall>x\<in>set y. unat x < 512) \<and> length e = par_M p \<and> (\<forall>x\<in>set e. unat x < Z)
            \<and> r = pack_fp_vec p y @ pack_fz_rsdp_g_vec p e))
        \<and> (bit (r ! (DENSELY_PACKED_FP_VEC_SIZE p - 1)) 7 \<longrightarrow> v = - 1))"
proof -
  obtain lam where s: "cross_scheme p lam" "perm_ok (keccak_perm p)" using balanced_scheme assms(1,2) by blast
  show ?thesis
  proof (cases "crypto_sign_verify p b n m' pk' mem = 0")
    case True
    then have "CROSS_verify p (pk_of_bytes p pk') m' (sig_of_bytes p b) mem" by (simp add: crypto_sign_verify_iff)
    from cross_scheme.accepted_response [OF s(1) this assms(9,10)] obtain y e where
      y: "length y = par_N p" "\<forall>x\<in>set y. unat x < 512" and e: "length e = par_M p" "\<forall>x\<in>set e. unat x < Z"
      and r: "seg b (off_resp_0 p + k * sizeof_resp_0 p) (sizeof_resp_0 p) = pack_fp_vec p y @ pack_fz_rsdp_g_vec p e"
      by blast
    show ?thesis
      unfolding Let_def r using True y e pack_fp_vec_last [OF assms(1) y] cross_scheme.verify_genuine_tail [OF s assms(3-8)]
      by blast
  next
    case False
    then show ?thesis
      using cross_scheme.verify_genuine_tail [OF s assms(3-8)] by (simp add: crypto_sign_verify_iff(2) Let_def)
  qed
qed

theorem crypto_sign_verify_encoding_witness:
  "\<exists>pk sk sig. crypto_sign_keypair (rsdpg_128_balanced rotate1) (replicate 32 7) = (pk, sk, 0)
    \<and> sig = fst (crypto_sign_signature (rsdpg_128_balanced rotate1) [1, 2] sk (replicate 16 9) (replicate 32 5) (replicate 16352 0))
    \<and> crypto_sign_verify (rsdpg_128_balanced rotate1) (sig @ [8, 9]) 5 [1, 2] pk (replicate 16352 1) = 0
    \<and> crypto_sign_verify (rsdpg_128_balanced rotate1)
        (sig[off_resp_0 (rsdpg_128_balanced rotate1) + 3 * 84 + 61 := 128]) 5 [1, 2] pk (replicate 16352 1) = - 1"
proof -
  let ?p = "rsdpg_128_balanced rotate1"
  obtain pk sk where k: "crypto_sign_keypair ?p (replicate 32 7) = (pk, sk, 0)"
    by (cases "CROSS_keygen ?p (replicate 32 7)") (simp add: crypto_sign_keypair_def)
  let ?s = "fst (crypto_sign_signature ?p [1, 2] sk (replicate 16 9) (replicate 32 5) (replicate 16352 0))"
  let ?b = "?s[off_resp_0 ?p + 3 * 84 + 61 := 128]"
  obtain lam where s: "cross_scheme ?p lam" using balanced_scheme_only balanced_128 by blast
  have l: "length ?s = sizeof_sig ?p"
    unfolding crypto_sign_signature_def fst_conv
    by (rule length_bytes_of_sig, rule cross_scheme.sign_wf [OF s]) (simp_all add: sizes_128 perm_ok_rotate1)
  have z: "sizeof_resp_0 ?p = 84" "DENSELY_PACKED_FP_VEC_SIZE ?p = 62" "sizeof_sig ?p = off_resp_0 ?p + 3024"
    by (simp_all add: sizeof_sig_def sizeof_resp_0_def sizes_128 densely_packed_fp densely_packed_fz)
  have bit: "bit (seg ?b (off_resp_0 ?p + 3 * 84) 84 ! (62 - 1)) 7"
    using nth_seg [of "62 - 1" 84 "off_resp_0 ?p + 3 * 84" ?b] by (simp add: l z bit_simps)
  have len: "length (replicate 32 (7 :: u8)) = KEYPAIR_SEED_LENGTH_BYTES ?p" "length (replicate 16 (9 :: u8)) = SEED_LENGTH_BYTES ?p"
      "length (replicate 32 (5 :: u8)) = SALT_LENGTH_BYTES ?p" "length (replicate 16352 (0 :: u8)) = NUM_NODES ?p * HASH_DIGEST_LENGTH ?p"
      "length (replicate 16352 (1 :: u8)) = NUM_NODES ?p * HASH_DIGEST_LENGTH ?p" "sizeof_sig ?p \<le> length ?b" "3 < par_T ?p - par_W ?p"
    by (simp_all add: sizes_128 l)
  note v = crypto_sign_verify_encoding [OF balanced_128 perm_ok_rotate1 k len, where m = "[1, 2]" and tail = "[8, 9]"
      and siglen = 5 and n = 5 and m' = "[1, 2]" and pk' = pk and mem = "replicate 16352 1", unfolded z Let_def]
  show ?thesis
    by (intro exI conjI, rule k, rule refl, rule conjunct1 [OF v]) (use v bit in blast)
qed

section \<open>The building blocks of CROSS\<close>

text \<open>
  C9. Packing round trip: unpacking what was packed returns the vector and accepts the padding, for
  every vector of elements that fit nine bits (field) or are at most Z (exponents).
\<close>

theorem packed_vector_unpack:
  assumes "length v = par_N p" and "\<forall>x\<in>set v. unat x < 512"
    and "length w = par_M p" and "\<forall>x\<in>set w. unat x \<le> Z"
    and "length s = par_N p - par_K p" and "\<forall>x\<in>set s. unat x < 512"
  shows "unpack_fp_vec p (pack_fp_vec p v) = (v, True)
    \<and> unpack_fz_rsdp_g_vec p (pack_fz_rsdp_g_vec p w) = (w, True)
    \<and> unpack_fp_syn p (pack_fp_syn p s) = (s, True)"
  using assms unpack_fp_vec_pack unpack_fz_rsdp_g_vec_pack unpack_fp_syn_pack by (simp add: fp_ok_def fz_ok_def)

theorem packed_vector_unpack_witness:
  "unpack_fp_vec (rsdpg_128_balanced rotate1) (pack_fp_vec (rsdpg_128_balanced rotate1) (replicate 55 508))
      = (replicate 55 508, True)
    \<and> unpack_fp_syn (rsdpg_128_balanced rotate1) (pack_fp_syn (rsdpg_128_balanced rotate1) (replicate 19 3))
      = (replicate 19 3, True)"
  using packed_vector_unpack [of "replicate 55 508" "rsdpg_128_balanced rotate1" "replicate 25 126" "replicate 19 3"]
  by (simp add: sizes_128 Z_def)

text \<open>
  C10. Packing is canonical: a byte string whose padding is accepted is the packing of the vector it
  unpacks to, so that no two accepted strings stand for one vector.
\<close>

theorem packed_bytes_canonical:
  assumes "length b = DENSELY_PACKED_FP_VEC_SIZE p" and "snd (unpack_fp_vec p b)"
    and "length b' = DENSELY_PACKED_FZ_RSDP_G_VEC_SIZE p" and "snd (unpack_fz_rsdp_g_vec p b')"
  shows "pack_fp_vec p (fst (unpack_fp_vec p b)) = b
    \<and> pack_fz_rsdp_g_vec p (fst (unpack_fz_rsdp_g_vec p b')) = b'"
proof -
  have "length (fst (unpack_fp_vec p b)) = par_N p" "length (fst (unpack_fz_rsdp_g_vec p b')) = par_M p"
    using fp.length_unpack [of b "par_N p"] fz.length_unpack [of b' "par_M p"] assms(1,3)
    by (simp_all add: unpack_fp_vec_def unpack_fz_rsdp_g_vec_def)
  then show ?thesis
    using fp.pack_unpack [of b "par_N p"] fz.pack_unpack [of b' "par_M p"] assms
    by (simp add: unpack_fp_vec_def unpack_fz_rsdp_g_vec_def pack_fp_vec_eq pack_fz_rsdp_g_vec_eq
        densely_packed_fp densely_packed_fz)
qed

theorem packed_bytes_canonical_witness:
  "pack_fp_vec (rsdpg_128_balanced rotate1) (fst (unpack_fp_vec (rsdpg_128_balanced rotate1)
      (pack_fp_vec (rsdpg_128_balanced rotate1) (replicate 55 508)))) = pack_fp_vec (rsdpg_128_balanced rotate1) (replicate 55 508)"
  by (rule conjunct1 [OF packed_bytes_canonical [where b' = "pack_fz_rsdp_g_vec (rsdpg_128_balanced rotate1) (replicate 25 126)"]])
    (simp_all add: sizes_128 unpack_fp_vec_pack fp_ok_def unpack_fz_rsdp_g_vec_pack fz_ok_def Z_def)

text \<open>
  C11. The second challenge: for every digest the string has T entries, W of them 1 and the other
  T - W of them 0.
\<close>

theorem expand_digest_fixed_weight:
  assumes "p \<in> balanced_params perm"
  shows "length (expand_digest_to_fixed_weight p digest) = par_T p
    \<and> count_list (expand_digest_to_fixed_weight p digest) 1 = par_W p
    \<and> count_list (expand_digest_to_fixed_weight p digest) 0 = par_T p - par_W p"
  using count_expand_digest [OF balanced_facts(4) [OF assms]] balanced_facts(4) [OF assms] by simp

theorem expand_digest_fixed_weight_witness:
  "count_list (expand_digest_to_fixed_weight (rsdpg_128_balanced rotate1) (replicate 32 1)) 1 = 220"
  using expand_digest_fixed_weight [OF balanced_128, where digest = "replicate 32 1"] by (simp add: sizes_128)

text \<open>
  C12. The samplers: for every state of the expander each returns as many elements as the
  code reads, all of them below P or Z, and they always terminate.
\<close>

theorem csprng_samples:
  "(let v = fst (csprng_fp_vec p s) in length v = par_N p \<and> fp_canon v)
    \<and> (let v = fst (csprng_fp_vec_chall_1 p s) in length v = par_T p \<and> fp_canon v)
    \<and> (let v = fst (csprng_fz_inf_w p s) in length v = par_M p \<and> fz_canon v)
    \<and> fp_mat_ok p (fst (csprng_fp_mat p s)) \<and> fz_mat_ok p (fst (csprng_fz_mat p s))"
  by (simp add: csprng_results)

text \<open>
  C13. Barrett reduction: FPRED_SINGLE, and so FPRED_DOUBLE, is the exact remainder modulo 509
  for every 32-bit value, not only for the products the code reduces.
\<close>

theorem FPRED_exact:
  "unat (ucast (FPRED_SINGLE (ucast (x :: u32))) :: u16) = unat x mod P
    \<and> unat (ucast (FPRED_DOUBLE (ucast x)) :: u16) = unat x mod P"
  by (simp add: unat_FPRED_32 unat_FPRED_DOUBLE_32)

text \<open>
  C14. RESTR_TO_VAL, the constant-time power by seven conditional factors, is the power of the
  generator modulo P for each seven-bit exponent, with 127 standing for 0.
\<close>

theorem RESTR_TO_VAL_power:
  assumes "unat x < 128"
  shows "unat (RESTR_TO_VAL x) = RESTR_G_GEN ^ (unat x mod Z) mod P"
  by (simp add: RESTR_TO_VAL_correct [OF assms] generator_pow_mod)

theorem RESTR_TO_VAL_power_witness: "unat (RESTR_TO_VAL 127) = 1"
  using RESTR_TO_VAL_power [of 127] by (simp add: Z_def RESTR_G_GEN_def P_def)

text \<open>
  C15. The product of an exponent vector with the matrix (W | I): every entry is at most 127 and
  congruent modulo 127 to the mathematical product, the last M entries are the input.
\<close>

theorem fz_inf_w_by_fz_matrix_correct:
  assumes "length e = par_M p" and "fz_ok e" and "fz_mat_ok p W_mat" and "par_M p \<le> par_N p"
    and "j < par_N p - par_M p" and "k < par_M p"
  shows "unat (fz_inf_w_by_fz_matrix p e W_mat ! j) \<le> 127
    \<and> unat (fz_inf_w_by_fz_matrix p e W_mat ! j) mod Z
      = (\<Sum>i<par_M p. unat (e ! i) * unat (W_mat ! (i * (par_N p - par_M p) + j))) mod Z
    \<and> fz_inf_w_by_fz_matrix p e W_mat ! (par_N p - par_M p + k) = e ! k"
  using fz_inf_w_nth [OF assms(1-3,5)] fz_inf_w_tail [OF assms(1,6,4)] by (simp add: fz_dot_def Z_def)

theorem fz_inf_w_by_fz_matrix_correct_witness:
  "unat (fz_inf_w_by_fz_matrix (rsdpg_128_balanced rotate1) (replicate 25 5) (replicate 750 2) ! 3) mod Z = 250 mod 127"
  using fz_inf_w_by_fz_matrix_correct [of "replicate 25 5" "rsdpg_128_balanced rotate1" "replicate 750 2" 3 4]
  by (simp add: sizes_128 fz_ok_def fz_mat_ok_def fz_canon_def Z_def)

text \<open>
  C16. The products with the parity-check matrix: every entry of the syndrome of a field vector, and of a
  vector of exponents, is the mathematical value reduced modulo P.
\<close>

theorem fp_matrix_products_correct:
  assumes "length u = par_N p" and "length e = par_N p" and "fz_ok e"
    and "0 < par_K p" and "par_K p \<le> par_N p" and "j < par_N p - par_K p"
  shows "unat (fp_vec_by_fp_matrix p u V_tr ! j) = (unat (u ! (par_K p + j))
      + (\<Sum>i<par_K p. unat (u ! i) * unat (V_tr ! (i * (par_N p - par_K p) + j)))) mod P
    \<and> unat (restr_vec_by_fp_matrix p e V_tr ! j) = (RESTR_G_GEN ^ unat (e ! (par_K p + j)) mod P
      + (\<Sum>i<par_K p. (RESTR_G_GEN ^ unat (e ! i) mod P) * unat (V_tr ! (i * (par_N p - par_K p) + j)))) mod P"
  using fp_vec_by_fp_matrix_nth [OF assms(1,4-6)] restr_vec_by_fp_matrix_nth [OF assms(2-6)]
  by (simp_all add: fp_dot_def gpow_def)

theorem fp_matrix_products_correct_witness:
  "unat (fp_vec_by_fp_matrix (rsdpg_128_balanced rotate1) (replicate 55 7) (replicate 684 3) ! 2) = 763 mod 509"
  using fp_matrix_products_correct [of "replicate 55 7" "rsdpg_128_balanced rotate1" "replicate 55 1" 2 "replicate 684 3"]
  by (simp add: sizes_128 fz_ok_def P_def Z_def)

text \<open>
  C17. The seed tree: the root is the given seed, and the two children of the k-th inner node are the
  expander's output on the node's seed, the salt and the node's number, for every inner node.
\<close>

theorem gen_seed_tree_nodes:
  assumes "p \<in> balanced_params perm" and "perm_ok perm" and "length root_seed = SEED_LENGTH_BYTES p"
    and "length mem = NUM_NODES p * SEED_LENGTH_BYTES p" and "k < par_T p - 1"
  shows "let S = SEED_LENGTH_BYTES p; t = gen_seed_tree p mem root_seed salt; x = inner_nodes p ! k
    in blk S t 0 = root_seed \<and>
      blk S t (2 * k + 1) @ blk S t (2 * k + 2) = fst (csprng_randombytes p (2 * S)
        (csprng_initialize p (blk S t x @ salt) (CSPRNG_DOMAIN_SEP_CONST + of_nat x)))"
proof -
  obtain lam where s: "cross_scheme p lam" "perm_ok (keccak_perm p)" using balanced_scheme assms(1,2) by blast
  have t: "cross_tree p" by (rule balanced_facts(1) [OF assms(1)])
  show ?thesis
    using cross_tree.gen_seed_tree_correct [OF t s(2) assms(4,3), of salt] assms(5)
    by (simp add: cross_tree.is_seed_tree_def [OF t] Let_def expand_node_def cross_tree.length_inner_nodes [OF t])
qed

theorem gen_seed_tree_nodes_witness:
  "let p = rsdpg_128_balanced rotate1; t = gen_seed_tree p (replicate 8176 0) (replicate 16 9) (replicate 32 5);
      x = inner_nodes p ! 200
    in blk 16 t 401 @ blk 16 t 402 = fst (csprng_randombytes p 32
        (csprng_initialize p (blk 16 t x @ replicate 32 5) (CSPRNG_DOMAIN_SEP_CONST + of_nat x)))"
  using gen_seed_tree_nodes [OF balanced_128 perm_ok_rotate1, of "replicate 16 9" "replicate 8176 0" 200 "replicate 32 5"]
  by (simp add: sizes_128 Let_def)

text \<open>
  C18. The Merkle tree: the leaves are the commitments, every inner node is the hash of its two
  children, and the root that is returned is node 0.
\<close>

theorem tree_root_nodes:
  assumes "p \<in> balanced_params perm" and "perm_ok perm"
    and "length mem = NUM_NODES p * HASH_DIGEST_LENGTH p"
    and "\<And>c. c < par_T p \<Longrightarrow> length (cmts ! c) = HASH_DIGEST_LENGTH p"
    and "c < par_T p" and "k < par_T p - 1"
  shows "let H = HASH_DIGEST_LENGTH p; (root, t) = tree_root p mem cmts
    in root = blk H t 0 \<and> blk H t (leaf_nodes p ! c) = cmts ! c \<and>
      blk H t (inner_nodes p ! k) = hash p (blk H t (2 * k + 1) @ blk H t (2 * k + 2)) HASH_DOMAIN_SEP_CONST"
proof -
  obtain lam where s: "cross_scheme p lam" "perm_ok (keccak_perm p)" using balanced_scheme assms(1,2) by blast
  have t: "cross_tree p" by (rule balanced_facts(1) [OF assms(1)])
  have "cross_tree.is_merkle_tree p (snd (tree_root p mem cmts)) cmts"
    and "fst (tree_root p mem cmts) = blk (HASH_DIGEST_LENGTH p) (snd (tree_root p mem cmts)) 0"
    using cross_tree.tree_root_correct [OF t s(2) assms(3), of cmts] assms(4) by blast+
  then show ?thesis
    using assms(5,6)
    by (simp add: cross_tree.is_merkle_tree_def [OF t] Let_def case_prod_unfold cross_tree.length_inner_nodes [OF t])
qed

theorem tree_root_nodes_witness:
  "let (root, t) = tree_root (rsdpg_128_balanced rotate1) (replicate 16352 0) (replicate 256 (replicate 32 4))
    in blk 32 t (inner_nodes (rsdpg_128_balanced rotate1) ! 7)
      = hash (rsdpg_128_balanced rotate1) (blk 32 t 15 @ blk 32 t 16) HASH_DOMAIN_SEP_CONST"
  using tree_root_nodes [OF balanced_128 perm_ok_rotate1, of "replicate 16352 0" "replicate 256 (replicate 32 4)" 3 7]
  by (simp add: sizes_128 Let_def case_prod_unfold)

section \<open>The SVE2 build\<close>

text \<open>A vector unit of two lanes with a faithful two-way permutation, for the instances below.\<close>

lemma sve_ok_128: "sve_ok \<lparr>sve_lanes = 2, f1600x2 = f1600x2_of rotate1\<rparr> (rsdpg_128_balanced rotate1)"
  by (simp add: sve_ok_def sizes_128 perm_ok_rotate1 permx2_ok_f1600x2_of)

text \<open>
  C19. The SVE2 signer, which queues the commitment hashes and hashes them two at a time, returns the
  signature of the portable signer for every key, message and randomness, for every vector length.
\<close>

theorem CROSS_sign_sve_portable:
  assumes "p \<in> balanced_params perm" and "sve_ok V p"
    and "length root_seed = SEED_LENGTH_BYTES p" and "length salt = SALT_LENGTH_BYTES p"
    and "length merkle_memory = NUM_NODES p * HASH_DIGEST_LENGTH p"
  shows "CROSS_sign_sve V p SK m root_seed salt merkle_memory = CROSS_sign p SK m root_seed salt merkle_memory"
proof -
  obtain lam where s: "cross_scheme p lam" using balanced_scheme_only assms(1) by blast
  show ?thesis by (rule cross_scheme.CROSS_sign_sve_eq [OF s assms(2) sve_sizes_balanced [OF assms(1)] assms(3-5)])
qed

theorem CROSS_sign_sve_portable_witness:
  "let p = rsdpg_128_balanced rotate1; V = \<lparr>sve_lanes = 2, f1600x2 = f1600x2_of rotate1\<rparr>; SK = fst (CROSS_keygen p (replicate 32 7))
    in CROSS_sign_sve V p SK [1, 2, 3] (replicate 16 9) (replicate 32 5) (replicate 16352 0)
      = CROSS_sign p SK [1, 2, 3] (replicate 16 9) (replicate 32 5) (replicate 16352 0)"
  unfolding Let_def by (rule CROSS_sign_sve_portable [OF balanced_128 sve_ok_128]) (simp_all add: sizes_128)

text \<open>
  C20. The SVE2 verifier accepts exactly the signatures that the portable verifier accepts, for every
  public key, message and signature of the right size and every content of uninitialised memory.
\<close>

theorem CROSS_verify_sve_portable:
  assumes "p \<in> balanced_params perm" and "sve_ok V p" and "sig_wf p sig"
    and "length proof_memory = NUM_NODES p * HASH_DIGEST_LENGTH p" and "length y_memory = par_T p"
  shows "CROSS_verify_sve V p y_memory v_memory PK m sig proof_memory = CROSS_verify p PK m sig proof_memory"
proof -
  obtain lam where s: "cross_scheme p lam" using balanced_scheme_only assms(1) by blast
  show ?thesis by (rule cross_scheme.CROSS_verify_sve_eq [OF s assms(2) sve_sizes_balanced [OF assms(1)] assms(3-5)])
qed

theorem CROSS_verify_sve_portable_witness:
  "let p = rsdpg_128_balanced rotate1; V = \<lparr>sve_lanes = 2, f1600x2 = f1600x2_of rotate1\<rparr>;
      (SK, PK) = CROSS_keygen p (replicate 32 7);
      sig = CROSS_sign p SK [1, 2, 3] (replicate 16 9) (replicate 32 5) (replicate 16352 0)
    in CROSS_verify_sve V p (replicate 256 []) [] PK [6] sig (replicate 16352 0) = CROSS_verify p PK [6] sig (replicate 16352 0)"
proof -
  let ?p = "rsdpg_128_balanced rotate1"
  obtain lam where s: "cross_scheme ?p lam" using balanced_scheme_only balanced_128 by blast
  have wf: "sig_wf ?p (CROSS_sign ?p SK [1, 2, 3] (replicate 16 9) (replicate 32 5) (replicate 16352 0))" for SK
    by (rule cross_scheme.sign_wf [OF s]) (simp_all add: sizes_128 perm_ok_rotate1)
  show ?thesis
    unfolding Let_def case_prod_unfold
    by (rule CROSS_verify_sve_portable [OF balanced_128 sve_ok_128 wf]) (simp_all add: sizes_128)
qed

text \<open>
  C21. Key generation: the SVE2 build writes the keys of the portable build for every seed.
\<close>

theorem CROSS_keygen_sve_portable:
  assumes "p \<in> balanced_params perm" and "sve_ok V p"
  shows "CROSS_keygen_sve V p seed_sk = CROSS_keygen p seed_sk"
  by (rule CROSS_keygen_sve_eq [OF assms(2) sve_sizes_balanced [OF assms(1)] balanced_facts(5) [OF assms(1)]])

theorem CROSS_keygen_sve_portable_witness:
  "CROSS_keygen_sve \<lparr>sve_lanes = 2, f1600x2 = f1600x2_of rotate1\<rparr> (rsdpg_128_balanced rotate1) (replicate 32 7)
    = CROSS_keygen (rsdpg_128_balanced rotate1) (replicate 32 7)"
  by (rule CROSS_keygen_sve_portable [OF balanced_128 sve_ok_128])

text \<open>
  C22. Completeness across builds: with the keys of the SVE2 build, both verifiers accept what the SVE2
  signer makes, whatever vector units V and V' the two machines have.
\<close>

theorem CROSS_sign_verify_across_builds:
  assumes "p \<in> balanced_params perm" and "sve_ok V p" and "sve_ok V' p"
    and "length root_seed = SEED_LENGTH_BYTES p" and "length salt = SALT_LENGTH_BYTES p"
    and "length merkle_memory = NUM_NODES p * HASH_DIGEST_LENGTH p"
    and "length proof_memory = NUM_NODES p * HASH_DIGEST_LENGTH p" and "length y_memory = par_T p"
  shows "let (SK, PK) = CROSS_keygen_sve V p seed_sk;
      sig = CROSS_sign_sve V p SK m root_seed salt merkle_memory
    in CROSS_verify p PK m sig proof_memory \<and> CROSS_verify_sve V' p y_memory v_memory PK m sig proof_memory"
proof -
  obtain lam where s: "cross_scheme p lam" using balanced_scheme_only assms(1) by blast
  note sz = sve_sizes_balanced [OF assms(1)]
  have perm: "perm_ok (keccak_perm p)" using assms(2) by simp
  note ks = CROSS_keygen_sve_eq [OF assms(2) sz balanced_facts(5) [OF assms(1)]]
    and ss = cross_scheme.CROSS_sign_sve_eq [OF s assms(2) sz assms(4-6)]
    and vs = cross_scheme.CROSS_verify_sve_eq [OF s assms(3) sz cross_scheme.sign_wf [OF s perm assms(4-6)] assms(7,8)]
    and acc = cross_scheme.sign_verify [OF s perm _ assms(4,6,7)]
  show ?thesis by (auto simp: ks ss vs Let_def intro!: acc)
qed

theorem CROSS_sign_verify_across_builds_witness:
  "let p = rsdpg_128_balanced rotate1; V = \<lparr>sve_lanes = 2, f1600x2 = f1600x2_of rotate1\<rparr>; (SK, PK) = CROSS_keygen_sve V p (replicate 32 7)
    in CROSS_verify p PK [1] (CROSS_sign_sve V p SK [1] (replicate 16 9) (replicate 32 5) (replicate 16352 0)) (replicate 16352 2)"
proof -
  let ?p = "rsdpg_128_balanced rotate1"
  have len: "length (replicate 16 (9 :: u8)) = SEED_LENGTH_BYTES ?p" "length (replicate 32 (5 :: u8)) = SALT_LENGTH_BYTES ?p"
    "length (replicate 16352 (0 :: u8)) = NUM_NODES ?p * HASH_DIGEST_LENGTH ?p"
    "length (replicate 16352 (2 :: u8)) = NUM_NODES ?p * HASH_DIGEST_LENGTH ?p" "length (replicate 256 []) = par_T ?p"
    by (simp_all add: sizes_128)
  note acc = CROSS_sign_verify_across_builds [OF balanced_128 sve_ok_128 sve_ok_128 len, where seed_sk = "replicate 32 7"
    and m = "[1]" and v_memory = "[]"]
  show ?thesis using acc by (simp add: Let_def case_prod_unfold)
qed

text \<open>
  C23. The seed trees: expanding two nodes of a level by one two-way call gives the tree of the portable
  code, both when the signer grows it and when the verifier regrows it from a path.
\<close>

theorem seed_trees_sve_portable:
  assumes "p \<in> balanced_params perm" and "sve_ok V p" and "length salt = SALT_LENGTH_BYTES p"
    and "length tree = NUM_NODES p * SEED_LENGTH_BYTES p" and "length root_seed = SEED_LENGTH_BYTES p"
  shows "gen_seed_tree_sve V p tree root_seed salt = gen_seed_tree p tree root_seed salt
    \<and> rebuild_tree_sve V p tree chall path salt = rebuild_tree p tree chall path salt"
proof -
  have t: "cross_tree p" by (rule balanced_facts(1) [OF assms(1)])
  have x2: "tree_x2 p" using sve_sizes_balanced [OF assms(1)] by (simp add: sve_sizes_def)
  show ?thesis
    using cross_tree.gen_seed_tree_sve_eq [OF t assms(2) x2 assms(3-5)]
      cross_tree.rebuild_tree_sve_eq [OF t assms(2) x2 assms(3,4)] by simp
qed

theorem seed_trees_sve_portable_witness:
  "let p = rsdpg_128_balanced rotate1; V = \<lparr>sve_lanes = 2, f1600x2 = f1600x2_of rotate1\<rparr>
    in gen_seed_tree_sve V p (replicate 8176 0) (replicate 16 9) (replicate 32 5)
      = gen_seed_tree p (replicate 8176 0) (replicate 16 9) (replicate 32 5)"
  unfolding Let_def
  by (rule conjunct1 [OF seed_trees_sve_portable [OF balanced_128 sve_ok_128]]) (simp_all add: sizes_128)

text \<open>
  C24. The Merkle tree: hashing two parents of a level by one two-way call gives the root of the portable
  code, from the commitments and, with the same verdict on the padding, from a proof.
\<close>

theorem merkle_trees_sve_portable:
  assumes "p \<in> balanced_params perm" and "sve_ok V p"
    and "length tree = NUM_NODES p * HASH_DIGEST_LENGTH p"
    and "\<And>c. c < par_T p \<Longrightarrow> length (cmts ! c) = HASH_DIGEST_LENGTH p"
    and "length mtp = TREE_NODES_TO_STORE p * HASH_DIGEST_LENGTH p"
  shows "tree_root_sve V p tree cmts = tree_root p tree cmts
    \<and> recompute_root_sve V p tree cmts mtp (expand_digest_to_fixed_weight p d)
      = recompute_root p tree cmts mtp (expand_digest_to_fixed_weight p d)"
proof -
  obtain lam where s: "cross_scheme p lam" using balanced_scheme_only assms(1) by blast
  have t: "cross_tree p" by (rule balanced_facts(1) [OF assms(1)])
  have x2: "tree_x2 p" using sve_sizes_balanced [OF assms(1)] by (simp add: sve_sizes_def)
  note fit = cross_scheme.published_fit(1) [OF s]
  show ?thesis
    using cross_tree.tree_root_sve_eq [OF t assms(2) x2 assms(3,4)]
      cross_tree.recompute_root_sve_eq [OF t assms(2) x2 assms(3,4) fit assms(5)] by blast
qed

theorem merkle_trees_sve_portable_witness:
  "let p = rsdpg_128_balanced rotate1; V = \<lparr>sve_lanes = 2, f1600x2 = f1600x2_of rotate1\<rparr>
    in tree_root_sve V p (replicate 16352 0) (replicate 256 (replicate 32 4))
      = tree_root p (replicate 16352 0) (replicate 256 (replicate 32 4))"
  unfolding Let_def
  by (rule conjunct1 [OF merkle_trees_sve_portable [OF balanced_128 sve_ok_128, where mtp = "replicate 3232 0"]])
    (simp_all add: sizes_128)

text \<open>
  C25. The exponent product of the SVE2 build: for every vector length each entry is at most 127 and
  congruent modulo 127 to the entry of the portable product.
\<close>

theorem fz_product_sve:
  assumes "0 < vl" and "length res = par_N p" and "length e = par_M p" and "fz_canon e"
    and "fz_mat_ok p W_mat" and "p \<in> balanced_params perm" and "i < par_N p"
  shows "unat (fz_inf_w_by_fz_matrix_sve vl p res e W_mat ! i) \<le> 127
    \<and> unat (fz_inf_w_by_fz_matrix_sve vl p res e W_mat ! i) mod Z = unat (fz_inf_w_by_fz_matrix p e W_mat ! i) mod Z"
proof -
  have M: "par_M p \<le> par_N p" "par_M p mod 4 \<le> 1"
    using balanced_facts(5) [OF assms(6)] sve_sizes_balanced [OF assms(6)] by (simp_all add: sizes_ok_def sve_sizes_def)
  note c = fz_inf_w_by_fz_matrix_sve_correct [OF assms(1-5) M]
  show ?thesis using c(1) c(2) c(3) [OF assms(7)] assms(7) fz_okD [OF c(2), of i] by (simp add: Z_def)
qed

theorem fz_product_sve_witness:
  "unat (fz_inf_w_by_fz_matrix_sve 16 (rsdpg_128_balanced rotate1) (replicate 55 0) (replicate 25 5) (replicate 750 2) ! 3) \<le> 127"
  by (rule conjunct1 [OF fz_product_sve [where perm = rotate1]])
    (simp_all add: sizes_128 fz_canon_def fz_mat_ok_def Z_def balanced_128)

text \<open>
  C26. The field products of the SVE2 build, with lazy 32-bit accumulation, two pseudo-Mersenne steps and a
  vector Barrett reduction, return the vectors of the portable products for every vector length.
\<close>

theorem fp_products_sve:
  assumes "0 < vl" and "length res = par_N p - par_K p" and "length u = par_N p" and "fp_canon u"
    and "length e = par_N p" and "fz_ok e" and "fp_mat_ok p V_tr" and "p \<in> balanced_params perm"
  shows "fp_vec_by_fp_matrix_sve vl p res u V_tr = fp_vec_by_fp_matrix p u V_tr
    \<and> restr_vec_by_fp_matrix_sve vl p res e V_tr = restr_vec_by_fp_matrix p e V_tr"
proof -
  have K: "0 < par_K p" "par_K p \<le> par_N p" "par_K p \<le> 4000"
    using balanced_facts(5) [OF assms(8)] sve_sizes_balanced [OF assms(8)] by (simp_all add: sizes_ok_def sve_sizes_def)
  show ?thesis
    using fp_vec_by_fp_matrix_sve_correct [OF assms(1-4,7) K] restr_vec_by_fp_matrix_sve_correct [OF assms(1,2,5-7) K] by simp
qed

theorem fp_products_sve_witness:
  "fp_vec_by_fp_matrix_sve 8 (rsdpg_128_balanced rotate1) (replicate 19 0) (replicate 55 508) (replicate 684 508)
    = fp_vec_by_fp_matrix (rsdpg_128_balanced rotate1) (replicate 55 508) (replicate 684 508)"
  by (rule conjunct1 [OF fp_products_sve [where e = "replicate 55 127" and perm = rotate1]])
    (simp_all add: sizes_128 fz_ok_def fp_canon_def fp_mat_ok_def Z_def P_def balanced_128)

text \<open>
  C27. The two-way hash computes two independent hashes: for messages of one length that is not a
  multiple of 8 filling a rate or more, hash_par at level 2 writes the portable hash of each.
\<close>

theorem hash_par_two_hashes:
  assumes "p \<in> balanced_params perm" and "sve_ok V p" and "length m_1 = length m_2"
    and "length m_1 mod 8 \<noteq> 0 \<or> length m_1 < rate_bytes (xof_rate p)"
  shows "hash_par V p 2 digest_1 digest_2 m_1 m_2 dsc1 dsc2 = (hash p m_1 dsc1, hash p m_2 dsc2)"
proof -
  have d: "digest_x2 p" using sve_sizes_balanced [OF assms(1)] by (simp add: sve_sizes_def tree_x2_def)
  show ?thesis by (rule hash_par_2 [OF assms(2) d assms(3)]) (use assms(4) in \<open>auto simp: x2_len_def\<close>)
qed

theorem hash_par_two_hashes_witness:
  "let p = rsdpg_128_balanced rotate1; V = \<lparr>sve_lanes = 2, f1600x2 = f1600x2_of rotate1\<rparr>
    in hash_par V p 2 [] [] (replicate 201 1) (replicate 201 2) 3 4 = (hash p (replicate 201 1) 3, hash p (replicate 201 2) 4)"
  unfolding Let_def by (rule hash_par_two_hashes [OF balanced_128 sve_ok_128]) simp_all

section \<open>SHA-3 and SHAKE\<close>

text \<open>
  C28. The one-shot functions are the sponge of FIPS 202 over the permutation, with the padding suffix, rate
  and output length of each, for messages and outputs of every length.
\<close>

theorem sha3_one_shot_sponge:
  assumes "perm_ok perm"
  shows "SHA3_sha3_256 perm True m = Some (sponge perm SHA3_256_RATE 0x06 m 32)
    \<and> SHA3_sha3_384 perm True m = Some (sponge perm SHA3_384_RATE 0x06 m 48)
    \<and> SHA3_sha3_512 perm True m = Some (sponge perm SHA3_512_RATE 0x06 m 64)
    \<and> SHA3_shake128 perm True n m = Some (sponge perm SHAKE128_RATE 0x1F m n)
    \<and> SHA3_shake256 perm True n m = Some (sponge perm SHAKE256_RATE 0x1F m n)"
  using one_shot_sponge [OF assms] by simp

theorem sha3_one_shot_sponge_witness:
  "SHA3_shake256 rotate1 True 300 [1, 2] = Some (sponge rotate1 SHAKE256_RATE 0x1F [1, 2] 300)"
  using sha3_one_shot_sponge [OF perm_ok_rotate1] by blast

text \<open>
  C29. The incremental interface: absorbing a message in any number of pieces, of any lengths, gives the
  result of the one-shot function on the whole message, for each of the five functions.
\<close>

theorem sha3_incremental_one_shot:
  assumes "perm_ok perm"
  shows "map_option fst (SHA3_sha3_256_inc_finalize perm
      (fold (\<lambda>m s. SHA3_sha3_256_inc_absorb perm s m) ms (SHA3_sha3_256_inc_init True))) = SHA3_sha3_256 perm True (concat ms)
    \<and> map_option fst (SHA3_sha3_384_inc_finalize perm
      (fold (\<lambda>m s. SHA3_sha3_384_inc_absorb perm s m) ms (SHA3_sha3_384_inc_init True))) = SHA3_sha3_384 perm True (concat ms)
    \<and> map_option fst (SHA3_sha3_512_inc_finalize perm
      (fold (\<lambda>m s. SHA3_sha3_512_inc_absorb perm s m) ms (SHA3_sha3_512_inc_init True))) = SHA3_sha3_512 perm True (concat ms)
    \<and> map_option fst (SHA3_shake128_inc_squeeze perm n (SHA3_shake128_inc_finalize
      (fold (\<lambda>m s. SHA3_shake128_inc_absorb perm s m) ms (SHA3_shake128_inc_init True)))) = SHA3_shake128 perm True n (concat ms)
    \<and> map_option fst (SHA3_shake256_inc_squeeze perm n (SHA3_shake256_inc_finalize
      (fold (\<lambda>m s. SHA3_shake256_inc_absorb perm s m) ms (SHA3_shake256_inc_init True)))) = SHA3_shake256 perm True n (concat ms)"
  using incremental_sha3 [OF assms] incremental_shake [OF assms] by simp

theorem sha3_incremental_one_shot_witness:
  "map_option fst (SHA3_sha3_256_inc_finalize rotate1 (SHA3_sha3_256_inc_absorb rotate1
      (SHA3_sha3_256_inc_absorb rotate1 (SHA3_sha3_256_inc_init True) [1]) [2, 3])) = SHA3_sha3_256 rotate1 True [1, 2, 3]"
  using conjunct1 [OF sha3_incremental_one_shot [OF perm_ok_rotate1], of "[[1], [2, 3]]"] by simp

text \<open>
  C30. Squeezing m and then n bytes gives the m + n bytes that one call gives, and the same context, for
  every context within its invariant.
\<close>

theorem squeeze_in_parts:
  assumes "perm_ok perm" and "keccak_wf r s"
  shows "keccak_inc_squeeze perm r (m + n) s =
     (let (h, s) = keccak_inc_squeeze perm r m s; (h', s) = keccak_inc_squeeze perm r n s in (h @ h', s))"
  by (rule keccak_inc_squeeze_add [OF assms])

theorem squeeze_in_parts_witness:
  "keccak_inc_squeeze rotate1 SHAKE128_RATE (100 + 200) keccak_inc_reset =
     (let (h, s) = keccak_inc_squeeze rotate1 SHAKE128_RATE 100 keccak_inc_reset;
        (h', s) = keccak_inc_squeeze rotate1 SHAKE128_RATE 200 s in (h @ h', s))"
  by (rule squeeze_in_parts [OF perm_ok_rotate1 absorbing_wf [OF absorbing_reset]])

section \<open>BIKE\<close>

text \<open>
  C31. The multiplication of two padded elements returns on every level, in the portable build and in the SVE2
  build with vectors of 128 bits, and its result is the padded product modulo x^r - 1; on operands of three words,
  which no level has, the recursion of the SVE2 build never returns.
\<close>

theorem gf2x_mod_mul_returns:
  assumes "q \<in> set bike_levels" and "build_ok B" and "pad_ok q a" and "pad_ok q b" and "length c = R_PADDED_QWORDS q"
  shows "(\<exists>c'. gf2x_mod_mul B q c a b = Some c' \<and> pad_ok q c' \<and> qval c' = pmul (R_BITS q) (qval a) (qval b))
    \<and> karatzuba (Sve2 vl) c3 a3 b3 3 4 = None"
  using gf2x_mod_mul_correct [OF assms] karatzuba_sve_diverges by metis

theorem gf2x_mod_mul_returns_witness:
  "\<exists>c'. gf2x_mod_mul (Sve2 2) bike_l3 (pad_zero bike_l3) (pad_zero bike_l3) (pad_zero bike_l3) = Some c' \<and> pad_ok bike_l3 c'"
proof -
  have "bike_l3 \<in> set bike_levels" "build_ok (Sve2 2)" by (simp_all add: bike_levels_def build_ok_def)
  from gf2x_mod_mul_returns [OF this pad_zero_ok(1) pad_zero_ok(1) pad_okD(1) [OF pad_zero_ok(1)]] show ?thesis by blast
qed

text \<open>
  C32. The base multiplication of the SVE2 build multiplies two words by two words when vectors hold two lanes, and
  writes nothing else; with four lanes or more it loses the mixed products and adds the high product twice.
\<close>

theorem gf2x_mul_base_lanes:
  assumes "4 \<le> length c"
  shows "qval (take 4 (gf2x_mul_base_sve 2 c a b)) = clmul (qval [a ! 0, a ! 1]) (qval [b ! 0, b ! 1])
    \<and> drop 4 (gf2x_mul_base_sve 2 c a b) = drop 4 c
    \<and> qval (take 4 (gf2x_mul_base_sve (4 + n) c a b)) = clmul (unat (a ! 0)) (unat (b ! 0))
        XOR push_bit 64 (clmul (unat (a ! 1)) (unat (b ! 1))) XOR push_bit 128 (clmul (unat (a ! 1)) (unat (b ! 1)))"
  using gf2x_mul_base_sve_correct(1,2) [OF assms, of a b] gf2x_mul_base_sve_wide [OF _ assms, of "4 + n" a b] by simp

theorem gf2x_mul_base_lanes_witness:
  "qval (take 4 (gf2x_mul_base_sve 2 [0, 0, 0, 0] [3, 1] [5, 7])) = clmul (qval [3, 1]) (qval [5, 7])"
proof -
  have "4 \<le> length [0, 0, 0, 0 :: u64]" by simp
  from conjunct1 [OF gf2x_mul_base_lanes [OF this, of "[3, 1]" "[5, 7]"]] show ?thesis
    by (simp only: nth_Cons_0 One_nat_def nth_Cons_Suc)
qed

text \<open>
  C33. The inversion by repeated squaring, with its tables of exponents and its permutation of coefficients for the long
  squarings, returns the inverse of every invertible element, on every level, in the portable build and in the SVE2
  build with vectors of 128 bits.
\<close>

theorem gf2x_mod_inv_is_inverse:
  assumes "q \<in> set bike_levels" and "build_ok B" and "pad_ok q a" and "pad_ok q c" and "pmul (R_BITS q) (qval a) b = 1"
  shows "\<exists>c'. gf2x_mod_inv B q c a = Some c' \<and> pad_ok q c' \<and> pmul (R_BITS q) (qval a) (qval c') = 1"
proof -
  obtain c' where "gf2x_mod_inv B q c a = Some c'" "pad_ok q c'" "pmul (R_BITS q) (qval a) (qval c') = 1"
    by (rule gf2x_mod_inv_inverse [OF assms])
  then show ?thesis by blast
qed

theorem gf2x_mod_inv_is_inverse_witness:
  "\<exists>c'. gf2x_mod_inv Portable bike_l5 (pad_zero bike_l5) (set_pad_val (pad_zero bike_l5) (poly_bytes bike_l5 1)) = Some c'
    \<and> pmul (R_BITS bike_l5) 1 (qval c') = 1"
proof -
  have q: "bike_l5 \<in> set bike_levels" by (simp add: bike_levels_def)
  have one: "(1 :: nat) < 2 ^ R_BITS bike_l5" by (rule one_less_power) (simp_all add: bike_sizes_pos(1) [OF q])
  note a = set_pad_val_half [OF q poly_bytes_half_ok [OF q one]]
  have "pmul (R_BITS bike_l5) (qval (set_pad_val (pad_zero bike_l5) (poly_bytes bike_l5 1))) 1 = 1"
    unfolding a(2) by (rule pmul_1(1) [OF one])
  from gf2x_mod_inv_is_inverse [OF q _ a(1) pad_zero_ok(1) this, of Portable, unfolded a(2)] show ?thesis by (auto simp: build_ok_def)
qed

text \<open>
  C34. The rotation of the triplicated syndrome by any distance reads the polynomial cyclically, with the portable code and
  with vectors of any length: the two builds agree on every bit that the decoder uses.
\<close>

theorem rotate_right_cyclic:
  assumes "vl_pos B" and "q \<in> set bike_levels" and "periodic q x (3 * R_QWORDS q - 1) s" and "n < R_BITS q" and "k < 64 * R_QWORDS q"
  shows "(bit (qval (rotate_right B q s n)) k \<longleftrightarrow> bit x ((k + n) mod R_BITS q))
    \<and> (bit (qval (rotate_right B q s n)) k \<longleftrightarrow> bit (qval (rotate_right Portable q s n)) k)"
  using rotate_right_periodic(2) [OF assms] rotate_right_periodic(2) [OF _ assms(2-5), of Portable] by (simp add: vl_pos_def)

theorem rotate_right_cyclic_witness:
  "bit (qval (rotate_right (Sve2 7) bike_l1 (dup_port bike_l1 (replicate 579 5)) 12322)) 3
    \<longleftrightarrow> bit (qval (rotate_right Portable bike_l1 (dup_port bike_l1 (replicate 579 5)) 12322)) 3"
  by (rule conjunct2 [OF rotate_right_cyclic [OF _ _ dup_port_periodic]]) (simp_all add: vl_pos_def bike_levels_def bike_sizes)

text \<open>
  C35. The threshold computed with 64-bit multiplications and a shift is exactly the floor of the affine function of the
  weight of the syndrome, or the minimum, for every syndrome; it fits the byte it is returned in.
\<close>

theorem get_threshold_exact:
  assumes "q \<in> set bike_levels" and "R_BYTES q \<le> 8 * length s"
  shows "unat (get_threshold q s) = max (unat (THRESHOLD_MIN q))
      ((unat (THRESHOLD_COEFF0 q) + unat (THRESHOLD_COEFF1 q) * weight (R_BITS q) (qval s)) div 10 ^ 8)
    \<and> unat (get_threshold q s) < 183"
  using get_threshold_correct [OF assms] threshold_of_lt [OF assms(1) weight_le] by (simp add: threshold_of_def threshold_sum_def)

theorem get_threshold_exact_witness:
  "unat (get_threshold bike_l1 (replicate 193 0)) < 183"
  by (rule conjunct2 [OF get_threshold_exact]) (simp_all add: bike_levels_def bike_sizes)

text \<open>
  C36. The decoder with its rotated copies of the syndrome and its bit-sliced counters returns, in the portable build and
  in the SVE2 build with vectors of 128 bits and whatever uninitialised memory holds, the error that the Black-Gray-Flip decoder on polynomials computes.
\<close>

theorem decode_refines:
  assumes "build_ok B" and "q \<in> set bike_levels" and "length junk = R_PADDED_QWORDS q" and "half_fits q (ct_c0 ct)"
    and "half_fits q (sk_bin sk ! 0)" and "half_fits q (sk_pk sk)" and "wlist_ok q (sk_wlist sk)"
  shows "\<exists>e. decode B q junk ct sk = Some e \<and> list_all (half_fits q) e
    \<and> map bval e = bgf_decode q (bval (ct_c0 ct)) (bval (sk_bin sk ! 0)) (bval (sk_pk sk)) (map (map unat) (sk_wlist sk))"
proof -
  obtain e where "decode B q junk ct sk = Some e" "length e = 2" "list_all (half_fits q) e"
    "map bval e = bgf_decode q (bval (ct_c0 ct)) (bval (sk_bin sk ! 0)) (bval (sk_pk sk)) (map (map unat) (sk_wlist sk))"
    by (rule decode_correct [OF assms])
  then show ?thesis by blast
qed

theorem decode_refines_witness:
  "let z = replicate (R_BYTES bike_l1) 0; sk = \<lparr>sk_wlist = [replicate 71 3, replicate 71 5], sk_bin = [z, z], sk_pk = z, sk_sigma = z\<rparr>
    in \<exists>e. decode (Sve2 2) bike_l1 (pad_zero bike_l1) \<lparr>ct_c0 = z, ct_c1 = z\<rparr> sk = Some e
      \<and> map bval e = bgf_decode bike_l1 0 0 0 [replicate 71 3, replicate 71 5]"
proof -
  let ?z = "replicate (R_BYTES bike_l1) 0 :: bytes"
  have z: "half_fits bike_l1 ?z" by (simp add: half_fits_def)
  have w: "wlist_ok bike_l1 [replicate 71 3, replicate 71 5]" by (simp add: wlist_ok_def bike_l1_def)
  show ?thesis
    unfolding Let_def
    using decode_refines [of "Sve2 2" bike_l1 "pad_zero bike_l1" "\<lparr>ct_c0 = ?z, ct_c1 = ?z\<rparr>"
        "\<lparr>sk_wlist = [replicate 71 3, replicate 71 5], sk_bin = [?z, ?z], sk_pk = ?z, sk_sigma = ?z\<rparr>"] z w
    by (auto simp: build_ok_def bike_levels_def pad_zero_def)
qed

text \<open>
  C37. The sampling of n indices below M from a seed never runs out of pseudorandom bytes; the indices are those of the
  Fisher-Yates shuffle on the SHAKE256 stream of the seed, they are distinct and below M, and the state is ready for
  the next draw.
\<close>

theorem sample_indices_distinct:
  assumes "perm_ok perm" and "prf_at perm seed k s" and "k + n \<le> 2 ^ 32" and "n \<le> unat M" and "unat M < 2 ^ 31" and "length out = n"
  shows "\<exists>w s'. sample_indices_fisher_yates perm out n M s = Inr (w, s') \<and> map unat w = shake_indices perm seed k n (unat M)
    \<and> distinct w \<and> length w = n \<and> (\<forall>v\<in>set w. v < M) \<and> prf_at perm seed (k + n) s'"
proof -
  obtain w s' where w: "sample_indices_fisher_yates perm out n M s = Inr (w, s')" "map unat w = shake_indices perm seed k n (unat M)"
    "prf_at perm seed (k + n) s'" by (rule sample_indices_correct [OF assms])
  note ok = shake_indices_ok [OF assms(1,4), where seed = seed and k = k, folded w(2)]
  have "distinct w" "length w = n" using ok(1,2) by (simp_all add: distinct_map)
  moreover have "v < M" if "v \<in> set w" for v using ok(3) [of "unat v"] that by (simp add: word_less_nat_alt)
  ultimately show ?thesis using w by blast
qed

theorem sample_indices_distinct_witness:
  "\<exists>s w s'. init_prf_state rotate1 MAX_PRF_INVOCATION [1, 2, 3] = Inr s
    \<and> sample_indices_fisher_yates rotate1 (replicate 134 0) 134 24646 s = Inr (w, s') \<and> distinct w"
proof -
  obtain s where s: "init_prf_state rotate1 MAX_PRF_INVOCATION [1, 2, 3] = Inr s" "prf_at rotate1 [1, 2, 3] 0 s"
    by (rule init_prf_state_at [OF perm_ok_rotate1])
  from sample_indices_distinct [OF perm_ok_rotate1 s(2), of 134 24646 "replicate 134 0"] s(1) show ?thesis by auto
qed

text \<open>
  C38. Decapsulation, in the portable build or in the SVE2 build with vectors of 128 bits, of any ciphertext whose first part
  is a polynomial: it never fails, and the secret is derived from the
  decrypted message when that message determines the decoded error, and from the secret sigma of the key otherwise.
\<close>

theorem decaps_implicit_rejection:
  assumes "perm_ok perm" and "q \<in> set bike_levels" and "build_ok B" and "junk_ok q J" and "sk_wf q sk"
    and "half_fits q c0" and "length c1 = M_BYTES"
  shows "decaps B perm q J (c0 @ c1) (sk_bytes sk) = Some (Inr
    (let e = kem_dec q sk c0; m = kem_mask c1 (kem_L perm q e)
     in kem_K perm (if err_poly perm q m = e then m else sk_sigma sk) (c0, c1)))"
  using decaps_correct [OF assms(1-4), of "sk_bytes sk" "c0 @ c1"] assms(5-7) ct_round [of c0 q c1] sk_round(1) [OF assms(5)]
  by (simp add: half_fits_def fo_decaps_def)

definition junk_l1 :: bike_junk where
  "junk_l1 = \<lparr>jn_pad = pad_zero bike_l1, jn_e = [pad_zero bike_l1, pad_zero bike_l1], jn_wlist = replicate 134 7, jn_m = replicate 32 9\<rparr>"

definition zero_sk_l1 :: bike_sk_t where
  "zero_sk_l1 = (let z = replicate (R_BYTES bike_l1) 0
     in \<lparr>sk_wlist = [replicate 71 3, replicate 71 5], sk_bin = [z, z], sk_pk = z, sk_sigma = replicate 32 1\<rparr>)"

lemma junk_l1_ok: "junk_ok bike_l1 junk_l1"
  by (simp add: junk_ok_def junk_l1_def pad_zero_def M_BYTES_def bike_l1_def)

lemma zero_sk_l1_wf: "sk_wf bike_l1 zero_sk_l1"
  by (simp add: sk_wf_def zero_sk_l1_def Let_def wlist_ok_def half_fits_def M_BYTES_def) (simp add: bike_l1_def)

lemma bike_l1_level: "bike_l1 \<in> set bike_levels"
  by (simp add: bike_levels_def)

theorem decaps_implicit_rejection_witness:
  "\<exists>ss. decaps Portable rotate1 bike_l1 junk_l1 (replicate (R_BYTES bike_l1) 0 @ replicate 32 4) (sk_bytes zero_sk_l1) = Some (Inr ss)"
  by (rule exI, rule decaps_implicit_rejection [OF perm_ok_rotate1 bike_l1_level _ junk_l1_ok zero_sk_l1_wf])
    (simp_all add: build_ok_def half_fits_def M_BYTES_def)

text \<open>
  C39. Key generation, encapsulation and decapsulation, each in the portable build or in the SVE2 build with vectors of
  128 bits, return success for all random bytes; the
  key pair is the one of its seed, and both sides have the same secret whenever the decoder finds the error that the
  encapsulated message determines.
\<close>

theorem keypair_encaps_decaps:
  assumes "perm_ok perm" and "q \<in> set bike_levels" and "build_ok B" and "build_ok B'" and "build_ok B''"
    and "junk_ok q J" and "junk_ok q J'" and "length random = 64" and "length random' = 64"
  shows "\<exists>ws sk ct ss ss'. keypair B perm q random = Some (Inr (sk_pk sk, sk_bytes sk)) \<and> honest_sk perm q random ws sk
    \<and> encaps B' perm q J random' (sk_pk sk) = Some (Inr (ct, ss)) \<and> decaps B'' perm q J' ct (sk_bytes sk) = Some (Inr ss')
    \<and> (kem_dec q sk (take (R_BYTES q) ct) = err_poly perm q (take 32 random') \<longrightarrow> ss' = ss)"
proof -
  obtain ws sk ct ss ss' where r: "keypair B perm q random = Some (Inr (sk_pk sk, sk_bytes sk))" "honest_sk perm q random ws sk" "sk_wf q sk"
    "encaps B' perm q J random' (sk_pk sk) = Some (Inr (ct, ss))" "decaps B'' perm q J' ct (sk_bytes sk) = Some (Inr ss')"
    "length ct = R_BYTES q + M_BYTES" "length ss = SS_BYTES" "length ss' = SS_BYTES"
    "kem_dec q sk (take (R_BYTES q) ct) = err_poly perm q (take 32 random') \<longrightarrow> ss' = ss"
    by (rule kem_run [OF assms])
  show ?thesis
    by (rule exI [of _ ws], rule exI [of _ sk], rule exI [of _ ct], rule exI [of _ ss], rule exI [of _ ss']) (use r in simp)
qed

theorem keypair_encaps_decaps_witness:
  "\<exists>ws sk ct ss ss'. keypair Portable rotate1 bike_l1 (replicate 64 1) = Some (Inr (sk_pk sk, sk_bytes sk))
    \<and> honest_sk rotate1 bike_l1 (replicate 64 1) ws sk
    \<and> encaps (Sve2 2) rotate1 bike_l1 junk_l1 (replicate 64 2) (sk_pk sk) = Some (Inr (ct, ss))
    \<and> decaps Portable rotate1 bike_l1 junk_l1 ct (sk_bytes sk) = Some (Inr ss')
    \<and> (kem_dec bike_l1 sk (take (R_BYTES bike_l1) ct) = err_poly rotate1 bike_l1 (take 32 (replicate 64 2)) \<longrightarrow> ss' = ss)"
  by (rule keypair_encaps_decaps [OF perm_ok_rotate1 bike_l1_level _ _ _ junk_l1_ok junk_l1_ok]) (simp_all add: build_ok_def)

text \<open>
  C40. Every output of the three operations, reached through the object that the library hands out, has the length that
  the object announces, and the secret key is well formed: parsing its bytes gives the structure back, with indices in range,
  polynomials within their degree and the public key inside.
\<close>

theorem kem_object_lengths:
  assumes "perm_ok perm" and "build_ok B" and "junk_ok q J" and "length random = 64" and "length random' = 64"
    and "(q, kem) \<in> {(bike_l1, OQS_KEM_bike_l1_new B perm True), (bike_l3, OQS_KEM_bike_l3_new B perm True), (bike_l5, OQS_KEM_bike_l5_new B perm True)}"
  shows "\<exists>pk sk ct ss ss'. kem_keypair (the kem) random = Some (Inr (pk, sk)) \<and> kem_encaps (the kem) J random' pk = Some (Inr (ct, ss))
    \<and> kem_decaps (the kem) J ct sk = Some (Inr ss')
    \<and> length pk = length_public_key (the kem) \<and> length sk = length_secret_key (the kem) \<and> length ct = length_ciphertext (the kem)
    \<and> length ss = length_shared_secret (the kem) \<and> length ss' = length_shared_secret (the kem)
    \<and> sk_wf q (bike_sk_of_bytes q sk) \<and> sk_pk (bike_sk_of_bytes q sk) = pk"
proof -
  have q: "q \<in> set bike_levels" using assms(6) by (auto simp: bike_levels_def)
  obtain ws sk ct ss ss' where r: "keypair B perm q random = Some (Inr (sk_pk sk, sk_bytes sk))" "honest_sk perm q random ws sk" "sk_wf q sk"
    "encaps B perm q J random' (sk_pk sk) = Some (Inr (ct, ss))" "decaps B perm q J ct (sk_bytes sk) = Some (Inr ss')"
    "length ct = R_BYTES q + M_BYTES" "length ss = SS_BYTES" "length ss' = SS_BYTES"
    "kem_dec q sk (take (R_BYTES q) ct) = err_poly perm q (take 32 random') \<longrightarrow> ss' = ss"
    by (rule kem_run [OF assms(1) q assms(2,2,2,3,3,4,5)])
  have l: "length (sk_pk sk) = R_BYTES q" using r(3) by (simp add: sk_wf_def half_fits_def)
  note sk = sk_round [OF r(3)]
  have k: "kem_keypair (the kem) = keypair B perm q" "kem_encaps (the kem) = encaps B perm q" "kem_decaps (the kem) = decaps B perm q"
    "length_public_key (the kem) = R_BYTES q" "length_secret_key (the kem) = 8 * par_D q + 3 * R_BYTES q + M_BYTES"
    "length_ciphertext (the kem) = R_BYTES q + M_BYTES" "length_shared_secret (the kem) = SS_BYTES"
    using assms(6) by (auto simp: OQS_KEM_bike_l1_new_def OQS_KEM_bike_l3_new_def OQS_KEM_bike_l5_new_def bike_sizes M_BYTES_def SS_BYTES_def)
  show ?thesis
    by (rule exI [of _ "sk_pk sk"], rule exI [of _ "sk_bytes sk"], rule exI [of _ ct], rule exI [of _ ss], rule exI [of _ ss'])
      (use r(1,3-8) l sk k in simp)
qed

theorem kem_object_lengths_witness:
  "\<exists>pk sk. kem_keypair (the (OQS_KEM_bike_l1_new Portable rotate1 True)) (replicate 64 1) = Some (Inr (pk, sk)) \<and> length sk = 5223"
proof -
  have "build_ok Portable" by (simp add: build_ok_def)
  from kem_object_lengths [OF perm_ok_rotate1 this junk_l1_ok, of "replicate 64 1" "replicate 64 2" "OQS_KEM_bike_l1_new Portable rotate1 True"]
  show ?thesis by (auto simp: OQS_KEM_bike_l1_new_def)
qed

end
